(* ===== verification/Core_Ids.thy ===== *)
theory Core_Ids
  imports Prelude
begin

text \<open>
  The identity and publication vocabulary of \<open>crates/fcb-core/src/lib.rs\<close>: the shared error
  codes, owner-qualified identifiers and their allocator, the receiving authority for persisted
  ids, offset ranges, the publication token, the snapshot cell and the snapshot delta, and the
  UTF-16 / scalar boundary conversions used by the native text adapters.

  Correspondence: \<open>Result<T, CoreError>\<close> is \<open>core_error + 'a\<close>; the macro
  \<open>owner_qualified_id!\<close> generates one struct per id kind, which is here one datatype with a
  phantom kind; the offset newtypes of \<open>offset_domain!\<close> are natural numbers up to
  \<^const>\<open>u64_max\<close>; an \<open>&str\<close> is the list of its Unicode scalar values.
\<close>

section \<open>Errors and owners\<close>

datatype core_error =
    InvalidId | RangeReversed | ArithmeticOverflow | ArithmeticUnderflow | LimitExceeded
  | Exhausted | DuplicateId | OwnershipMismatch | NativeSentinel | InvalidUtf8Boundary
  | InvalidUtf16 | InvalidBidiBoundary | StalePublication | StaleRequestGeneration
  | StaleSourceRevision | StaleDisplayGeneration | NonFiniteGeometry | InvalidGeometry
  | StaleLayoutRevision | FocusTargetNotFound | RangePending | NodeNotFound

definition core_error_code :: "core_error \<Rightarrow> string" where
  "core_error_code e = (case e of
     InvalidId \<Rightarrow> ''INVALID_ID''
   | RangeReversed \<Rightarrow> ''RANGE_REVERSED''
   | ArithmeticOverflow \<Rightarrow> ''ARITHMETIC_OVERFLOW''
   | ArithmeticUnderflow \<Rightarrow> ''ARITHMETIC_UNDERFLOW''
   | LimitExceeded \<Rightarrow> ''LIMIT_EXCEEDED''
   | Exhausted \<Rightarrow> ''IDENTITY_EXHAUSTED''
   | DuplicateId \<Rightarrow> ''DUPLICATE_ID''
   | OwnershipMismatch \<Rightarrow> ''OWNERSHIP_MISMATCH''
   | NativeSentinel \<Rightarrow> ''NATIVE_SENTINEL''
   | InvalidUtf8Boundary \<Rightarrow> ''INVALID_UTF8_BOUNDARY''
   | InvalidUtf16 \<Rightarrow> ''INVALID_UTF16''
   | InvalidBidiBoundary \<Rightarrow> ''INVALID_BIDI_BOUNDARY''
   | StalePublication \<Rightarrow> ''STALE_PUBLICATION''
   | StaleRequestGeneration \<Rightarrow> ''STALE_REQUEST_GENERATION''
   | StaleSourceRevision \<Rightarrow> ''STALE_SOURCE_REVISION''
   | StaleDisplayGeneration \<Rightarrow> ''STALE_DISPLAY_GENERATION''
   | NonFiniteGeometry \<Rightarrow> ''NON_FINITE_GEOMETRY''
   | InvalidGeometry \<Rightarrow> ''INVALID_GEOMETRY''
   | StaleLayoutRevision \<Rightarrow> ''STALE_LAYOUT_REVISION''
   | FocusTargetNotFound \<Rightarrow> ''FOCUS_TARGET_NOT_FOUND''
   | RangePending \<Rightarrow> ''RANGE_PENDING''
   | NodeNotFound \<Rightarrow> ''NODE_NOT_FOUND'')"

datatype arena_owner_id = ArenaOwnerId (owner_raw: nat)

definition owner_new :: "nat \<Rightarrow> core_error + arena_owner_id" where
  "owner_new v = (if v = 0 then Inl InvalidId else Inr (ArenaOwnerId v))"

instantiation arena_owner_id :: linorder
begin

definition less_eq_arena_owner_id :: "arena_owner_id \<Rightarrow> arena_owner_id \<Rightarrow> bool" where
  "less_eq_arena_owner_id a b \<longleftrightarrow> owner_raw a \<le> owner_raw b"

definition less_arena_owner_id :: "arena_owner_id \<Rightarrow> arena_owner_id \<Rightarrow> bool" where
  "less_arena_owner_id a b \<longleftrightarrow> owner_raw a < owner_raw b"

instance
  by standard
    (auto simp: less_eq_arena_owner_id_def less_arena_owner_id_def arena_owner_id.expand)

end

section \<open>Owner-qualified identifiers\<close>

datatype 'k qid = QId (qid_owner: arena_owner_id) (qid_value: nat)

datatype file_tag = FileTag
datatype revision_tag = RevisionTag
datatype query_tag = QueryTag
datatype display_tag = DisplayTag
datatype layout_tag = LayoutTag
datatype node_tag = NodeTag
datatype frame_tag = FrameTag
datatype device_tag = DeviceTag
datatype device_gen_tag = DeviceGenTag
datatype clock_tag = ClockTag

type_synonym file_id = "file_tag qid"
type_synonym source_revision = "revision_tag qid"
type_synonym query_generation = "query_tag qid"
type_synonym display_generation = "display_tag qid"
type_synonym layout_revision = "layout_tag qid"
type_synonym semantic_node_id = "node_tag qid"
type_synonym presented_frame_id = "frame_tag qid"
type_synonym device_id = "device_tag qid"
type_synonym device_generation = "device_gen_tag qid"
type_synonym clock_domain_id = "clock_tag qid"

definition qid_new :: "arena_owner_id \<Rightarrow> nat \<Rightarrow> core_error + 'k qid" where
  "qid_new ow v = (if v = 0 then Inl InvalidId else Inr (QId ow v))"

definition qid_validate_for :: "'k qid \<Rightarrow> arena_owner_id \<Rightarrow> core_error + unit" where
  "qid_validate_for i ow =
     (if owner_raw (qid_owner i) = owner_raw ow then Inr () else Inl OwnershipMismatch)"

instantiation qid :: (type) linorder
begin

definition less_eq_qid :: "'k qid \<Rightarrow> 'k qid \<Rightarrow> bool" where
  "less_eq_qid a b \<longleftrightarrow>
     qid_owner a < qid_owner b \<or> qid_owner a = qid_owner b \<and> qid_value a \<le> qid_value b"

definition less_qid :: "'k qid \<Rightarrow> 'k qid \<Rightarrow> bool" where
  "less_qid a b \<longleftrightarrow>
     qid_owner a < qid_owner b \<or> qid_owner a = qid_owner b \<and> qid_value a < qid_value b"

instance
  by standard (auto simp: less_eq_qid_def less_qid_def intro: qid.expand)

end

lemma qid_new_Inr_iff [result_simps]: "qid_new ow v = Inr i \<longleftrightarrow> 0 < v \<and> i = QId ow v"
  by (auto simp: qid_new_def)

section \<open>Persisted id authority and id allocator\<close>

record id_authority =
  auth_owner :: arena_owner_id
  auth_accepted :: "file_id set"

definition authority_new :: "arena_owner_id \<Rightarrow> id_authority" where
  "authority_new ow = \<lparr>auth_owner = ow, auth_accepted = {}\<rparr>"

definition authority_accept ::
  "id_authority \<Rightarrow> file_id \<Rightarrow> (core_error + unit) \<times> id_authority" where
  "authority_accept a i =
     (if qid_owner i \<noteq> auth_owner a then (Inl OwnershipMismatch, a)
      else if i \<in> auth_accepted a then (Inl DuplicateId, a)
      else (Inr (), a\<lparr>auth_accepted := insert i (auth_accepted a)\<rparr>))"

record id_allocator =
  alloc_owner :: arena_owner_id
  alloc_next :: "nat option"

definition allocator_new :: "arena_owner_id \<Rightarrow> nat \<Rightarrow> core_error + id_allocator" where
  "allocator_new ow first =
     (if first = 0 then Inl InvalidId else Inr \<lparr>alloc_owner = ow, alloc_next = Some first\<rparr>)"

definition allocate :: "id_allocator \<Rightarrow> (core_error + 'k qid) \<times> id_allocator" where
  "allocate a = (case alloc_next a of
     None \<Rightarrow> (Inl Exhausted, a)
   | Some v \<Rightarrow> (qid_new (alloc_owner a) v, a\<lparr>alloc_next := checked_add v 1\<rparr>))"

definition allocate_into ::
  "id_allocator \<Rightarrow> id_authority \<Rightarrow> (core_error + file_id) \<times> id_allocator \<times> id_authority" where
  "allocate_into a auth =
     (if auth_owner auth \<noteq> alloc_owner a then (Inl OwnershipMismatch, a, auth)
      else case allocate a of
        (Inl e, a') \<Rightarrow> (Inl e, a', auth)
      | (Inr i, a') \<Rightarrow>
          (case authority_accept auth i of
             (Inl e, auth') \<Rightarrow> (Inl e, a', auth')
           | (Inr _, auth') \<Rightarrow> (Inr i, a', auth')))"

text \<open>A run of \<open>n\<close> allocations, collecting the values handed out in order.\<close>

fun allocate_run :: "nat \<Rightarrow> id_allocator \<Rightarrow> nat list \<times> id_allocator" where
  "allocate_run 0 a = ([], a)"
| "allocate_run (Suc n) a =
     (case (allocate a :: (core_error + file_id) \<times> id_allocator) of
        (Inl e, a') \<Rightarrow> allocate_run n a'
      | (Inr i, a') \<Rightarrow> (case allocate_run n a' of (vs, b) \<Rightarrow> (qid_value i # vs, b)))"

definition allocator_ok :: "id_allocator \<Rightarrow> bool" where
  "allocator_ok a \<longleftrightarrow> (case alloc_next a of None \<Rightarrow> True | Some v \<Rightarrow> 0 < v \<and> v \<le> u64_max)"

lemma allocate_run_exhausted:
  "alloc_next a = None \<Longrightarrow> allocate_run n a = ([], a)"
  by (induction n) (auto simp: allocate_def)

lemma allocate_run_from:
  "\<lbrakk>alloc_next a = Some v; 0 < v; v \<le> u64_max\<rbrakk> \<Longrightarrow>
     fst (allocate_run n a) = [v..<min (v + n) (Suc u64_max)]"
proof (induction n arbitrary: a v)
  case 0
  then show ?case by simp
next
  case (Suc n)
  let ?a' = "a\<lparr>alloc_next := checked_add v 1\<rparr>"
  have step: "fst (allocate_run (Suc n) a) = v # fst (allocate_run n ?a')"
    using Suc.prems by (simp add: allocate_def qid_new_def split: prod.split)
  have lt: "v < min (v + Suc n) (Suc u64_max)"
    using Suc.prems by simp
  show ?case
  proof (cases "v + 1 \<le> u64_max")
    case True
    then have "fst (allocate_run n ?a') = [v + 1..<min (v + 1 + n) (Suc u64_max)]"
      by (intro Suc.IH) (auto simp: checked_add_def)
    then show ?thesis
      unfolding step upt_conv_Cons [OF lt] by simp
  next
    case False
    then have "v = u64_max" and "alloc_next ?a' = None"
      using Suc.prems by (auto simp: checked_add_def)
    then show ?thesis
      unfolding step by (simp add: allocate_run_exhausted)
  qed
qed

text \<open>
  Ids an authority holds from one allocator lie below the allocator's next value. With that,
  the duplicate branch of \<open>allocate_into\<close> cannot be reached.
\<close>

definition authority_below :: "id_allocator \<Rightarrow> id_authority \<Rightarrow> bool" where
  "authority_below a auth \<longleftrightarrow> auth_owner auth = alloc_owner a \<and>
     (\<forall>i\<in>auth_accepted auth. qid_owner i = alloc_owner a \<and>
        (case alloc_next a of None \<Rightarrow> qid_value i \<le> u64_max | Some v \<Rightarrow> qid_value i < v))"

lemma allocate_into_fresh:
  assumes "allocator_ok a" and "authority_below a auth"
  shows "case allocate_into a auth of (r, a', auth') \<Rightarrow>
     allocator_ok a' \<and> authority_below a' auth' \<and>
     (case alloc_next a of
        None \<Rightarrow> r = Inl Exhausted \<and> a' = a \<and> auth' = auth
      | Some v \<Rightarrow> r = Inr (QId (alloc_owner a) v) \<and> QId (alloc_owner a) v \<notin> auth_accepted auth \<and>
          auth_accepted auth' = insert (QId (alloc_owner a) v) (auth_accepted auth))"
proof (cases "alloc_next a")
  case None
  with assms show ?thesis by (simp add: allocate_into_def authority_below_def allocate_def)
next
  case (Some v)
  with assms have v: "0 < v" "v \<le> u64_max" by (auto simp: allocator_ok_def)
  have fresh: "QId (alloc_owner a) v \<notin> auth_accepted auth"
    using assms Some by (fastforce simp: authority_below_def)
  let ?a' = "a\<lparr>alloc_next := checked_add v 1\<rparr>"
  let ?auth' = "auth\<lparr>auth_accepted := insert (QId (alloc_owner a) v) (auth_accepted auth)\<rparr>"
  have res: "allocate_into a auth = (Inr (QId (alloc_owner a) v), ?a', ?auth')"
    using assms Some v fresh
    by (simp add: allocate_into_def allocate_def qid_new_def authority_accept_def authority_below_def)
  have "allocator_ok ?a'"
    using v by (auto simp: allocator_ok_def checked_add_def split: option.splits)
  moreover have "authority_below ?a' ?auth'"
    using assms Some v
    by (auto simp: authority_below_def checked_add_def split: option.splits)
  ultimately show ?thesis using Some fresh by (simp add: res)
qed

section \<open>Offsets, ranges and limits\<close>

definition offset_checked_add :: "nat \<Rightarrow> nat \<Rightarrow> core_error + nat" where
  "offset_checked_add off amount = ok_or ArithmeticOverflow (checked_add off amount)"

definition offset_checked_sub :: "nat \<Rightarrow> nat \<Rightarrow> core_error + nat" where
  "offset_checked_sub off amount = ok_or ArithmeticUnderflow (checked_sub off amount)"

definition native_not_found :: nat where
  "native_not_found = u64_max"

definition utf16_from_native :: "nat \<Rightarrow> core_error + nat" where
  "utf16_from_native v = (if v = native_not_found then Inl NativeSentinel else Inr v)"

datatype 'o offset_range = OffsetRange (range_start: 'o) (range_end: 'o)

type_synonym byte_range = "nat offset_range"

definition range_new :: "'o::linorder \<Rightarrow> 'o \<Rightarrow> core_error + 'o offset_range" where
  "range_new s e = (if s > e then Inl RangeReversed else Inr (OffsetRange s e))"

definition range_is_empty :: "'o offset_range \<Rightarrow> bool" where
  "range_is_empty r \<longleftrightarrow> range_start r = range_end r"

definition range_checked_within ::
  "'o::linorder offset_range \<Rightarrow> 'o \<Rightarrow> core_error + 'o offset_range" where
  "range_checked_within r limit = (if range_end r > limit then Inl LimitExceeded else Inr r)"

definition range_len :: "nat offset_range \<Rightarrow> nat" where
  "range_len r = range_end r - range_start r"

definition range_ok :: "'o::linorder offset_range \<Rightarrow> bool" where
  "range_ok r \<longleftrightarrow> range_start r \<le> range_end r"

lemma range_new_Inr_iff [result_simps]:
  "range_new s e = Inr r \<longleftrightarrow> s \<le> e \<and> r = OffsetRange s e"
  by (auto simp: range_new_def)

lemma range_new_ok: "range_new s e = Inr r \<Longrightarrow> range_ok r"
  by (simp add: result_simps range_ok_def)

section \<open>Publication context, token and snapshot cell\<close>

record publication_context =
  ctx_owner :: arena_owner_id
  ctx_request :: query_generation
  ctx_source :: source_revision
  ctx_display :: display_generation

definition context_new :: "arena_owner_id \<Rightarrow> query_generation \<Rightarrow> source_revision \<Rightarrow>
    display_generation \<Rightarrow> core_error + publication_context" where
  "context_new ow request src display =
     (if qid_owner request \<noteq> ow \<or> qid_owner src \<noteq> ow \<or> qid_owner display \<noteq> ow
      then Inl OwnershipMismatch
      else Inr \<lparr>ctx_owner = ow, ctx_request = request, ctx_source = src, ctx_display = display\<rparr>)"

datatype publication_token = PublicationToken (token_context: publication_context)

definition token_validate_against ::
  "publication_token \<Rightarrow> publication_context \<Rightarrow> core_error + unit" where
  "token_validate_against t current =
     (if ctx_owner (token_context t) \<noteq> ctx_owner current then Inl OwnershipMismatch
      else if ctx_request (token_context t) \<noteq> ctx_request current then Inl StaleRequestGeneration
      else if ctx_source (token_context t) \<noteq> ctx_source current then Inl StaleSourceRevision
      else if ctx_display (token_context t) \<noteq> ctx_display current then Inl StaleDisplayGeneration
      else Inr ())"

record 'a immutable_snapshot =
  snap_owner :: arena_owner_id
  snap_revision :: source_revision
  snap_value :: 'a

definition snapshot_new ::
  "arena_owner_id \<Rightarrow> source_revision \<Rightarrow> 'a \<Rightarrow> core_error + 'a immutable_snapshot" where
  "snapshot_new ow rv v =
     (if qid_owner rv \<noteq> ow then Inl OwnershipMismatch
      else Inr \<lparr>snap_owner = ow, snap_revision = rv, snap_value = v\<rparr>)"

record 'a snapshot_cell =
  cell_owner :: arena_owner_id
  cell_head :: "'a immutable_snapshot option"

definition cell_new :: "arena_owner_id \<Rightarrow> 'a snapshot_cell" where
  "cell_new ow = \<lparr>cell_owner = ow, cell_head = None\<rparr>"

definition cell_publish ::
  "'a snapshot_cell \<Rightarrow> 'a immutable_snapshot \<Rightarrow> (core_error + unit) \<times> 'a snapshot_cell" where
  "cell_publish c snap =
     (if snap_owner snap \<noteq> cell_owner c then (Inl OwnershipMismatch, c)
      else if (case cell_head c of None \<Rightarrow> False
               | Some cur \<Rightarrow> qid_value (snap_revision snap) \<le> qid_value (snap_revision cur))
      then (Inl StalePublication, c)
      else (Inr (), c\<lparr>cell_head := Some snap\<rparr>))"

definition cell_publish_if_current ::
  "'a snapshot_cell \<Rightarrow> publication_token \<Rightarrow> publication_context \<Rightarrow> 'a immutable_snapshot \<Rightarrow>
    (core_error + unit) \<times> 'a snapshot_cell" where
  "cell_publish_if_current c t current snap =
     (case token_validate_against t current of
        Inl e \<Rightarrow> (Inl e, c)
      | Inr _ \<Rightarrow>
          if snap_revision snap \<noteq> ctx_source (token_context t) then (Inl StaleSourceRevision, c)
          else cell_publish c snap)"

text \<open>
  A sequence of publications through a cell: the snapshots that were accepted, in order.
\<close>

fun cell_run ::
  "'a snapshot_cell \<Rightarrow> 'a immutable_snapshot list \<Rightarrow> 'a immutable_snapshot list \<times> 'a snapshot_cell"
where
  "cell_run c [] = ([], c)"
| "cell_run c (s # ss) = (case cell_publish c s of
      (Inl _, c') \<Rightarrow> cell_run c' ss
    | (Inr _, c') \<Rightarrow> (case cell_run c' ss of (acc, c'') \<Rightarrow> (s # acc, c'')))"

definition cell_rev :: "'a snapshot_cell \<Rightarrow> nat" where
  "cell_rev c = (case cell_head c of None \<Rightarrow> 0 | Some s \<Rightarrow> qid_value (snap_revision s))"

lemma cell_publish_err: "cell_publish c s = (Inl e, c') \<Longrightarrow> c' = c"
  by (auto simp: cell_publish_def split: if_splits)

lemma cell_publish_ok:
  "cell_publish c s = (Inr u, c') \<Longrightarrow>
     c' = c\<lparr>cell_head := Some s\<rparr> \<and> snap_owner s = cell_owner c \<and>
     (cell_head c = None \<or> cell_rev c < qid_value (snap_revision s))"
  by (auto simp: cell_publish_def cell_rev_def split: if_splits option.splits)

lemma cell_run_sorted:
  "cell_run c ss = (acc, c') \<Longrightarrow>
     sorted_wrt (<) (map (qid_value \<circ> snap_revision) acc) \<and>
     (cell_head c \<noteq> None \<longrightarrow> (\<forall>s\<in>set acc. cell_rev c < qid_value (snap_revision s))) \<and>
     set acc \<subseteq> set ss \<and>
     cell_head c' = (if acc = [] then cell_head c else Some (last acc))"
proof (induction ss arbitrary: c acc)
  case Nil
  then show ?case by simp
next
  case (Cons s ss)
  obtain r c1 where pub: "cell_publish c s = (r, c1)" by fastforce
  show ?case
  proof (cases r)
    case (Inl e)
    with pub have "c1 = c" by (simp add: cell_publish_err)
    with Cons.prems pub Inl have "cell_run c ss = (acc, c')" by simp
    then show ?thesis using Cons.IH by fastforce
  next
    case (Inr u)
    with pub have c1: "c1 = c\<lparr>cell_head := Some s\<rparr>"
      and rev: "cell_head c = None \<or> cell_rev c < qid_value (snap_revision s)"
      by (auto dest: cell_publish_ok)
    from Cons.prems pub Inr obtain acc' where run: "cell_run c1 ss = (acc', c')"
      and acc: "acc = s # acc'" by (auto split: prod.splits)
    have "cell_rev c1 = qid_value (snap_revision s)" "cell_head c1 = Some s"
      by (simp_all add: c1 cell_rev_def)
    with Cons.IH [OF run] show ?thesis using rev by (fastforce simp: acc)
  qed
qed

section \<open>Bounded snapshot delta\<close>

record 'a snapshot_delta =
  delta_owner :: arena_owner_id
  delta_base :: source_revision
  delta_target :: source_revision
  delta_max_items :: nat
  delta_items :: "'a list"
  delta_count :: nat

definition delta_new :: "arena_owner_id \<Rightarrow> source_revision \<Rightarrow> source_revision \<Rightarrow> nat \<Rightarrow>
    core_error + 'a snapshot_delta" where
  "delta_new ow base target max_items =
     (if qid_owner base \<noteq> ow \<or> qid_owner target \<noteq> ow then Inl OwnershipMismatch
      else if qid_value target \<le> qid_value base then Inl StalePublication
      else if max_items = 0 then Inl LimitExceeded
      else Inr \<lparr>delta_owner = ow, delta_base = base, delta_target = target,
                delta_max_items = max_items, delta_items = [], delta_count = 0\<rparr>)"

definition delta_push ::
  "'a snapshot_delta \<Rightarrow> 'a \<Rightarrow> (core_error + unit) \<times> 'a snapshot_delta" where
  "delta_push d x =
     (if delta_count d \<ge> delta_max_items d then (Inl LimitExceeded, d)
      else let d' = d\<lparr>delta_items := delta_items d @ [x]\<rparr> in
        case checked_add (delta_count d) 1 of
          None \<Rightarrow> (Inl ArithmeticOverflow, d')
        | Some n \<Rightarrow> (Inr (), d'\<lparr>delta_count := n\<rparr>))"

section \<open>Range evidence ring\<close>

datatype range_evidence_kind =
  NativeUtf16 | Utf8Boundary | Utf16Boundary | BidiBoundaryKind | SemanticNodeKind

record range_evidence_event =
  evidence_kind :: range_evidence_kind
  evidence_outcome :: "core_error + unit"

record range_evidence_ring =
  evring_capacity :: nat
  evring_events :: "range_evidence_event list"
  evring_accepted :: nat
  evring_rejected :: nat

definition evring_new :: "nat \<Rightarrow> range_evidence_ring" where
  "evring_new cap = \<lparr>evring_capacity = cap, evring_events = [], evring_accepted = 0,
     evring_rejected = 0\<rparr>"

definition evring_record :: "range_evidence_ring \<Rightarrow> range_evidence_event \<Rightarrow> range_evidence_ring" where
  "evring_record r e =
     (let r1 = (if is_ok (evidence_outcome e)
                then r\<lparr>evring_accepted := saturating_add (evring_accepted r) 1\<rparr>
                else r\<lparr>evring_rejected := saturating_add (evring_rejected r) 1\<rparr>);
          r2 = (if evring_capacity r1 \<noteq> 0 \<and> length (evring_events r1) = evring_capacity r1
                then r1\<lparr>evring_events := tl (evring_events r1)\<rparr> else r1)
      in if evring_capacity r2 \<noteq> 0 then r2\<lparr>evring_events := evring_events r2 @ [e]\<rparr> else r2)"

lemma evring_record_bound:
  "length (evring_events r) \<le> evring_capacity r \<Longrightarrow>
     length (evring_events (evring_record r e)) \<le> evring_capacity (evring_record r e)"
  by (auto simp: evring_record_def Let_def)

section \<open>Properties\<close>

text \<open>
  An allocator started at \<open>first\<close> hands out exactly the consecutive values from \<open>first\<close> up
  to \<open>u64::MAX\<close>, in order, without repetition or wrap-around, and then stays exhausted.
\<close>

theorem allocator_consecutive:
  assumes "allocator_new ow first = Inr a" and "first \<le> u64_max"
  shows "fst (allocate_run n a) = [first..<min (first + n) (Suc u64_max)]"
  using assms by (intro allocate_run_from) (auto simp: allocator_new_def split: if_splits)

theorem allocator_consecutive_witness:
  "fst (allocate_run 3 \<lparr>alloc_owner = ArenaOwnerId 7, alloc_next = Some (u64_max - 1)\<rparr>)
     = [u64_max - 1..<Suc u64_max]"
proof -
  have new: "allocator_new (ArenaOwnerId 7) (u64_max - 1)
      = Inr \<lparr>alloc_owner = ArenaOwnerId 7, alloc_next = Some (u64_max - 1)\<rparr>"
    by (simp add: allocator_new_def u64_max_def)
  show ?thesis
    using allocator_consecutive [OF new, of 3] by (simp add: u64_max_def)
qed

text \<open>A run of \<open>n\<close> allocations into an authority, with every result.\<close>

fun allocate_into_run ::
  "nat \<Rightarrow> id_allocator \<Rightarrow> id_authority \<Rightarrow> (core_error + file_id) list \<times> id_authority" where
  "allocate_into_run 0 a auth = ([], auth)"
| "allocate_into_run (Suc n) a auth = (case allocate_into a auth of (r, a', auth') \<Rightarrow>
     (case allocate_into_run n a' auth' of (rs, auth'') \<Rightarrow> (r # rs, auth'')))"

lemma allocate_into_run_ids:
  "\<lbrakk>allocator_ok a; authority_below a auth; allocate_into_run n a auth = (rs, auth')\<rbrakk> \<Longrightarrow>
     set rs \<subseteq> insert (Inl Exhausted) (range Inr) \<and>
     distinct (concat (map (case_sum (\<lambda>_. []) (\<lambda>i. [i])) rs)) \<and>
     (\<forall>i. Inr i \<in> set rs \<longrightarrow> i \<notin> auth_accepted auth) \<and>
     auth_accepted auth' = auth_accepted auth \<union> {i. Inr i \<in> set rs}"
proof (induction n arbitrary: a auth rs)
  case 0
  then show ?case by simp
next
  case (Suc n)
  obtain r a1 auth1 where step: "allocate_into a auth = (r, a1, auth1)"
    by (metis prod_cases3)
  with Suc.prems(3) obtain rs1 where run: "allocate_into_run n a1 auth1 = (rs1, auth')"
    and rs: "rs = r # rs1" by (auto split: prod.splits)
  have fresh: "allocator_ok a1" "authority_below a1 auth1"
    "case alloc_next a of
        None \<Rightarrow> r = Inl Exhausted \<and> a1 = a \<and> auth1 = auth
      | Some v \<Rightarrow> r = Inr (QId (alloc_owner a) v) \<and> QId (alloc_owner a) v \<notin> auth_accepted auth \<and>
          auth_accepted auth1 = insert (QId (alloc_owner a) v) (auth_accepted auth)"
    using allocate_into_fresh [OF Suc.prems(1,2)] by (simp_all add: step)
  note IH = Suc.IH [OF fresh(1,2) run]
  have ids: "x \<in> set (concat (map (case_sum (\<lambda>_. []) (\<lambda>i. [i])) rs1)) \<longleftrightarrow> Inr x \<in> set rs1"
    for x by (force split: sum.splits)
  show ?case
  proof (cases "alloc_next a")
    case None
    with fresh IH show ?thesis by (auto simp: rs)
  next
    case (Some v)
    with fresh have r: "r = Inr (QId (alloc_owner a) v)"
      "QId (alloc_owner a) v \<notin> auth_accepted auth"
      "auth_accepted auth1 = insert (QId (alloc_owner a) v) (auth_accepted auth)" by simp_all
    with IH show ?thesis unfolding rs using ids by auto
  qed
qed

text \<open>
  Ids minted through \<open>allocate_into\<close> into a fresh authority of the same owner never hit the
  duplicate branch: every call returns a new id or reports exhaustion, no id is returned twice,
  and the authority holds exactly the returned ids.
\<close>

theorem allocate_into_never_duplicates:
  assumes "allocator_new ow first = Inr a" and "first \<le> u64_max"
    and "allocate_into_run n a (authority_new ow) = (rs, auth)"
  shows "set rs \<subseteq> insert (Inl Exhausted) (range Inr) \<and>
     distinct (concat (map (case_sum (\<lambda>_. []) (\<lambda>i. [i])) rs)) \<and>
     auth_accepted auth = {i. Inr i \<in> set rs}"
proof -
  have "allocator_ok a" "authority_below a (authority_new ow)"
    using assms(1,2)
    by (auto simp: allocator_new_def allocator_ok_def authority_below_def authority_new_def
        split: if_splits)
  from allocate_into_run_ids [OF this assms(3)] show ?thesis
    by (simp add: authority_new_def)
qed

theorem allocate_into_never_duplicates_witness:
  "set [Inr (QId (ArenaOwnerId 1) u64_max), Inl Exhausted]
      \<subseteq> insert (Inl Exhausted) (range Inr :: (core_error + file_id) set)"
proof -
  let ?a = "\<lparr>alloc_owner = ArenaOwnerId 1, alloc_next = Some u64_max\<rparr>"
  have new: "allocator_new (ArenaOwnerId 1) u64_max = Inr ?a"
    by (simp add: allocator_new_def)
  have run: "allocate_into_run 2 ?a (authority_new (ArenaOwnerId 1))
      = ([Inr (QId (ArenaOwnerId 1) u64_max), Inl Exhausted],
         \<lparr>auth_owner = ArenaOwnerId 1, auth_accepted = {QId (ArenaOwnerId 1) u64_max}\<rparr>)"
    by (simp add: numeral_2_eq_2 allocate_into_def allocate_def qid_new_def checked_add_def
        authority_accept_def authority_new_def)
  from allocate_into_never_duplicates [OF new order_refl run] show ?thesis by blast
qed

text \<open>
  Whatever snapshots are offered to a cell in whatever order, the accepted ones have strictly
  increasing revisions, the head is the last accepted one, and a refused publication leaves the
  cell as it was.
\<close>

theorem snapshot_cell_monotone:
  assumes "cell_run (cell_new ow) ss = (acc, c)"
  shows "sorted_wrt (<) (map (qid_value \<circ> snap_revision) acc) \<and> set acc \<subseteq> set ss \<and>
    cell_head c = (if acc = [] then None else Some (last acc))"
  using cell_run_sorted [OF assms] by (simp add: cell_new_def)

theorem snapshot_cell_monotone_witness:
  "sorted_wrt (<) (map (qid_value \<circ> snap_revision)
     [\<lparr>snap_owner = ArenaOwnerId 1, snap_revision = QId (ArenaOwnerId 1) 2, snap_value = ()\<rparr>])"
proof -
  let ?s = "\<lambda>n. \<lparr>snap_owner = ArenaOwnerId 1, snap_revision = QId (ArenaOwnerId 1) n,
    snap_value = ()\<rparr>"
  have "cell_run (cell_new (ArenaOwnerId 1)) [?s 2, ?s 1]
      = ([?s 2], \<lparr>cell_owner = ArenaOwnerId 1, cell_head = Some (?s 2)\<rparr>)"
    by (simp add: cell_new_def cell_publish_def)
  from snapshot_cell_monotone [OF this] show ?thesis by simp
qed

text \<open>
  A guarded publication succeeds exactly when the token matches the current context in every
  dimension, the snapshot is the one the token was issued for, and its revision is newer than the
  head; then the snapshot becomes the head, and in every other case the cell is unchanged.
\<close>

theorem publish_if_current_exact:
  "cell_publish_if_current c t current snap =
     (r, c') \<Longrightarrow>
   (r = Inr () \<longleftrightarrow>
      ctx_owner (token_context t) = ctx_owner current \<and>
      ctx_request (token_context t) = ctx_request current \<and>
      ctx_source (token_context t) = ctx_source current \<and>
      ctx_display (token_context t) = ctx_display current \<and>
      snap_revision snap = ctx_source (token_context t) \<and> snap_owner snap = cell_owner c \<and>
      (cell_head c = None \<or> cell_rev c < qid_value (snap_revision snap))) \<and>
   c' = (if r = Inr () then c\<lparr>cell_head := Some snap\<rparr> else c)"
  by (auto simp: cell_publish_if_current_def token_validate_against_def cell_publish_def
      cell_rev_def split: if_splits option.splits)

theorem publish_if_current_exact_witness:
  "fst (cell_publish_if_current
     \<lparr>cell_owner = ArenaOwnerId 1, cell_head = None\<rparr>
     (PublicationToken \<lparr>ctx_owner = ArenaOwnerId 1, ctx_request = QId (ArenaOwnerId 1) 1,
        ctx_source = QId (ArenaOwnerId 1) 2, ctx_display = QId (ArenaOwnerId 1) 3\<rparr>)
     \<lparr>ctx_owner = ArenaOwnerId 1, ctx_request = QId (ArenaOwnerId 1) 1,
        ctx_source = QId (ArenaOwnerId 1) 2, ctx_display = QId (ArenaOwnerId 1) 3\<rparr>
     \<lparr>snap_owner = ArenaOwnerId 1, snap_revision = QId (ArenaOwnerId 1) 2, snap_value = True\<rparr>)
   = Inr ()"
  (is "fst (cell_publish_if_current ?c ?t ?x ?s) = _")
  using publish_if_current_exact
    [of ?c ?t ?x ?s "fst (cell_publish_if_current ?c ?t ?x ?s)"
      "snd (cell_publish_if_current ?c ?t ?x ?s)"]
  by simp

end
