(* ===== verification/Text_Boundaries.thy ===== *)
theory Text_Boundaries
  imports Core_Ids
begin

text \<open>
  Boundary conversions between the offset domains of one text: the scalar / UTF-16 conversions
  of \<open>fcb-core/src/lib.rs\<close> (\<open>scalar_to_utf16_boundary\<close>, \<open>utf16_to_scalar_boundary\<close>,
  \<open>decoded_utf8_to_byte_boundary\<close>) and the surrogate check of
  \<open>fcb-core/src/pending_range.rs\<close> (\<open>PendingTextRangeResolver::check_surrogate_boundary\<close>,
  \<open>validate_offset\<close>). A text is the list of its Unicode scalar values, as \<open>str::chars\<close>
  yields them; \<open>len_utf16\<close> and \<open>len_utf8\<close> are the standard library's.
\<close>

type_synonym uchar = nat

definition is_scalar :: "uchar \<Rightarrow> bool" where
  "is_scalar c \<longleftrightarrow> c < 0x110000 \<and> \<not> (0xD800 \<le> c \<and> c \<le> 0xDFFF)"

definition len_utf16 :: "uchar \<Rightarrow> nat" where
  "len_utf16 c = (if c < 0x10000 then 1 else 2)"

definition len_utf8 :: "uchar \<Rightarrow> nat" where
  "len_utf8 c = (if c < 0x80 then 1 else if c < 0x800 then 2 else if c < 0x10000 then 3 else 4)"

lemma len_utf16_pos [simp]: "0 < len_utf16 c" and len_utf16_le: "len_utf16 c \<le> 2"
  by (simp_all add: len_utf16_def)

lemma len_utf16_nonzero [simp]: "len_utf16 c \<noteq> 0"
  by (simp add: len_utf16_def)

lemma len_utf8_pos [simp]: "0 < len_utf8 c"
  by (simp add: len_utf8_def)

section \<open>The loops of the source\<close>

fun s2u_loop :: "uchar list \<Rightarrow> nat \<Rightarrow> nat \<Rightarrow> nat \<Rightarrow> core_error + nat" where
  "s2u_loop [] target idx units = (if idx = target then Inr units else Inl LimitExceeded)"
| "s2u_loop (c # cs) target idx units =
     (if idx = target then Inr units
      else case checked_add idx 1 of
        None \<Rightarrow> Inl ArithmeticOverflow
      | Some idx' \<Rightarrow> (case checked_add units (len_utf16 c) of
          None \<Rightarrow> Inl ArithmeticOverflow
        | Some units' \<Rightarrow> s2u_loop cs target idx' units'))"

definition scalar_to_utf16_boundary :: "uchar list \<Rightarrow> nat \<Rightarrow> core_error + nat" where
  "scalar_to_utf16_boundary str scalar = s2u_loop str scalar 0 0"

fun u2s_loop :: "uchar list \<Rightarrow> nat \<Rightarrow> nat \<Rightarrow> nat \<Rightarrow> core_error + nat" where
  "u2s_loop [] target idx units = (if units = target then Inr idx else Inl LimitExceeded)"
| "u2s_loop (c # cs) target idx units =
     (if units = target then Inr idx
      else case checked_add units (len_utf16 c) of
        None \<Rightarrow> Inl ArithmeticOverflow
      | Some next_units \<Rightarrow>
          if target < next_units then Inl InvalidUtf16
          else case checked_add idx 1 of
            None \<Rightarrow> Inl ArithmeticOverflow
          | Some idx' \<Rightarrow> u2s_loop cs target idx' next_units)"

definition utf16_to_scalar_boundary :: "uchar list \<Rightarrow> nat \<Rightarrow> core_error + nat" where
  "utf16_to_scalar_boundary str off = u2s_loop str off 0 0"

fun surrogate_loop :: "uchar list \<Rightarrow> nat \<Rightarrow> nat \<Rightarrow> core_error + unit" where
  "surrogate_loop [] target units = (if units = target then Inr () else Inl LimitExceeded)"
| "surrogate_loop (c # cs) target units =
     (if units = target then Inr ()
      else case checked_add units (len_utf16 c) of
        None \<Rightarrow> Inl ArithmeticOverflow
      | Some next_units \<Rightarrow>
          if target > units \<and> target < next_units then Inl InvalidUtf16
          else surrogate_loop cs target next_units)"

definition check_surrogate_boundary :: "uchar list \<Rightarrow> nat \<Rightarrow> core_error + unit" where
  "check_surrogate_boundary str off =
     (if off = native_not_found then Inl NativeSentinel else surrogate_loop str off 0)"

definition validate_offset :: "nat \<Rightarrow> nat \<Rightarrow> core_error + unit" where
  "validate_offset off max_units =
     (if off = native_not_found then Inl NativeSentinel
      else if off > max_units then Inl LimitExceeded else Inr ())"

text \<open>Character boundaries of the UTF-8 form of a text: \<open>str::is_char_boundary\<close>.\<close>

definition utf8_upto :: "uchar list \<Rightarrow> nat \<Rightarrow> nat" where
  "utf8_upto str n = sum_list (map len_utf8 (take n str))"

definition is_char_boundary :: "uchar list \<Rightarrow> nat \<Rightarrow> bool" where
  "is_char_boundary str off \<longleftrightarrow> off \<in> set (map (utf8_upto str) [0..<Suc (length str)])"

definition decoded_utf8_to_byte_boundary :: "uchar list \<Rightarrow> nat \<Rightarrow> core_error + nat" where
  "decoded_utf8_to_byte_boundary str off =
     (if off > utf8_upto str (length str) then Inl LimitExceeded
      else if \<not> is_char_boundary str off then Inl InvalidUtf8Boundary
      else Inr off)"

section \<open>What the loops compute\<close>

text \<open>UTF-16 code units before scalar \<open>n\<close>.\<close>

definition units_upto :: "uchar list \<Rightarrow> nat \<Rightarrow> nat" where
  "units_upto str n = sum_list (map len_utf16 (take n str))"

text \<open>A Rust string is at most \<open>isize::MAX\<close> bytes long, so its unit count fits in \<open>u64\<close>.\<close>

definition text_fits :: "uchar list \<Rightarrow> bool" where
  "text_fits str \<longleftrightarrow> units_upto str (length str) \<le> u64_max"

lemma units_upto_0 [simp]: "units_upto str 0 = 0"
  by (simp add: units_upto_def)

lemma units_upto_Nil [simp]: "units_upto [] n = 0"
  by (simp add: units_upto_def)

lemma units_upto_Cons [simp]: "units_upto (c # cs) (Suc n) = len_utf16 c + units_upto cs n"
  by (simp add: units_upto_def)

lemma length_le_units: "length str \<le> units_upto str (length str)"
proof (induction str)
  case (Cons c cs)
  then show ?case using len_utf16_pos [of c] by (simp del: len_utf16_pos)
qed simp

lemma s2u_loop_iff:
  "\<lbrakk>units + units_upto str (length str) \<le> u64_max; idx + length str \<le> u64_max\<rbrakk> \<Longrightarrow>
     s2u_loop str target idx units = Inr r \<longleftrightarrow>
       idx \<le> target \<and> target \<le> idx + length str \<and> r = units + units_upto str (target - idx)"
proof (induction str target idx units rule: s2u_loop.induct)
  case (2 c cs target idx units)
  show ?case
  proof (cases "idx = target")
    case False
    have "s2u_loop (c # cs) target idx units
        = s2u_loop cs target (idx + 1) (units + len_utf16 c)"
      using False "2.prems" by (simp add: checked_add_def)
    moreover have "units_upto (c # cs) (target - idx)
        = len_utf16 c + units_upto cs (target - (idx + 1))" if "idx < target"
      using that by (metis Suc_diff_Suc Suc_eq_plus1 units_upto_Cons)
    ultimately show ?thesis
      using False "2.IH" [of "idx + 1" "units + len_utf16 c"] "2.prems"
      by (auto simp: checked_add_def)
  qed auto
qed auto

lemma u2s_loop_iff:
  "\<lbrakk>units + units_upto str (length str) \<le> u64_max; idx + length str \<le> u64_max;
    units \<le> target\<rbrakk> \<Longrightarrow>
     u2s_loop str target idx units = Inr r \<longleftrightarrow>
       (\<exists>k\<le>length str. r = idx + k \<and> target = units + units_upto str k)"
proof (induction str target idx units rule: u2s_loop.induct)
  case (1 target idx units)
  then show ?case by auto
next
  case (2 c cs target idx units)
  let ?P = "\<lambda>k. r = idx + k \<and> target = units + units_upto (c # cs) k"
  have split: "(\<exists>k\<le>length (c # cs). ?P k) \<longleftrightarrow> ?P 0 \<or> (\<exists>k\<le>length cs. ?P (Suc k))"
    by (simp add: ex_le_Suc_iff)
  consider (here) "units = target" | (inside) "units < target" "target < units + len_utf16 c"
    | (after) "units + len_utf16 c \<le> target" "units \<noteq> target"
    using "2.prems" by linarith
  then show ?case
  proof cases
    case here
    then show ?thesis unfolding split by auto
  next
    case inside
    then show ?thesis unfolding split using "2.prems" by (simp add: checked_add_def)
  next
    case after
    have "u2s_loop (c # cs) target idx units
        = u2s_loop cs target (idx + 1) (units + len_utf16 c)"
      using after "2.prems" by (simp add: checked_add_def)
    moreover have "u2s_loop cs target (idx + 1) (units + len_utf16 c) = Inr r \<longleftrightarrow>
        (\<exists>k\<le>length cs. r = idx + 1 + k \<and> target = units + len_utf16 c + units_upto cs k)"
      using after "2.prems" by (intro "2.IH") (auto simp: checked_add_def)
    ultimately show ?thesis
      unfolding split using after by (auto simp: add.assoc)
  qed
qed

lemma surrogate_loop_iff:
  "\<lbrakk>units + units_upto str (length str) \<le> u64_max; idx + length str \<le> u64_max;
    units \<le> target\<rbrakk> \<Longrightarrow>
     surrogate_loop str target units = Inr () \<longleftrightarrow> is_ok (u2s_loop str target idx units)"
proof (induction str arbitrary: units idx)
  case (Cons c cs)
  consider (here) "units = target" | (inside) "units < target" "target < units + len_utf16 c"
    | (after) "units + len_utf16 c \<le> target" "units \<noteq> target"
    using Cons.prems by linarith
  then show ?case
    using Cons.prems Cons.IH [of "units + len_utf16 c" "idx + 1"]
    by cases (simp_all add: checked_add_def)
qed auto

lemma scalar_to_utf16_iff:
  assumes "text_fits str"
  shows "scalar_to_utf16_boundary str s = Inr u \<longleftrightarrow>
    s \<le> length str \<and> u = units_upto str s"
  using assms length_le_units [of str]
  by (simp add: scalar_to_utf16_boundary_def text_fits_def s2u_loop_iff)

lemma utf16_to_scalar_iff:
  assumes "text_fits str"
  shows "utf16_to_scalar_boundary str u = Inr s \<longleftrightarrow>
    s \<le> length str \<and> u = units_upto str s"
  using assms length_le_units [of str]
  by (auto simp: utf16_to_scalar_boundary_def text_fits_def u2s_loop_iff)

section \<open>Properties\<close>

text \<open>
  Scalar and UTF-16 boundary conversion are inverse to each other on every text: an offset
  converts to a scalar index exactly when that index converts back to the offset.
\<close>

theorem utf16_scalar_roundtrip:
  assumes "text_fits str"
  shows "utf16_to_scalar_boundary str u = Inr s \<longleftrightarrow> scalar_to_utf16_boundary str s = Inr u"
  using assms by (simp add: scalar_to_utf16_iff utf16_to_scalar_iff)

theorem utf16_scalar_roundtrip_witness:
  "utf16_to_scalar_boundary [65, 0x1F980, 66] 3 = Inr 2
    \<longleftrightarrow> scalar_to_utf16_boundary [65, 0x1F980, 66] 2 = Inr 3"
  by (rule utf16_scalar_roundtrip)
    (simp add: text_fits_def units_upto_def len_utf16_def u64_max_def)

text \<open>
  The surrogate check of the native range resolver accepts an offset exactly when the offset
  converts to a scalar index, so a range that passes both checks never splits a surrogate pair.
\<close>

theorem surrogate_check_iff_convertible:
  assumes "text_fits str" and "off \<noteq> native_not_found"
  shows "check_surrogate_boundary str off = Inr () \<longleftrightarrow>
    is_ok (utf16_to_scalar_boundary str off)"
proof -
  have "surrogate_loop str off 0 = Inr () \<longleftrightarrow> is_ok (u2s_loop str off 0 0)"
    using assms(1) length_le_units [of str]
    by (intro surrogate_loop_iff) (simp_all add: text_fits_def)
  then show ?thesis
    using assms(2) by (simp add: check_surrogate_boundary_def utf16_to_scalar_boundary_def)
qed

theorem surrogate_check_iff_convertible_witness:
  "check_surrogate_boundary [65, 0x1F980] 2 = Inr ()
    \<longleftrightarrow> is_ok (utf16_to_scalar_boundary [65, 0x1F980] 2)"
  by (rule surrogate_check_iff_convertible)
    (simp_all add: text_fits_def units_upto_def len_utf16_def u64_max_def native_not_found_def)

end
