(* ===== verification/Handles.thy ===== *)
theory Handles
  imports Core_Ids
begin

text \<open>
  \<open>crates/fcb-core/src/handles.rs\<close>: generational slot tables and the owner-qualified handle
  tables over them.

  Correspondence: \<open>SlotTable<T>\<close> is the record \<open>slot_table\<close>; its \<open>free_slots\<close> vector, used as a
  stack, is a list with the top at the head. \<open>lookup_mut\<close>, which lends the value for writing, is
  \<open>slot_lookup_mut\<close> with the write as an argument. \<open>ArenaTable\<close> and \<open>DeviceTable\<close> add the owner,
  domain and device checks in the order of the code. The process-wide counter
  \<open>NEXT_TABLE_DOMAIN\<close> is an explicit state of \<open>domain_allocate\<close>, whose compare-and-swap loop
  is the atomic step it retries to make.

  The locale \<open>handle_table\<close> states what a client of either table relies on; it is interpreted on
  the slot table and on both handle tables.
\<close>

section \<open>Limits and table domains\<close>

record handle_limits =
  lim_max_slots :: nat
  lim_max_generation :: nat

definition limits_new :: "nat \<Rightarrow> nat \<Rightarrow> core_error + handle_limits" where
  "limits_new max_slots max_generation =
     (if max_slots = 0 \<or> max_generation = 0 then Inl InvalidId
      else Inr \<lparr>lim_max_slots = max_slots, lim_max_generation = max_generation\<rparr>)"

definition limits_default :: handle_limits where
  "limits_default = \<lparr>lim_max_slots = u64_max, lim_max_generation = u64_max\<rparr>"

definition domain_new :: "nat \<Rightarrow> core_error + nat" where
  "domain_new v = (if v = 0 then Inl InvalidId else Inr v)"

definition domain_allocate :: "nat \<Rightarrow> (core_error + nat) \<times> nat" where
  "domain_allocate current =
     (if current = 0 then (Inl Exhausted, current)
      else (Inr current, case checked_add current 1 of None \<Rightarrow> 0 | Some next \<Rightarrow> next))"

section \<open>The slot table\<close>

datatype 'a slot_state = Occupied nat 'a | Vacant nat | Retired

record 'a slot_table =
  st_limits :: handle_limits
  st_slots :: "'a slot_state list"
  st_free :: "nat list"
  st_live :: nat

definition slot_new :: "handle_limits \<Rightarrow> 'a slot_table" where
  "slot_new l = \<lparr>st_limits = l, st_slots = [], st_free = [], st_live = 0\<rparr>"

definition slot_pick :: "'a slot_table \<Rightarrow> (core_error + nat \<times> nat) \<times> 'a slot_table" where
  "slot_pick t = (case st_free t of
     slot # rest \<Rightarrow>
       let t1 = t\<lparr>st_free := rest\<rparr> in
       if slot > usize_max then (Inl Exhausted, t1)
       else if slot \<ge> length (st_slots t1) then (Inl Exhausted, t1)
       else (case st_slots t1 ! slot of
           Vacant g \<Rightarrow> (case checked_add g 1 of
               None \<Rightarrow> (Inl Exhausted, t1)
             | Some g' \<Rightarrow> if g' > lim_max_generation (st_limits t1) then (Inl Exhausted, t1)
                         else (Inr (slot, g'), t1))
         | _ \<Rightarrow> (Inl Exhausted, t1))
   | [] \<Rightarrow>
       if length (st_slots t) \<ge> lim_max_slots (st_limits t) then (Inl Exhausted, t)
       else (Inr (length (st_slots t), 1), t\<lparr>st_slots := st_slots t @ [Vacant 0]\<rparr>))"

definition slot_insert ::
  "'a slot_table \<Rightarrow> 'a \<Rightarrow> (core_error + nat \<times> nat) \<times> 'a slot_table" where
  "slot_insert t v = (case slot_pick t of
     (Inl e, t1) \<Rightarrow> (Inl e, t1)
   | (Inr (slot, g), t1) \<Rightarrow>
       let t2 = t1\<lparr>st_slots := (st_slots t1)[slot := Occupied g v]\<rparr> in
       (case checked_add (st_live t2) 1 of
          None \<Rightarrow> (Inl Exhausted, t2)
        | Some n \<Rightarrow> (Inr (slot, g), t2\<lparr>st_live := n\<rparr>)))"

definition slot_at :: "'a slot_table \<Rightarrow> nat \<Rightarrow> core_error + 'a slot_state" where
  "slot_at t slot =
     (if slot > usize_max then Inl InvalidId
      else if slot < length (st_slots t) then Inr (st_slots t ! slot) else Inl StalePublication)"

definition slot_lookup :: "'a slot_table \<Rightarrow> nat \<Rightarrow> nat \<Rightarrow> core_error + 'a" where
  "slot_lookup t slot g =
     (if g = 0 then Inl InvalidId
      else case slot_at t slot of
        Inl e \<Rightarrow> Inl e
      | Inr (Occupied current v) \<Rightarrow> if current = g then Inr v else Inl StalePublication
      | Inr _ \<Rightarrow> Inl StalePublication)"

definition slot_lookup_mut ::
  "'a slot_table \<Rightarrow> nat \<Rightarrow> nat \<Rightarrow> ('a \<Rightarrow> 'a) \<Rightarrow> (core_error + unit) \<times> 'a slot_table" where
  "slot_lookup_mut t slot g f =
     (if g = 0 then (Inl InvalidId, t)
      else case slot_at t slot of
        Inl e \<Rightarrow> (Inl e, t)
      | Inr (Occupied current v) \<Rightarrow>
          if current = g then (Inr (), t\<lparr>st_slots := (st_slots t)[slot := Occupied current (f v)]\<rparr>)
          else (Inl StalePublication, t)
      | Inr _ \<Rightarrow> (Inl StalePublication, t))"

text \<open>
  \<open>live_count -= 1\<close> is reached on an occupied slot only; \<open>slot_ok\<close> below implies the count is
  positive there, so the subtraction cannot underflow.
\<close>

definition slot_remove :: "'a slot_table \<Rightarrow> nat \<Rightarrow> nat \<Rightarrow> (core_error + 'a) \<times> 'a slot_table" where
  "slot_remove t slot g =
     (if g = 0 then (Inl InvalidId, t)
      else case slot_at t slot of
        Inl e \<Rightarrow> (Inl e, t)
      | Inr (Occupied current v) \<Rightarrow>
          if current = g then
            (let t1 = (case checked_add g 1 of
                 Some next \<Rightarrow>
                   if next \<le> lim_max_generation (st_limits t)
                   then t\<lparr>st_slots := (st_slots t)[slot := Vacant g], st_free := slot # st_free t\<rparr>
                   else t\<lparr>st_slots := (st_slots t)[slot := Retired]\<rparr>
               | None \<Rightarrow> t\<lparr>st_slots := (st_slots t)[slot := Retired]\<rparr>)
             in (Inr v, t1\<lparr>st_live := st_live t1 - 1\<rparr>))
          else (Inl StalePublication, t)
      | Inr _ \<Rightarrow> (Inl StalePublication, t))"

definition slot_len :: "'a slot_table \<Rightarrow> nat" where
  "slot_len t = st_live t"

section \<open>Invariant of the slot table\<close>

fun is_occupied :: "'a slot_state \<Rightarrow> bool" where
  "is_occupied (Occupied _ _) = True"
| "is_occupied _ = False"

fun is_vacant :: "'a slot_state \<Rightarrow> bool" where
  "is_vacant (Vacant _) = True"
| "is_vacant _ = False"

definition slot_state_ok :: "nat \<Rightarrow> 'a slot_state \<Rightarrow> bool" where
  "slot_state_ok m s = (case s of
     Occupied g _ \<Rightarrow> 0 < g \<and> g \<le> m | Vacant g \<Rightarrow> 0 < g \<and> g < m | Retired \<Rightarrow> True)"

definition slot_ok :: "'a slot_table \<Rightarrow> bool" where
  "slot_ok t \<longleftrightarrow>
     0 < lim_max_slots (st_limits t) \<and> lim_max_slots (st_limits t) \<le> u64_max \<and>
     0 < lim_max_generation (st_limits t) \<and> lim_max_generation (st_limits t) \<le> u64_max \<and>
     length (st_slots t) \<le> lim_max_slots (st_limits t) \<and>
     (\<forall>s\<in>set (st_slots t). slot_state_ok (lim_max_generation (st_limits t)) s) \<and>
     distinct (st_free t) \<and>
     (\<forall>i. i \<in> set (st_free t) \<longleftrightarrow> i < length (st_slots t) \<and> is_vacant (st_slots t ! i)) \<and>
     st_live t = length (filter is_occupied (st_slots t))"

text \<open>
  The high-water generation of a slot: every generation up to it has been handed out, and none
  above it.
\<close>

definition slot_high :: "'a slot_table \<Rightarrow> nat \<Rightarrow> nat" where
  "slot_high t slot =
     (if slot < length (st_slots t) then
        (case st_slots t ! slot of Occupied g _ \<Rightarrow> g | Vacant g \<Rightarrow> g | Retired \<Rightarrow> u64_max)
      else 0)"

lemma slot_ok_new: "limits_new s g = Inr l \<Longrightarrow> s \<le> u64_max \<Longrightarrow> g \<le> u64_max \<Longrightarrow> slot_ok (slot_new l)"
  by (auto simp: slot_ok_def slot_new_def limits_new_def split: if_splits)

lemma filter_update_length:
  "i < length xs \<Longrightarrow>
     length (filter P (xs[i := y])) + (if P (xs ! i) then 1 else 0)
       = length (filter P xs) + (if P y then 1 else 0)"
proof (induction xs arbitrary: i)
  case (Cons x xs)
  then show ?case by (cases i) auto
qed simp

lemma ball_list_update:
  "\<forall>x\<in>set xs. P x \<Longrightarrow> P y \<Longrightarrow> \<forall>x\<in>set (xs[i := y]). P x"
  using set_update_subset_insert [of xs i y] by auto

lemma slot_ok_bounds:
  assumes "slot_ok t"
  shows "length (st_slots t) \<le> u64_max" "lim_max_generation (st_limits t) \<le> u64_max"
    "st_live t \<le> length (st_slots t)"
  using assms by (auto simp: slot_ok_def)

lemma slot_ok_nth:
  "slot_ok t \<Longrightarrow> i < length (st_slots t) \<Longrightarrow>
     slot_state_ok (lim_max_generation (st_limits t)) (st_slots t ! i)"
  by (simp add: slot_ok_def)

lemma slot_lookup_Inr_iff [result_simps]:
  "slot_ok t \<Longrightarrow> slot_lookup t slot g = Inr v \<longleftrightarrow>
     0 < g \<and> slot < length (st_slots t) \<and> st_slots t ! slot = Occupied g v"
  by (auto simp: slot_lookup_def slot_at_def slot_ok_def usize_max_def
      split: sum.splits slot_state.splits if_splits)

lemma slot_lookup_used: "slot_ok t \<Longrightarrow> slot_lookup t slot g = Inr v \<Longrightarrow> g \<le> slot_high t slot"
  by (auto simp: result_simps slot_high_def)

text \<open>The outcome of an insertion, by cases on the free stack.\<close>

lemma slot_insert_reuse:
  assumes ok: "slot_ok t" and free: "st_free t = slot # rest"
  obtains g where "st_slots t ! slot = Vacant g" "slot < length (st_slots t)" "0 < g"
    "g < lim_max_generation (st_limits t)"
    "slot_insert t v = (Inr (slot, Suc g),
       t\<lparr>st_free := rest, st_slots := (st_slots t)[slot := Occupied (Suc g) v],
         st_live := Suc (st_live t)\<rparr>)"
proof -
  have len: "slot < length (st_slots t)" and vac: "is_vacant (st_slots t ! slot)"
    using ok free unfolding slot_ok_def by (metis list.set_intros(1))+
  from vac obtain g where g: "st_slots t ! slot = Vacant g"
    by (cases "st_slots t ! slot") auto
  have g_ok: "0 < g" "g < lim_max_generation (st_limits t)"
    using slot_ok_nth [OF ok len] by (auto simp: g slot_state_ok_def)
  have "length (filter is_occupied (st_slots t)) < length (st_slots t)"
    using nth_mem [OF len] by (intro length_filter_less [of "st_slots t ! slot"]) (auto simp: g)
  then have "st_live t < length (st_slots t)"
    using ok by (simp add: slot_ok_def)
  then have "slot_insert t v = (Inr (slot, Suc g),
       t\<lparr>st_free := rest, st_slots := (st_slots t)[slot := Occupied (Suc g) v],
         st_live := Suc (st_live t)\<rparr>)"
    using free g len g_ok slot_ok_bounds [OF ok]
    by (simp add: slot_insert_def slot_pick_def Let_def usize_max_def checked_add_def)
  with g len g_ok show ?thesis using that by blast
qed

lemma slot_insert_push:
  assumes ok: "slot_ok t" and free: "st_free t = []"
    and room: "length (st_slots t) < lim_max_slots (st_limits t)"
  shows "slot_insert t v = (Inr (length (st_slots t), 1),
     t\<lparr>st_slots := st_slots t @ [Occupied 1 v], st_live := Suc (st_live t)\<rparr>)"
proof -
  have "st_live t \<le> length (st_slots t)" "lim_max_slots (st_limits t) \<le> u64_max"
    using ok by (auto simp: slot_ok_def)
  then show ?thesis
    using free room by (simp add: slot_insert_def slot_pick_def Let_def checked_add_def)
qed

lemma slot_insert_full:
  assumes "slot_ok t" "st_free t = []" "lim_max_slots (st_limits t) \<le> length (st_slots t)"
  shows "slot_insert t v = (Inl Exhausted, t)"
  using assms by (simp add: slot_insert_def slot_pick_def)

lemma slot_insert_ok: "slot_ok t \<Longrightarrow> slot_ok (snd (slot_insert t v))"
proof (cases "st_free t")
  case Nil
  assume ok: "slot_ok t"
  show ?thesis
  proof (cases "length (st_slots t) < lim_max_slots (st_limits t)")
    case True
    have "\<not> (i < length (st_slots t) \<and> is_vacant (st_slots t ! i))" for i
      using ok Nil by (auto simp: slot_ok_def)
    then have "\<not> (i < Suc (length (st_slots t)) \<and> is_vacant ((st_slots t @ [Occupied 1 v]) ! i))"
      for i by (auto simp: nth_append less_Suc_eq)
    with ok Nil True show ?thesis
      by (simp add: slot_insert_push slot_ok_def slot_state_ok_def)
  next
    case False
    with ok Nil show ?thesis by (simp add: slot_insert_full)
  qed
next
  case (Cons slot rest)
  assume ok: "slot_ok t"
  from ok Cons obtain g where g: "st_slots t ! slot = Vacant g" "slot < length (st_slots t)"
    "0 < g" "g < lim_max_generation (st_limits t)"
    and ins: "slot_insert t v = (Inr (slot, Suc g),
       t\<lparr>st_free := rest, st_slots := (st_slots t)[slot := Occupied (Suc g) v],
         st_live := Suc (st_live t)\<rparr>)" by (rule slot_insert_reuse)
  let ?new = "(st_slots t)[slot := Occupied (Suc g) v]"
  have free: "\<forall>i. i \<in> set (slot # rest) \<longleftrightarrow> i < length (st_slots t) \<and> is_vacant (st_slots t ! i)"
    "slot \<notin> set rest" "distinct rest"
    using ok Cons by (auto simp: slot_ok_def)
  have "\<forall>i. i \<in> set rest \<longleftrightarrow> i < length ?new \<and> is_vacant (?new ! i)"
  proof
    fix i
    show "i \<in> set rest \<longleftrightarrow> i < length ?new \<and> is_vacant (?new ! i)"
      using free spec [OF free(1), of i] g(2) by (cases "i = slot") auto
  qed
  moreover have "Suc (st_live t) = length (filter is_occupied ?new)"
    using filter_update_length [OF g(2), of is_occupied "Occupied (Suc g) v"] g(1) ok
    by (simp add: slot_ok_def)
  moreover have "\<forall>s\<in>set ?new. slot_state_ok (lim_max_generation (st_limits t)) s"
    using ok g(4) by (intro ball_list_update) (auto simp: slot_ok_def slot_state_ok_def)
  ultimately show ?thesis
    using ok free(3) by (simp add: ins slot_ok_def)
qed

text \<open>The outcome of a removal: an error leaves the table alone, a success empties the slot.\<close>

lemma slot_remove_err: "slot_remove t slot g = (Inl e, t') \<Longrightarrow> t' = t"
  by (auto simp: slot_remove_def Let_def split: if_splits sum.splits slot_state.splits)

lemma slot_remove_success:
  assumes ok: "slot_ok t" and rem: "slot_remove t slot g = (Inr v, t')"
  shows "slot_lookup t slot g = Inr v"
    and "t' = (if g < lim_max_generation (st_limits t)
       then t\<lparr>st_slots := (st_slots t)[slot := Vacant g], st_free := slot # st_free t,
              st_live := st_live t - 1\<rparr>
       else t\<lparr>st_slots := (st_slots t)[slot := Retired], st_live := st_live t - 1\<rparr>)"
proof -
  show look: "slot_lookup t slot g = Inr v"
    using rem by (auto simp: slot_remove_def slot_lookup_def Let_def
        split: if_splits sum.splits slot_state.splits)
  then have at: "slot_at t slot = Inr (Occupied g v)" and g: "0 < g"
    using ok by (auto simp: result_simps slot_at_def slot_ok_def usize_max_def)
  show "t' = (if g < lim_max_generation (st_limits t)
       then t\<lparr>st_slots := (st_slots t)[slot := Vacant g], st_free := slot # st_free t,
              st_live := st_live t - 1\<rparr>
       else t\<lparr>st_slots := (st_slots t)[slot := Retired], st_live := st_live t - 1\<rparr>)"
    using rem g slot_ok_bounds(2) [OF ok]
    by (auto simp: slot_remove_def at checked_add_def Let_def)
qed

lemma slot_remove_live:
  "slot_ok t \<Longrightarrow> slot_lookup t slot g = Inr v \<Longrightarrow> \<exists>t'. slot_remove t slot g = (Inr v, t')"
  by (auto simp: slot_remove_def slot_lookup_def Let_def
      split: if_splits sum.splits slot_state.splits)

lemma slot_remove_ok: "slot_ok t \<Longrightarrow> slot_ok (snd (slot_remove t slot g))"
proof (cases "slot_remove t slot g")
  case (Pair r t')
  assume ok: "slot_ok t"
  show ?thesis
  proof (cases r)
    case (Inl e)
    with Pair ok show ?thesis by (auto dest: slot_remove_err)
  next
    case (Inr v)
    note rem = slot_remove_success [OF ok Pair [unfolded Inr]]
    then have len: "slot < length (st_slots t)" and occ: "st_slots t ! slot = Occupied g v"
      and g: "0 < g"
      using ok by (auto simp: result_simps)
    define y where "y = (if g < lim_max_generation (st_limits t) then Vacant g else Retired
      :: 'a slot_state)"
    let ?new = "(st_slots t)[slot := y]"
    have t': "st_slots t' = ?new" "st_limits t' = st_limits t" "st_live t' = st_live t - 1"
      "st_free t' = (if is_vacant y then slot # st_free t else st_free t)"
      by (simp_all add: rem(2) y_def)
    have free: "\<forall>i. i \<in> set (st_free t) \<longleftrightarrow> i < length (st_slots t) \<and> is_vacant (st_slots t ! i)"
      using ok by (simp add: slot_ok_def)
    have "i \<in> set (st_free t') \<longleftrightarrow> i < length ?new \<and> is_vacant (?new ! i)" for i
      using spec [OF free, of i] len occ unfolding t' by (cases "i = slot") auto
    moreover have "distinct (st_free t')"
      using ok spec [OF free, of slot] occ by (auto simp: t' slot_ok_def)
    moreover have "st_live t' = length (filter is_occupied ?new)"
      using filter_update_length [OF len, of is_occupied y] occ ok
      by (auto simp: t' slot_ok_def y_def)
    moreover have "\<forall>s\<in>set ?new. slot_state_ok (lim_max_generation (st_limits t)) s"
      using ok g by (intro ball_list_update) (auto simp: slot_ok_def slot_state_ok_def y_def)
    ultimately show ?thesis
      using ok unfolding Pair by (simp add: slot_ok_def t')
  qed
qed

lemma slot_lookup_mut_ok: "slot_ok t \<Longrightarrow> slot_ok (snd (slot_lookup_mut t slot g f))"
proof (cases "slot_lookup t slot g")
  case (Inl e)
  assume "slot_ok t"
  with Inl show ?thesis
    by (auto simp: slot_lookup_mut_def slot_lookup_def split: if_splits sum.splits slot_state.splits)
next
  case (Inr v)
  assume ok: "slot_ok t"
  with Inr have g: "0 < g" "slot < length (st_slots t)" "st_slots t ! slot = Occupied g v"
    by (auto simp: result_simps)
  let ?new = "(st_slots t)[slot := Occupied g (f v)]"
  have "snd (slot_lookup_mut t slot g f) = t\<lparr>st_slots := ?new\<rparr>"
    using g slot_ok_bounds(1) [OF ok]
    by (simp add: slot_lookup_mut_def slot_at_def usize_max_def)
  moreover have "is_vacant (?new ! i) \<longleftrightarrow> is_vacant (st_slots t ! i)" for i
    using g by (cases "i = slot") auto
  moreover have "length (filter is_occupied ?new) = length (filter is_occupied (st_slots t))"
    using filter_update_length [OF g(2), of is_occupied "Occupied g (f v)"] g(3) by simp
  moreover have "\<forall>s\<in>set ?new. slot_state_ok (lim_max_generation (st_limits t)) s"
    using ok slot_ok_nth [OF ok g(2)] g
    by (intro ball_list_update) (auto simp: slot_ok_def slot_state_ok_def)
  ultimately show ?thesis using ok by (simp add: slot_ok_def)
qed

section \<open>The interface of a handle table\<close>

datatype ('v, 'h) table_op = Ins 'v | Rem 'h | Upd 'h "'v \<Rightarrow> 'v"

text \<open>A run of operations on a table, whichever of them succeed.\<close>

fun table_run ::
  "('t \<Rightarrow> 'v \<Rightarrow> ('e + 'h) \<times> 't) \<Rightarrow> ('t \<Rightarrow> 'h \<Rightarrow> ('e + 'v) \<times> 't) \<Rightarrow>
   ('t \<Rightarrow> 'h \<Rightarrow> ('v \<Rightarrow> 'v) \<Rightarrow> ('e + unit) \<times> 't) \<Rightarrow> ('v, 'h) table_op list \<Rightarrow> 't \<Rightarrow> 't" where
  "table_run ins rem upd [] t = t"
| "table_run ins rem upd (Ins v # ops) t = table_run ins rem upd ops (snd (ins t v))"
| "table_run ins rem upd (Rem h # ops) t = table_run ins rem upd ops (snd (rem t h))"
| "table_run ins rem upd (Upd h f # ops) t = table_run ins rem upd ops (snd (upd t h f))"

text \<open>
  What a client of a handle table relies on. \<open>used\<close> marks the handles that have ever been handed
  out; a handle stays used after its removal, and an insertion never returns a used one.
\<close>

locale handle_table =
  fixes ins :: "'t \<Rightarrow> 'v \<Rightarrow> ('e + 'h) \<times> 't"
    and look :: "'t \<Rightarrow> 'h \<Rightarrow> 'e + 'v"
    and rem :: "'t \<Rightarrow> 'h \<Rightarrow> ('e + 'v) \<times> 't"
    and upd :: "'t \<Rightarrow> 'h \<Rightarrow> ('v \<Rightarrow> 'v) \<Rightarrow> ('e + unit) \<times> 't"
    and invar :: "'t \<Rightarrow> bool"
    and used :: "'t \<Rightarrow> 'h \<Rightarrow> bool"
  assumes ins_invar: "invar t \<Longrightarrow> invar (snd (ins t v))"
    and rem_invar: "invar t \<Longrightarrow> invar (snd (rem t h))"
    and upd_invar: "invar t \<Longrightarrow> invar (snd (upd t h f))"
    and ins_fresh: "invar t \<Longrightarrow> ins t v = (Inr h, t') \<Longrightarrow> \<not> used t h \<and> look t' h = Inr v"
    and ins_frame: "invar t \<Longrightarrow> used t k \<Longrightarrow> look (snd (ins t v)) k = look t k"
    and rem_gone: "invar t \<Longrightarrow> rem t h = (r, t') \<Longrightarrow> is_ok r \<Longrightarrow>
       r = look t h \<and> \<not> is_ok (look t' h)"
    and rem_err: "rem t h = (Inl e, t') \<Longrightarrow> t' = t"
    and rem_frame: "invar t \<Longrightarrow> k \<noteq> h \<Longrightarrow> used t k \<Longrightarrow> look (snd (rem t h)) k = look t k"
    and upd_look: "invar t \<Longrightarrow> used t k \<Longrightarrow> look (snd (upd t h f)) k
       = (if k = h then map_sum id f (look t k) else look t k)"
    and ins_used: "invar t \<Longrightarrow> used t k \<Longrightarrow> used (snd (ins t v)) k"
    and rem_used: "invar t \<Longrightarrow> used t k \<Longrightarrow> used (snd (rem t h)) k"
    and upd_used: "invar t \<Longrightarrow> used t k \<Longrightarrow> used (snd (upd t h f)) k"
    and look_used: "invar t \<Longrightarrow> look t h = Inr v \<Longrightarrow> used t h"
begin

lemma run_invar: "invar t \<Longrightarrow> invar (table_run ins rem upd ops t)"
proof (induction ops arbitrary: t)
  case (Cons x ops)
  then show ?case by (cases x) (auto simp: ins_invar rem_invar upd_invar)
qed simp

lemma run_used: "invar t \<Longrightarrow> used t k \<Longrightarrow> used (table_run ins rem upd ops t) k"
proof (induction ops arbitrary: t)
  case (Cons x ops)
  then show ?case
    by (cases x) (auto simp: ins_invar rem_invar upd_invar ins_used rem_used upd_used)
qed simp

text \<open>A used handle that does not resolve never resolves again.\<close>

lemma no_resurrection:
  "\<lbrakk>invar t; used t h; \<not> is_ok (look t h)\<rbrakk> \<Longrightarrow> \<not> is_ok (look (table_run ins rem upd ops t) h)"
proof (induction ops arbitrary: t)
  case (Cons x ops)
  show ?case
  proof (cases x)
    case (Ins v)
    with Cons.prems show ?thesis
      by (simp add: Cons.IH ins_invar ins_used ins_frame)
  next
    case (Rem k)
    have "\<not> is_ok (look (snd (rem t k)) h)"
    proof (cases "h = k")
      case True
      obtain r t' where eq: "rem t k = (r, t')" by fastforce
      with True Cons.prems show ?thesis
        by (cases r) (auto dest: rem_err rem_gone)
    next
      case False
      with Cons.prems show ?thesis by (simp add: rem_frame)
    qed
    with Rem Cons.prems show ?thesis by (simp add: Cons.IH rem_invar rem_used)
  next
    case (Upd k f)
    have "\<not> is_ok (look (snd (upd t k f)) h)"
      using Cons.prems by (cases "h = k") (simp_all add: upd_look)
    with Upd Cons.prems show ?thesis by (simp add: Cons.IH upd_invar upd_used)
  qed
qed simp

text \<open>A live handle resolves as long as nobody removes it, to the same value unless rewritten.\<close>

lemma stays_live:
  "\<lbrakk>invar t; look t h = Inr v; \<forall>x\<in>set ops. x \<noteq> Rem h \<and> (\<forall>f. x \<noteq> Upd h f)\<rbrakk> \<Longrightarrow>
     look (table_run ins rem upd ops t) h = Inr v"
proof (induction ops arbitrary: t)
  case (Cons x ops)
  note used = look_used [OF Cons.prems(1,2)]
  show ?case
  proof (cases x)
    case (Ins w)
    with Cons.prems used show ?thesis by (auto intro!: Cons.IH simp: ins_invar ins_frame)
  next
    case (Rem k)
    with Cons.prems used show ?thesis by (auto intro!: Cons.IH simp: rem_invar rem_frame)
  next
    case (Upd k f)
    with Cons.prems used show ?thesis by (auto intro!: Cons.IH simp: upd_invar upd_look)
  qed
qed simp

lemma removed_stays_gone:
  "\<lbrakk>invar t; rem t h = (Inr v, t')\<rbrakk> \<Longrightarrow> \<not> is_ok (look (table_run ins rem upd ops t') h)"
  using rem_gone [of t h "Inr v" t'] rem_invar [of t h] rem_used [of t h h] look_used [of t h v]
  by (intro no_resurrection) auto

end

section \<open>The slot table is a handle table\<close>

definition slot_used :: "'a slot_table \<Rightarrow> nat \<Rightarrow> nat \<Rightarrow> bool" where
  "slot_used t slot g \<longleftrightarrow> 0 < g \<and> g \<le> slot_high t slot"

lemma slot_insert_cases:
  assumes ok: "slot_ok t" and ins: "slot_insert t v = (r, t')"
  obtains (full) "r = Inl Exhausted" "t' = t"
  | (fresh) slot g where "r = Inr (slot, g)" "g = Suc (slot_high t slot)"
      "slot_high t' slot = g" "slot_lookup t' slot g = Inr v"
      "\<And>k. k \<noteq> slot \<Longrightarrow> slot_high t' k = slot_high t k"
      "\<And>k h. (k, h) \<noteq> (slot, g) \<Longrightarrow> slot_lookup t' k h = slot_lookup t k h"
proof (cases "st_free t")
  case Nil
  show ?thesis
  proof (cases "length (st_slots t) < lim_max_slots (st_limits t)")
    case True
    then have "r = Inr (length (st_slots t), 1)"
      and t': "t' = t\<lparr>st_slots := st_slots t @ [Occupied 1 v], st_live := Suc (st_live t)\<rparr>"
      using ok ins Nil by (auto simp: slot_insert_push)
    moreover have "slot_lookup t' (length (st_slots t)) 1 = Inr v"
      using slot_ok_bounds(1) [OF ok] by (simp add: slot_lookup_def slot_at_def t' usize_max_def)
    moreover have "slot_lookup t' k h = slot_lookup t k h" if "(k, h) \<noteq> (length (st_slots t), 1)"
      for k h using that
      by (cases "k < length (st_slots t)") (auto simp: slot_lookup_def slot_at_def t' nth_append)
    ultimately show ?thesis
      by (intro fresh [of "length (st_slots t)" 1]) (auto simp: slot_high_def nth_append)
  next
    case False
    with ok ins Nil show ?thesis by (intro full) (auto simp: slot_insert_full)
  qed
next
  case (Cons slot rest)
  from ok Cons obtain g where g: "st_slots t ! slot = Vacant g" "slot < length (st_slots t)" "0 < g"
    and eq: "slot_insert t v = (Inr (slot, Suc g),
       t\<lparr>st_free := rest, st_slots := (st_slots t)[slot := Occupied (Suc g) v],
         st_live := Suc (st_live t)\<rparr>)" by (rule slot_insert_reuse)
  then have t': "st_slots t' = (st_slots t)[slot := Occupied (Suc g) v]" and r: "r = Inr (slot, Suc g)"
    using ins by auto
  have "slot_lookup t' slot (Suc g) = Inr v"
    using g slot_ok_bounds(1) [OF ok] by (simp add: slot_lookup_def slot_at_def t' usize_max_def)
  moreover have "slot_lookup t' k h = slot_lookup t k h" if "(k, h) \<noteq> (slot, Suc g)" for k h
    using that g by (cases "k = slot") (auto simp: slot_lookup_def slot_at_def t')
  moreover have "slot_high t' slot = Suc g" "slot_high t slot = g"
    using g by (simp_all add: slot_high_def t')
  moreover have "slot_high t' k = slot_high t k" if "k \<noteq> slot" for k
    using that by (simp add: slot_high_def t')
  ultimately show ?thesis using r by (intro fresh) auto
qed

lemma slot_remove_frame:
  assumes ok: "slot_ok t" and rem: "slot_remove t slot g = (Inr v, t')"
  shows "slot_high t k \<le> slot_high t' k"
    and "(k, h) \<noteq> (slot, g) \<Longrightarrow> slot_lookup t' k h = slot_lookup t k h"
    and "\<not> is_ok (slot_lookup t' slot g)"
proof -
  note t' = slot_remove_success(2) [OF ok rem]
  have at: "slot < length (st_slots t)" "st_slots t ! slot = Occupied g v" "0 < g"
    using ok slot_remove_success(1) [OF ok rem] by (auto simp: result_simps)
  have "g \<le> u64_max"
    using slot_ok_nth [OF ok at(1)] slot_ok_bounds(2) [OF ok] at by (simp add: slot_state_ok_def)
  then show "slot_high t k \<le> slot_high t' k"
    using at by (cases "k = slot") (auto simp: slot_high_def t')
  show "slot_lookup t' k h = slot_lookup t k h" if "(k, h) \<noteq> (slot, g)"
    using that at by (cases "k = slot") (auto simp: slot_lookup_def slot_at_def t')
  show "\<not> is_ok (slot_lookup t' slot g)"
    using at by (auto simp: slot_lookup_def slot_at_def t')
qed

lemma slot_lookup_mut_frame:
  assumes ok: "slot_ok t"
  shows "slot_high (snd (slot_lookup_mut t slot g f)) k = slot_high t k"
    and "slot_lookup (snd (slot_lookup_mut t slot g f)) k h
      = (if (k, h) = (slot, g) then map_sum id f (slot_lookup t k h) else slot_lookup t k h)"
proof -
  let ?t' = "snd (slot_lookup_mut t slot g f)"
  have "slot_high ?t' k = slot_high t k \<and> slot_lookup ?t' k h
      = (if (k, h) = (slot, g) then map_sum id f (slot_lookup t k h) else slot_lookup t k h)"
  proof (cases "slot_lookup t slot g")
    case (Inl e)
    then have "?t' = t"
      by (auto simp: slot_lookup_mut_def slot_lookup_def
          split: if_splits sum.splits slot_state.splits)
    with Inl show ?thesis by auto
  next
    case (Inr v)
    then have at: "0 < g" "slot < length (st_slots t)" "st_slots t ! slot = Occupied g v"
      using ok by (auto simp: result_simps)
    then have t': "?t' = t\<lparr>st_slots := (st_slots t)[slot := Occupied g (f v)]\<rparr>"
      using slot_ok_bounds(1) [OF ok] by (simp add: slot_lookup_mut_def slot_at_def usize_max_def)
    show ?thesis
      using at by (cases "k = slot") (auto simp: t' slot_high_def slot_lookup_def slot_at_def)
  qed
  then show "slot_high ?t' k = slot_high t k"
    and "slot_lookup ?t' k h
      = (if (k, h) = (slot, g) then map_sum id f (slot_lookup t k h) else slot_lookup t k h)"
    by auto
qed

text \<open>The two facts about an insertion that the interface asks for.\<close>

lemma slot_insert_frame:
  assumes ok: "slot_ok t" and ins: "slot_insert t v = (r, t')"
  shows "slot_high t k \<le> slot_high t' k"
    and "slot_used t k h \<Longrightarrow> slot_lookup t' k h = slot_lookup t k h"
proof -
  have "slot_high t k \<le> slot_high t' k \<and>
      (slot_used t k h \<longrightarrow> slot_lookup t' k h = slot_lookup t k h)"
  using ok ins
  proof (cases rule: slot_insert_cases)
    case full
    then show ?thesis by simp
  next
    case (fresh slot g)
    have "(k, h) \<noteq> (slot, g)" if "slot_used t k h"
      using that fresh(2) by (auto simp: slot_used_def)
    moreover have "slot_high t k \<le> slot_high t' k"
      using fresh(2,3,5) by (cases "k = slot") auto
    ultimately show ?thesis using fresh(6) by blast
  qed
  then show "slot_high t k \<le> slot_high t' k"
    and "slot_used t k h \<Longrightarrow> slot_lookup t' k h = slot_lookup t k h"
    by auto
qed

interpretation slots: handle_table slot_insert
  "\<lambda>t h. slot_lookup t (fst h) (snd h)" "\<lambda>t h. slot_remove t (fst h) (snd h)"
  "\<lambda>t h. slot_lookup_mut t (fst h) (snd h)" slot_ok "\<lambda>t h. slot_used t (fst h) (snd h)"
proof (unfold_locales, goal_cases)
  case (4 t v h t')
  then show ?case by (auto simp: slot_used_def elim!: slot_insert_cases)
next
  case (5 t k v)
  then show ?case by (simp add: slot_insert_frame(2) [OF _ prod.collapse [symmetric]])
next
  case (6 t h r t')
  then show ?case
    using slot_remove_success(1) slot_remove_frame(3) by (cases r) fastforce+
next
  case (7 t h e t')
  then show ?case by (rule slot_remove_err)
next
  case (8 t k h)
  obtain r t' where rem: "slot_remove t (fst h) (snd h) = (r, t')" by fastforce
  with 8 show ?case
    using slot_remove_frame(2) [OF 8(1), of "fst h" "snd h" _ t' "fst k" "snd k"]
    by (cases r) (auto dest: slot_remove_err simp del: prod_eq_iff simp: prod_eq_iff [of k h])
next
  case (10 t k v)
  obtain r t' where ins: "slot_insert t v = (r, t')" by fastforce
  with 10 show ?case
    using slot_insert_frame(1) [OF 10(1) ins, of "fst k"] by (auto simp: slot_used_def)
next
  case (11 t k h)
  obtain r t' where rem: "slot_remove t (fst h) (snd h) = (r, t')" by fastforce
  with 11 show ?case
    using slot_remove_frame(1) [OF 11(1), of "fst h" "snd h" _ t' "fst k"]
    by (cases r) (auto dest: slot_remove_err simp: slot_used_def)
next
  case (13 t h v)
  then show ?case
    using slot_lookup_used [OF 13] by (simp add: slot_used_def result_simps)
qed (auto simp: slot_insert_ok slot_remove_ok slot_lookup_mut_ok slot_lookup_mut_frame slot_used_def
    prod_eq_iff dest: slot_remove_err)

section \<open>Owner-qualified arena handles\<close>

record arena_handle =
  ah_owner :: arena_owner_id
  ah_domain :: nat
  ah_slot :: nat
  ah_generation :: nat

definition arena_with_domain ::
  "arena_owner_id \<Rightarrow> nat \<Rightarrow> nat \<Rightarrow> nat \<Rightarrow> core_error + arena_handle" where
  "arena_with_domain ow d slot g =
     (if g = 0 then Inl InvalidId
      else Inr \<lparr>ah_owner = ow, ah_domain = d, ah_slot = slot, ah_generation = g\<rparr>)"

definition arena_handle_new :: "arena_owner_id \<Rightarrow> nat \<Rightarrow> nat \<Rightarrow> core_error + arena_handle" where
  "arena_handle_new ow slot g = arena_with_domain ow 0 slot g"

record 'a arena_table =
  at_owner :: arena_owner_id
  at_domain :: nat
  at_slots :: "'a slot_table"

definition arena_new ::
  "arena_owner_id \<Rightarrow> handle_limits \<Rightarrow> nat \<Rightarrow> (core_error + 'a arena_table) \<times> nat" where
  "arena_new ow l next_domain = (case domain_allocate next_domain of
     (Inl e, n) \<Rightarrow> (Inl e, n)
   | (Inr d, n) \<Rightarrow> (Inr \<lparr>at_owner = ow, at_domain = d, at_slots = slot_new l\<rparr>, n))"

definition arena_insert ::
  "'a arena_table \<Rightarrow> 'a \<Rightarrow> (core_error + arena_handle) \<times> 'a arena_table" where
  "arena_insert t v = (case slot_insert (at_slots t) v of
     (Inl e, s) \<Rightarrow> (Inl e, t\<lparr>at_slots := s\<rparr>)
   | (Inr (slot, g), s) \<Rightarrow>
       (arena_with_domain (at_owner t) (at_domain t) slot g, t\<lparr>at_slots := s\<rparr>))"

definition arena_foreign :: "'a arena_table \<Rightarrow> arena_handle \<Rightarrow> bool" where
  "arena_foreign t h \<longleftrightarrow> ah_owner h \<noteq> at_owner t \<or> ah_domain h \<noteq> at_domain t"

definition arena_validate :: "'a arena_table \<Rightarrow> arena_handle \<Rightarrow> core_error + unit" where
  "arena_validate t h =
     (if arena_foreign t h then Inl OwnershipMismatch
      else map_sum id (\<lambda>_. ()) (slot_lookup (at_slots t) (ah_slot h) (ah_generation h)))"

definition arena_lookup :: "'a arena_table \<Rightarrow> arena_handle \<Rightarrow> core_error + 'a" where
  "arena_lookup t h =
     and_then (arena_validate t h) (\<lambda>_. slot_lookup (at_slots t) (ah_slot h) (ah_generation h))"

definition arena_lookup_mut ::
  "'a arena_table \<Rightarrow> arena_handle \<Rightarrow> ('a \<Rightarrow> 'a) \<Rightarrow> (core_error + unit) \<times> 'a arena_table" where
  "arena_lookup_mut t h f =
     (if arena_foreign t h then (Inl OwnershipMismatch, t)
      else case slot_lookup_mut (at_slots t) (ah_slot h) (ah_generation h) f of
        (r, s) \<Rightarrow> (r, t\<lparr>at_slots := s\<rparr>))"

definition arena_remove ::
  "'a arena_table \<Rightarrow> arena_handle \<Rightarrow> (core_error + 'a) \<times> 'a arena_table" where
  "arena_remove t h =
     (if arena_foreign t h then (Inl OwnershipMismatch, t)
      else case slot_remove (at_slots t) (ah_slot h) (ah_generation h) of
        (r, s) \<Rightarrow> (r, t\<lparr>at_slots := s\<rparr>))"

definition arena_ok :: "'a arena_table \<Rightarrow> bool" where
  "arena_ok t \<longleftrightarrow> slot_ok (at_slots t)"

definition arena_used :: "'a arena_table \<Rightarrow> arena_handle \<Rightarrow> bool" where
  "arena_used t h \<longleftrightarrow> \<not> arena_foreign t h \<and>
     slot_used (at_slots t) (ah_slot h) (ah_generation h)"

lemma arena_lookup_alt:
  "arena_lookup t h =
     (if arena_foreign t h then Inl OwnershipMismatch
      else slot_lookup (at_slots t) (ah_slot h) (ah_generation h))"
  by (cases "slot_lookup (at_slots t) (ah_slot h) (ah_generation h)")
    (simp_all add: arena_lookup_def arena_validate_def)

lemma arena_foreign_slots [simp]: "arena_foreign (t\<lparr>at_slots := s\<rparr>) h = arena_foreign t h"
  by (simp add: arena_foreign_def)

lemma snd_arena_insert [simp]:
  "snd (arena_insert t v) = t\<lparr>at_slots := snd (slot_insert (at_slots t) v)\<rparr>"
  by (auto simp: arena_insert_def split: prod.split sum.split)

lemma snd_arena_remove [simp]:
  "snd (arena_remove t h) = (if arena_foreign t h then t
     else t\<lparr>at_slots := snd (slot_remove (at_slots t) (ah_slot h) (ah_generation h))\<rparr>)"
  by (auto simp: arena_remove_def split: prod.split)

lemma snd_arena_lookup_mut [simp]:
  "snd (arena_lookup_mut t h f) = (if arena_foreign t h then t
     else t\<lparr>at_slots := snd (slot_lookup_mut (at_slots t) (ah_slot h) (ah_generation h) f)\<rparr>)"
  by (auto simp: arena_lookup_mut_def split: prod.split)

lemma arena_handle_eqI:
  "\<lbrakk>\<not> arena_foreign t h; \<not> arena_foreign t k; ah_slot h = ah_slot k;
    ah_generation h = ah_generation k\<rbrakk> \<Longrightarrow> h = k" for h k :: arena_handle
  by (simp add: arena_foreign_def)

text \<open>The laws of the slot table in curried form, as the handle tables use them.\<close>

lemmas slot_ins_frame = slots.ins_frame [of _ "(slot, g)" for slot g, simplified]
lemmas slot_ins_used = slots.ins_used [of _ "(slot, g)" for slot g, simplified]
lemmas slot_ins_fresh = slots.ins_fresh [of _ _ "(slot, g)" for slot g, simplified]
lemmas slot_rem_frame = slots.rem_frame [of _ "(slot, g)" "(slot', g')" for slot g slot' g', simplified]
lemmas slot_rem_gone = slots.rem_gone [of _ "(slot, g)" for slot g, simplified]
lemmas slot_rem_used = slots.rem_used [of _ "(slot, g)" "(slot', g')" for slot g slot' g', simplified]
lemmas slot_upd_look = slots.upd_look [of _ "(slot, g)" "(slot', g')" for slot g slot' g', simplified]
lemmas slot_upd_used = slots.upd_used [of _ "(slot, g)" "(slot', g')" for slot g slot' g', simplified]
lemmas slot_look_used = slots.look_used [of _ "(slot, g)" for slot g, simplified]

lemma arena_insert_Inr:
  assumes ok: "arena_ok t" and ins: "arena_insert t v = (Inr h, t')"
  obtains slot g s where "slot_insert (at_slots t) v = (Inr (slot, g), s)"
    "h = \<lparr>ah_owner = at_owner t, ah_domain = at_domain t, ah_slot = slot, ah_generation = g\<rparr>"
    "t' = t\<lparr>at_slots := s\<rparr>"
  using assms
  by (auto simp: arena_insert_def arena_with_domain_def split: prod.splits sum.splits if_splits)

lemma slot_insert_generation:
  "slot_ok t \<Longrightarrow> slot_insert t v = (Inr (slot, g), t') \<Longrightarrow> 0 < g"
  by (auto elim: slot_insert_cases)

interpretation arena: handle_table
  arena_insert arena_lookup arena_remove arena_lookup_mut arena_ok arena_used
proof (unfold_locales, goal_cases)
  case (4 t v h t')
  then obtain slot g s where "slot_insert (at_slots t) v = (Inr (slot, g), s)"
    "h = \<lparr>ah_owner = at_owner t, ah_domain = at_domain t, ah_slot = slot, ah_generation = g\<rparr>"
    "t' = t\<lparr>at_slots := s\<rparr>" by (rule arena_insert_Inr)
  with 4 show ?case
    using slot_ins_fresh [of "at_slots t" v slot g s]
    by (simp add: arena_ok_def arena_used_def arena_lookup_alt arena_foreign_def)
next
  case (6 t h r t')
  then show ?case
    by (cases r)
      (auto simp: arena_remove_def arena_lookup_alt arena_ok_def split: if_splits prod.splits
        dest: slot_rem_gone)
next
  case (7 t h e t')
  then show ?case
    by (auto simp: arena_remove_def split: if_splits prod.splits dest: slot_remove_err)
next
  case (8 t k h)
  then show ?case
    using arena_handle_eqI [of t k h]
    by (auto simp: arena_lookup_alt arena_ok_def arena_used_def intro!: slot_rem_frame)
next
  case (9 t k h f)
  then show ?case
    using arena_handle_eqI [of t k h]
    by (auto simp: arena_lookup_alt arena_ok_def arena_used_def slot_upd_look)
qed (auto simp: arena_ok_def arena_used_def arena_lookup_alt slot_insert_ok slot_remove_ok
    slot_lookup_mut_ok slot_ins_frame slot_ins_used slot_rem_used slot_upd_used
    intro: slot_look_used split: if_splits)

section \<open>Device handles\<close>

record device_handle =
  dh_owner :: arena_owner_id
  dh_domain :: nat
  dh_device :: device_id
  dh_device_generation :: device_generation
  dh_slot :: nat
  dh_generation :: nat

definition device_with_domain ::
  "arena_owner_id \<Rightarrow> nat \<Rightarrow> device_id \<Rightarrow> device_generation \<Rightarrow> nat \<Rightarrow> nat \<Rightarrow>
   core_error + device_handle" where
  "device_with_domain ow d dev gen slot g =
     (if qid_owner dev \<noteq> ow \<or> qid_owner gen \<noteq> ow then Inl OwnershipMismatch
      else if g = 0 then Inl InvalidId
      else Inr \<lparr>dh_owner = ow, dh_domain = d, dh_device = dev, dh_device_generation = gen,
                dh_slot = slot, dh_generation = g\<rparr>)"

record 'a device_table =
  dt_owner :: arena_owner_id
  dt_domain :: nat
  dt_device :: device_id
  dt_generation :: device_generation
  dt_slots :: "'a slot_table"

definition device_new ::
  "arena_owner_id \<Rightarrow> device_id \<Rightarrow> device_generation \<Rightarrow> handle_limits \<Rightarrow> nat \<Rightarrow>
   (core_error + 'a device_table) \<times> nat" where
  "device_new ow dev gen l next_domain =
     (if qid_owner dev \<noteq> ow \<or> qid_owner gen \<noteq> ow then (Inl OwnershipMismatch, next_domain)
      else case domain_allocate next_domain of
        (Inl e, n) \<Rightarrow> (Inl e, n)
      | (Inr d, n) \<Rightarrow>
          (Inr \<lparr>dt_owner = ow, dt_domain = d, dt_device = dev, dt_generation = gen,
                dt_slots = slot_new l\<rparr>, n))"

definition device_insert ::
  "'a device_table \<Rightarrow> 'a \<Rightarrow> (core_error + device_handle) \<times> 'a device_table" where
  "device_insert t v = (case slot_insert (dt_slots t) v of
     (Inl e, s) \<Rightarrow> (Inl e, t\<lparr>dt_slots := s\<rparr>)
   | (Inr (slot, g), s) \<Rightarrow>
       (device_with_domain (dt_owner t) (dt_domain t) (dt_device t) (dt_generation t) slot g,
        t\<lparr>dt_slots := s\<rparr>))"

definition device_validate :: "'a device_table \<Rightarrow> device_handle \<Rightarrow> core_error + unit" where
  "device_validate t h =
     (if dh_owner h \<noteq> dt_owner t \<or> dh_device h \<noteq> dt_device t then Inl OwnershipMismatch
      else if dh_device_generation h \<noteq> dt_generation t then Inl StalePublication
      else if dh_domain h \<noteq> dt_domain t then Inl OwnershipMismatch
      else map_sum id (\<lambda>_. ()) (slot_lookup (dt_slots t) (dh_slot h) (dh_generation h)))"

definition device_lookup :: "'a device_table \<Rightarrow> device_handle \<Rightarrow> core_error + 'a" where
  "device_lookup t h =
     and_then (device_validate t h) (\<lambda>_. slot_lookup (dt_slots t) (dh_slot h) (dh_generation h))"

definition device_lookup_mut ::
  "'a device_table \<Rightarrow> device_handle \<Rightarrow> ('a \<Rightarrow> 'a) \<Rightarrow> (core_error + unit) \<times> 'a device_table" where
  "device_lookup_mut t h f = (case device_validate t h of
     Inl e \<Rightarrow> (Inl e, t)
   | Inr _ \<Rightarrow> (case slot_lookup_mut (dt_slots t) (dh_slot h) (dh_generation h) f of
       (r, s) \<Rightarrow> (r, t\<lparr>dt_slots := s\<rparr>)))"

definition device_remove ::
  "'a device_table \<Rightarrow> device_handle \<Rightarrow> (core_error + 'a) \<times> 'a device_table" where
  "device_remove t h = (case device_validate t h of
     Inl e \<Rightarrow> (Inl e, t)
   | Inr _ \<Rightarrow> (case slot_remove (dt_slots t) (dh_slot h) (dh_generation h) of
       (r, s) \<Rightarrow> (r, t\<lparr>dt_slots := s\<rparr>)))"

definition device_ok :: "'a device_table \<Rightarrow> bool" where
  "device_ok t \<longleftrightarrow> slot_ok (dt_slots t) \<and>
     qid_owner (dt_device t) = dt_owner t \<and> qid_owner (dt_generation t) = dt_owner t"

definition device_mine :: "'a device_table \<Rightarrow> device_handle \<Rightarrow> bool" where
  "device_mine t h \<longleftrightarrow> dh_owner h = dt_owner t \<and> dh_device h = dt_device t \<and>
     dh_device_generation h = dt_generation t \<and> dh_domain h = dt_domain t"

definition device_used :: "'a device_table \<Rightarrow> device_handle \<Rightarrow> bool" where
  "device_used t h \<longleftrightarrow> device_mine t h \<and> slot_used (dt_slots t) (dh_slot h) (dh_generation h)"

lemma device_validate_mine:
  "device_validate t h = Inr u \<longleftrightarrow>
     device_mine t h \<and> is_ok (slot_lookup (dt_slots t) (dh_slot h) (dh_generation h))"
  by (cases "slot_lookup (dt_slots t) (dh_slot h) (dh_generation h)")
    (auto simp: device_validate_def device_mine_def)

lemma device_lookup_Inr_iff:
  "device_lookup t h = Inr v \<longleftrightarrow>
     device_mine t h \<and> slot_lookup (dt_slots t) (dh_slot h) (dh_generation h) = Inr v"
  by (auto simp: device_lookup_def result_simps device_validate_mine is_ok_iff)

lemma device_lookup_mine:
  "device_mine t h \<Longrightarrow> device_lookup t h = slot_lookup (dt_slots t) (dh_slot h) (dh_generation h)"
  by (cases "slot_lookup (dt_slots t) (dh_slot h) (dh_generation h)")
    (auto simp: device_lookup_def device_validate_def device_mine_def)

lemma device_mine_slots [simp]: "device_mine (t\<lparr>dt_slots := s\<rparr>) h = device_mine t h"
  by (simp add: device_mine_def)

lemma slot_mut_err:
  "\<not> is_ok (slot_lookup t slot g) \<Longrightarrow> snd (slot_lookup_mut t slot g f) = t"
  by (auto simp: slot_lookup_mut_def slot_lookup_def split: if_splits sum.splits slot_state.splits)

lemma slot_remove_miss:
  "\<not> is_ok (slot_lookup t slot g) \<Longrightarrow> snd (slot_remove t slot g) = t"
  by (auto simp: slot_remove_def slot_lookup_def Let_def
      split: if_splits sum.splits slot_state.splits)

lemma snd_device_insert [simp]:
  "snd (device_insert t v) = t\<lparr>dt_slots := snd (slot_insert (dt_slots t) v)\<rparr>"
  by (auto simp: device_insert_def split: prod.split sum.split)

lemma device_validate_cases:
  obtains (pass) "device_validate t h = Inr ()" "device_mine t h"
  | (refuse) e where "device_validate t h = Inl e"
      "device_mine t h \<Longrightarrow> \<not> is_ok (slot_lookup (dt_slots t) (dh_slot h) (dh_generation h))"
  using device_validate_mine [of t h "()"] by (cases "device_validate t h") auto

lemma snd_device_remove [simp]:
  "snd (device_remove t h) = (if device_mine t h
     then t\<lparr>dt_slots := snd (slot_remove (dt_slots t) (dh_slot h) (dh_generation h))\<rparr> else t)"
  by (cases t h rule: device_validate_cases)
    (simp_all add: device_remove_def slot_remove_miss split: prod.split)

lemma snd_device_lookup_mut [simp]:
  "snd (device_lookup_mut t h f) = (if device_mine t h
     then t\<lparr>dt_slots := snd (slot_lookup_mut (dt_slots t) (dh_slot h) (dh_generation h) f)\<rparr> else t)"
  by (cases t h rule: device_validate_cases)
    (simp_all add: device_lookup_mut_def slot_mut_err split: prod.split)

lemma device_handle_eqI:
  "\<lbrakk>device_mine t h; device_mine t k; dh_slot h = dh_slot k;
    dh_generation h = dh_generation k\<rbrakk> \<Longrightarrow> h = k" for h k :: device_handle
  by (simp add: device_mine_def)

lemma device_insert_Inr:
  assumes ok: "device_ok t" and ins: "device_insert t v = (Inr h, t')"
  obtains slot g s where "slot_insert (dt_slots t) v = (Inr (slot, g), s)"
    "h = \<lparr>dh_owner = dt_owner t, dh_domain = dt_domain t, dh_device = dt_device t,
          dh_device_generation = dt_generation t, dh_slot = slot, dh_generation = g\<rparr>"
    "t' = t\<lparr>dt_slots := s\<rparr>"
  using assms
  by (auto simp: device_insert_def device_with_domain_def split: prod.splits sum.splits if_splits)

lemma device_lookup_foreign: "\<not> device_mine t h \<Longrightarrow> \<not> is_ok (device_lookup t h)"
  by (auto simp: is_ok_iff device_lookup_Inr_iff)

lemma device_lookup_frame:
  "\<lbrakk>device_mine t h \<Longrightarrow> slot_lookup s (dh_slot h) (dh_generation h)
      = slot_lookup (dt_slots t) (dh_slot h) (dh_generation h)\<rbrakk> \<Longrightarrow>
   device_lookup (t\<lparr>dt_slots := s\<rparr>) h = device_lookup t h"
  by (cases "device_mine t h")
    (auto simp: device_lookup_mine device_lookup_def device_validate_def device_mine_def)

interpretation device: handle_table
  device_insert device_lookup device_remove device_lookup_mut device_ok device_used
proof (unfold_locales, goal_cases)
  case (4 t v h t')
  then obtain slot g s where "slot_insert (dt_slots t) v = (Inr (slot, g), s)"
    "h = \<lparr>dh_owner = dt_owner t, dh_domain = dt_domain t, dh_device = dt_device t,
          dh_device_generation = dt_generation t, dh_slot = slot, dh_generation = g\<rparr>"
    "t' = t\<lparr>dt_slots := s\<rparr>" by (rule device_insert_Inr)
  with 4 show ?case
    using slot_ins_fresh [of "dt_slots t" v slot g s]
    by (simp add: device_ok_def device_used_def device_lookup_Inr_iff device_mine_def)
next
  case (6 t h r t')
  then show ?case
    by (cases t h rule: device_validate_cases)
      (auto simp: device_remove_def device_lookup_mine device_ok_def split: prod.splits
        dest: slot_rem_gone)
next
  case (7 t h e t')
  then show ?case
    by (cases t h rule: device_validate_cases)
      (auto simp: device_remove_def split: prod.splits dest: slot_remove_err)
next
  case (8 t k h)
  then show ?case
    using device_handle_eqI [of t k h]
    by (auto simp: device_ok_def device_used_def intro!: device_lookup_frame slot_rem_frame)
next
  case (9 t k h f)
  then show ?case
    using device_handle_eqI [of t k h]
    by (auto simp: device_ok_def device_used_def device_lookup_mine slot_upd_look)
qed (auto simp: device_ok_def device_used_def device_lookup_Inr_iff slot_insert_ok slot_remove_ok
    slot_lookup_mut_ok slot_ins_used slot_rem_used slot_upd_used slot_ins_frame
    intro: slot_look_used intro!: device_lookup_frame)

section \<open>The table as a finite map\<close>

definition arena_map :: "'a arena_table \<Rightarrow> arena_handle \<Rightarrow> 'a option" where
  "arena_map t h = (case arena_lookup t h of Inl _ \<Rightarrow> None | Inr v \<Rightarrow> Some v)"

lemma arena_map_Some_iff: "arena_map t h = Some v \<longleftrightarrow> arena_lookup t h = Inr v"
  by (simp add: arena_map_def split: sum.split)

lemma arena_map_None_iff: "arena_map t h = None \<longleftrightarrow> \<not> is_ok (arena_lookup t h)"
  by (cases "arena_lookup t h") (auto simp: arena_map_def)

lemma arena_map_update:
  "(\<And>k. k \<noteq> h \<Longrightarrow> arena_lookup t' k = arena_lookup t k) \<Longrightarrow>
     arena_map t' = (arena_map t)(h := arena_map t' h)"
  by (auto simp: fun_eq_iff arena_map_def)

lemma slot_insert_lookup:
  assumes "slot_ok t" and "slot_insert t v = (Inr (slot, g), t')" and "(k, h) \<noteq> (slot, g)"
  shows "slot_lookup t' k h = slot_lookup t k h"
  using assms(1,2) by (cases rule: slot_insert_cases) (use assms(3) in auto)

lemma arena_map_insert:
  assumes ok: "arena_ok t" and ins: "arena_insert t v = (Inr h, t')"
  shows "arena_map t h = None \<and> arena_map t' = (arena_map t)(h \<mapsto> v)"
proof
  note fresh = arena.ins_fresh [OF ok ins]
  show "arena_map t h = None"
    using fresh arena.look_used [OF ok, of h] by (auto simp: arena_map_def split: sum.split)
  obtain slot g s where s: "slot_insert (at_slots t) v = (Inr (slot, g), s)"
    "h = \<lparr>ah_owner = at_owner t, ah_domain = at_domain t, ah_slot = slot, ah_generation = g\<rparr>"
    "t' = t\<lparr>at_slots := s\<rparr>" using ok ins by (rule arena_insert_Inr)
  have "arena_lookup t' k = arena_lookup t k" if "k \<noteq> h" for k
  proof (cases "arena_foreign t k")
    case True
    then show ?thesis by (simp add: arena_lookup_alt s(3))
  next
    case False
    then have "(ah_slot k, ah_generation k) \<noteq> (slot, g)"
      using that s(2) by (auto simp: arena_foreign_def)
    with False s(1) ok show ?thesis
      by (simp add: arena_lookup_alt s(3) arena_ok_def slot_insert_lookup)
  qed
  then show "arena_map t' = (arena_map t)(h \<mapsto> v)"
    using fresh by (auto simp: fun_eq_iff arena_map_def)
qed

lemma slot_remove_result: "fst (slot_remove t slot g) = slot_lookup t slot g"
  by (auto simp: slot_remove_def slot_lookup_def Let_def
      split: sum.split slot_state.split)

lemma slot_remove_lookup:
  assumes ok: "slot_ok t" and ne: "(k, h) \<noteq> (slot, g)"
  shows "slot_lookup (snd (slot_remove t slot g)) k h = slot_lookup t k h"
proof -
  obtain r t' where rem: "slot_remove t slot g = (r, t')" by fastforce
  then show ?thesis
    using slot_remove_frame(2) [OF ok] slot_remove_err ne by (cases r) fastforce+
qed

lemma arena_map_remove:
  assumes ok: "arena_ok t"
  shows "fst (arena_remove t h) = arena_lookup t h \<and>
    arena_map (snd (arena_remove t h)) = (arena_map t)(h := None)"
proof
  show res: "fst (arena_remove t h) = arena_lookup t h"
    using slot_remove_result [of "at_slots t" "ah_slot h" "ah_generation h"]
    by (auto simp: arena_remove_def arena_lookup_alt split: prod.split)
  have "\<not> is_ok (arena_lookup (snd (arena_remove t h)) h)"
  proof (cases "arena_remove t h")
    case (Pair r t')
    then show ?thesis
      using arena.rem_gone [OF ok Pair] arena.rem_err [of t h _ t'] res
      by (cases r) (auto simp: is_ok_iff)
  qed
  then have "arena_map (snd (arena_remove t h)) h = None"
    by (simp only: arena_map_None_iff not_False_eq_True)
  moreover have "arena_lookup (snd (arena_remove t h)) k = arena_lookup t k" if "k \<noteq> h" for k
    using that ok arena_handle_eqI [of t k h]
    by (auto simp: arena_lookup_alt arena_ok_def intro!: slot_remove_lookup)
  ultimately show "arena_map (snd (arena_remove t h)) = (arena_map t)(h := None)"
    using arena_map_update [of h "snd (arena_remove t h)" t] by (simp del: snd_arena_remove)
qed

lemma arena_map_write:
  assumes ok: "arena_ok t"
  shows "arena_map (snd (arena_lookup_mut t h f)) = (arena_map t)(h := map_option f (arena_map t h))"
  using ok arena_handle_eqI [of t _ h]
  by (auto simp: fun_eq_iff arena_map_def arena_lookup_alt arena_ok_def slot_lookup_mut_frame
      split: sum.split)

lemma arena_map_card:
  assumes ok: "arena_ok t"
  shows "slot_len (at_slots t) = card (dom (arena_map t))"
proof -
  let ?s = "st_slots (at_slots t)"
  let ?I = "{i. i < length ?s \<and> is_occupied (?s ! i)}"
  have "slot_len (at_slots t) = card ?I"
    using ok by (simp add: slot_len_def arena_ok_def slot_ok_def length_filter_conv_card)
  moreover have "bij_betw ah_slot (dom (arena_map t)) ?I"
  proof (rule bij_betwI')
    fix h k
    assume "h \<in> dom (arena_map t)" "k \<in> dom (arena_map t)"
    then show "ah_slot h = ah_slot k \<longleftrightarrow> h = k"
      using ok arena_handle_eqI [of t h k]
      by (auto simp: arena_map_Some_iff arena_lookup_alt arena_ok_def result_simps split: if_splits)
  next
    fix h
    assume "h \<in> dom (arena_map t)"
    then show "ah_slot h \<in> ?I"
      using ok by (auto simp: arena_map_Some_iff arena_lookup_alt arena_ok_def result_simps
          split: if_splits)
  next
    fix i
    assume "i \<in> ?I"
    then obtain g v where i: "i < length ?s" "?s ! i = Occupied g v"
      by (cases "?s ! i") auto
    then have "0 < g"
      using ok slot_ok_nth [of "at_slots t" i] by (simp add: arena_ok_def slot_state_ok_def)
    with i ok have "arena_map t \<lparr>ah_owner = at_owner t, ah_domain = at_domain t, ah_slot = i,
        ah_generation = g\<rparr> = Some v"
      by (simp add: arena_map_Some_iff arena_lookup_alt arena_foreign_def arena_ok_def result_simps)
    then show "\<exists>h\<in>dom (arena_map t). i = ah_slot h"
      by (intro bexI [where x = "\<lparr>ah_owner = at_owner t, ah_domain = at_domain t, ah_slot = i,
        ah_generation = g\<rparr>"]) auto
  qed
  ultimately show ?thesis by (simp add: bij_betw_same_card)
qed

lemma slot_insert_exact:
  assumes ok: "slot_ok t"
  shows "(is_ok (fst (slot_insert t v)) \<longleftrightarrow>
      st_free t \<noteq> [] \<or> length (st_slots t) < lim_max_slots (st_limits t)) \<and>
    (slot_insert t v = (Inl Exhausted, t) \<or> is_ok (fst (slot_insert t v)))"
proof (cases "st_free t")
  case Nil
  then show ?thesis
    using ok slot_insert_push [OF ok Nil, of v] slot_insert_full [OF ok Nil, of v]
    by (cases "length (st_slots t) < lim_max_slots (st_limits t)") auto
next
  case (Cons slot rest)
  then show ?thesis by (auto intro: slot_insert_reuse [OF ok Cons, of v])
qed

lemma arena_insert_capacity_lemma:
  assumes ok: "arena_ok t"
  shows "(is_ok (fst (arena_insert t v)) \<longleftrightarrow>
      st_free (at_slots t) \<noteq> [] \<or>
      length (st_slots (at_slots t)) < lim_max_slots (st_limits (at_slots t))) \<and>
    (arena_insert t v = (Inl Exhausted, t) \<or> is_ok (fst (arena_insert t v))) \<and>
    slot_len (at_slots t) \<le> lim_max_slots (st_limits (at_slots t))"
proof -
  have slots: "slot_ok (at_slots t)" using ok by (simp add: arena_ok_def)
  have "slot_len (at_slots t) \<le> lim_max_slots (st_limits (at_slots t))"
    using slot_ok_bounds(3) [OF slots] slots unfolding slot_ok_def slot_len_def by linarith
  with slot_insert_exact [OF slots, of v] slots show ?thesis
    by (cases "slot_insert (at_slots t) v")
      (auto simp: arena_insert_def arena_with_domain_def is_ok_iff dest: slot_insert_generation
        split: sum.splits)
qed

section \<open>Isolation of the tables of a process\<close>

lemma arena_run_identity:
  "at_owner (table_run arena_insert arena_remove arena_lookup_mut ops t) = at_owner t \<and>
   at_domain (table_run arena_insert arena_remove arena_lookup_mut ops t) = at_domain t"
proof (induction ops arbitrary: t)
  case (Cons x ops)
  then show ?case by (cases x) simp_all
qed simp

lemma domain_steps_up:
  "0 < n \<Longrightarrow> ((snd \<circ> domain_allocate) ^^ k) n = 0 \<or> n \<le> ((snd \<circ> domain_allocate) ^^ k) n"
proof (induction k)
  case (Suc k)
  then show ?case
    by (auto simp: domain_allocate_def checked_add_def split: option.split)
qed simp

lemma domain_steps_zero: "((snd \<circ> domain_allocate) ^^ k) 0 = 0"
  by (induction k) (simp_all add: domain_allocate_def)

lemma arena_new_Inr:
  "arena_new ow l n = (Inr t, n') \<Longrightarrow>
     0 < n \<and> t = \<lparr>at_owner = ow, at_domain = n, at_slots = slot_new l\<rparr> \<and>
     (n' = 0 \<or> n' = Suc n)"
  by (auto simp: arena_new_def domain_allocate_def checked_add_def split: if_splits prod.splits sum.splits)

lemma arena_isolated_lemma:
  assumes "arena_new ow l n = (Inr t, n1)"
    and "arena_new ow' l' (((snd \<circ> domain_allocate) ^^ k) n1) = (Inr t', n2)"
    and ins: "arena_insert (table_run arena_insert arena_remove arena_lookup_mut ops t) v = (Inr h, t2)"
  shows "arena_lookup (table_run arena_insert arena_remove arena_lookup_mut ops' t') h
      = Inl OwnershipMismatch \<and>
    (\<forall>u slot g. arena_handle_new ow' slot g = Inr u \<longrightarrow>
       arena_lookup (table_run arena_insert arena_remove arena_lookup_mut ops' t') u
         = Inl OwnershipMismatch)"
proof -
  note t = arena_new_Inr [OF assms(1)] and t' = arena_new_Inr [OF assms(2)]
  have "n1 \<noteq> 0" using t' by (intro notI) (simp add: domain_steps_zero)
  then have "n < at_domain t'"
    using t t' domain_steps_up [of n1 k] by auto
  moreover have "ah_domain h = n"
    using ins t arena_run_identity [of ops t]
    by (auto simp: arena_insert_def arena_with_domain_def split: prod.splits sum.splits if_splits)
  ultimately show ?thesis
    using arena_run_identity [of ops' t']
    by (auto simp: arena_lookup_alt arena_foreign_def arena_handle_new_def arena_with_domain_def
        split: if_splits)
qed

section \<open>A sample table\<close>

definition sample_arena :: "nat arena_table" where
  "sample_arena = \<lparr>at_owner = ArenaOwnerId 1, at_domain = 5,
     at_slots = slot_new \<lparr>lim_max_slots = 2, lim_max_generation = 3\<rparr>\<rparr>"

definition sample_handle :: arena_handle where
  "sample_handle = \<lparr>ah_owner = ArenaOwnerId 1, ah_domain = 5, ah_slot = 0, ah_generation = 1\<rparr>"

definition sample_live :: "nat arena_table" where
  "sample_live = sample_arena\<lparr>at_slots := \<lparr>st_limits = \<lparr>lim_max_slots = 2, lim_max_generation = 3\<rparr>,
     st_slots = [Occupied 1 10], st_free = [], st_live = 1\<rparr>\<rparr>"

definition sample_freed :: "nat arena_table" where
  "sample_freed = sample_arena\<lparr>at_slots := \<lparr>st_limits = \<lparr>lim_max_slots = 2, lim_max_generation = 3\<rparr>,
     st_slots = [Vacant 1], st_free = [0], st_live = 0\<rparr>\<rparr>"

lemmas sample_defs = sample_arena_def sample_handle_def sample_live_def sample_freed_def

lemma sample_ok: "arena_ok sample_arena" "arena_ok sample_live" "arena_ok sample_freed"
  by (auto simp: sample_defs arena_ok_def slot_ok_def slot_new_def slot_state_ok_def u64_max_def)

lemma sample_insert: "arena_insert sample_arena 10 = (Inr sample_handle, sample_live)"
  by (simp add: sample_defs arena_insert_def slot_insert_def slot_pick_def slot_new_def Let_def
      checked_add_def u64_max_def arena_with_domain_def)

lemma sample_remove: "arena_remove sample_live sample_handle = (Inr 10, sample_freed)"
  by (simp add: sample_defs arena_remove_def arena_foreign_def slot_remove_def slot_at_def Let_def
      checked_add_def u64_max_def)

lemma sample_new:
  "arena_new (ArenaOwnerId 1) \<lparr>lim_max_slots = 2, lim_max_generation = 3\<rparr> 5 = (Inr sample_arena, 6)"
  by (simp add: sample_defs arena_new_def domain_allocate_def checked_add_def u64_max_def)

definition sample_device :: "nat device_table" where
  "sample_device = \<lparr>dt_owner = ArenaOwnerId 1, dt_domain = 5, dt_device = QId (ArenaOwnerId 1) 1,
     dt_generation = QId (ArenaOwnerId 1) 2, dt_slots = at_slots sample_live\<rparr>"

section \<open>Properties\<close>

abbreviation "arena_run \<equiv> table_run arena_insert arena_remove arena_lookup_mut"
abbreviation "device_run \<equiv> table_run device_insert device_remove device_lookup_mut"

text \<open>
  C22: A removed arena handle is dead for good: after any later run of insertions, removals and
  writes, including reuses of its slot, looking it up fails.
\<close>

theorem arena_removed_never_resolves:
  assumes "arena_ok t" and "arena_remove t h = (Inr v, t')"
  shows "\<not> is_ok (arena_lookup (arena_run ops t') h)"
  using assms by (rule arena.removed_stays_gone)

theorem arena_removed_never_resolves_witness:
  "\<not> is_ok (arena_lookup (arena_run [Ins 11] sample_freed) sample_handle)"
  using sample_ok(2) sample_remove by (rule arena_removed_never_resolves)

text \<open>
  An inserted value is reached through the handle that the insertion returned, after any later
  run of insertions, writes to other handles and removals of other handles, and no other handle
  that was handed out before denotes it.
\<close>

theorem arena_insert_reached:
  assumes "arena_ok t" and "arena_insert t v = (Inr h, t')"
    and "\<forall>x\<in>set ops. x \<noteq> Rem h \<and> (\<forall>f. x \<noteq> Upd h f)"
  shows "arena_lookup (arena_run ops t') h = Inr v \<and> \<not> is_ok (arena_lookup t h) \<and>
    (\<forall>k w. arena_lookup t k = Inr w \<longrightarrow> k \<noteq> h \<and> arena_lookup t' k = Inr w)"
proof (intro conjI allI impI)
  note fresh = arena.ins_fresh [OF assms(1,2)]
  have ok: "arena_ok t'"
    using arena.ins_invar [OF assms(1), of v] assms(2) by simp
  show "arena_lookup (arena_run ops t') h = Inr v"
    using ok fresh assms(3) by (intro arena.stays_live) auto
  show "\<not> is_ok (arena_lookup t h)"
    using fresh arena.look_used [OF assms(1)] by (auto simp: is_ok_iff)
  fix k w
  assume k: "arena_lookup t k = Inr w"
  show "k \<noteq> h" using fresh arena.look_used [OF assms(1) k] by auto
  show "arena_lookup t' k = Inr w"
    using k arena.ins_frame [OF assms(1) arena.look_used [OF assms(1) k], of v] assms(2) by simp
qed

theorem arena_insert_reached_witness:
  "arena_lookup (arena_run [Ins 11, Ins 12] sample_live) sample_handle = Inr 10"
  using arena_insert_reached [OF sample_ok(1) sample_insert, of "[Ins 11, Ins 12]"] by simp

text \<open>
  C1: An arena table implements a finite map from handles to values: an insertion returns a handle
  that was not in the map and adds exactly that binding, a removal returns what the map held and
  deletes exactly that binding, a write through \<open>lookup_mut\<close> changes exactly that binding, and the
  table's length is the number of bindings.
\<close>

theorem arena_refines_map:
  assumes ok: "arena_ok t"
  shows "(\<forall>v h t'. arena_insert t v = (Inr h, t') \<longrightarrow>
            arena_map t h = None \<and> arena_map t' = (arena_map t)(h \<mapsto> v)) \<and>
         (\<forall>h. fst (arena_remove t h) = arena_lookup t h \<and>
            arena_map (snd (arena_remove t h)) = (arena_map t)(h := None)) \<and>
         (\<forall>h f. arena_map (snd (arena_lookup_mut t h f))
            = (arena_map t)(h := map_option f (arena_map t h))) \<and>
         slot_len (at_slots t) = card (dom (arena_map t))"
  using arena_map_insert [OF ok] arena_map_remove [OF ok] arena_map_write [OF ok]
    arena_map_card [OF ok] by blast

theorem arena_refines_map_witness: "arena_map sample_live = (arena_map sample_arena)(sample_handle \<mapsto> 10)"
  using arena_refines_map [OF sample_ok(1)] sample_insert by blast

text \<open>
  A table accepts an insertion exactly while it has a vacant slot or may still grow; a refused
  insertion reports exhaustion and leaves the table as it was, and the count of live entries never
  exceeds the configured number of slots.
\<close>

theorem arena_insert_capacity:
  assumes "arena_ok t"
  shows "(is_ok (fst (arena_insert t v)) \<longleftrightarrow>
      st_free (at_slots t) \<noteq> [] \<or>
      length (st_slots (at_slots t)) < lim_max_slots (st_limits (at_slots t))) \<and>
    (arena_insert t v = (Inl Exhausted, t) \<or> is_ok (fst (arena_insert t v))) \<and>
    slot_len (at_slots t) \<le> lim_max_slots (st_limits (at_slots t))"
  using assms by (rule arena_insert_capacity_lemma)

theorem arena_insert_capacity_witness:
  "is_ok (fst (arena_insert sample_live 11)) \<and> slot_len (at_slots sample_live) \<le> 2"
  using arena_insert_capacity [OF sample_ok(2), of 11] by (simp add: sample_defs)

text \<open>
  Tables never confuse their handles: whatever is done to two tables created one after the
  other in a process, even for the same owner and with any number of tables created between them,
  a handle of the first is refused by the second with an ownership mismatch, and so is an unbound
  handle.
\<close>

theorem arena_tables_isolated:
  assumes "arena_new ow l n = (Inr t, n1)"
    and "arena_new ow' l' (((snd \<circ> domain_allocate) ^^ k) n1) = (Inr t', n2)"
    and "arena_insert (arena_run ops t) v = (Inr h, t2)"
  shows "arena_lookup (arena_run ops' t') h = Inl OwnershipMismatch \<and>
    (\<forall>u slot g. arena_handle_new ow' slot g = Inr u \<longrightarrow>
       arena_lookup (arena_run ops' t') u = Inl OwnershipMismatch)"
  using assms by (rule arena_isolated_lemma)

theorem arena_tables_isolated_witness:
  "arena_lookup (sample_arena\<lparr>at_domain := 7\<rparr>) sample_handle = Inl OwnershipMismatch"
proof -
  have "arena_new (ArenaOwnerId 1) \<lparr>lim_max_slots = 2, lim_max_generation = 3\<rparr>
      (((snd \<circ> domain_allocate) ^^ 1) 6) = (Inr (sample_arena\<lparr>at_domain := 7\<rparr>), 8)"
    by (simp add: sample_defs arena_new_def domain_allocate_def checked_add_def u64_max_def)
  moreover have "arena_insert (arena_run [] sample_arena) 10 = (Inr sample_handle, sample_live)"
    by (simp add: sample_insert)
  ultimately show ?thesis
    using arena_tables_isolated [OF sample_new, where ops' = "[]"] by fastforce
qed

text \<open>
  A device table resolves a handle only under its own owner, device, device generation and
  table domain; a handle of an earlier generation of the same device is reported as stale, and one
  that was removed never resolves again.
\<close>

theorem device_generation_authority:
  assumes "device_ok t"
  shows "(\<forall>h v. device_lookup t h = Inr v \<longrightarrow> device_mine t h) \<and>
    (\<forall>h. dh_owner h = dt_owner t \<and> dh_device h = dt_device t \<and>
       dh_device_generation h \<noteq> dt_generation t \<longrightarrow> device_lookup t h = Inl StalePublication) \<and>
    (\<forall>h v t'. device_remove t h = (Inr v, t') \<longrightarrow>
       (\<forall>ops. \<not> is_ok (device_lookup (device_run ops t') h)))"
proof (intro conjI allI impI)
  show "device_mine t h" if "device_lookup t h = Inr v" for h v
    using that by (simp add: device_lookup_Inr_iff)
  show "device_lookup t h = Inl StalePublication" if "dh_owner h = dt_owner t \<and>
      dh_device h = dt_device t \<and> dh_device_generation h \<noteq> dt_generation t" for h
    using that by (simp add: device_lookup_def device_validate_def)
  show "\<not> is_ok (device_lookup (device_run ops t') h)" if "device_remove t h = (Inr v, t')"
    for h v t' ops
    using assms that by (rule device.removed_stays_gone)
qed

theorem device_generation_authority_witness:
  "device_lookup sample_device \<lparr>dh_owner = ArenaOwnerId 1, dh_domain = 5,
     dh_device = QId (ArenaOwnerId 1) 1, dh_device_generation = QId (ArenaOwnerId 1) 1,
     dh_slot = 0, dh_generation = 1\<rparr> = Inl StalePublication"
proof -
  have "device_ok sample_device"
    using sample_ok(2) by (simp add: device_ok_def sample_device_def arena_ok_def)
  from device_generation_authority [OF this] show ?thesis by (simp add: sample_device_def)
qed

end
