(* ===== verification/Resources.thy ===== *)
theory Resources
  imports Core_Ids
begin

text \<open>
  \<open>crates/fcb-core/src/resources.rs\<close>: the resource ledger, its budget operations and the leases
  that keep allocations charged.

  Correspondence: \<open>ResourceLedger\<close> is the record \<open>ledger\<close>, its two \<open>BTreeMap\<close>s are maps. The
  ledger's mutex makes every operation atomic, so an operation takes and returns the ledger. A
  \<open>LeaseInner\<close> is the record \<open>lease\<close>; the identity of the ledger that \<open>Arc::ptr_eq\<close> compares is
  the number \<open>ls_ledger\<close>. The \<open>expect\<close>s and the unchecked subtractions of the code are
  \<^const>\<open>None\<close>; \<open>lease_run_total\<close> shows that no program that owns its leases reaches them.

  A \<open>world\<close> is a ledger with the lease objects alive and the number of handles (clones of the
  \<open>Arc\<close>) to each; dropping the last handle runs \<open>LeaseInner::drop\<close>. Rust's ownership is what
  restricts the operations of \<open>world_step\<close> to leases that are alive.
\<close>

section \<open>Data\<close>

datatype resource_kind = Managed | Queue

datatype reservation_class = Ordinary | Terminal | Retirement

datatype acquisition_order = Publication | Bytes | SourcePin | AssetPin | Service

fun order_rank :: "acquisition_order \<Rightarrow> nat" where
  "order_rank Publication = 0"
| "order_rank Bytes = 1"
| "order_rank SourcePin = 2"
| "order_rank AssetPin = 3"
| "order_rank Service = 4"

instantiation acquisition_order :: linorder
begin

definition less_eq_acquisition_order :: "acquisition_order \<Rightarrow> acquisition_order \<Rightarrow> bool" where
  "less_eq_acquisition_order a b \<longleftrightarrow> order_rank a \<le> order_rank b"

definition less_acquisition_order :: "acquisition_order \<Rightarrow> acquisition_order \<Rightarrow> bool" where
  "less_acquisition_order a b \<longleftrightarrow> order_rank a < order_rank b"

instance
proof
  fix a b :: acquisition_order
  show "a = b" if "a \<le> b" "b \<le> a"
    using that by (cases a; cases b) (simp_all add: less_eq_acquisition_order_def)
qed (auto simp: less_eq_acquisition_order_def less_acquisition_order_def)

end

datatype admission_error =
    InvalidBytes
  | AllocationConflict
  | CapacityExhausted reservation_class nat nat
  | AcquisitionOrderViolation acquisition_order acquisition_order
  | ReconciliationDenied reservation_class nat nat nat
  | AdmissionOverflow

fun into_core_error :: "admission_error \<Rightarrow> core_error" where
  "into_core_error InvalidBytes = InvalidId"
| "into_core_error AllocationConflict = OwnershipMismatch"
| "into_core_error (CapacityExhausted _ _ _) = LimitExceeded"
| "into_core_error (ReconciliationDenied _ _ _ _) = LimitExceeded"
| "into_core_error (AcquisitionOrderViolation _ _) = OwnershipMismatch"
| "into_core_error AdmissionOverflow = ArithmeticOverflow"

definition allocation_new :: "nat \<Rightarrow> core_error + nat" where
  "allocation_new v = (if v = 0 then Inl InvalidId else Inr v)"

record alloc_record =
  rec_kind :: resource_kind
  rec_class :: reservation_class
  rec_bytes :: nat
  rec_refs :: nat
  rec_owners :: "arena_owner_id \<rightharpoonup> nat"

record ledger =
  led_domain :: arena_owner_id
  led_capacity :: nat
  led_terminal_cap :: nat
  led_retirement_cap :: nat
  led_reserved :: nat
  led_terminal :: nat
  led_retirement :: nat
  led_managed :: nat
  led_queue :: nat
  led_peak :: nat
  led_leases :: nat
  led_allocs :: "nat \<rightharpoonup> alloc_record"

record lease =
  ls_domain :: arena_owner_id
  ls_owner :: arena_owner_id
  ls_alloc :: nat
  ls_kind :: resource_kind
  ls_ledger :: nat

section \<open>Accounting\<close>

record accounting =
  acc_capacity :: nat
  acc_terminal_cap :: nat
  acc_retirement_cap :: nat
  acc_reserved :: nat
  acc_terminal :: nat
  acc_retirement :: nat
  acc_managed :: nat
  acc_queue :: nat
  acc_peak :: nat
  acc_allocations :: nat
  acc_leases :: nat

definition ledger_accounting :: "ledger \<Rightarrow> accounting" where
  "ledger_accounting l =
     \<lparr>acc_capacity = led_capacity l, acc_terminal_cap = led_terminal_cap l,
      acc_retirement_cap = led_retirement_cap l, acc_reserved = led_reserved l,
      acc_terminal = led_terminal l, acc_retirement = led_retirement l,
      acc_managed = led_managed l, acc_queue = led_queue l, acc_peak = led_peak l,
      acc_allocations = card (dom (led_allocs l)), acc_leases = led_leases l\<rparr>"

definition acc_available :: "accounting \<Rightarrow> nat option" where
  "acc_available a = checked_sub (acc_capacity a) (acc_reserved a)"

definition acc_ordinary_available :: "accounting \<Rightarrow> nat" where
  "acc_ordinary_available a =
     (let protected = saturating_add (acc_terminal_cap a) (acc_retirement_cap a);
          ordinary_capacity = saturating_sub (acc_capacity a) protected;
          ordinary_reserved =
            saturating_sub (saturating_sub (acc_reserved a) (acc_terminal a)) (acc_retirement a)
      in saturating_sub ordinary_capacity ordinary_reserved)"

definition acc_terminal_available :: "accounting \<Rightarrow> nat" where
  "acc_terminal_available a = saturating_sub (acc_terminal_cap a) (acc_terminal a)"

definition acc_retirement_available :: "accounting \<Rightarrow> nat" where
  "acc_retirement_available a = saturating_sub (acc_retirement_cap a) (acc_retirement a)"

definition acc_protected_reserved :: "accounting \<Rightarrow> nat" where
  "acc_protected_reserved a = saturating_add (acc_terminal a) (acc_retirement a)"

definition class_available :: "ledger \<Rightarrow> reservation_class \<Rightarrow> nat" where
  "class_available l c = (case c of
     Ordinary \<Rightarrow>
       saturating_sub
         (saturating_sub (saturating_sub (led_capacity l) (led_terminal_cap l)) (led_retirement_cap l))
         (saturating_sub (saturating_sub (led_reserved l) (led_terminal l)) (led_retirement l))
   | Terminal \<Rightarrow> saturating_sub (led_terminal_cap l) (led_terminal l)
   | Retirement \<Rightarrow> saturating_sub (led_retirement_cap l) (led_retirement l))"

section \<open>Ledger operations\<close>

definition add_class ::
  "ledger \<Rightarrow> reservation_class \<Rightarrow> nat \<Rightarrow> (admission_error + unit) \<times> ledger" where
  "add_class l c b = (case c of
     Ordinary \<Rightarrow> (Inr (), l)
   | Terminal \<Rightarrow> (case checked_add (led_terminal l) b of
       None \<Rightarrow> (Inl AdmissionOverflow, l) | Some n \<Rightarrow> (Inr (), l\<lparr>led_terminal := n\<rparr>))
   | Retirement \<Rightarrow> (case checked_add (led_retirement l) b of
       None \<Rightarrow> (Inl AdmissionOverflow, l) | Some n \<Rightarrow> (Inr (), l\<lparr>led_retirement := n\<rparr>)))"

definition subtract_class :: "ledger \<Rightarrow> reservation_class \<Rightarrow> nat \<Rightarrow> ledger option" where
  "subtract_class l c b = (case c of
     Ordinary \<Rightarrow> Some l
   | Terminal \<Rightarrow> map_option (\<lambda>n. l\<lparr>led_terminal := n\<rparr>) (checked_sub (led_terminal l) b)
   | Retirement \<Rightarrow> map_option (\<lambda>n. l\<lparr>led_retirement := n\<rparr>) (checked_sub (led_retirement l) b))"

definition add_kind :: "ledger \<Rightarrow> resource_kind \<Rightarrow> nat \<Rightarrow> (core_error + unit) \<times> ledger" where
  "add_kind l k b = (case k of
     Managed \<Rightarrow> (case checked_add (led_managed l) b of
       None \<Rightarrow> (Inl ArithmeticOverflow, l) | Some n \<Rightarrow> (Inr (), l\<lparr>led_managed := n\<rparr>))
   | Queue \<Rightarrow> (case checked_add (led_queue l) b of
       None \<Rightarrow> (Inl ArithmeticOverflow, l) | Some n \<Rightarrow> (Inr (), l\<lparr>led_queue := n\<rparr>)))"

definition subtract_kind :: "ledger \<Rightarrow> resource_kind \<Rightarrow> nat \<Rightarrow> ledger option" where
  "subtract_kind l k b = (case k of
     Managed \<Rightarrow> map_option (\<lambda>n. l\<lparr>led_managed := n\<rparr>) (checked_sub (led_managed l) b)
   | Queue \<Rightarrow> map_option (\<lambda>n. l\<lparr>led_queue := n\<rparr>) (checked_sub (led_queue l) b))"

definition add_shared_reference ::
  "ledger \<Rightarrow> arena_owner_id \<Rightarrow> nat \<Rightarrow> resource_kind \<Rightarrow> (core_error + unit) \<times> ledger" where
  "add_shared_reference l ow a k = (case checked_add (led_leases l) 1 of
     None \<Rightarrow> (Inl ArithmeticOverflow, l)
   | Some next_leases \<Rightarrow> (case led_allocs l a of
       None \<Rightarrow> (Inl OwnershipMismatch, l)
     | Some r \<Rightarrow>
         if rec_kind r \<noteq> k then (Inl OwnershipMismatch, l)
         else (case checked_add (rec_refs r) 1 of
             None \<Rightarrow> (Inl ArithmeticOverflow, l)
           | Some next_refs \<Rightarrow>
               (case checked_add (case rec_owners r ow of None \<Rightarrow> 0 | Some n \<Rightarrow> n) 1 of
                  None \<Rightarrow> (Inl ArithmeticOverflow, l)
                | Some next_owner \<Rightarrow>
                    (Inr (), l\<lparr>led_allocs := (led_allocs l)(a \<mapsto>
                        r\<lparr>rec_refs := next_refs, rec_owners := (rec_owners r)(ow \<mapsto> next_owner)\<rparr>),
                      led_leases := next_leases\<rparr>)))))"

text \<open>\<open>remove_reference\<close>: the release of a lease; \<^const>\<open>None\<close> is a panic.\<close>

definition release_owner :: "alloc_record \<Rightarrow> arena_owner_id \<Rightarrow> alloc_record option" where
  "release_owner r ow =
     Option.bind (checked_sub (rec_refs r) 1) (\<lambda>refs.
     Option.bind (rec_owners r ow) (\<lambda>n.
     Option.bind (checked_sub n 1) (\<lambda>n'.
     Some (r\<lparr>rec_refs := refs,
             rec_owners := (if n' = 0 then (rec_owners r)(ow := None)
                            else (rec_owners r)(ow \<mapsto> n'))\<rparr>))))"

definition remove_reference :: "ledger \<Rightarrow> arena_owner_id \<Rightarrow> nat \<Rightarrow> ledger option" where
  "remove_reference l ow a =
     Option.bind (led_allocs l a) (\<lambda>r.
     Option.bind (release_owner r ow) (\<lambda>r'.
     Option.bind (checked_sub (led_leases l) 1) (\<lambda>n.
     let l1 = l\<lparr>led_allocs := (led_allocs l)(a \<mapsto> r'), led_leases := n\<rparr> in
     if rec_refs r' = 0 then
       Option.bind (checked_sub (led_reserved l1) (rec_bytes r')) (\<lambda>res.
       Option.bind (subtract_class (l1\<lparr>led_allocs := (led_allocs l1)(a := None),
           led_reserved := res\<rparr>) (rec_class r') (rec_bytes r')) (\<lambda>l2.
       subtract_kind l2 (rec_kind r') (rec_bytes r')))
     else Some l1)))"

text \<open>The growing branch of \<open>reconcile\<close>: every next counter is computed before any is stored.\<close>

definition reconcile_grow ::
  "ledger \<Rightarrow> reservation_class \<Rightarrow> resource_kind \<Rightarrow> nat \<Rightarrow> nat \<Rightarrow> (admission_error + unit) \<times> ledger" where
  "reconcile_grow l c k reserved actual =
     (let additional = actual - reserved; available = class_available l c in
      if additional > available
      then (Inl (ReconciliationDenied c reserved actual available), l)
      else
        (case (checked_add (led_reserved l) additional,
               if c = Terminal then checked_add (led_terminal l) additional else Some (led_terminal l),
               if c = Retirement then checked_add (led_retirement l) additional
                 else Some (led_retirement l),
               if k = Managed then checked_add (led_managed l) additional else Some (led_managed l),
               if k = Queue then checked_add (led_queue l) additional else Some (led_queue l)) of
           (Some reserved', Some terminal, Some retirement, Some managed, Some queue) \<Rightarrow>
             (Inr (), l\<lparr>led_reserved := reserved', led_terminal := terminal,
                led_retirement := retirement, led_managed := managed, led_queue := queue,
                led_peak := max (led_peak l) reserved'\<rparr>)
         | _ \<Rightarrow> (Inl AdmissionOverflow, l)))"

definition reconcile_shrink ::
  "ledger \<Rightarrow> reservation_class \<Rightarrow> resource_kind \<Rightarrow> nat \<Rightarrow> ledger option" where
  "reconcile_shrink l c k released =
     Option.bind (checked_sub (led_reserved l) released) (\<lambda>res.
     Option.bind (subtract_class (l\<lparr>led_reserved := res\<rparr>) c released) (\<lambda>l1.
     subtract_kind l1 k released))"

definition set_bytes :: "ledger \<Rightarrow> nat \<Rightarrow> nat \<Rightarrow> ledger" where
  "set_bytes l a b =
     l\<lparr>led_allocs := (led_allocs l)(a := map_option (\<lambda>r. r\<lparr>rec_bytes := b\<rparr>) (led_allocs l a))\<rparr>"

definition reconcile ::
  "ledger \<Rightarrow> nat \<Rightarrow> nat \<Rightarrow> ((admission_error + unit) \<times> ledger) option" where
  "reconcile l a actual =
     (if actual = 0 then Some (Inl InvalidBytes, l)
      else case led_allocs l a of
        None \<Rightarrow> Some (Inl AllocationConflict, l)
      | Some r \<Rightarrow>
          if actual = rec_bytes r then Some (Inr (), l)
          else if actual > rec_bytes r then
            Some (case reconcile_grow l (rec_class r) (rec_kind r) (rec_bytes r) actual of
                (Inl e, l') \<Rightarrow> (Inl e, l')
              | (Inr _, l') \<Rightarrow> (Inr (), set_bytes l' a actual))
          else
            Option.bind (reconcile_shrink l (rec_class r) (rec_kind r) (rec_bytes r - actual)) (\<lambda>l'.
              Some (Inr (), set_bytes l' a actual)))"

section \<open>Budget operations\<close>

definition budget_new ::
  "arena_owner_id \<Rightarrow> nat \<Rightarrow> nat \<Rightarrow> nat \<Rightarrow> core_error + ledger" where
  "budget_new d cap tcap rcap =
     (if cap = 0 then Inl InvalidId
      else case checked_add tcap rcap of
        None \<Rightarrow> Inl ArithmeticOverflow
      | Some protected \<Rightarrow>
          if protected > cap then Inl LimitExceeded
          else Inr \<lparr>led_domain = d, led_capacity = cap, led_terminal_cap = tcap,
                    led_retirement_cap = rcap, led_reserved = 0, led_terminal = 0,
                    led_retirement = 0, led_managed = 0, led_queue = 0, led_peak = 0,
                    led_leases = 0, led_allocs = Map.empty\<rparr>)"

definition try_reserve_class ::
  "nat \<Rightarrow> ledger \<Rightarrow> arena_owner_id \<Rightarrow> nat \<Rightarrow> resource_kind \<Rightarrow> reservation_class \<Rightarrow> nat \<Rightarrow>
   (admission_error + lease) \<times> ledger" where
  "try_reserve_class i l ow a k c b =
     (if b = 0 then (Inl InvalidBytes, l)
      else if led_allocs l a \<noteq> None then (Inl AllocationConflict, l)
      else let available = class_available l c in
        if b > available then (Inl (CapacityExhausted c b available), l)
        else case checked_add (led_leases l) 1 of
          None \<Rightarrow> (Inl AdmissionOverflow, l)
        | Some next_leases \<Rightarrow> (case checked_add (led_reserved l) b of
            None \<Rightarrow> (Inl AdmissionOverflow, l)
          | Some reserved \<Rightarrow> (case add_kind l k b of
              (Inl _, l1) \<Rightarrow> (Inl AdmissionOverflow, l1)
            | (Inr _, l1) \<Rightarrow> (case add_class l1 c b of
                (Inl e, l2) \<Rightarrow> (Inl e, l2)
              | (Inr _, l2) \<Rightarrow>
                  (Inr \<lparr>ls_domain = led_domain l, ls_owner = ow, ls_alloc = a, ls_kind = k,
                        ls_ledger = i\<rparr>,
                   l2\<lparr>led_reserved := reserved, led_peak := max (led_peak l2) reserved,
                      led_leases := next_leases,
                      led_allocs := (led_allocs l2)(a \<mapsto>
                        \<lparr>rec_kind = k, rec_class = c, rec_bytes = b, rec_refs = 1,
                         rec_owners = [ow \<mapsto> 1]\<rparr>)\<rparr>)))))"

definition try_reserve ::
  "nat \<Rightarrow> ledger \<Rightarrow> arena_owner_id \<Rightarrow> nat \<Rightarrow> resource_kind \<Rightarrow> nat \<Rightarrow>
   (core_error + lease) \<times> ledger" where
  "try_reserve i l ow a k b =
     (case try_reserve_class i l ow a k Ordinary b of (r, l') \<Rightarrow> (map_err into_core_error r, l'))"

definition try_share ::
  "nat \<Rightarrow> ledger \<Rightarrow> arena_owner_id \<Rightarrow> lease \<Rightarrow> (core_error + lease) \<times> ledger" where
  "try_share i l ow source =
     (if ls_ledger source \<noteq> i then (Inl OwnershipMismatch, l)
      else case add_shared_reference l ow (ls_alloc source) (ls_kind source) of
        (Inl e, l') \<Rightarrow> (Inl e, l')
      | (Inr _, l') \<Rightarrow>
          (Inr \<lparr>ls_domain = led_domain l', ls_owner = ow, ls_alloc = ls_alloc source,
                ls_kind = ls_kind source, ls_ledger = i\<rparr>, l'))"

record lease_info =
  inf_domain :: arena_owner_id
  inf_owner :: arena_owner_id
  inf_alloc :: nat
  inf_kind :: resource_kind
  inf_bytes :: nat

definition lease_info_of :: "ledger \<Rightarrow> lease \<Rightarrow> lease_info option" where
  "lease_info_of l x = map_option (\<lambda>r. \<lparr>inf_domain = ls_domain x, inf_owner = ls_owner x,
     inf_alloc = ls_alloc x, inf_kind = ls_kind x, inf_bytes = rec_bytes r\<rparr>) (led_allocs l (ls_alloc x))"

record acquisition_sequence =
  seq_owner :: arena_owner_id
  seq_last :: "acquisition_order option"

definition sequence_new :: "arena_owner_id \<Rightarrow> acquisition_sequence" where
  "sequence_new ow = \<lparr>seq_owner = ow, seq_last = None\<rparr>"

definition sequence_try_reserve ::
  "acquisition_sequence \<Rightarrow> nat \<Rightarrow> ledger \<Rightarrow> nat \<Rightarrow> resource_kind \<Rightarrow> reservation_class \<Rightarrow>
   acquisition_order \<Rightarrow> nat \<Rightarrow> (admission_error + lease) \<times> acquisition_sequence \<times> ledger" where
  "sequence_try_reserve q i l a k c ord b =
     (case seq_last q of
        Some held \<Rightarrow>
          if ord < held then (Inl (AcquisitionOrderViolation held ord), q, l)
          else (case try_reserve_class i l (seq_owner q) a k c b of
              (Inl e, l') \<Rightarrow> (Inl e, q, l')
            | (Inr x, l') \<Rightarrow> (Inr x, q\<lparr>seq_last := Some ord\<rparr>, l'))
      | None \<Rightarrow> (case try_reserve_class i l (seq_owner q) a k c b of
              (Inl e, l') \<Rightarrow> (Inl e, q, l')
            | (Inr x, l') \<Rightarrow> (Inr x, q\<lparr>seq_last := Some ord\<rparr>, l')))"

section \<open>Programs that own leases\<close>

text \<open>
  One ledger with the lease objects alive, each with the number of its handles. Operations name a
  lease by its position; a position past the end is not an operation a program can make, and
  leaves the world as it is.
\<close>

record world =
  w_id :: nat
  w_ledger :: ledger
  w_leases :: "(lease \<times> nat) list"

datatype world_op =
    Reserve arena_owner_id nat resource_kind reservation_class nat
  | Share arena_owner_id nat
  | ShareForeign arena_owner_id lease
  | CloneHandle nat
  | DropHandle nat
  | Reconcile nat nat
  | Info nat

definition remove_at :: "nat \<Rightarrow> 'a list \<Rightarrow> 'a list" where
  "remove_at i xs = take i xs @ drop (Suc i) xs"

definition adopt :: "world \<Rightarrow> ('e + lease) \<times> ledger \<Rightarrow> world" where
  "adopt w res = (case res of
     (Inl _, l) \<Rightarrow> w\<lparr>w_ledger := l\<rparr>
   | (Inr x, l) \<Rightarrow> w\<lparr>w_ledger := l, w_leases := w_leases w @ [(x, 1)]\<rparr>)"

definition drop_handle :: "world \<Rightarrow> nat \<Rightarrow> world option" where
  "drop_handle w i = (let (x, n) = w_leases w ! i in
     if n > 1 then Some (w\<lparr>w_leases := (w_leases w)[i := (x, n - 1)]\<rparr>)
     else map_option (\<lambda>l. w\<lparr>w_ledger := l, w_leases := remove_at i (w_leases w)\<rparr>)
            (remove_reference (w_ledger w) (ls_owner x) (ls_alloc x)))"

fun world_step :: "world_op \<Rightarrow> world \<Rightarrow> world option" where
  "world_step (Reserve ow a k c b) w =
     Some (adopt w (try_reserve_class (w_id w) (w_ledger w) ow a k c b))"
| "world_step (Share ow i) w =
     (if i < length (w_leases w)
      then Some (adopt w (try_share (w_id w) (w_ledger w) ow (fst (w_leases w ! i)))) else Some w)"
| "world_step (ShareForeign ow x) w =
     (if ls_ledger x \<noteq> w_id w then Some (adopt w (try_share (w_id w) (w_ledger w) ow x)) else Some w)"
| "world_step (CloneHandle i) w =
     (if i < length (w_leases w)
      then Some (w\<lparr>w_leases := (w_leases w)[i := (fst (w_leases w ! i), Suc (snd (w_leases w ! i)))]\<rparr>)
      else Some w)"
| "world_step (DropHandle i) w = (if i < length (w_leases w) then drop_handle w i else Some w)"
| "world_step (Reconcile i b) w =
     (if i < length (w_leases w)
      then map_option (\<lambda>p. w\<lparr>w_ledger := snd p\<rparr>)
             (reconcile (w_ledger w) (ls_alloc (fst (w_leases w ! i))) b)
      else Some w)"
| "world_step (Info i) w =
     (if i < length (w_leases w)
      then map_option (\<lambda>_. w) (lease_info_of (w_ledger w) (fst (w_leases w ! i))) else Some w)"

fun world_run :: "world_op list \<Rightarrow> world \<Rightarrow> world option" where
  "world_run [] w = Some w"
| "world_run (op # ops) w = Option.bind (world_step op w) (world_run ops)"

section \<open>Invariant\<close>

text \<open>The sum of a measure over the active allocations.\<close>

definition total :: "(alloc_record \<Rightarrow> nat) \<Rightarrow> (nat \<rightharpoonup> alloc_record) \<Rightarrow> nat" where
  "total f m = (\<Sum>a\<in>dom m. f (the (m a)))"

abbreviation "class_bytes c r \<equiv> (if rec_class r = c then rec_bytes r else 0)"
abbreviation "kind_bytes k r \<equiv> (if rec_kind r = k then rec_bytes r else 0)"

definition sums_ok :: "ledger \<Rightarrow> bool" where
  "sums_ok l \<longleftrightarrow> finite (dom (led_allocs l)) \<and>
     led_reserved l = total rec_bytes (led_allocs l) \<and>
     led_terminal l = total (class_bytes Terminal) (led_allocs l) \<and>
     led_retirement l = total (class_bytes Retirement) (led_allocs l) \<and>
     led_managed l = total (kind_bytes Managed) (led_allocs l) \<and>
     led_queue l = total (kind_bytes Queue) (led_allocs l)"

definition bounds_ok :: "ledger \<Rightarrow> bool" where
  "bounds_ok l \<longleftrightarrow> led_capacity l \<le> u64_max \<and>
     led_terminal_cap l + led_retirement_cap l \<le> led_capacity l \<and>
     led_terminal l \<le> led_terminal_cap l \<and> led_retirement l \<le> led_retirement_cap l \<and>
     led_reserved l - led_terminal l - led_retirement l
       \<le> led_capacity l - led_terminal_cap l - led_retirement_cap l \<and>
     led_reserved l \<le> led_peak l \<and> led_peak l \<le> led_capacity l"

definition alloc_uses :: "lease list \<Rightarrow> nat \<Rightarrow> nat" where
  "alloc_uses xs a = length (filter (\<lambda>x. ls_alloc x = a) xs)"

definition owner_uses :: "lease list \<Rightarrow> nat \<Rightarrow> arena_owner_id \<Rightarrow> nat" where
  "owner_uses xs a ow = length (filter (\<lambda>x. ls_alloc x = a \<and> ls_owner x = ow) xs)"

definition owner_count :: "alloc_record \<Rightarrow> arena_owner_id \<Rightarrow> nat" where
  "owner_count r ow = (case rec_owners r ow of None \<Rightarrow> 0 | Some n \<Rightarrow> n)"

definition record_ok :: "lease list \<Rightarrow> nat \<Rightarrow> alloc_record \<Rightarrow> bool" where
  "record_ok xs a r \<longleftrightarrow> 0 < rec_bytes r \<and> 0 < rec_refs r \<and> rec_refs r = alloc_uses xs a \<and>
     (\<forall>ow. owner_count r ow = owner_uses xs a ow \<and> rec_owners r ow \<noteq> Some 0)"

definition entry_ok :: "lease list \<Rightarrow> (nat \<rightharpoonup> alloc_record) \<Rightarrow> nat \<Rightarrow> bool" where
  "entry_ok xs m a \<longleftrightarrow>
     (case m a of None \<Rightarrow> alloc_uses xs a = 0 | Some r \<Rightarrow> record_ok xs a r)"

definition refs_ok :: "ledger \<Rightarrow> lease list \<Rightarrow> bool" where
  "refs_ok l xs \<longleftrightarrow> led_leases l = length xs \<and> length xs \<le> u64_max \<and>
     (\<forall>a. entry_ok xs (led_allocs l) a) \<and>
     (\<forall>x\<in>set xs. ls_domain x = led_domain l \<and>
        (\<forall>r. led_allocs l (ls_alloc x) = Some r \<longrightarrow> ls_kind x = rec_kind r))"

definition world_ok :: "world \<Rightarrow> bool" where
  "world_ok w \<longleftrightarrow> sums_ok (w_ledger w) \<and> bounds_ok (w_ledger w) \<and>
     refs_ok (w_ledger w) (map fst (w_leases w)) \<and>
     (\<forall>(x, n)\<in>set (w_leases w). 0 < n \<and> ls_ledger x = w_id w)"

section \<open>Sums over the active allocations\<close>

lemma total_empty [simp]: "total f Map.empty = 0"
  by (simp add: total_def)

lemma total_fresh:
  "finite (dom m) \<Longrightarrow> m a = None \<Longrightarrow> total f (m(a \<mapsto> r)) = total f m + f r"
proof -
  assume m: "finite (dom m)" "m a = None"
  then have "a \<notin> dom m" by auto
  moreover have "(\<Sum>x\<in>dom m. f (the ((m(a \<mapsto> r)) x))) = (\<Sum>x\<in>dom m. f (the (m x)))"
    using m by (intro sum.cong) auto
  ultimately show ?thesis using m by (simp add: total_def)
qed

lemma total_delete:
  assumes "finite (dom m)" and "m a = Some r"
  shows "total f m = total f (m(a := None)) + f r"
proof -
  have "m = (m(a := None))(a \<mapsto> r)" using assms by auto
  moreover have "finite (dom (m(a := None)))" using assms by simp
  ultimately show ?thesis using total_fresh [of "m(a := None)" a f r] by simp
qed

lemma total_change:
  assumes "finite (dom m)" and "m a = Some r"
  shows "total f (m(a \<mapsto> r')) + f r = total f m + f r'"
  using total_delete [OF assms, of f] total_delete [of "m(a \<mapsto> r')" a r' f] assms by simp

lemma total_ge: "finite (dom m) \<Longrightarrow> m a = Some r \<Longrightarrow> f r \<le> total f m"
  by (simp add: total_delete)

lemma total_sum: "total (\<lambda>r. f r + g r) m = total f m + total g m"
  by (simp add: total_def sum.distrib)

lemma total_by_kind:
  "total rec_bytes m = total (kind_bytes Managed) m + total (kind_bytes Queue) m"
proof -
  have "rec_bytes r = kind_bytes Managed r + kind_bytes Queue r" for r
    by (cases "rec_kind r") simp_all
  then have "rec_bytes = (\<lambda>r. kind_bytes Managed r + kind_bytes Queue r)" by (rule ext)
  then have "total rec_bytes m = total (\<lambda>r. kind_bytes Managed r + kind_bytes Queue r) m"
    by (rule arg_cong [where f = "\<lambda>f. total f m"])
  then show ?thesis by (simp only: total_sum)
qed

lemma total_by_class:
  "total rec_bytes m = total (class_bytes Ordinary) m +
     (total (class_bytes Terminal) m + total (class_bytes Retirement) m)"
proof -
  have "rec_bytes r = class_bytes Ordinary r + (class_bytes Terminal r + class_bytes Retirement r)"
    for r by (cases "rec_class r") simp_all
  then have "rec_bytes =
      (\<lambda>r. class_bytes Ordinary r + (class_bytes Terminal r + class_bytes Retirement r))" by (rule ext)
  then have "total rec_bytes m =
      total (\<lambda>r. class_bytes Ordinary r + (class_bytes Terminal r + class_bytes Retirement r)) m"
    by (rule arg_cong [where f = "\<lambda>f. total f m"])
  then show ?thesis by (simp only: total_sum)
qed

lemma sums_ok_split:
  assumes "sums_ok l"
  shows "led_terminal l + led_retirement l \<le> led_reserved l"
    "led_managed l + led_queue l = led_reserved l"
  using assms total_by_class [of "led_allocs l"] total_by_kind [of "led_allocs l"]
  by (auto simp: sums_ok_def)

section \<open>Charging and discharging\<close>

text \<open>What a successful admission, and a successful release, do to the counters.\<close>

definition charge :: "ledger \<Rightarrow> reservation_class \<Rightarrow> resource_kind \<Rightarrow> nat \<Rightarrow> ledger" where
  "charge l c k b = l\<lparr>led_reserved := led_reserved l + b,
     led_terminal := led_terminal l + (if c = Terminal then b else 0),
     led_retirement := led_retirement l + (if c = Retirement then b else 0),
     led_managed := led_managed l + (if k = Managed then b else 0),
     led_queue := led_queue l + (if k = Queue then b else 0),
     led_peak := max (led_peak l) (led_reserved l + b)\<rparr>"

definition discharge :: "ledger \<Rightarrow> reservation_class \<Rightarrow> resource_kind \<Rightarrow> nat \<Rightarrow> ledger" where
  "discharge l c k b = l\<lparr>led_reserved := led_reserved l - b,
     led_terminal := led_terminal l - (if c = Terminal then b else 0),
     led_retirement := led_retirement l - (if c = Retirement then b else 0),
     led_managed := led_managed l - (if k = Managed then b else 0),
     led_queue := led_queue l - (if k = Queue then b else 0)\<rparr>"

definition books_ok :: "ledger \<Rightarrow> bool" where
  "books_ok l \<longleftrightarrow> sums_ok l \<and> bounds_ok l"

lemma charge_fits:
  assumes "books_ok l" and "b \<le> class_available l c"
  shows "led_reserved l + b \<le> led_capacity l" "led_reserved l + b \<le> u64_max"
    "led_managed l + b \<le> u64_max" "led_queue l + b \<le> u64_max"
    "led_terminal l + b \<le> u64_max" "led_retirement l + b \<le> u64_max"
proof -
  note split = sums_ok_split [of l]
  show cap: "led_reserved l + b \<le> led_capacity l"
    using assms split by (cases c) (auto simp: books_ok_def bounds_ok_def class_available_def)
  then show max: "led_reserved l + b \<le> u64_max"
    using assms by (simp add: books_ok_def bounds_ok_def)
  show "led_managed l + b \<le> u64_max" "led_queue l + b \<le> u64_max"
    "led_terminal l + b \<le> u64_max" "led_retirement l + b \<le> u64_max"
    using max split assms by (auto simp: books_ok_def)
qed

lemma charge_bounds:
  assumes "books_ok l" and "b \<le> class_available l c"
  shows "bounds_ok (charge l c k b)"
  using assms sums_ok_split [of l] charge_fits(1) [OF assms]
  by (cases c) (auto simp: books_ok_def bounds_ok_def class_available_def charge_def)

lemma try_reserve_class_cases:
  assumes ok: "books_ok l" and res: "try_reserve_class i l ow a k c b = (r, l')"
  obtains (refused) e where "r = Inl e" "l' = l"
  | (admitted) "r = Inr \<lparr>ls_domain = led_domain l, ls_owner = ow, ls_alloc = a, ls_kind = k, ls_ledger = i\<rparr>"
      "0 < b" "led_allocs l a = None" "b \<le> class_available l c" "led_leases l < u64_max"
      "l' = (charge l c k b)\<lparr>led_leases := Suc (led_leases l),
         led_allocs := (led_allocs l)(a \<mapsto> \<lparr>rec_kind = k, rec_class = c, rec_bytes = b, rec_refs = 1,
           rec_owners = [ow \<mapsto> 1]\<rparr>)\<rparr>"
proof (cases "0 < b \<and> led_allocs l a = None \<and> b \<le> class_available l c \<and> led_leases l < u64_max")
  case True
  note fits = charge_fits [OF ok, of b c]
  have "try_reserve_class i l ow a k c b =
     (Inr \<lparr>ls_domain = led_domain l, ls_owner = ow, ls_alloc = a, ls_kind = k, ls_ledger = i\<rparr>,
      (charge l c k b)\<lparr>led_leases := Suc (led_leases l),
         led_allocs := (led_allocs l)(a \<mapsto> \<lparr>rec_kind = k, rec_class = c, rec_bytes = b, rec_refs = 1,
           rec_owners = [ow \<mapsto> 1]\<rparr>)\<rparr>)"
    using True fits
    by (cases k; cases c)
      (simp_all add: try_reserve_class_def Let_def add_kind_def add_class_def charge_def checked_add_def)
  with True res show ?thesis by (intro admitted) auto
next
  case False
  then have "\<exists>e. try_reserve_class i l ow a k c b = (Inl e, l)"
    by (auto simp: try_reserve_class_def Let_def checked_add_def)
  with res show ?thesis by (auto intro: refused)
qed

lemma class_bytes_add: "class_bytes c \<lparr>rec_kind = k, rec_class = c', rec_bytes = b, rec_refs = n,
    rec_owners = ows\<rparr> = (if c' = c then b else 0)"
  by simp

lemma reserve_books:
  assumes ok: "books_ok l" and res: "try_reserve_class i l ow a k c b = (r, l')"
  shows "books_ok l'"
  using ok res
proof (cases rule: try_reserve_class_cases)
  case refused
  with ok show ?thesis by simp
next
  case admitted
  have "bounds_ok l'"
    using charge_bounds [OF ok admitted(4), of k]
    by (simp add: admitted(6) bounds_ok_def charge_def)
  moreover have "sums_ok l'"
    using ok admitted(3) by (auto simp: admitted(6) books_ok_def sums_ok_def charge_def total_fresh)
  ultimately show ?thesis by (simp add: books_ok_def)
qed

section \<open>Reconciliation keeps the books\<close>

lemma sums_change:
  assumes sums: "sums_ok l" and old: "led_allocs l a = Some r"
    and new: "led_allocs l' = (led_allocs l)(a \<mapsto> r')"
    and "led_reserved l' + rec_bytes r = led_reserved l + rec_bytes r'"
    and "led_terminal l' + class_bytes Terminal r = led_terminal l + class_bytes Terminal r'"
    and "led_retirement l' + class_bytes Retirement r = led_retirement l + class_bytes Retirement r'"
    and "led_managed l' + kind_bytes Managed r = led_managed l + kind_bytes Managed r'"
    and "led_queue l' + kind_bytes Queue r = led_queue l + kind_bytes Queue r'"
  shows "sums_ok l'"
proof -
  have fin: "finite (dom (led_allocs l))" using sums by (simp add: sums_ok_def)
  have shift: "c' = total f (led_allocs l')"
    if "c' + f r = c + f r'" "c = total f (led_allocs l)" for c c' f
    using that total_change [OF fin old, of f r'] by (simp add: new)
  have "led_reserved l' = total rec_bytes (led_allocs l')"
    by (rule shift [OF assms(4)]) (use sums in \<open>simp add: sums_ok_def\<close>)
  moreover have "led_terminal l' = total (class_bytes Terminal) (led_allocs l')"
    by (rule shift [where f = "class_bytes Terminal", OF assms(5)])
      (use sums in \<open>simp add: sums_ok_def\<close>)
  moreover have "led_retirement l' = total (class_bytes Retirement) (led_allocs l')"
    by (rule shift [where f = "class_bytes Retirement", OF assms(6)])
      (use sums in \<open>simp add: sums_ok_def\<close>)
  moreover have "led_managed l' = total (kind_bytes Managed) (led_allocs l')"
    by (rule shift [where f = "kind_bytes Managed", OF assms(7)])
      (use sums in \<open>simp add: sums_ok_def\<close>)
  moreover have "led_queue l' = total (kind_bytes Queue) (led_allocs l')"
    by (rule shift [where f = "kind_bytes Queue", OF assms(8)])
      (use sums in \<open>simp add: sums_ok_def\<close>)
  moreover have "finite (dom (led_allocs l'))" using fin by (simp add: new)
  ultimately show ?thesis by (simp add: sums_ok_def)
qed

lemma reconcile_grow_eq:
  assumes ok: "books_ok l" and fit: "actual - reserved \<le> class_available l c"
  shows "reconcile_grow l c k reserved actual = (Inr (), charge l c k (actual - reserved))"
  using charge_fits [OF ok fit] fit
  by (cases c; cases k) (simp_all add: reconcile_grow_def Let_def charge_def checked_add_def)

lemma reconcile_shrink_eq:
  assumes ok: "sums_ok l" and rec: "led_allocs l a = Some r" and b: "b \<le> rec_bytes r"
  shows "reconcile_shrink l (rec_class r) (rec_kind r) b = Some (discharge l (rec_class r) (rec_kind r) b)"
proof -
  have fin: "finite (dom (led_allocs l))" using ok by (simp add: sums_ok_def)
  note ge = total_ge [OF fin rec]
  show ?thesis
    using ok b ge [of rec_bytes] ge [of "class_bytes (rec_class r)"] ge [of "kind_bytes (rec_kind r)"]
    by (cases "rec_class r"; cases "rec_kind r")
      (simp_all add: reconcile_shrink_def subtract_class_def subtract_kind_def sums_ok_def
        discharge_def)
qed

lemma reconcile_books:
  assumes ok: "books_ok l"
  shows "\<exists>res l'. reconcile l a b = Some (res, l') \<and> books_ok l' \<and> (\<not> is_ok res \<longrightarrow> l' = l)"
proof (cases "led_allocs l a")
  case None
  with ok show ?thesis by (simp add: reconcile_def)
next
  case (Some r)
  have fin: "finite (dom (led_allocs l))" and sums: "sums_ok l"
    using ok by (auto simp: books_ok_def sums_ok_def)
  note ge = total_ge [OF fin Some]
  consider (same) "b = 0 \<or> b = rec_bytes r"
    | (denied) "b > rec_bytes r" "b - rec_bytes r > class_available l (rec_class r)"
    | (grow) "b > rec_bytes r" "b - rec_bytes r \<le> class_available l (rec_class r)"
    | (shrink) "0 < b" "b < rec_bytes r" by linarith
  then show ?thesis
  proof cases
    case same
    with ok Some show ?thesis by (auto simp: reconcile_def)
  next
    case denied
    with ok Some show ?thesis by (simp add: reconcile_def reconcile_grow_def Let_def)
  next
    case grow
    let ?l = "set_bytes (charge l (rec_class r) (rec_kind r) (b - rec_bytes r)) a b"
    have "reconcile l a b = Some (Inr (), ?l)"
      using grow Some reconcile_grow_eq [OF ok grow(2)] by (simp add: reconcile_def)
    moreover have "bounds_ok ?l"
      using charge_bounds [OF ok grow(2), of "rec_kind r"] by (simp add: bounds_ok_def set_bytes_def)
    moreover have "sums_ok ?l"
      using grow(1) Some
      by (intro sums_change [OF sums Some, where r' = "r\<lparr>rec_bytes := b\<rparr>"])
        (simp_all add: charge_def set_bytes_def)
    ultimately show ?thesis by (auto simp: books_ok_def)
  next
    case shrink
    let ?l = "set_bytes (discharge l (rec_class r) (rec_kind r) (rec_bytes r - b)) a b"
    have "reconcile l a b = Some (Inr (), ?l)"
      using shrink Some reconcile_shrink_eq [OF sums Some, of "rec_bytes r - b"]
      by (simp add: reconcile_def)
    moreover have "sums_ok ?l"
      using shrink(2) Some sums ge [of rec_bytes] ge [of "class_bytes (rec_class r)"]
        ge [of "kind_bytes (rec_kind r)"]
      by (intro sums_change [OF sums Some, where r' = "r\<lparr>rec_bytes := b\<rparr>"])
        (auto simp: discharge_def set_bytes_def sums_ok_def)
    moreover have "bounds_ok ?l"
      using ok sums_ok_split(1) [OF sums] ge [of "class_bytes (rec_class r)"] sums shrink
      by (cases "rec_class r") (auto simp: books_ok_def bounds_ok_def set_bytes_def discharge_def sums_ok_def)
    ultimately show ?thesis by (auto simp: books_ok_def)
  qed
qed

section \<open>Reference counts\<close>

lemma alloc_uses_append [simp]:
  "alloc_uses (xs @ [x]) a = alloc_uses xs a + (if ls_alloc x = a then 1 else 0)"
  by (simp add: alloc_uses_def)

lemma owner_uses_append [simp]:
  "owner_uses (xs @ [x]) a ow = owner_uses xs a ow + (if ls_alloc x = a \<and> ls_owner x = ow then 1 else 0)"
  by (simp add: owner_uses_def)

lemma owner_le_alloc: "owner_uses xs a ow \<le> alloc_uses xs a"
  by (induction xs) (auto simp: owner_uses_def alloc_uses_def)

lemma filter_remove_at:
  "i < length xs \<Longrightarrow>
     length (filter P (remove_at i xs)) + (if P (xs ! i) then 1 else 0) = length (filter P xs)"
  unfolding remove_at_def by (subst (3) id_take_nth_drop [of i xs]) auto

lemma uses_remove_at:
  assumes "i < length xs"
  shows "alloc_uses (remove_at i xs) a + (if ls_alloc (xs ! i) = a then 1 else 0) = alloc_uses xs a"
    "owner_uses (remove_at i xs) a ow
      + (if ls_alloc (xs ! i) = a \<and> ls_owner (xs ! i) = ow then 1 else 0) = owner_uses xs a ow"
  using filter_remove_at [OF assms, of "\<lambda>x. ls_alloc x = a"]
    filter_remove_at [OF assms, of "\<lambda>x. ls_alloc x = a \<and> ls_owner x = ow"]
  by (simp_all add: alloc_uses_def owner_uses_def)

lemma length_remove_at [simp]: "i < length xs \<Longrightarrow> length (remove_at i xs) = length xs - 1"
  by (simp add: remove_at_def)

lemma set_remove_at: "set (remove_at i xs) \<subseteq> set xs"
  unfolding remove_at_def using set_take_subset [of i xs] set_drop_subset [of "Suc i" xs] by auto

lemma map_remove_at: "map f (remove_at i xs) = remove_at i (map f xs)"
  by (simp add: remove_at_def take_map drop_map)

lemma alloc_uses_pos: "x \<in> set xs \<Longrightarrow> 0 < alloc_uses xs (ls_alloc x)"
  by (auto simp: alloc_uses_def filter_empty_conv)

lemma refs_okD:
  assumes "refs_ok l xs"
  shows "led_leases l = length xs" "length xs \<le> u64_max"
    "led_allocs l a = None \<Longrightarrow> alloc_uses xs a = 0"
    "led_allocs l a = Some r \<Longrightarrow> record_ok xs a r"
    "x \<in> set xs \<Longrightarrow> ls_domain x = led_domain l"
    "x \<in> set xs \<Longrightarrow> led_allocs l (ls_alloc x) = Some r \<Longrightarrow> ls_kind x = rec_kind r"
proof -
  have a: "entry_ok xs (led_allocs l) a" using assms by (simp add: refs_ok_def)
  show "led_allocs l a = None \<Longrightarrow> alloc_uses xs a = 0"
    "led_allocs l a = Some r \<Longrightarrow> record_ok xs a r"
    using a by (auto simp: entry_ok_def)
qed (use assms in \<open>auto simp: refs_ok_def\<close>)

lemma entry_frame:
  "\<lbrakk>m' a = m a; alloc_uses ys a = alloc_uses xs a; \<And>ow. owner_uses ys a ow = owner_uses xs a ow;
    entry_ok xs m a\<rbrakk> \<Longrightarrow> entry_ok ys m' a"
  by (simp add: entry_ok_def record_ok_def split: option.splits)

lemma live_lease_record:
  assumes "refs_ok l xs" and "x \<in> set xs"
  obtains r where "led_allocs l (ls_alloc x) = Some r" "record_ok xs (ls_alloc x) r" "ls_kind x = rec_kind r"
  using refs_okD(3,4,6) [OF assms(1)] alloc_uses_pos [OF assms(2)] assms(2)
  by (cases "led_allocs l (ls_alloc x)") auto

lemma refs_reserve:
  assumes refs: "refs_ok l xs" and ok: "books_ok l" and res: "try_reserve_class i l ow a k c b = (r, l')"
  shows "refs_ok l' (case r of Inl _ \<Rightarrow> xs | Inr x \<Rightarrow> xs @ [x])"
  using ok res
proof (cases rule: try_reserve_class_cases)
  case refused
  with refs show ?thesis by simp
next
  case admitted
  have none: "alloc_uses xs a = 0" using refs_okD(3) [OF refs admitted(3)] .
  then have owners: "owner_uses xs a ow' = 0" for ow'
    using owner_le_alloc [of xs a ow'] by simp
  have fresh: "ls_alloc x \<noteq> a" if "x \<in> set xs" for x
    using none alloc_uses_pos [OF that] by auto
  define x where
    "x = \<lparr>ls_domain = led_domain l, ls_owner = ow, ls_alloc = a, ls_kind = k, ls_ledger = i\<rparr>"
  have "entry_ok (xs @ [x]) (led_allocs l') a'" for a'
  proof (cases "a' = a")
    case True
    with none owners admitted(2) show ?thesis
      by (simp add: admitted(6) entry_ok_def record_ok_def owner_count_def x_def)
  next
    case False
    with refs show ?thesis
      by - (rule entry_frame [of _ _ "led_allocs l" _ xs], simp_all add: admitted(6) refs_ok_def x_def)
  qed
  moreover have "ls_domain y = led_domain l' \<and>
      (\<forall>r. led_allocs l' (ls_alloc y) = Some r \<longrightarrow> ls_kind y = rec_kind r)" if "y \<in> set (xs @ [x])" for y
    using that fresh [of y] refs_okD(5,6) [OF refs, of y]
    by (auto simp: admitted(6) charge_def x_def)
  moreover have "led_leases l' = length (xs @ [x])" "length (xs @ [x]) \<le> u64_max"
    using admitted(5) refs_okD(1) [OF refs] by (simp_all add: admitted(6))
  ultimately show ?thesis
    unfolding admitted(1) sum.case x_def [symmetric] refs_ok_def by blast
qed

lemma add_shared_cases:
  assumes "add_shared_reference l ow a k = (r, l')"
  obtains (refused) e where "r = Inl e" "l' = l"
  | (shared) rec where "r = Inr ()" "led_allocs l a = Some rec" "rec_kind rec = k"
      "led_leases l < u64_max"
      "l' = l\<lparr>led_allocs := (led_allocs l)(a \<mapsto> rec\<lparr>rec_refs := Suc (rec_refs rec),
         rec_owners := (rec_owners rec)(ow \<mapsto> Suc (owner_count rec ow))\<rparr>),
         led_leases := Suc (led_leases l)\<rparr>"
proof (cases r)
  case (Inl e)
  then show ?thesis
    using assms refused
    by (auto simp: add_shared_reference_def split: option.splits if_splits)
next
  case (Inr u)
  then show ?thesis
    using assms shared
    by (auto simp: add_shared_reference_def owner_count_def checked_add_def
        split: option.splits if_splits)
qed

lemma books_share:
  assumes ok: "books_ok l" and rec: "led_allocs l a = Some r"
    and same: "rec_bytes r' = rec_bytes r" "rec_class r' = rec_class r" "rec_kind r' = rec_kind r"
  shows "books_ok (l\<lparr>led_allocs := (led_allocs l)(a \<mapsto> r'), led_leases := n\<rparr>)"
proof -
  let ?l = "l\<lparr>led_allocs := (led_allocs l)(a \<mapsto> r'), led_leases := n\<rparr>"
  have sums: "sums_ok l" using ok by (simp add: books_ok_def)
  have "sums_ok ?l"
    using same by (intro sums_change [OF sums rec, where r' = r']) simp_all
  moreover have "bounds_ok ?l" using ok by (simp add: books_ok_def bounds_ok_def)
  ultimately show ?thesis by (simp add: books_ok_def)
qed

lemma refs_share:
  assumes refs: "refs_ok l xs" and res: "add_shared_reference l ow a k = (r, l')"
    and x: "ls_domain x = led_domain l" "ls_alloc x = a" "ls_owner x = ow" "ls_kind x = k"
  shows "refs_ok l' (case r of Inl _ \<Rightarrow> xs | Inr _ \<Rightarrow> xs @ [x])"
  using res
proof (cases rule: add_shared_cases)
  case refused
  with refs show ?thesis by simp
next
  case (shared rec)
  note old = refs_okD(4) [OF refs shared(2)]
  have "entry_ok (xs @ [x]) (led_allocs l') a'" for a'
  proof (cases "a' = a")
    case True
    with x old show ?thesis
      by (simp add: shared(5) entry_ok_def record_ok_def owner_count_def)
  next
    case False
    with x refs show ?thesis
      by - (rule entry_frame [of _ _ "led_allocs l" _ xs], simp_all add: shared(5) refs_ok_def)
  qed
  moreover have "ls_domain y = led_domain l' \<and>
      (\<forall>r. led_allocs l' (ls_alloc y) = Some r \<longrightarrow> ls_kind y = rec_kind r)" if "y \<in> set (xs @ [x])" for y
    using that x shared(2,3) refs_okD(5,6) [OF refs, of y]
    by (auto simp: shared(5))
  moreover have "led_leases l' = length (xs @ [x])" "length (xs @ [x]) \<le> u64_max"
    using shared(4) refs_okD(1) [OF refs] by (simp_all add: shared(5))
  ultimately show ?thesis
    unfolding shared(1) sum.case refs_ok_def by blast
qed

section \<open>Releasing a lease\<close>

lemma release_owner_ok:
  assumes rec: "record_ok xs a r" and i: "i < length xs" "ls_alloc (xs ! i) = a" "ls_owner (xs ! i) = ow"
  obtains r' where "release_owner r ow = Some r'" "rec_kind r' = rec_kind r"
    "rec_class r' = rec_class r" "rec_bytes r' = rec_bytes r"
    "rec_refs r' = alloc_uses (remove_at i xs) a"
    "\<forall>ow'. owner_count r' ow' = owner_uses (remove_at i xs) a ow' \<and> rec_owners r' ow' \<noteq> Some 0"
proof -
  have uses: "alloc_uses xs a = Suc (alloc_uses (remove_at i xs) a)"
    "owner_uses xs a ow' = owner_uses (remove_at i xs) a ow' + (if ow' = ow then 1 else 0)" for ow'
    using uses_remove_at(1) [OF i(1), of a] uses_remove_at(2) [OF i(1), of a ow'] i(2,3)
    by (auto split: if_splits)
  have count: "owner_count r ow' = owner_uses xs a ow'" "rec_owners r ow' \<noteq> Some 0" for ow'
    using rec by (auto simp: record_ok_def)
  have "owner_count r ow = Suc (owner_uses (remove_at i xs) a ow)"
    using count(1) [of ow] uses(2) [of ow] by simp
  then have n: "rec_owners r ow = Some (Suc (owner_uses (remove_at i xs) a ow))"
    by (auto simp: owner_count_def split: option.splits)
  let ?n = "owner_uses (remove_at i xs) a ow"
  let ?r = "r\<lparr>rec_refs := alloc_uses (remove_at i xs) a,
    rec_owners := (if ?n = 0 then (rec_owners r)(ow := None) else (rec_owners r)(ow \<mapsto> ?n))\<rparr>"
  have "rec_refs r = Suc (alloc_uses (remove_at i xs) a)"
    using rec uses(1) by (simp add: record_ok_def)
  then have "release_owner r ow = Some ?r"
    using n by (simp add: release_owner_def)
  moreover have "owner_count ?r ow' = owner_uses (remove_at i xs) a ow' \<and> rec_owners ?r ow' \<noteq> Some 0"
    for ow'
    using count [of ow'] uses(2) [of ow'] by (auto simp: owner_count_def)
  ultimately show ?thesis using that [of ?r] by simp
qed

lemma sums_delete:
  assumes sums: "sums_ok l" and old: "led_allocs l a = Some r"
  shows "sums_ok (discharge (l\<lparr>led_allocs := (led_allocs l)(a := None), led_leases := n\<rparr>)
    (rec_class r) (rec_kind r) (rec_bytes r))"
proof -
  have fin: "finite (dom (led_allocs l))" using sums by (simp add: sums_ok_def)
  note del = total_delete [OF fin old]
  show ?thesis
    using sums del [of rec_bytes] del [of "class_bytes Terminal"] del [of "class_bytes Retirement"]
      del [of "kind_bytes Managed"] del [of "kind_bytes Queue"]
    by (cases "rec_class r"; cases "rec_kind r") (simp_all add: sums_ok_def discharge_def)
qed

lemma bounds_discharge:
  assumes ok: "books_ok l" and old: "led_allocs l a = Some r"
  shows "bounds_ok (discharge (l\<lparr>led_allocs := m, led_leases := n\<rparr>) (rec_class r) (rec_kind r) (rec_bytes r))"
proof -
  have sums: "sums_ok l" using ok by (simp add: books_ok_def)
  then have fin: "finite (dom (led_allocs l))" by (simp add: sums_ok_def)
  show ?thesis
    using ok sums sums_ok_split(1) [OF sums] total_ge [OF fin old, of "class_bytes (rec_class r)"]
    by (cases "rec_class r") (auto simp: books_ok_def bounds_ok_def discharge_def sums_ok_def)
qed

lemma discharge_eq:
  assumes sums: "sums_ok l" and old: "led_allocs l a = Some r"
    and l1: "led_reserved l1 = led_reserved l" "led_terminal l1 = led_terminal l"
      "led_retirement l1 = led_retirement l" "led_managed l1 = led_managed l" "led_queue l1 = led_queue l"
  shows "Option.bind (checked_sub (led_reserved l1) (rec_bytes r)) (\<lambda>res.
       Option.bind (subtract_class (l1\<lparr>led_allocs := m, led_reserved := res\<rparr>) (rec_class r) (rec_bytes r))
         (\<lambda>l2. subtract_kind l2 (rec_kind r) (rec_bytes r)))
     = Some (discharge (l1\<lparr>led_allocs := m\<rparr>) (rec_class r) (rec_kind r) (rec_bytes r))"
proof -
  have fin: "finite (dom (led_allocs l))" using sums by (simp add: sums_ok_def)
  note ge = total_ge [OF fin old]
  show ?thesis
    using sums l1 ge [of rec_bytes] ge [of "class_bytes (rec_class r)"] ge [of "kind_bytes (rec_kind r)"]
    by (cases "rec_class r"; cases "rec_kind r")
      (simp_all add: subtract_class_def subtract_kind_def sums_ok_def discharge_def)
qed

lemma remove_reference_ok:
  assumes ok: "books_ok l" and refs: "refs_ok l xs" and i: "i < length xs"
  shows "\<exists>l'. remove_reference l (ls_owner (xs ! i)) (ls_alloc (xs ! i)) = Some l' \<and> books_ok l' \<and>
    refs_ok l' (remove_at i xs)"
proof -
  let ?a = "ls_alloc (xs ! i)" and ?ow = "ls_owner (xs ! i)" and ?ys = "remove_at i xs"
  obtain r where r: "led_allocs l ?a = Some r" "record_ok xs ?a r"
    using live_lease_record [OF refs nth_mem [OF i]] by blast
  obtain r' where r': "release_owner r ?ow = Some r'" "rec_kind r' = rec_kind r"
    "rec_class r' = rec_class r" "rec_bytes r' = rec_bytes r" "rec_refs r' = alloc_uses ?ys ?a"
    "\<forall>ow'. owner_count r' ow' = owner_uses ?ys ?a ow' \<and> rec_owners r' ow' \<noteq> Some 0"
    by (rule release_owner_ok [OF r(2) i refl refl])
  have len: "led_leases l = length xs" "0 < led_leases l" "length ?ys = led_leases l - 1"
    "length xs \<le> u64_max"
    using refs i by (auto simp: refs_ok_def)
  have uses: "a \<noteq> ?a \<Longrightarrow> alloc_uses ?ys a = alloc_uses xs a"
    "a \<noteq> ?a \<Longrightarrow> owner_uses ?ys a ow = owner_uses xs a ow" for a ow
    using uses_remove_at [OF i, of a] by auto
  have other: "entry_ok ?ys m a" if "m a = led_allocs l a" "a \<noteq> ?a" for m a
    using that refs uses by - (rule entry_frame [of _ _ "led_allocs l" _ xs], simp_all add: refs_ok_def)
  have sums: "sums_ok l" using ok by (simp add: books_ok_def)
  define l1 where "l1 = l\<lparr>led_allocs := (led_allocs l)(?a \<mapsto> r'), led_leases := led_leases l - 1\<rparr>"
  have kinds: "y \<in> set ?ys \<Longrightarrow> ls_domain y = led_domain l"
    "y \<in> set ?ys \<Longrightarrow> led_allocs l (ls_alloc y) = Some q \<Longrightarrow> ls_kind y = rec_kind q" for y q
    using refs set_remove_at [of i xs] by (auto simp: refs_ok_def)
  show ?thesis
  proof (cases "rec_refs r' = 0")
    case True
    let ?l = "discharge (l1\<lparr>led_allocs := (led_allocs l1)(?a := None)\<rparr>)
      (rec_class r') (rec_kind r') (rec_bytes r')"
    have "remove_reference l ?ow ?a = Some ?l"
      using True r r'(1) len(2) discharge_eq [OF sums r(1), of l1 "(led_allocs l1)(?a := None)"]
      by (simp add: remove_reference_def l1_def [symmetric] r'(2-4) Let_def) (simp add: l1_def)
    moreover have l: "?l = discharge (l\<lparr>led_allocs := (led_allocs l)(?a := None),
        led_leases := led_leases l - 1\<rparr>) (rec_class r) (rec_kind r) (rec_bytes r)"
      by (simp add: l1_def r'(2-4) discharge_def)
    have "books_ok ?l"
      unfolding l books_ok_def using sums_delete [OF sums r(1)] bounds_discharge [OF ok r(1)] by simp
    moreover have "entry_ok ?ys ((led_allocs l)(?a := None)) a" for a
      using other [of "(led_allocs l)(?a := None)" a] True r'(5)
      by (cases "a = ?a") (simp_all add: entry_ok_def)
    then have "refs_ok ?l ?ys"
      using len kinds by (auto simp: refs_ok_def l1_def discharge_def)
    ultimately show ?thesis by blast
  next
    case False
    have "remove_reference l ?ow ?a = Some l1"
      using False r r'(1) len(2) by (simp add: remove_reference_def l1_def Let_def)
    moreover have "books_ok l1"
      unfolding l1_def using books_share [OF ok r(1) r'(4,3,2)] .
    moreover have "entry_ok ?ys (led_allocs l1) a" for a
      using other [of "led_allocs l1" a] False r(2) r'(4-6)
      by (cases "a = ?a") (auto simp: l1_def entry_ok_def record_ok_def)
    then have "refs_ok l1 ?ys"
      using len kinds r(1) r'(2) by (auto simp: refs_ok_def l1_def)
    ultimately show ?thesis by blast
  qed
qed

section \<open>Every program that owns its leases keeps the invariant\<close>

definition same_budget :: "ledger \<Rightarrow> ledger \<Rightarrow> bool" where
  "same_budget l l' \<longleftrightarrow> led_domain l' = led_domain l \<and> led_capacity l' = led_capacity l \<and>
     led_terminal_cap l' = led_terminal_cap l \<and> led_retirement_cap l' = led_retirement_cap l"

lemma same_budget_trans: "same_budget a b \<Longrightarrow> same_budget b c \<Longrightarrow> same_budget a c"
  by (simp add: same_budget_def)

lemma same_budget_refl [simp]: "same_budget l l"
  by (simp add: same_budget_def)

lemma reserve_same_budget: "try_reserve_class i l ow a k c b = (r, l') \<Longrightarrow> same_budget l l'"
  by (auto simp: try_reserve_class_def same_budget_def add_kind_def add_class_def Let_def
      split: if_splits option.splits prod.splits sum.splits resource_kind.splits
        reservation_class.splits)

lemma share_same_budget: "add_shared_reference l ow a k = (r, l') \<Longrightarrow> same_budget l l'"
  by (erule add_shared_cases) (simp_all add: same_budget_def)

lemma subtract_class_same: "subtract_class l c b = Some l' \<Longrightarrow> same_budget l l'"
  by (cases c) (auto simp: subtract_class_def same_budget_def)

lemma subtract_kind_same: "subtract_kind l k b = Some l' \<Longrightarrow> same_budget l l'"
  by (cases k) (auto simp: subtract_kind_def same_budget_def)

lemma remove_same_budget: "remove_reference l ow a = Some l' \<Longrightarrow> same_budget l l'"
  by (auto simp: remove_reference_def Let_def bind_eq_Some_conv split: if_splits
      dest!: subtract_class_same subtract_kind_same) (simp_all add: same_budget_def)

lemma reconcile_same_budget: "reconcile l a b = Some (r, l') \<Longrightarrow> same_budget l l'"
  by (auto simp: reconcile_def reconcile_grow_def reconcile_shrink_def Let_def bind_eq_Some_conv
      set_bytes_def split: if_splits option.splits prod.splits sum.splits
      dest!: subtract_class_same subtract_kind_same) (simp_all add: same_budget_def)

lemma refs_frame:
  assumes "refs_ok l xs" and "led_leases l' = led_leases l" "led_domain l' = led_domain l"
    and same: "\<And>a. rel_option (\<lambda>r r'. rec_kind r = rec_kind r' \<and> rec_refs r = rec_refs r' \<and>
      rec_owners r = rec_owners r' \<and> 0 < rec_bytes r') (led_allocs l a) (led_allocs l' a)"
  shows "refs_ok l' xs"
proof -
  have "entry_ok xs (led_allocs l') a" for a
    using same [of a] refs_okD(3,4) [OF assms(1), of a]
    by (cases "led_allocs l a"; cases "led_allocs l' a")
      (auto simp: entry_ok_def record_ok_def owner_count_def)
  moreover have "ls_kind x = rec_kind r" if "x \<in> set xs" "led_allocs l' (ls_alloc x) = Some r" for x r
    using same [of "ls_alloc x"] that refs_okD(6) [OF assms(1) that(1)]
    by (cases "led_allocs l (ls_alloc x)") auto
  ultimately show ?thesis
    using assms(1-3) by (simp add: refs_ok_def)
qed

lemma reconcile_refs:
  assumes refs: "refs_ok l xs" and res: "reconcile l a b = Some (r, l')"
  shows "refs_ok l' xs"
proof -
  have pos: "0 < rec_bytes r" if "led_allocs l a' = Some r" for a' r
    using refs_okD(4) [OF refs that] by (simp add: record_ok_def)
  have step: "refs_ok (set_bytes l1 a b) xs"
    if "b \<noteq> 0" "led_leases l1 = led_leases l" "led_domain l1 = led_domain l"
      "led_allocs l1 = led_allocs l" for l1
    using that pos
    by (intro refs_frame [OF refs])
      (auto simp: set_bytes_def option.rel_map intro!: option.rel_refl_strong)
  show ?thesis
    using res refs step
    by (auto simp: reconcile_def reconcile_grow_def reconcile_shrink_def Let_def bind_eq_Some_conv
        subtract_class_def subtract_kind_def
        split: if_splits option.splits prod.splits sum.splits resource_kind.splits
          reservation_class.splits) (metis resource_kind.exhaust)+
qed

lemma fst_lookup_update [simp]: "i < length xs \<Longrightarrow> map fst (xs[i := (fst (xs ! i), n)]) = map fst xs"
  using list_update_id [of "map fst xs" i] by (simp add: map_update)

lemma world_okD:
  assumes "world_ok w"
  shows "books_ok (w_ledger w)" "refs_ok (w_ledger w) (map fst (w_leases w))"
    "\<And>x n. (x, n) \<in> set (w_leases w) \<Longrightarrow> 0 < n \<and> ls_ledger x = w_id w"
  using assms by (auto simp: world_ok_def books_ok_def)

lemma world_okI:
  assumes "books_ok (w_ledger w)" "refs_ok (w_ledger w) (map fst (w_leases w))"
    "\<And>x n. (x, n) \<in> set (w_leases w) \<Longrightarrow> 0 < n \<and> ls_ledger x = w_id w"
  shows "world_ok w"
  using assms by (auto simp: world_ok_def books_ok_def)

lemma reserve_world:
  assumes ok: "world_ok w"
  shows "world_ok (adopt w (try_reserve_class (w_id w) (w_ledger w) ow a k c b))"
proof -
  obtain r l' where res: "try_reserve_class (w_id w) (w_ledger w) ow a k c b = (r, l')" by fastforce
  note books = reserve_books [OF world_okD(1) [OF ok] res]
  note refs = refs_reserve [OF world_okD(2) [OF ok] world_okD(1) [OF ok] res]
  have "ls_ledger x = w_id w" if "r = Inr x" for x
    using world_okD(1) [OF ok] res that by (cases rule: try_reserve_class_cases) auto
  with books refs world_okD(3) [OF ok] show ?thesis
    by (cases r) (auto simp: res adopt_def intro!: world_okI)
qed

lemma share_world:
  assumes ok: "world_ok w"
  shows "world_ok (adopt w (try_share (w_id w) (w_ledger w) ow x))"
proof (cases "ls_ledger x = w_id w")
  case False
  then show ?thesis using ok by (simp add: try_share_def adopt_def)
next
  case True
  obtain r l' where res: "add_shared_reference (w_ledger w) ow (ls_alloc x) (ls_kind x) = (r, l')"
    by fastforce
  let ?y = "\<lparr>ls_domain = led_domain (w_ledger w), ls_owner = ow, ls_alloc = ls_alloc x,
    ls_kind = ls_kind x, ls_ledger = w_id w\<rparr>"
  have books: "books_ok l'"
    using res
  proof (cases rule: add_shared_cases)
    case refused
    then show ?thesis using world_okD(1) [OF ok] by simp
  next
    case (shared rec)
    then show ?thesis
      using books_share [OF world_okD(1) [OF ok] shared(2)] by simp
  qed
  have "refs_ok l' (case r of Inl _ \<Rightarrow> map fst (w_leases w) | Inr _ \<Rightarrow> map fst (w_leases w) @ [?y])"
    by (rule refs_share [OF world_okD(2) [OF ok] res]) simp_all
  with books True share_same_budget [OF res] world_okD(3) [OF ok] show ?thesis
    by (cases r) (auto simp: try_share_def res adopt_def same_budget_def intro!: world_okI)
qed

lemma drop_world:
  assumes ok: "world_ok w" and i: "i < length (w_leases w)"
  shows "\<exists>w'. drop_handle w i = Some w' \<and> world_ok w'"
proof -
  obtain x n where x: "w_leases w ! i = (x, n)" by fastforce
  have mem: "(x, n) \<in> set (w_leases w)" using x nth_mem [OF i] by simp
  note own = world_okD(3) [OF ok mem]
  show ?thesis
  proof (cases "n > 1")
    case True
    have "map fst ((w_leases w)[i := (x, n - 1)]) = map fst (w_leases w)"
      using fst_lookup_update [OF i, of "n - 1"] x by simp
    with True x world_okD [OF ok] own set_update_subset_insert [of "w_leases w" i "(x, n - 1)"]
    have "world_ok (w\<lparr>w_leases := (w_leases w)[i := (x, n - 1)]\<rparr>)"
      by (intro world_okI) auto
    with True x show ?thesis by (simp add: drop_handle_def)
  next
    case False
    have i': "i < length (map fst (w_leases w))" using i by simp
    obtain l' where l': "remove_reference (w_ledger w) (ls_owner x) (ls_alloc x) = Some l'"
      "books_ok l'" "refs_ok l' (remove_at i (map fst (w_leases w)))"
      using remove_reference_ok [OF world_okD(1,2) [OF ok] i'] x i by auto
    have "world_ok (w\<lparr>w_ledger := l', w_leases := remove_at i (w_leases w)\<rparr>)"
      using l' world_okD(3) [OF ok] set_remove_at [of i "w_leases w"]
      by (intro world_okI) (auto simp: map_remove_at)
    with False x l'(1) show ?thesis by (simp add: drop_handle_def)
  qed
qed

lemma world_step_ok:
  assumes ok: "world_ok w"
  shows "\<exists>w'. world_step op w = Some w' \<and> world_ok w'"
proof (cases op)
  case (Reconcile i b)
  show ?thesis
  proof (cases "i < length (w_leases w)")
    case True
    obtain r l' where res: "reconcile (w_ledger w) (ls_alloc (fst (w_leases w ! i))) b = Some (r, l')"
      "books_ok l'" using reconcile_books [OF world_okD(1) [OF ok]] by blast
    then have "world_ok (w\<lparr>w_ledger := l'\<rparr>)"
      using reconcile_refs [OF world_okD(2) [OF ok] res(1)] world_okD(3) [OF ok]
      by (intro world_okI) auto
    with Reconcile True res(1) show ?thesis by simp
  qed (use Reconcile ok in simp)
next
  case (CloneHandle i)
  show ?thesis
  proof (cases "i < length (w_leases w)")
    case True
    let ?p = "(fst (w_leases w ! i), Suc (snd (w_leases w ! i)))"
    have "ls_ledger (fst ?p) = w_id w"
      using world_okD(3) [OF ok, of "fst (w_leases w ! i)" "snd (w_leases w ! i)"] nth_mem [OF True]
      by simp
    then have "world_ok (w\<lparr>w_leases := (w_leases w)[i := ?p]\<rparr>)"
      using world_okD [OF ok] True set_update_subset_insert [of "w_leases w" i ?p]
      by (intro world_okI) auto
    with CloneHandle True show ?thesis by simp
  qed (use CloneHandle ok in simp)
next
  case (Info i)
  show ?thesis
  proof (cases "i < length (w_leases w)")
    case True
    then have "fst (w_leases w ! i) \<in> set (map fst (w_leases w))" by simp
    then obtain r where "led_allocs (w_ledger w) (ls_alloc (fst (w_leases w ! i))) = Some r"
      by (rule live_lease_record [OF world_okD(2) [OF ok]])
    with Info True ok show ?thesis by (simp add: lease_info_of_def)
  qed (use Info ok in simp)
qed (use ok in \<open>auto simp: reserve_world share_world drop_world\<close>)

lemma world_run_ok: "world_ok w \<Longrightarrow> \<exists>w'. world_run ops w = Some w' \<and> world_ok w'"
proof (induction ops arbitrary: w)
  case (Cons op ops)
  then show ?case using world_step_ok [OF Cons.prems, of op] by fastforce
qed simp

lemma world_step_frame:
  assumes "world_step op w = Some w'"
  shows "w_id w' = w_id w \<and> same_budget (w_ledger w) (w_ledger w')"
proof -
  have adopt: "w_id (adopt w (r, l)) = w_id w" "w_ledger (adopt w (r, l)) = l"
    for r :: "'e + lease" and l by (cases r; simp add: adopt_def)+
  show ?thesis
  proof (cases op)
    case (Reserve ow a k c b)
    with assms show ?thesis
      using reserve_same_budget [of "w_id w" "w_ledger w" ow a k c b]
      by (cases "try_reserve_class (w_id w) (w_ledger w) ow a k c b") (auto simp: adopt)
  next
    case (Share ow i)
    with assms show ?thesis
      using share_same_budget
      by (auto simp: try_share_def adopt_def split: if_splits prod.splits sum.splits)
  next
    case (ShareForeign ow x)
    with assms show ?thesis by (auto simp: try_share_def adopt_def split: if_splits)
  next
    case (DropHandle i)
    with assms show ?thesis
      using remove_same_budget
      by (auto simp: drop_handle_def Let_def split: if_splits prod.splits)
  next
    case (Reconcile i b)
    with assms show ?thesis
      using reconcile_same_budget by (auto split: if_splits)
  qed (use assms in \<open>auto split: if_splits\<close>)
qed

lemma world_run_frame:
  "world_run ops w = Some w' \<Longrightarrow> w_id w' = w_id w \<and> same_budget (w_ledger w) (w_ledger w')"
proof (induction ops arbitrary: w)
  case (Cons op ops)
  then obtain w1 where "world_step op w = Some w1" "world_run ops w1 = Some w'"
    by (auto simp: bind_eq_Some_conv)
  with Cons.IH [of w1] world_step_frame [of op w w1] show ?case
    using same_budget_trans by auto
qed simp

definition world_new :: "nat \<Rightarrow> ledger \<Rightarrow> world" where
  "world_new i l = \<lparr>w_id = i, w_ledger = l, w_leases = []\<rparr>"

lemma world_new_ok:
  "budget_new d cap tcap rcap = Inr l \<Longrightarrow> cap \<le> u64_max \<Longrightarrow> world_ok (world_new i l)"
  by (auto simp: budget_new_def world_new_def world_ok_def sums_ok_def bounds_ok_def refs_ok_def
      entry_ok_def alloc_uses_def split: if_splits option.splits simp: arith64)

lemma world_run_reached:
  assumes "budget_new d cap tcap rcap = Inr l" and "cap \<le> u64_max"
    and "world_run ops (world_new i l) = Some w"
  shows "world_ok w" "w_id w = i" "led_domain (w_ledger w) = d" "led_capacity (w_ledger w) = cap"
    "led_terminal_cap (w_ledger w) = tcap" "led_retirement_cap (w_ledger w) = rcap"
proof -
  show "world_ok w"
    using world_run_ok [OF world_new_ok [OF assms(1,2), of i], of ops] assms(3) by auto
  show "w_id w = i" "led_domain (w_ledger w) = d" "led_capacity (w_ledger w) = cap"
    "led_terminal_cap (w_ledger w) = tcap" "led_retirement_cap (w_ledger w) = rcap"
    using world_run_frame [OF assms(3)] assms(1)
    by (auto simp: world_new_def same_budget_def budget_new_def split: if_splits option.splits)
qed

lemma live_allocs:
  assumes "refs_ok l xs"
  shows "dom (led_allocs l) = ls_alloc ` set xs"
proof
  show "dom (led_allocs l) \<subseteq> ls_alloc ` set xs"
  proof
    fix a
    assume "a \<in> dom (led_allocs l)"
    then obtain r where "led_allocs l a = Some r" by auto
    from refs_okD(4) [OF assms this] have "filter (\<lambda>x. ls_alloc x = a) xs \<noteq> []"
      by (auto simp: record_ok_def alloc_uses_def)
    then show "a \<in> ls_alloc ` set xs" by (auto simp: filter_empty_conv)
  qed
  show "ls_alloc ` set xs \<subseteq> dom (led_allocs l)"
    using live_lease_record [OF assms] by blast
qed

text \<open>An admission succeeds exactly when the class has room; a refusal changes nothing.\<close>

lemma reserve_exact:
  assumes ok: "books_ok l"
  shows "is_ok (fst (try_reserve_class i l ow a k c b)) \<longleftrightarrow>
      0 < b \<and> led_allocs l a = None \<and> b \<le> class_available l c \<and> led_leases l < u64_max"
    and "is_ok (fst (try_reserve_class i l ow a k c b)) \<or> snd (try_reserve_class i l ow a k c b) = l"
proof -
  obtain r l' where res: "try_reserve_class i l ow a k c b = (r, l')" by fastforce
  have "is_ok r" if "0 < b" "led_allocs l a = None" "b \<le> class_available l c" "led_leases l < u64_max"
    using charge_fits [OF ok that(3)] that res
    by (cases k; cases c) (auto simp: try_reserve_class_def Let_def add_kind_def add_class_def checked_add_def)
  moreover from ok res have "is_ok r \<longrightarrow> 0 < b \<and> led_allocs l a = None \<and>
      b \<le> class_available l c \<and> led_leases l < u64_max" "is_ok r \<or> l' = l"
    by (cases rule: try_reserve_class_cases; simp)+
  ultimately show "is_ok (fst (try_reserve_class i l ow a k c b)) \<longleftrightarrow>
      0 < b \<and> led_allocs l a = None \<and> b \<le> class_available l c \<and> led_leases l < u64_max"
    and "is_ok (fst (try_reserve_class i l ow a k c b)) \<or> snd (try_reserve_class i l ow a k c b) = l"
    using res by auto
qed

lemma reconcile_shape:
  assumes ok: "books_ok l" and rec: "led_allocs l a = Some r" and pos: "0 < rec_bytes r"
  shows "\<exists>res l'. reconcile l a b = Some (res, l') \<and>
    (is_ok res \<longleftrightarrow> 0 < b \<and> b - rec_bytes r \<le> class_available l (rec_class r)) \<and>
    (is_ok res \<longrightarrow> led_allocs l' = (led_allocs l)(a \<mapsto> r\<lparr>rec_bytes := b\<rparr>) \<and>
       led_reserved l' + rec_bytes r = led_reserved l + b) \<and>
    (\<not> is_ok res \<longrightarrow> l' = l)"
proof -
  have sums: "sums_ok l" and fin: "finite (dom (led_allocs l))"
    using ok by (auto simp: books_ok_def sums_ok_def)
  have ge: "rec_bytes r \<le> led_reserved l"
    using sums total_ge [OF fin rec, of rec_bytes] by (simp add: sums_ok_def)
  consider (zero) "b = 0" | (same) "b = rec_bytes r"
    | (denied) "b - rec_bytes r > class_available l (rec_class r)"
    | (grow) "b > rec_bytes r" "b - rec_bytes r \<le> class_available l (rec_class r)"
    | (shrink) "0 < b" "b < rec_bytes r" by linarith
  then show ?thesis
  proof cases
    case zero
    then show ?thesis by (simp add: reconcile_def)
  next
    case same
    then have "led_allocs l = (led_allocs l)(a \<mapsto> r\<lparr>rec_bytes := b\<rparr>)" using rec by auto
    with same rec pos show ?thesis by (simp add: reconcile_def)
  next
    case denied
    then have "b > rec_bytes r" by simp
    with denied rec show ?thesis by (simp add: reconcile_def reconcile_grow_def Let_def)
  next
    case grow
    then show ?thesis
      using rec reconcile_grow_eq [OF ok grow(2)] by (simp add: reconcile_def set_bytes_def charge_def)
  next
    case shrink
    then show ?thesis
      using rec ge reconcile_shrink_eq [OF sums rec, of "rec_bytes r - b"]
      by (simp add: reconcile_def set_bytes_def discharge_def)
  qed
qed

text \<open>Dropping the only lease of an admitted reservation gives everything back.\<close>

lemma admitted_released:
  assumes ok: "books_ok l" and res: "try_reserve_class i l ow a k c b = (Inr x, l1)"
  shows "ls_owner x = ow" "ls_alloc x = a"
    "\<exists>l2. remove_reference l1 ow a = Some l2 \<and> led_allocs l2 = led_allocs l \<and>
      led_reserved l2 = led_reserved l \<and> led_leases l2 = led_leases l"
proof -
  obtain r where l1: "x = \<lparr>ls_domain = led_domain l, ls_owner = ow, ls_alloc = a, ls_kind = k, ls_ledger = i\<rparr>"
    "led_allocs l a = None"
    "l1 = (charge l c k b)\<lparr>led_leases := Suc (led_leases l), led_allocs := (led_allocs l)(a \<mapsto> r)\<rparr>"
    "r = \<lparr>rec_kind = k, rec_class = c, rec_bytes = b, rec_refs = 1, rec_owners = [ow \<mapsto> 1]\<rparr>"
    using try_reserve_class_cases [OF ok res] by auto
  then show "ls_owner x = ow" "ls_alloc x = a" by simp_all
  have none: "(led_allocs l)(a := None) = led_allocs l" using l1(2) by (simp add: fun_upd_idem)
  show "\<exists>l2. remove_reference l1 ow a = Some l2 \<and> led_allocs l2 = led_allocs l \<and>
      led_reserved l2 = led_reserved l \<and> led_leases l2 = led_leases l"
    by (cases k; cases c)
      (simp_all add: l1(3,4) remove_reference_def release_owner_def charge_def subtract_class_def
        subtract_kind_def none Let_def)
qed

lemma reserve_ordinary_cases:
  assumes "books_ok l" and "try_reserve i l ow a k b = (r, l')"
  obtains (refused) e where "r = Inl e" "l' = l"
  | (admitted) x where "r = Inr x" "try_reserve_class i l ow a k Ordinary b = (Inr x, l')"
proof -
  obtain q l1 where q: "try_reserve_class i l ow a k Ordinary b = (q, l1)" by fastforce
  with assms(1) show thesis
  proof (cases rule: try_reserve_class_cases)
    case (refused e)
    with q assms(2) show thesis by (intro that(1)) (auto simp: try_reserve_def)
  next
    case admitted
    with q assms(2) show thesis by (intro that(2)) (auto simp: try_reserve_def)
  qed
qed

text \<open>A run of one acquisition sequence, with the orders of the admitted requests.\<close>

fun sequence_run ::
  "(nat \<times> resource_kind \<times> reservation_class \<times> acquisition_order \<times> nat) list \<Rightarrow>
   acquisition_sequence \<Rightarrow> nat \<Rightarrow> ledger \<Rightarrow> acquisition_order list" where
  "sequence_run [] q i l = []"
| "sequence_run ((a, k, c, ord, b) # rs) q i l =
     (case sequence_try_reserve q i l a k c ord b of
        (Inl _, q', l') \<Rightarrow> sequence_run rs q' i l'
      | (Inr _, q', l') \<Rightarrow> ord # sequence_run rs q' i l')"

lemma sequence_try_reserve_cases:
  assumes "sequence_try_reserve q i l a k c ord b = (r, q', l')"
  shows "case r of Inl _ \<Rightarrow> q' = q | Inr _ \<Rightarrow> seq_last q' = Some ord \<and> seq_owner q' = seq_owner q \<and>
    (\<forall>h. seq_last q = Some h \<longrightarrow> h \<le> ord)"
  using assms
  by (auto simp: sequence_try_reserve_def not_less split: option.splits if_splits prod.splits sum.splits)

lemma sequence_run_sorted:
  "sorted (sequence_run rs q i l) \<and>
   (\<forall>h. seq_last q = Some h \<longrightarrow> (\<forall>x\<in>set (sequence_run rs q i l). h \<le> x))"
proof (induction rs arbitrary: q l)
  case (Cons x rs)
  obtain a k c ord b where x: "x = (a, k, c, ord, b)" by (cases x) auto
  obtain r q' l' where res: "sequence_try_reserve q i l a k c ord b = (r, q', l')"
    by (cases "sequence_try_reserve q i l a k c ord b") auto
  from sequence_try_reserve_cases [OF res] Cons.IH [of q' l'] show ?case
    by (cases r) (auto simp: x res)
qed simp

section \<open>A sample budget\<close>

text \<open>A budget of 100 bytes with 20 protected for completion and 10 for retirement.\<close>

definition budget_sample_ledger :: ledger where
  "budget_sample_ledger = \<lparr>led_domain = ArenaOwnerId 1, led_capacity = 100, led_terminal_cap = 20,
     led_retirement_cap = 10, led_reserved = 0, led_terminal = 0, led_retirement = 0,
     led_managed = 0, led_queue = 0, led_peak = 0, led_leases = 0, led_allocs = Map.empty\<rparr>"

definition budget_sample_record :: "nat \<Rightarrow> alloc_record" where
  "budget_sample_record n = \<lparr>rec_kind = Managed, rec_class = Ordinary, rec_bytes = 70, rec_refs = n,
     rec_owners = [ArenaOwnerId 1 \<mapsto> n]\<rparr>"

definition budget_sample_lease :: lease where
  "budget_sample_lease = \<lparr>ls_domain = ArenaOwnerId 1, ls_owner = ArenaOwnerId 1, ls_alloc = 5,
     ls_kind = Managed, ls_ledger = 3\<rparr>"

definition budget_sample_world :: world where
  "budget_sample_world = \<lparr>w_id = 3,
     w_ledger = budget_sample_ledger\<lparr>led_reserved := 70, led_managed := 70, led_peak := 70, led_leases := 2,
       led_allocs := [5 \<mapsto> budget_sample_record 2]\<rparr>,
     w_leases = [(budget_sample_lease, 1), (budget_sample_lease, 1)]\<rparr>"

definition budget_sample_ops :: "world_op list" where
  "budget_sample_ops = [Reserve (ArenaOwnerId 1) 5 Managed Ordinary 70, Share (ArenaOwnerId 1) 0]"

lemmas budget_sample_defs = budget_sample_ledger_def budget_sample_record_def budget_sample_lease_def budget_sample_world_def
  budget_sample_ops_def

lemma budget_sample_new: "budget_new (ArenaOwnerId 1) 100 20 10 = Inr budget_sample_ledger" "100 \<le> u64_max"
  by (simp_all add: budget_new_def budget_sample_defs checked_add_def u64_max_def)

lemma budget_sample_run: "world_run budget_sample_ops (world_new 3 budget_sample_ledger) = Some budget_sample_world"
  by (simp add: budget_sample_defs world_new_def try_reserve_class_def class_available_def checked_add_def
      u64_max_val add_kind_def add_class_def adopt_def try_share_def add_shared_reference_def
      Let_def max_def numeral_2_eq_2)

lemma budget_sample_run_dropped:
  "world_run (budget_sample_ops @ [DropHandle 0, DropHandle 0]) (world_new 3 budget_sample_ledger)
     = Some (budget_sample_world\<lparr>w_ledger := budget_sample_ledger\<lparr>led_peak := 70\<rparr>, w_leases := []\<rparr>)"
  by (simp add: budget_sample_defs world_new_def try_reserve_class_def class_available_def checked_add_def
      u64_max_val add_kind_def add_class_def adopt_def try_share_def add_shared_reference_def
      Let_def max_def drop_handle_def remove_at_def remove_reference_def release_owner_def
      checked_sub_def subtract_class_def subtract_kind_def fun_upd_idem)

section \<open>Properties\<close>

text \<open>
  Whatever a program does with a fresh budget - reserving, sharing, cloning, reconciling,
  reading and dropping the leases it owns, in any order - no operation panics: every \<open>expect\<close> and
  every unchecked subtraction of the ledger is unreachable.
\<close>

theorem lease_run_total:
  assumes "budget_new d cap tcap rcap = Inr l" and "cap \<le> u64_max"
  shows "\<exists>w. world_run ops (world_new i l) = Some w"
  using world_run_ok [OF world_new_ok [OF assms]] by blast

theorem lease_run_total_witness:
  "\<exists>w. world_run [Reserve (ArenaOwnerId 1) 5 Queue Terminal 20, Reconcile 0 7, DropHandle 0, DropHandle 0]
     (world_new 3 budget_sample_ledger) = Some w"
  using budget_sample_new by (rule lease_run_total)

text \<open>
  C2: The accounting is conserved in every reachable state: the bytes reserved are the sum over the
  live allocations, split exactly by kind and by class; every class stays within its capacity; the
  leases counted are the lease objects alive; the active allocations are those some live lease
  refers to; and the peak lies between the current reservation and the capacity.
\<close>

theorem ledger_conservation:
  assumes "budget_new d cap tcap rcap = Inr l" and "cap \<le> u64_max"
    and "world_run ops (world_new i l) = Some w"
  shows "let acc = ledger_accounting (w_ledger w); m = led_allocs (w_ledger w) in
    acc_reserved acc = total rec_bytes m \<and>
    acc_managed acc = total (kind_bytes Managed) m \<and> acc_queue acc = total (kind_bytes Queue) m \<and>
    acc_managed acc + acc_queue acc = acc_reserved acc \<and>
    acc_terminal acc = total (class_bytes Terminal) m \<and> acc_terminal acc \<le> tcap \<and>
    acc_retirement acc = total (class_bytes Retirement) m \<and> acc_retirement acc \<le> rcap \<and>
    total (class_bytes Ordinary) m \<le> cap - tcap - rcap \<and>
    acc_leases acc = length (w_leases w) \<and>
    acc_allocations acc = card (ls_alloc ` fst ` set (w_leases w)) \<and>
    acc_reserved acc \<le> acc_peak acc \<and> acc_peak acc \<le> cap \<and>
    acc_available acc = Some (cap - acc_reserved acc)"
proof -
  note reached = world_run_reached [OF assms]
  note ok = world_okD [OF reached(1)]
  have sums: "sums_ok (w_ledger w)" and bounds: "bounds_ok (w_ledger w)"
    using ok(1) by (auto simp: books_ok_def)
  have "total (class_bytes Ordinary) (led_allocs (w_ledger w))
      = led_reserved (w_ledger w) - led_terminal (w_ledger w) - led_retirement (w_ledger w)"
    using sums total_by_class [of "led_allocs (w_ledger w)"] by (simp add: sums_ok_def)
  moreover have "dom (led_allocs (w_ledger w)) = ls_alloc ` fst ` set (w_leases w)"
    using live_allocs [OF ok(2)] by simp
  moreover have "led_leases (w_ledger w) = length (w_leases w)"
    using refs_okD(1) [OF ok(2)] by simp
  ultimately show ?thesis
    using bounds sums sums_ok_split(2) [OF sums] reached(4-6)
    by (simp add: Let_def ledger_accounting_def bounds_ok_def acc_available_def
        sums_ok_def [of "w_ledger w"])
qed

theorem ledger_conservation_witness:
  "acc_reserved (ledger_accounting (w_ledger budget_sample_world))
     = total rec_bytes (led_allocs (w_ledger budget_sample_world)) \<and>
   acc_leases (ledger_accounting (w_ledger budget_sample_world)) = 2"
  using ledger_conservation [OF budget_sample_new budget_sample_run] by (simp add: Let_def budget_sample_world_def)

text \<open>
  C23: In every reachable state a reservation is admitted exactly when it is not empty, its key is
  not active, its class has room for it and the lease counter can be incremented; a refused one
  leaves the whole ledger as it was.
\<close>

theorem reservation_exact:
  assumes "budget_new d cap tcap rcap = Inr l" and "cap \<le> u64_max"
    and "world_run ops (world_new i l) = Some w"
  shows "(is_ok (fst (try_reserve_class i (w_ledger w) ow a k c b)) \<longleftrightarrow>
      0 < b \<and> led_allocs (w_ledger w) a = None \<and> b \<le> class_available (w_ledger w) c \<and>
      length (w_leases w) < u64_max) \<and>
    (is_ok (fst (try_reserve_class i (w_ledger w) ow a k c b)) \<or>
     snd (try_reserve_class i (w_ledger w) ow a k c b) = w_ledger w)"
  using reserve_exact [OF world_okD(1) [OF world_run_reached(1) [OF assms]]]
    refs_okD(1) [OF world_okD(2) [OF world_run_reached(1) [OF assms]]] by simp

theorem reservation_exact_witness:
  "\<not> is_ok (fst (try_reserve_class 3 (w_ledger budget_sample_world) (ArenaOwnerId 1) 6 Managed Ordinary 1))"
  using reservation_exact [OF budget_sample_new budget_sample_run, of "ArenaOwnerId 1" 6 Managed Ordinary 1]
  by (simp add: budget_sample_defs class_available_def)

text \<open>
  C12: Protected capacity cannot be consumed by other classes: in every reachable state in which no
  live allocation is a terminal one, the whole terminal capacity is available, however much
  ordinary and retirement work is admitted; and symmetrically for retirement.
\<close>

theorem protected_capacity_available:
  assumes "budget_new d cap tcap rcap = Inr l" and "cap \<le> u64_max"
    and "world_run ops (world_new i l) = Some w"
    and "\<forall>r\<in>ran (led_allocs (w_ledger w)). rec_class r \<noteq> c"
  shows "class_available (w_ledger w) c =
    (case c of Terminal \<Rightarrow> tcap | Retirement \<Rightarrow> rcap | Ordinary \<Rightarrow> cap - tcap - rcap)"
proof -
  note reached = world_run_reached [OF assms(1-3)]
  have sums: "sums_ok (w_ledger w)" using world_okD(1) [OF reached(1)] by (simp add: books_ok_def)
  have "total (class_bytes c) (led_allocs (w_ledger w)) = 0"
    unfolding total_def using assms(4) by (intro sum.neutral) (auto simp: ran_def)
  then show ?thesis
    using sums reached total_by_class [of "led_allocs (w_ledger w)"]
    by (cases c) (simp_all add: class_available_def sums_ok_def)
qed

theorem protected_capacity_available_witness: "class_available (w_ledger budget_sample_world) Terminal = 20"
  using protected_capacity_available [OF budget_sample_new budget_sample_run, of Terminal]
  by (simp add: budget_sample_defs ran_def split: if_splits)

text \<open>
  Once every lease handle has been dropped, nothing stays charged: no allocation is active and
  every counter but the peak is zero.
\<close>

theorem released_budget_is_empty:
  assumes "budget_new d cap tcap rcap = Inr l" and "cap \<le> u64_max"
    and "world_run ops (world_new i l) = Some w" and "w_leases w = []"
  shows "w_ledger w = l\<lparr>led_peak := led_peak (w_ledger w)\<rparr>"
proof -
  note reached = world_run_reached [OF assms(1-3)]
  note ok = world_okD [OF reached(1)]
  have none: "led_allocs (w_ledger w) = Map.empty"
    using live_allocs [OF ok(2)] assms(4) by simp
  have "l = \<lparr>led_domain = d, led_capacity = cap, led_terminal_cap = tcap,
      led_retirement_cap = rcap, led_reserved = 0, led_terminal = 0, led_retirement = 0,
      led_managed = 0, led_queue = 0, led_peak = 0, led_leases = 0, led_allocs = Map.empty\<rparr>"
    using assms(1) by (auto simp: budget_new_def split: if_splits option.splits)
  then show ?thesis
    using ok(1) refs_okD(1) [OF ok(2)] none reached(3-6) assms(4)
    by (simp add: books_ok_def sums_ok_def)
qed

theorem released_budget_is_empty_witness:
  "w_ledger (budget_sample_world\<lparr>w_ledger := budget_sample_ledger\<lparr>led_peak := 70\<rparr>, w_leases := []\<rparr>)
     = budget_sample_ledger\<lparr>led_peak := 70\<rparr>"
  using released_budget_is_empty [OF budget_sample_new budget_sample_run_dropped] by simp

text \<open>
  Reconciling a live lease to its actual size never panics; it is accepted exactly when the
  size is not zero and the growth, if any, fits its own class; then only that allocation's size and
  the counters change, by exactly the difference; a refusal changes nothing.
\<close>

theorem reconcile_exact:
  assumes "budget_new d cap tcap rcap = Inr l" and "cap \<le> u64_max"
    and "world_run ops (world_new i l) = Some w"
    and "led_allocs (w_ledger w) a = Some r"
  shows "\<exists>res l'. reconcile (w_ledger w) a b = Some (res, l') \<and>
    (is_ok res \<longleftrightarrow> 0 < b \<and> b - rec_bytes r \<le> class_available (w_ledger w) (rec_class r)) \<and>
    (is_ok res \<longrightarrow> led_allocs l' = (led_allocs (w_ledger w))(a \<mapsto> r\<lparr>rec_bytes := b\<rparr>) \<and>
       led_reserved l' + rec_bytes r = led_reserved (w_ledger w) + b) \<and>
    (\<not> is_ok res \<longrightarrow> l' = w_ledger w)"
proof -
  have ok: "books_ok (w_ledger w)" using world_okD(1) [OF world_run_reached(1) [OF assms(1-3)]] .
  have "0 < rec_bytes r"
    using refs_okD(4) [OF world_okD(2) [OF world_run_reached(1) [OF assms(1-3)]] assms(4)]
    by (simp add: record_ok_def)
  then show ?thesis using reconcile_shape [OF ok assms(4)] by blast
qed

theorem reconcile_exact_witness:
  "\<exists>l'. reconcile (w_ledger budget_sample_world) 5 30 = Some (Inr (), l') \<and> led_reserved l' = 30"
proof -
  have "led_allocs (w_ledger budget_sample_world) 5 = Some (budget_sample_record 2)"
    by (simp add: budget_sample_world_def)
  from reconcile_exact [OF budget_sample_new budget_sample_run this, of 30] show ?thesis
    by (auto simp: budget_sample_defs is_ok_iff)
qed

text \<open>
  The admissions of one acquisition sequence happen in the global order: whatever a caller
  requests, the orders of its granted requests never decrease.
\<close>

theorem acquisition_order_respected:
  "sorted (sequence_run rs (sequence_new ow) i l)"
  using sequence_run_sorted by blast

end
