(* ===== verification/Retirement.thy ===== *)
theory Retirement
  imports Resources "HOL-Library.Multiset"
begin

text \<open>
  \<open>crates/fcb-core/src/retirement.rs\<close>: the bounded retirement queue that takes replaced snapshots
  off the interaction thread.

  Correspondence: \<open>RetirementQueueInner\<close> with its mutex-protected state and its counters is the
  record \<open>rqueue\<close>; the flag \<open>rq_poisoned\<close> is the mutex's poison, which a panic inside the critical
  section sets. \<open>RETIREMENT_SLOT_NONCE\<close> is an explicit argument. A \<open>RetirementReservation\<close> is the
  record \<open>reservation\<close>. The budget is reached through two operations, \<open>acquire\<close> (an ordered
  retirement-class reservation) and \<open>release\<close> (the drop of the lease), which the locale
  \<open>lease_pool\<close> specifies; \<open>shared_pool\<close> adds the operations of the budget's other users. Both are
  interpreted on the ledger of \<open>Resources\<close>, where another user makes any operation of a program that
  owns leases: reservations of every class and kind, shares, clones, drops, reconciliations, queries.

  A call returns \<open>Returned\<close> or \<open>Panicked\<close>. Counters of type \<open>AtomicU64\<close> wrap.
\<close>

section \<open>Data\<close>

datatype 'a outcome = Returned 'a | Panicked

datatype retirement_error =
    QueueSaturated nat
  | RetirementInvalidBytes
  | SlotAlreadyConsumed
  | BudgetDenied admission_error
  | Poisoned

record ('h, 'p) retired_item =
  ri_slot :: nat
  ri_bytes :: nat
  ri_lease :: "'h option"
  ri_payload :: 'p

record 'h reservation =
  rv_slot :: nat
  rv_bytes :: nat
  rv_lease :: "'h option"
  rv_consumed :: bool

record ('h, 'p) rqueue =
  rq_capacity :: nat
  rq_owner :: arena_owner_id
  rq_budget :: bool
  rq_reserved :: nat
  rq_items :: "('h, 'p) retired_item list"
  rq_retained :: nat
  rq_poisoned :: bool
  rq_accepted :: nat
  rq_rejected :: nat
  rq_destroyed :: nat
  rq_reclaimed :: nat

datatype 'p publication_outcome =
    Published nat nat
  | Deferred 'p retirement_error

definition wrapping_add :: "nat \<Rightarrow> nat \<Rightarrow> nat" where
  "wrapping_add a b = (a + b) mod (u64_max + 1)"

definition rqueue_new :: "arena_owner_id \<Rightarrow> nat \<Rightarrow> bool \<Rightarrow> core_error + ('h, 'p) rqueue" where
  "rqueue_new ow cap budget =
     (if cap = 0 then Inl LimitExceeded
      else Inr \<lparr>rq_capacity = cap, rq_owner = ow, rq_budget = budget, rq_reserved = 0, rq_items = [],
                rq_retained = 0, rq_poisoned = False, rq_accepted = 0, rq_rejected = 0,
                rq_destroyed = 0, rq_reclaimed = 0\<rparr>)"

section \<open>Operations\<close>

type_synonym ('l, 'h) acquire =
  "'l \<Rightarrow> arena_owner_id \<Rightarrow> nat \<Rightarrow> nat \<Rightarrow> (admission_error + 'h) \<times> 'l"

type_synonym ('l, 'h) release = "'l \<Rightarrow> 'h \<Rightarrow> 'l option"

text \<open>Dropping an optional lease; \<^const>\<open>None\<close> is a panic of the drop.\<close>

fun drop_lease :: "('l, 'h) release \<Rightarrow> 'l \<Rightarrow> 'h option \<Rightarrow> 'l option" where
  "drop_lease rel l None = Some l"
| "drop_lease rel l (Some h) = rel l h"

fun drop_leases :: "('l, 'h) release \<Rightarrow> 'l \<Rightarrow> 'h option list \<Rightarrow> 'l option" where
  "drop_leases rel l [] = Some l"
| "drop_leases rel l (h # hs) = Option.bind (drop_lease rel l h) (\<lambda>l'. drop_leases rel l' hs)"

definition reserve_slot ::
  "('l, 'h) acquire \<Rightarrow> ('h, 'p) rqueue \<Rightarrow> 'l \<Rightarrow> nat \<Rightarrow> nat \<Rightarrow>
   (retirement_error + 'h reservation) \<times> ('h, 'p) rqueue \<times> 'l \<times> nat" where
  "reserve_slot acq q l nonce b =
     (if b = 0 then (Inl RetirementInvalidBytes, q, l, nonce)
      else if rq_poisoned q then (Inl Poisoned, q, l, nonce)
      else if rq_reserved q \<ge> rq_capacity q then
        (Inl (QueueSaturated (rq_capacity q)), q\<lparr>rq_rejected := wrapping_add (rq_rejected q) 1\<rparr>, l, nonce)
      else
        (let admit = (\<lambda>lease l nonce.
           (Inr \<lparr>rv_slot = nonce, rv_bytes = b, rv_lease = lease, rv_consumed = False\<rparr>,
            q\<lparr>rq_reserved := rq_reserved q + 1, rq_accepted := wrapping_add (rq_accepted q) 1\<rparr>,
            l, wrapping_add nonce 1))
         in if rq_budget q then
              (if nonce = 0 then (Inl RetirementInvalidBytes, q, l, wrapping_add nonce 1)
               else case acq l (rq_owner q) nonce b of
                 (Inl e, l') \<Rightarrow> (Inl (BudgetDenied e), q, l', wrapping_add nonce 1)
               | (Inr h, l') \<Rightarrow> admit (Some h) l' (wrapping_add nonce 1))
            else admit None l nonce))"

text \<open>
  \<open>push_item\<close>: an overflow of the retained bytes panics while the lock is held and poisons it. An
  item that is not pushed is dropped, and its lease with it.
\<close>

definition push_item ::
  "('h, 'p) rqueue \<Rightarrow> ('h, 'p) retired_item \<Rightarrow> (retirement_error + unit) outcome \<times> ('h, 'p) rqueue" where
  "push_item q item =
     (if rq_poisoned q then (Returned (Inl Poisoned), q)
      else case checked_add (rq_retained q) (ri_bytes item) of
        None \<Rightarrow> (Panicked, q\<lparr>rq_poisoned := True\<rparr>)
      | Some n \<Rightarrow> (Returned (Inr ()), q\<lparr>rq_retained := n, rq_items := rq_items q @ [item]\<rparr>))"

definition cancel_reservation ::
  "('l, 'h) release \<Rightarrow> ('h, 'p) rqueue \<Rightarrow> 'l \<Rightarrow> 'h reservation \<Rightarrow>
   unit outcome \<times> ('h, 'p) rqueue \<times> 'l" where
  "cancel_reservation rel q l rv =
     (let q' = (if rq_poisoned q then q else q\<lparr>rq_reserved := saturating_sub (rq_reserved q) 1\<rparr>)
      in case drop_lease rel l (rv_lease rv) of
           None \<Rightarrow> (Panicked, q', l)
         | Some l' \<Rightarrow> (Returned (), q', l'))"

definition commit_payload ::
  "('l, 'h) release \<Rightarrow> ('h, 'p) rqueue \<Rightarrow> 'l \<Rightarrow> 'h reservation \<Rightarrow> 'p \<Rightarrow>
   (retirement_error + unit) outcome \<times> ('h, 'p) rqueue \<times> 'l" where
  "commit_payload rel q l rv p =
     (if rv_consumed rv then (Returned (Inl SlotAlreadyConsumed), q, l)
      else
        (let item = \<lparr>ri_slot = rv_slot rv, ri_bytes = rv_bytes rv, ri_lease = rv_lease rv,
                     ri_payload = p\<rparr>
         in case push_item q item of
              (Returned (Inr u), q') \<Rightarrow> (Returned (Inr u), q', l)
            | (r, q') \<Rightarrow> (case drop_lease rel l (ri_lease item) of
                None \<Rightarrow> (Panicked, q', l) | Some l' \<Rightarrow> (r, q', l'))))"

definition commit_swap ::
  "('l, 'h) release \<Rightarrow> ('h, 'p) rqueue \<Rightarrow> 'l \<Rightarrow> 'h reservation \<Rightarrow> 'p \<Rightarrow> 'p \<Rightarrow>
   (retirement_error + unit) outcome \<times> ('h, 'p) rqueue \<times> 'l \<times> 'p" where
  "commit_swap rel q l rv active new =
     (if rv_consumed rv then (Returned (Inl SlotAlreadyConsumed), q, l, active)
      else case commit_payload rel q l rv active of (r, q', l') \<Rightarrow> (r, q', l', new))"

definition publish_or_defer ::
  "('l, 'h) acquire \<Rightarrow> ('l, 'h) release \<Rightarrow> ('h, 'p) rqueue \<Rightarrow> 'l \<Rightarrow> nat \<Rightarrow> 'p \<Rightarrow> 'p \<Rightarrow> nat \<Rightarrow>
   'p publication_outcome outcome \<times> ('h, 'p) rqueue \<times> 'l \<times> nat \<times> 'p" where
  "publish_or_defer acq rel q l nonce active new b =
     (case reserve_slot acq q l nonce b of
        (Inl e, q1, l1, n1) \<Rightarrow> (Returned (Deferred new e), q1, l1, n1, active)
      | (Inr rv, q1, l1, n1) \<Rightarrow>
          (case commit_swap rel q1 l1 rv active new of
             (Returned (Inr _), q2, l2, a2) \<Rightarrow>
               (Returned (Published (rv_slot rv) (rv_bytes rv)), q2, l2, n1, a2)
           | (Returned (Inl e), q2, l2, a2) \<Rightarrow> (Returned (Deferred a2 e), q2, l2, n1, a2)
           | (Panicked, q2, l2, a2) \<Rightarrow> (Panicked, q2, l2, n1, a2)))"

record drain_report =
  dr_destroyed :: nat
  dr_reclaimed :: nat
  dr_remaining :: nat

text \<open>The loop of \<open>drain_batch\<close> under the lock: \<open>pop_front\<close> at most \<open>count\<close> times.\<close>

fun drain_pop :: "nat \<Rightarrow> ('h, 'p) rqueue \<Rightarrow> ('h, 'p) retired_item list \<times> ('h, 'p) rqueue" where
  "drain_pop 0 q = ([], q)"
| "drain_pop (Suc n) q = (case rq_items q of
     [] \<Rightarrow> drain_pop n q
   | item # rest \<Rightarrow>
       (case drain_pop n (q\<lparr>rq_items := rest, rq_reserved := saturating_sub (rq_reserved q) 1,
            rq_retained := saturating_sub (rq_retained q) (ri_bytes item)\<rparr>) of
          (drained, q') \<Rightarrow> (item # drained, q')))"

definition drain_batch ::
  "('l, 'h) release \<Rightarrow> ('h, 'p) rqueue \<Rightarrow> 'l \<Rightarrow> nat \<Rightarrow>
   (retirement_error + drain_report) outcome \<times> ('h, 'p) rqueue \<times> 'l" where
  "drain_batch rel q l max_items =
     (if rq_poisoned q then (Returned (Inl Poisoned), q, l)
      else if max_items = 0 then
        (Returned (Inr \<lparr>dr_destroyed = 0, dr_reclaimed = 0, dr_remaining = length (rq_items q)\<rparr>), q, l)
      else
        (case drain_pop (min max_items (length (rq_items q))) q of
           (drained, q1) \<Rightarrow>
             (let bytes = sum_list (map ri_bytes drained) in
              case drop_leases rel l (map ri_lease drained) of
                None \<Rightarrow> (Panicked, q1, l)
              | Some l' \<Rightarrow>
                  if bytes > u64_max then (Panicked, q1, l')
                  else (Returned (Inr \<lparr>dr_destroyed = length drained, dr_reclaimed = bytes,
                          dr_remaining = length (rq_items q1)\<rparr>),
                        q1\<lparr>rq_destroyed := wrapping_add (rq_destroyed q1) (length drained),
                           rq_reclaimed := wrapping_add (rq_reclaimed q1) bytes\<rparr>, l'))))"

definition drain_all ::
  "('l, 'h) release \<Rightarrow> ('h, 'p) rqueue \<Rightarrow> 'l \<Rightarrow>
   (retirement_error + drain_report) outcome \<times> ('h, 'p) rqueue \<times> 'l" where
  "drain_all rel q l = drain_batch rel q l usize_max"

record retirement_status =
  rs_capacity :: nat
  rs_in_flight :: nat
  rs_pending :: nat
  rs_retained :: nat
  rs_accepted :: nat
  rs_rejected :: nat
  rs_destroyed :: nat
  rs_reclaimed :: nat

definition rqueue_status :: "('h, 'p) rqueue \<Rightarrow> retirement_error + retirement_status" where
  "rqueue_status q =
     (if rq_poisoned q then Inl Poisoned
      else Inr \<lparr>rs_capacity = rq_capacity q, rs_in_flight = rq_reserved q,
                rs_pending = length (rq_items q), rs_retained = rq_retained q,
                rs_accepted = rq_accepted q, rs_rejected = rq_rejected q,
                rs_destroyed = rq_destroyed q, rs_reclaimed = rq_reclaimed q\<rparr>)"

section \<open>Programs that use one queue\<close>

text \<open>
  The state of a program around one queue: the queue, the budget, the nonce, the reservations that
  callers hold, the active snapshot, and what other users of the same budget hold, who act on the budget
  in between. The leases of the queue's reservations and items are private to it, so the others act on
  their own. Committing or cancelling consumes the reservation.
\<close>

type_synonym ('o, 'l, 'e) others = "'o \<Rightarrow> 'l \<Rightarrow> 'e \<Rightarrow> ('l \<times> 'e) option"

record ('l, 'h, 'p, 'e) rstate =
  r_queue :: "('h, 'p) rqueue"
  r_pool :: 'l
  r_nonce :: nat
  r_held :: "'h reservation list"
  r_active :: 'p
  r_others :: 'e

datatype ('p, 'o) rop =
    ReserveSlot nat
  | CommitSwap nat 'p
  | Cancel nat
  | Publish 'p nat
  | Drain nat
  | Other 'o

fun rstep ::
  "('l, 'h) acquire \<Rightarrow> ('l, 'h) release \<Rightarrow> ('o, 'l, 'e) others \<Rightarrow> ('p, 'o) rop \<Rightarrow> ('l, 'h, 'p, 'e) rstate \<Rightarrow>
   ('l, 'h, 'p, 'e) rstate outcome" where
  "rstep acq rel oth (ReserveSlot b) s =
     (case reserve_slot acq (r_queue s) (r_pool s) (r_nonce s) b of
        (Inl e, q, l, n) \<Rightarrow> Returned (s\<lparr>r_queue := q, r_pool := l, r_nonce := n\<rparr>)
      | (Inr rv, q, l, n) \<Rightarrow>
          Returned (s\<lparr>r_queue := q, r_pool := l, r_nonce := n, r_held := r_held s @ [rv]\<rparr>))"
| "rstep acq rel oth (CommitSwap i new) s =
     (if i < length (r_held s) then
        (case commit_swap rel (r_queue s) (r_pool s) (r_held s ! i) (r_active s) new of
           (Returned _, q, l, a) \<Rightarrow>
             Returned (s\<lparr>r_queue := q, r_pool := l, r_active := a, r_held := remove_at i (r_held s)\<rparr>)
         | (Panicked, q, l, a) \<Rightarrow> Panicked)
      else Returned s)"
| "rstep acq rel oth (Cancel i) s =
     (if i < length (r_held s) then
        (case cancel_reservation rel (r_queue s) (r_pool s) (r_held s ! i) of
           (Returned _, q, l) \<Rightarrow>
             Returned (s\<lparr>r_queue := q, r_pool := l, r_held := remove_at i (r_held s)\<rparr>)
         | (Panicked, q, l) \<Rightarrow> Panicked)
      else Returned s)"
| "rstep acq rel oth (Publish new b) s =
     (case publish_or_defer acq rel (r_queue s) (r_pool s) (r_nonce s) (r_active s) new b of
        (Returned _, q, l, n, a) \<Rightarrow>
          Returned (s\<lparr>r_queue := q, r_pool := l, r_nonce := n, r_active := a\<rparr>)
      | (Panicked, q, l, n, a) \<Rightarrow> Panicked)"
| "rstep acq rel oth (Drain k) s =
     (case drain_batch rel (r_queue s) (r_pool s) k of
        (Returned _, q, l) \<Rightarrow> Returned (s\<lparr>r_queue := q, r_pool := l\<rparr>)
      | (Panicked, q, l) \<Rightarrow> Panicked)"
| "rstep acq rel oth (Other op) s =
     (case oth op (r_pool s) (r_others s) of
        None \<Rightarrow> Panicked
      | Some (l, others) \<Rightarrow> Returned (s\<lparr>r_pool := l, r_others := others\<rparr>))"

text \<open>The states a program can reach from a start state.\<close>

inductive rreach ::
  "('l, 'h) acquire \<Rightarrow> ('l, 'h) release \<Rightarrow> ('o, 'l, 'e) others \<Rightarrow> ('l, 'h, 'p, 'e) rstate \<Rightarrow>
   ('l, 'h, 'p, 'e) rstate \<Rightarrow> bool"
  for acq rel oth s0 where
  start: "rreach acq rel oth s0 s0"
| step: "rreach acq rel oth s0 s \<Longrightarrow> rstep acq rel oth op s = Returned s' \<Longrightarrow> rreach acq rel oth s0 s'"

inductive_cases rreachE: "rreach acq rel oth s0 s"

section \<open>The budget as a lease pool\<close>

text \<open>
  What the queue relies on: a pool keeps a multiset of leases; acquiring adds one under a key no
  live lease has and charges the requested bytes, a refusal changes nothing, a live lease can be
  released without disturbing the others, and the charges of distinct keys fit in a \<open>u64\<close>.
\<close>

locale lease_pool =
  fixes acquire :: "('l, 'h) acquire"
    and release :: "('l, 'h) release"
    and holds :: "'l \<Rightarrow> 'h multiset \<Rightarrow> bool"
    and cost :: "'l \<Rightarrow> 'h \<Rightarrow> nat"
    and key :: "'h \<Rightarrow> nat"
  assumes acquire_ok: "holds l M \<Longrightarrow> acquire l ow a b = (Inr h, l') \<Longrightarrow>
      holds l' (add_mset h M) \<and> cost l' h = b \<and> key h \<notin> key ` set_mset M \<and>
      (\<forall>k. k \<in># M \<longrightarrow> cost l' k = cost l k)"
    and acquire_refused: "holds l M \<Longrightarrow> acquire l ow a b = (Inl e, l') \<Longrightarrow> l' = l"
    and release_ok: "holds l M \<Longrightarrow> h \<in># M \<Longrightarrow>
      \<exists>l'. release l h = Some l' \<and> holds l' (M - {#h#}) \<and>
        (\<forall>k. k \<in># M - {#h#} \<longrightarrow> cost l' k = cost l k)"
    and cost_bound: "holds l M \<Longrightarrow> mset hs \<subseteq># M \<Longrightarrow> distinct (map key hs) \<Longrightarrow>
      sum_list (map (cost l) hs) \<le> u64_max"

text \<open>
  The other users hold leases of their own, under keys that no lease of the queue has. None of their
  operations panics, and none touches a lease of the queue.
\<close>

locale shared_pool = lease_pool acquire release holds cost key
  for acquire :: "('l, 'h) acquire" and release :: "('l, 'h) release" and holds cost key +
  fixes other :: "('o, 'l, 'e) others"
    and leases :: "'e \<Rightarrow> 'h multiset"
    and sound :: "'e \<Rightarrow> bool"
  assumes other_ok: "holds l (M + leases E) \<Longrightarrow> sound E \<Longrightarrow> key ` set_mset M \<inter> key ` set_mset (leases E) = {} \<Longrightarrow>
      \<exists>l' E'. other op l E = Some (l', E') \<and> sound E' \<and> holds l' (M + leases E') \<and>
        key ` set_mset M \<inter> key ` set_mset (leases E') = {} \<and> (\<forall>k. k \<in># M \<longrightarrow> cost l' k = cost l k)"

text \<open>Entries of the queue, each backed by a lease of the pool charged with the entry's bytes.\<close>

definition backed ::
  "('l \<Rightarrow> 'h multiset \<Rightarrow> bool) \<Rightarrow> ('l \<Rightarrow> 'h \<Rightarrow> nat) \<Rightarrow> ('h \<Rightarrow> nat) \<Rightarrow> 'h multiset \<Rightarrow> 'l \<Rightarrow>
   ('h option \<times> nat) list \<Rightarrow> bool" where
  "backed holds cost key E l es \<longleftrightarrow>
     (\<forall>x\<in>set es. fst x \<noteq> None \<and> cost l (the (fst x)) = snd x) \<and>
     holds l (mset (map (the \<circ> fst) es) + E) \<and> distinct (map (key \<circ> the \<circ> fst) es) \<and>
     key ` set (map (the \<circ> fst) es) \<inter> key ` set_mset E = {}"

lemma backed_perm:
  assumes "backed holds cost key E l es" and "mset es = mset es'"
  shows "backed holds cost key E l es'"
proof -
  have set: "set es = set es'" using assms(2) by (rule mset_eq_setD)
  have map: "mset (map (the \<circ> fst) es) = mset (map (the \<circ> fst) es')"
    by (simp add: assms(2))
  have "mset (map (key \<circ> the \<circ> fst) es) = mset (map (key \<circ> the \<circ> fst) es')"
    by (simp add: assms(2))
  then have "distinct (map (key \<circ> the \<circ> fst) es) = distinct (map (key \<circ> the \<circ> fst) es')"
    by (rule mset_eq_imp_distinct_iff)
  with assms(1) set map show ?thesis unfolding backed_def by auto
qed

definition held_entries :: "'h reservation list \<Rightarrow> ('h option \<times> nat) list" where
  "held_entries = map (\<lambda>rv. (rv_lease rv, rv_bytes rv))"

definition item_entries :: "('h, 'p) retired_item list \<Rightarrow> ('h option \<times> nat) list" where
  "item_entries = map (\<lambda>it. (ri_lease it, ri_bytes it))"

lemma entries_simps [simp]:
  "held_entries [] = []" "item_entries [] = []"
  "held_entries (rs @ rs') = held_entries rs @ held_entries rs'"
  "item_entries (is @ is') = item_entries is @ item_entries is'"
  "held_entries (rv # rs) = (rv_lease rv, rv_bytes rv) # held_entries rs"
  "item_entries (it # is) = (ri_lease it, ri_bytes it) # item_entries is"
  "map fst (item_entries is) = map ri_lease is" "map snd (item_entries is) = map ri_bytes is"
  "map snd (held_entries rs) = map rv_bytes rs"
  by (simp_all add: held_entries_def item_entries_def comp_def)

definition rinv ::
  "('l \<Rightarrow> 'h multiset \<Rightarrow> bool) \<Rightarrow> ('l \<Rightarrow> 'h \<Rightarrow> nat) \<Rightarrow> ('h \<Rightarrow> nat) \<Rightarrow> ('e \<Rightarrow> 'h multiset) \<Rightarrow> ('e \<Rightarrow> bool) \<Rightarrow>
   ('l, 'h, 'p, 'e) rstate \<Rightarrow> bool" where
  "rinv holds cost key leases sound s \<longleftrightarrow> sound (r_others s) \<and>
     rq_budget (r_queue s) \<and> \<not> rq_poisoned (r_queue s) \<and>
     rq_reserved (r_queue s) = length (r_held s) + length (rq_items (r_queue s)) \<and>
     rq_reserved (r_queue s) \<le> rq_capacity (r_queue s) \<and>
     rq_retained (r_queue s) = sum_list (map ri_bytes (rq_items (r_queue s))) \<and>
     (\<forall>rv\<in>set (r_held s). \<not> rv_consumed rv) \<and>
     backed holds cost key (leases (r_others s)) (r_pool s)
       (held_entries (r_held s) @ item_entries (rq_items (r_queue s)))"

lemma remove_at_perm:
  "i < length xs \<Longrightarrow> mset (f (xs ! i) # map f (remove_at i xs)) = mset (map f xs)"
  unfolding remove_at_def by (subst (4) id_take_nth_drop [of i xs]) auto

lemma held_remove_perm:
  "i < length rs \<Longrightarrow>
     mset (held_entries rs) = mset ((rv_lease (rs ! i), rv_bytes (rs ! i)) # held_entries (remove_at i rs))"
  unfolding held_entries_def by (rule remove_at_perm [symmetric])

lemma drain_pop_eq:
  "n \<le> length (rq_items q) \<Longrightarrow>
     drain_pop n q = (take n (rq_items q), q\<lparr>rq_items := drop n (rq_items q),
       rq_reserved := rq_reserved q - n,
       rq_retained := rq_retained q - sum_list (map ri_bytes (take n (rq_items q)))\<rparr>)"
proof (induction n arbitrary: q)
  case (Suc n)
  then obtain item rest where "rq_items q = item # rest" by (cases "rq_items q") auto
  with Suc show ?case by simp
qed simp

context lease_pool
begin

lemma backed_bound: "backed holds cost key E l es \<Longrightarrow> sum_list (map snd es) \<le> u64_max"
proof -
  assume b: "backed holds cost key E l es"
  then have eq: "map snd es = map (cost l) (map (the \<circ> fst) es)"
    by (auto simp: backed_def)
  have "distinct (map key (map (the \<circ> fst) es))"
    using b by (simp add: backed_def comp_assoc)
  with b show ?thesis
    unfolding eq by (intro cost_bound [of l "mset (map (the \<circ> fst) es) + E"]) (auto simp: backed_def)
qed

lemma backed_add:
  assumes b: "backed holds cost key E l es" and acq: "acquire l ow a n = (Inr h, l')"
  shows "backed holds cost key E l' ((Some h, n) # es)"
proof -
  let ?M = "mset (map (the \<circ> fst) es) + E"
  have old: "holds l ?M" using b by (simp add: backed_def)
  from acquire_ok [OF old acq] have new: "holds l' (add_mset h ?M)" "cost l' h = n"
    "key h \<notin> key ` set_mset ?M" "\<And>k. k \<in># ?M \<Longrightarrow> cost l' k = cost l k" by auto
  have "cost l' (the (fst x)) = snd x" if "x \<in> set es" for x
    using b new(4) [of "the (fst x)"] that by (auto simp: backed_def)
  with b new show ?thesis by (auto simp: backed_def image_image)
qed

lemma backed_drop:
  assumes b: "backed holds cost key E l (x # es)"
  shows "\<exists>l'. drop_lease release l (fst x) = Some l' \<and> backed holds cost key E l' es"
proof -
  let ?M = "mset (map (the \<circ> fst) es) + E"
  obtain h n where x: "x = (Some h, n)" using b by (cases x) (auto simp: backed_def)
  then have old: "holds l (add_mset h ?M)" using b by (simp add: backed_def)
  from release_ok [OF old, of h] obtain l' where l': "release l h = Some l'" "holds l' ?M"
    "\<And>k. k \<in># ?M \<Longrightarrow> cost l' k = cost l k" by auto
  have "cost l' (the (fst y)) = snd y" if "y \<in> set es" for y
    using b l'(3) [of "the (fst y)"] that by (auto simp: backed_def)
  with b l' x show ?thesis by (auto simp: backed_def)
qed

lemma backed_drops:
  "backed holds cost key E l (es @ es') \<Longrightarrow>
     \<exists>l'. drop_leases release l (map fst es) = Some l' \<and> backed holds cost key E l' es'"
proof (induction es arbitrary: l)
  case (Cons x es)
  obtain l1 where "drop_lease release l (fst x) = Some l1" "backed holds cost key E l1 (es @ es')"
    using backed_drop [of E l x "es @ es'"] Cons.prems by auto
  with Cons.IH [of l1] show ?case by auto
qed simp

lemma commit_payload_inv:
  assumes inv: "backed holds cost key E l ((rv_lease rv, rv_bytes rv) # rest @ item_entries (rq_items q))"
    and q: "\<not> rq_poisoned q" "rq_retained q = sum_list (map ri_bytes (rq_items q))" "\<not> rv_consumed rv"
  shows "commit_payload release q l rv p = (Returned (Inr ()), q\<lparr>rq_retained := rq_retained q + rv_bytes rv,
      rq_items := rq_items q @ [\<lparr>ri_slot = rv_slot rv, ri_bytes = rv_bytes rv, ri_lease = rv_lease rv,
        ri_payload = p\<rparr>]\<rparr>, l)"
  using backed_bound [OF inv] q by (simp add: commit_payload_def push_item_def Let_def)

lemma drain_batch_inv:
  assumes bk: "backed holds cost key E l (item_entries (rq_items q) @ rest)"
    and q: "\<not> rq_poisoned q" "rq_retained q = sum_list (map ri_bytes (rq_items q))"
  shows "\<exists>l' d r. drain_batch release q l k = (Returned (Inr \<lparr>dr_destroyed = min k (length (rq_items q)),
        dr_reclaimed = sum_list (map ri_bytes (take k (rq_items q))),
        dr_remaining = length (rq_items q) - k\<rparr>),
      q\<lparr>rq_items := drop k (rq_items q), rq_reserved := rq_reserved q - min k (length (rq_items q)),
        rq_retained := sum_list (map ri_bytes (drop k (rq_items q))),
        rq_destroyed := d, rq_reclaimed := r\<rparr>, l') \<and>
    backed holds cost key E l' (item_entries (drop k (rq_items q)) @ rest)"
proof (cases "k = 0")
  case True
  have "q\<lparr>rq_items := rq_items q, rq_reserved := rq_reserved q, rq_retained := rq_retained q,
      rq_destroyed := rq_destroyed q, rq_reclaimed := rq_reclaimed q\<rparr> = q" by (cases q) simp
  with True q(1) bk show ?thesis
    by (intro exI [of _ l] exI [of _ "rq_destroyed q"] exI [of _ "rq_reclaimed q"])
      (simp add: drain_batch_def q(2) [symmetric])
next
  case False
  let ?is = "rq_items q" and ?m = "min k (length (rq_items q))"
  have take: "take ?m ?is = take k ?is" "drop ?m ?is = drop k ?is" by (simp_all add: min_def)
  have split: "item_entries ?is = item_entries (take k ?is) @ item_entries (drop k ?is)"
    by (metis append_take_drop_id entries_simps(4))
  obtain l' where l': "drop_leases release l (map ri_lease (take k ?is)) = Some l'"
    "backed holds cost key E l' (item_entries (drop k ?is) @ rest)"
    using backed_drops [of E l "item_entries (take k ?is)" "item_entries (drop k ?is) @ rest"] bk
    by (auto simp: split)
  have sum: "sum_list (map ri_bytes ?is)
      = sum_list (map ri_bytes (take k ?is)) + sum_list (map ri_bytes (drop k ?is))"
    by (metis append_take_drop_id map_append sum_list_append)
  have "sum_list (map ri_bytes (take k ?is)) \<le> u64_max"
    using backed_bound [OF bk] sum by simp
  with False l'(1) q sum have "drain_batch release q l k =
      (Returned (Inr \<lparr>dr_destroyed = ?m, dr_reclaimed = sum_list (map ri_bytes (take k ?is)),
        dr_remaining = length ?is - k\<rparr>),
      q\<lparr>rq_items := drop k ?is, rq_reserved := rq_reserved q - ?m,
        rq_retained := sum_list (map ri_bytes (drop k ?is)),
        rq_destroyed := wrapping_add (rq_destroyed q) ?m,
        rq_reclaimed := wrapping_add (rq_reclaimed q) (sum_list (map ri_bytes (take k ?is)))\<rparr>, l')"
    by (simp add: drain_batch_def drain_pop_eq take Let_def) (simp add: min_def)
  with l'(2) show ?thesis by blast
qed

end

context shared_pool
begin

lemma backed_other:
  assumes b: "backed holds cost key (leases E) l es" and "sound E"
  shows "\<exists>l' E'. other op l E = Some (l', E') \<and> sound E' \<and> backed holds cost key (leases E') l' es"
proof -
  have "holds l (mset (map (the \<circ> fst) es) + leases E)"
    "key ` set_mset (mset (map (the \<circ> fst) es)) \<inter> key ` set_mset (leases E) = {}"
    using b by (auto simp: backed_def)
  from other_ok [OF this(1) assms(2) this(2), of op] b show ?thesis by (fastforce simp: backed_def)
qed

lemma reserve_slot_inv:
  assumes inv: "rinv holds cost key leases sound s"
    and res: "reserve_slot acquire (r_queue s) (r_pool s) (r_nonce s) b = (r, q, l, n)"
  shows "case r of
      Inl e \<Rightarrow> q = (r_queue s)\<lparr>rq_rejected := rq_rejected q\<rparr> \<and> l = r_pool s
    | Inr rv \<Rightarrow> \<not> rv_consumed rv \<and> rv_bytes rv = b \<and>
        rq_reserved (r_queue s) < rq_capacity (r_queue s) \<and>
        q = (r_queue s)\<lparr>rq_reserved := Suc (rq_reserved (r_queue s)), rq_accepted := rq_accepted q\<rparr> \<and>
        backed holds cost key (leases (r_others s)) l ((rv_lease rv, b) # held_entries (r_held s) @
          item_entries (rq_items (r_queue s)))"
proof -
  have pool: "holds (r_pool s) (mset (map (the \<circ> fst)
      (held_entries (r_held s) @ item_entries (rq_items (r_queue s)))) + leases (r_others s))"
    and bk: "backed holds cost key (leases (r_others s)) (r_pool s)
      (held_entries (r_held s) @ item_entries (rq_items (r_queue s)))"
    using inv by (auto simp: rinv_def) (simp add: backed_def)
  have "rq_budget (r_queue s)" "\<not> rq_poisoned (r_queue s)" using inv by (auto simp: rinv_def)
  with res show ?thesis
    using backed_add [OF bk] acquire_refused [OF pool]
    by (fastforce simp: reserve_slot_def Let_def split: if_splits prod.splits sum.splits)
qed

lemma publish_shape:
  assumes inv: "rinv holds cost key leases sound s"
  shows "\<exists>r q l n a. publish_or_defer acquire release (r_queue s) (r_pool s) (r_nonce s) (r_active s) new b
      = (Returned r, q, l, n, a) \<and> rinv holds cost key leases sound (s\<lparr>r_queue := q, r_pool := l, r_nonce := n, r_active := a\<rparr>) \<and>
    (case fst (reserve_slot acquire (r_queue s) (r_pool s) (r_nonce s) b) of
       Inl e \<Rightarrow> r = Deferred new e \<and> a = r_active s \<and> rq_items q = rq_items (r_queue s) \<and> l = r_pool s
     | Inr rv \<Rightarrow> r = Published (rv_slot rv) b \<and> a = new \<and>
         rq_reserved (r_queue s) < rq_capacity (r_queue s) \<and>
         rq_items q = rq_items (r_queue s) @ [\<lparr>ri_slot = rv_slot rv, ri_bytes = b,
           ri_lease = rv_lease rv, ri_payload = r_active s\<rparr>])"
proof -
  obtain r q l n where res: "reserve_slot acquire (r_queue s) (r_pool s) (r_nonce s) b = (r, q, l, n)"
    by (cases "reserve_slot acquire (r_queue s) (r_pool s) (r_nonce s) b") auto
  note shape = reserve_slot_inv [OF inv res]
  show ?thesis
  proof (cases r)
    case (Inl e)
    obtain x where q: "q = (r_queue s)\<lparr>rq_rejected := x\<rparr>" and l: "l = r_pool s"
      using shape Inl by auto
    with inv have "rinv holds cost key leases sound (s\<lparr>r_queue := q, r_pool := l, r_nonce := n, r_active := r_active s\<rparr>)"
      by (simp add: rinv_def)
    with Inl q l res show ?thesis by (simp add: publish_or_defer_def)
  next
    case (Inr rv)
    let ?es = "held_entries (r_held s)"
    have rv: "\<not> rv_consumed rv" "rv_bytes rv = b" "rq_reserved (r_queue s) < rq_capacity (r_queue s)"
      and bk: "backed holds cost key (leases (r_others s)) l
        ((rv_lease rv, rv_bytes rv) # ?es @ item_entries (rq_items (r_queue s)))"
      using shape Inr by auto
    obtain x where q: "q = (r_queue s)\<lparr>rq_reserved := Suc (rq_reserved (r_queue s)), rq_accepted := x\<rparr>"
      using shape Inr by auto
    let ?it = "\<lparr>ri_slot = rv_slot rv, ri_bytes = rv_bytes rv, ri_lease = rv_lease rv,
      ri_payload = r_active s\<rparr>"
    let ?q = "q\<lparr>rq_retained := rq_retained q + rv_bytes rv, rq_items := rq_items q @ [?it]\<rparr>"
    have commit: "commit_payload release q l rv (r_active s) = (Returned (Inr ()), ?q, l)"
      using inv rv bk by (intro commit_payload_inv) (auto simp: q rinv_def)
    have "backed holds cost key (leases (r_others s)) l (?es @ item_entries (rq_items ?q))"
      by (rule backed_perm [OF bk]) (simp add: q)
    then have "rinv holds cost key leases sound (s\<lparr>r_queue := ?q, r_pool := l, r_nonce := n, r_active := new\<rparr>)"
      using inv rv(3) by (simp add: rinv_def q)
    with Inr rv q res commit show ?thesis
      by (simp add: publish_or_defer_def commit_swap_def)
  qed
qed

lemma rstep_inv:
  assumes inv: "rinv holds cost key leases sound s"
  shows "\<exists>s'. rstep acquire release other op s = Returned s' \<and> rinv holds cost key leases sound s'"
proof (cases op)
  case (ReserveSlot b)
  obtain r q l n where res: "reserve_slot acquire (r_queue s) (r_pool s) (r_nonce s) b = (r, q, l, n)"
    by (cases "reserve_slot acquire (r_queue s) (r_pool s) (r_nonce s) b") auto
  note shape = reserve_slot_inv [OF inv res]
  show ?thesis
  proof (cases r)
    case (Inl e)
    then obtain x where "q = (r_queue s)\<lparr>rq_rejected := x\<rparr>" "l = r_pool s" using shape by auto
    with ReserveSlot Inl res inv show ?thesis by (simp add: rinv_def)
  next
    case (Inr rv)
    then obtain x where q: "q = (r_queue s)\<lparr>rq_reserved := Suc (rq_reserved (r_queue s)), rq_accepted := x\<rparr>"
      using shape by auto
    have bk: "backed holds cost key (leases (r_others s)) l
        ((rv_lease rv, b) # held_entries (r_held s) @ item_entries (rq_items (r_queue s)))"
      using shape Inr by simp
    have "backed holds cost key (leases (r_others s)) l
        (held_entries (r_held s @ [rv]) @ item_entries (rq_items (r_queue s)))"
      by (rule backed_perm [OF bk]) (use shape Inr in simp)
    with ReserveSlot Inr res inv shape q show ?thesis by (simp add: rinv_def)
  qed
next
  case (CommitSwap i new)
  show ?thesis
  proof (cases "i < length (r_held s)")
    case True
    let ?rv = "r_held s ! i" and ?q = "r_queue s"
    have rv: "\<not> rv_consumed ?rv" using inv True by (auto simp: rinv_def)
    have bk: "backed holds cost key (leases (r_others s)) (r_pool s)
        ((rv_lease ?rv, rv_bytes ?rv) # held_entries (remove_at i (r_held s)) @ item_entries (rq_items ?q))"
      by (rule backed_perm [where es = "held_entries (r_held s) @ item_entries (rq_items ?q)"])
        (use inv held_remove_perm [OF True] in \<open>simp_all add: rinv_def\<close>)
    have commit: "commit_payload release ?q (r_pool s) ?rv (r_active s) = (Returned (Inr ()),
        ?q\<lparr>rq_retained := rq_retained ?q + rv_bytes ?rv, rq_items := rq_items ?q @
          [\<lparr>ri_slot = rv_slot ?rv, ri_bytes = rv_bytes ?rv, ri_lease = rv_lease ?rv,
            ri_payload = r_active s\<rparr>]\<rparr>, r_pool s)"
      using inv rv by (intro commit_payload_inv [OF bk]) (auto simp: rinv_def)
    have "backed holds cost key (leases (r_others s)) (r_pool s)
        (held_entries (remove_at i (r_held s)) @ item_entries (rq_items ?q) @ [(rv_lease ?rv, rv_bytes ?rv)])"
      by (rule backed_perm [OF bk]) simp
    with CommitSwap True rv commit inv set_remove_at [of i "r_held s"] show ?thesis
      by (auto simp: commit_swap_def rinv_def)
  qed (use CommitSwap inv in simp)
next
  case (Cancel i)
  show ?thesis
  proof (cases "i < length (r_held s)")
    case True
    let ?rv = "r_held s ! i" and ?q = "r_queue s"
    have bk: "backed holds cost key (leases (r_others s)) (r_pool s)
        ((rv_lease ?rv, rv_bytes ?rv) # held_entries (remove_at i (r_held s)) @ item_entries (rq_items ?q))"
      by (rule backed_perm [where es = "held_entries (r_held s) @ item_entries (rq_items ?q)"])
        (use inv held_remove_perm [OF True] in \<open>simp_all add: rinv_def\<close>)
    obtain l' where l': "drop_lease release (r_pool s) (rv_lease ?rv) = Some l'"
      "backed holds cost key (leases (r_others s)) l'
        (held_entries (remove_at i (r_held s)) @ item_entries (rq_items ?q))"
      using backed_drop [OF bk] by auto
    have "rq_reserved ?q - 1 \<le> rq_capacity ?q" "\<not> rq_poisoned ?q"
      "rq_reserved ?q - 1 = length (remove_at i (r_held s)) + length (rq_items ?q)"
      "\<forall>rv\<in>set (remove_at i (r_held s)). \<not> rv_consumed rv"
      using inv True set_remove_at [of i "r_held s"] by (auto simp: rinv_def)
    with Cancel True l' inv show ?thesis
      by (simp add: cancel_reservation_def rinv_def)
  qed (use Cancel inv in simp)
next
  case (Publish new b)
  with publish_shape [OF inv, of new b] show ?thesis by auto
next
  case (Drain k)
  let ?q = "r_queue s"
  have "backed holds cost key (leases (r_others s)) (r_pool s)
      (item_entries (rq_items ?q) @ held_entries (r_held s))"
    by (rule backed_perm [where es = "held_entries (r_held s) @ item_entries (rq_items ?q)"])
      (use inv in \<open>simp_all add: rinv_def\<close>)
  then obtain l' d c r where drain: "drain_batch release ?q (r_pool s) k = (Returned r,
      ?q\<lparr>rq_items := drop k (rq_items ?q), rq_reserved := rq_reserved ?q - min k (length (rq_items ?q)),
        rq_retained := sum_list (map ri_bytes (drop k (rq_items ?q))),
        rq_destroyed := d, rq_reclaimed := c\<rparr>, l')"
    and bk: "backed holds cost key (leases (r_others s)) l'
      (item_entries (drop k (rq_items ?q)) @ held_entries (r_held s))"
    using inv drain_batch_inv [of "leases (r_others s)" "r_pool s" ?q "held_entries (r_held s)" k]
    unfolding rinv_def by blast
  have "backed holds cost key (leases (r_others s)) l'
      (held_entries (r_held s) @ item_entries (drop k (rq_items ?q)))"
    by (rule backed_perm [OF bk]) simp
  with Drain drain inv show ?thesis by (auto simp: rinv_def)
next
  case (Other op')
  have "backed holds cost key (leases (r_others s)) (r_pool s)
      (held_entries (r_held s) @ item_entries (rq_items (r_queue s)))" "sound (r_others s)"
    using inv by (simp_all add: rinv_def)
  from backed_other [OF this, of op'] Other inv show ?thesis by (auto simp: rinv_def)
qed

lemma rreach_inv: "rreach acquire release other s0 s \<Longrightarrow> rinv holds cost key leases sound s0 \<Longrightarrow> rinv holds cost key leases sound s"
proof (induction rule: rreach.induct)
  case (step s op s')
  with rstep_inv [of s op] show ?case by auto
qed

end

section \<open>The resource ledger is a lease pool\<close>

definition pool_acquire :: "nat \<Rightarrow> (ledger, lease) acquire" where
  "pool_acquire i l ow a b =
     (case sequence_try_reserve (sequence_new ow) i l a Managed Retirement Publication b of
        (r, _, l') \<Rightarrow> (r, l'))"

definition pool_release :: "(ledger, lease) release" where
  "pool_release l h = remove_reference l (ls_owner h) (ls_alloc h)"

definition pool_holds :: "ledger \<Rightarrow> lease multiset \<Rightarrow> bool" where
  "pool_holds l M \<longleftrightarrow> (\<exists>xs. mset xs = M \<and> books_ok l \<and> refs_ok l xs)"

definition pool_cost :: "ledger \<Rightarrow> lease \<Rightarrow> nat" where
  "pool_cost l h = (case led_allocs l (ls_alloc h) of None \<Rightarrow> 0 | Some r \<Rightarrow> rec_bytes r)"

lemma pool_acquire_eq:
  "pool_acquire i l ow a b = try_reserve_class i l ow a Managed Retirement b"
  by (auto simp: pool_acquire_def sequence_try_reserve_def sequence_new_def split: prod.split sum.split)

lemma subtract_class_allocs: "subtract_class l c b = Some l' \<Longrightarrow> led_allocs l' = led_allocs l"
  by (cases c) (auto simp: subtract_class_def)

lemma subtract_kind_allocs: "subtract_kind l k b = Some l' \<Longrightarrow> led_allocs l' = led_allocs l"
  by (cases k) (auto simp: subtract_kind_def)

lemma release_owner_bytes: "release_owner r ow = Some r' \<Longrightarrow> rec_bytes r' = rec_bytes r"
  by (auto simp: release_owner_def bind_eq_Some_conv)

lemma remove_reference_frame:
  assumes "remove_reference l ow a = Some l'"
  obtains r r' where "led_allocs l a = Some r" "rec_bytes r' = rec_bytes r"
    "led_allocs l' = (led_allocs l)(a := if rec_refs r' = 0 then None else Some r')"
proof -
  obtain r r' n where r: "led_allocs l a = Some r" "release_owner r ow = Some r'"
    and l': "(let l1 = l\<lparr>led_allocs := (led_allocs l)(a \<mapsto> r'), led_leases := n\<rparr> in
     if rec_refs r' = 0 then
       Option.bind (checked_sub (led_reserved l1) (rec_bytes r')) (\<lambda>res.
       Option.bind (subtract_class (l1\<lparr>led_allocs := (led_allocs l1)(a := None),
           led_reserved := res\<rparr>) (rec_class r') (rec_bytes r')) (\<lambda>l2.
       subtract_kind l2 (rec_kind r') (rec_bytes r')))
     else Some l1) = Some l'"
    using assms unfolding remove_reference_def by (auto simp: bind_eq_Some_conv)
  then have "led_allocs l' = (led_allocs l)(a := if rec_refs r' = 0 then None else Some r')"
    by (auto simp: Let_def bind_eq_Some_conv split: if_splits
        dest!: subtract_class_allocs subtract_kind_allocs)
  with r that release_owner_bytes show ?thesis by blast
qed

lemma total_ge_distinct:
  assumes "finite (dom m)" and "distinct as" and "set as \<subseteq> dom m"
  shows "sum_list (map (\<lambda>a. f (the (m a))) as) \<le> total f m"
  unfolding total_def sum_list_distinct_conv_sum_set [OF assms(2)]
  using assms(1,3) by (intro sum_mono2) auto

interpretation pool: lease_pool "pool_acquire i" pool_release pool_holds pool_cost ls_alloc for i
proof (unfold_locales, goal_cases)
  case (1 l M ow a b h l')
  then obtain xs where xs: "mset xs = M" "books_ok l" "refs_ok l xs" by (auto simp: pool_holds_def)
  have res: "try_reserve_class i l ow a Managed Retirement b = (Inr h, l')"
    using 1(2) by (simp add: pool_acquire_eq)
  have "books_ok l'" "refs_ok l' (xs @ [h])"
    using reserve_books [OF xs(2) res] refs_reserve [OF xs(3,2) res] by auto
  then have "pool_holds l' (add_mset h M)"
    unfolding pool_holds_def using xs(1) by (intro exI [of _ "xs @ [h]"]) simp
  moreover from xs(2) res have none: "led_allocs l (ls_alloc h) = None" and "pool_cost l' h = b"
    and frame: "\<forall>k. ls_alloc k \<noteq> ls_alloc h \<longrightarrow> pool_cost l' k = pool_cost l k"
    by (cases rule: try_reserve_class_cases; simp add: pool_cost_def charge_def)+
  moreover have other: "ls_alloc k \<noteq> ls_alloc h" if "k \<in># M" for k
  proof -
    have "k \<in> set xs" using that xs(1) by auto
    with xs(3) obtain r where "led_allocs l (ls_alloc k) = Some r" by (rule live_lease_record)
    with none show ?thesis by auto
  qed
  moreover have "ls_alloc h \<notin> ls_alloc ` set_mset M"
    using other by (metis imageE)
  moreover have "pool_cost l' k = pool_cost l k" if "k \<in># M" for k
    using frame other [OF that] by blast
  ultimately show ?case by blast
next
  case (2 l M ow a b e l')
  then obtain xs where "books_ok l" by (auto simp: pool_holds_def)
  then show ?case
    using 2(2) reserve_exact(2) [of l i ow a Managed Retirement b] by (auto simp: pool_acquire_eq)
next
  case (3 l M h)
  then obtain xs where xs: "mset xs = M" "books_ok l" "refs_ok l xs" by (auto simp: pool_holds_def)
  then obtain j where j: "j < length xs" "xs ! j = h"
    using 3(2) by (metis in_set_conv_nth set_mset_mset)
  obtain l' where l': "remove_reference l (ls_owner h) (ls_alloc h) = Some l'" "books_ok l'"
    "refs_ok l' (remove_at j xs)"
    using remove_reference_ok [OF xs(2,3) j(1)] j(2) by auto
  have rest: "mset (remove_at j xs) = M - {#h#}"
    using remove_at_perm [OF j(1), of "\<lambda>x. x"] xs(1) j(2) by (metis add_mset_remove_trivial list.map_ident mset.simps(2))
  have "pool_cost l' k = pool_cost l k" if "k \<in># M - {#h#}" for k
  proof -
    have "k \<in> set (remove_at j xs)" using that rest by (metis set_mset_mset)
    with l'(3) obtain r where "led_allocs l' (ls_alloc k) = Some r" by (rule live_lease_record)
    with l'(1) show ?thesis
      by (elim remove_reference_frame)
        (cases "ls_alloc k = ls_alloc h"; auto simp: pool_cost_def split: if_splits)
  qed
  then show ?case
    using l' rest unfolding pool_holds_def pool_release_def by blast
next
  case (4 l M hs)
  then obtain xs where xs: "mset xs = M" "books_ok l" "refs_ok l xs" by (auto simp: pool_holds_def)
  have "set hs \<subseteq> set xs" using 4(2) xs(1) set_mset_mono by fastforce
  then have "set (map ls_alloc hs) \<subseteq> dom (led_allocs l)" using live_allocs [OF xs(3)] by auto
  moreover have "finite (dom (led_allocs l))" using xs(2) by (simp add: books_ok_def sums_ok_def)
  ultimately have "sum_list (map (\<lambda>a. rec_bytes (the (led_allocs l a))) (map ls_alloc hs)) \<le> led_reserved l"
    using total_ge_distinct [OF _ 4(3), of "led_allocs l" rec_bytes] xs(2)
    by (simp add: books_ok_def sums_ok_def)
  moreover have eq: "map (pool_cost l) hs = map (\<lambda>a. rec_bytes (the (led_allocs l a))) (map ls_alloc hs)"
    using \<open>set (map ls_alloc hs) \<subseteq> dom (led_allocs l)\<close> by (auto simp: pool_cost_def split: option.split)
  moreover have "led_reserved l \<le> u64_max"
    using xs(2) by (auto simp: books_ok_def bounds_ok_def)
  ultimately show ?case unfolding eq by linarith
qed

section \<open>The other users of the ledger\<close>

text \<open>Another user makes an operation of \<open>Resources\<close> on the leases it owns, each with its handles.\<close>

definition pool_other :: "nat \<Rightarrow> (world_op, ledger, (lease \<times> nat) list) others" where
  "pool_other i op l E = map_option (\<lambda>w. (w_ledger w, w_leases w))
     (world_step op \<lparr>w_id = i, w_ledger = l, w_leases = E\<rparr>)"

definition pool_leases :: "(lease \<times> nat) list \<Rightarrow> lease multiset" where
  "pool_leases E = mset (map fst E)"

definition pool_sound :: "nat \<Rightarrow> (lease \<times> nat) list \<Rightarrow> bool" where
  "pool_sound i E \<longleftrightarrow> (\<forall>(x, n)\<in>set E. 0 < n \<and> ls_ledger x = i)"

lemma refs_ok_perm:
  assumes "mset xs = mset ys" "refs_ok l xs"
  shows "refs_ok l ys"
proof -
  have f: "length (filter P xs) = length (filter P ys)" for P
    using assms(1) by (metis mset_filter size_mset)
  have eqs: "alloc_uses xs = alloc_uses ys" "owner_uses xs = owner_uses ys" "length xs = length ys" "set xs = set ys"
    using f assms(1) by (auto simp: alloc_uses_def owner_uses_def fun_eq_iff dest: mset_eq_setD mset_eq_length)
  show ?thesis using assms(2) unfolding refs_ok_def entry_ok_def record_ok_def eqs .
qed

definition apart :: "lease list \<Rightarrow> lease list \<Rightarrow> bool" where
  "apart xs ys \<longleftrightarrow> (\<forall>x\<in>set xs. \<forall>y\<in>set ys. ls_alloc x \<noteq> ls_alloc y)"

text \<open>The ledger of a world in which the leases \<open>Q\<close> are alive besides those that its program owns.\<close>

definition sharing :: "lease list \<Rightarrow> world \<Rightarrow> bool" where
  "sharing Q w \<longleftrightarrow> books_ok (w_ledger w) \<and> refs_ok (w_ledger w) (Q @ map fst (w_leases w)) \<and>
     pool_sound (w_id w) (w_leases w) \<and> apart Q (map fst (w_leases w))"

definition undisturbed :: "lease list \<Rightarrow> ledger \<Rightarrow> ledger \<Rightarrow> bool" where
  "undisturbed Q l l' \<longleftrightarrow> (\<forall>q\<in>set Q. pool_cost l' q = pool_cost l q)"

lemma sharing_own:
  assumes "sharing Q w" "j < length (w_leases w)"
  shows "ls_ledger (fst (w_leases w ! j)) = w_id w" "0 < snd (w_leases w ! j)"
    "\<forall>q\<in>set Q. ls_alloc q \<noteq> ls_alloc (fst (w_leases w ! j))"
    "fst (w_leases w ! j) \<in> set (Q @ map fst (w_leases w))"
proof -
  have "w_leases w ! j \<in> set (w_leases w)" using assms(2) by simp
  with assms(1) show "ls_ledger (fst (w_leases w ! j)) = w_id w" "0 < snd (w_leases w ! j)"
    "\<forall>q\<in>set Q. ls_alloc q \<noteq> ls_alloc (fst (w_leases w ! j))" "fst (w_leases w ! j) \<in> set (Q @ map fst (w_leases w))"
    by (auto simp: sharing_def pool_sound_def apart_def)
qed

lemma cost_frame: "led_allocs l' (ls_alloc q) = led_allocs l (ls_alloc q) \<Longrightarrow> pool_cost l' q = pool_cost l q"
  by (simp add: pool_cost_def)

lemma sharing_reserve:
  assumes sh: "sharing Q w"
  shows "sharing Q (adopt w (try_reserve_class (w_id w) (w_ledger w) ow a k c b)) \<and>
    undisturbed Q (w_ledger w) (w_ledger (adopt w (try_reserve_class (w_id w) (w_ledger w) ow a k c b)))"
proof -
  obtain r l' where res: "try_reserve_class (w_id w) (w_ledger w) ow a k c b = (r, l')" by fastforce
  have ok: "books_ok (w_ledger w)" "refs_ok (w_ledger w) (Q @ map fst (w_leases w))" using sh by (simp_all add: sharing_def)
  note books = reserve_books [OF ok(1) res] and refs = refs_reserve [OF ok(2,1) res]
  show ?thesis
    using ok(1) res
  proof (cases rule: try_reserve_class_cases)
    case (refused e)
    with sh res show ?thesis by (simp add: adopt_def undisturbed_def)
  next
    case admitted
    have fresh: "ls_alloc q \<noteq> a" if "q \<in> set Q" for q
    proof -
      from that have "q \<in> set (Q @ map fst (w_leases w))" by simp
      then show ?thesis by (rule live_lease_record [OF ok(2)]) (use admitted(3) in auto)
    qed
    have "led_allocs l' q = led_allocs (w_ledger w) q" if "q \<noteq> a" for q
      using that by (simp add: admitted(6) charge_def)
    with fresh have "undisturbed Q (w_ledger w) l'" by (auto simp: undisturbed_def intro!: cost_frame)
    moreover have "apart Q (map fst (w_leases w) @ [\<lparr>ls_domain = led_domain (w_ledger w), ls_owner = ow, ls_alloc = a, ls_kind = k, ls_ledger = w_id w\<rparr>])"
      using sh fresh by (auto simp: sharing_def apart_def)
    ultimately show ?thesis
      using sh res books refs by (simp add: adopt_def sharing_def pool_sound_def admitted(1))
  qed
qed

lemma sharing_share:
  assumes sh: "sharing Q w" and j: "j < length (w_leases w)"
  shows "sharing Q (adopt w (try_share (w_id w) (w_ledger w) ow (fst (w_leases w ! j)))) \<and>
    undisturbed Q (w_ledger w) (w_ledger (adopt w (try_share (w_id w) (w_ledger w) ow (fst (w_leases w ! j)))))"
proof -
  let ?x = "fst (w_leases w ! j)"
  note own = sharing_own [OF sh j]
  have ok: "books_ok (w_ledger w)" "refs_ok (w_ledger w) (Q @ map fst (w_leases w))" using sh by (simp_all add: sharing_def)
  obtain r l' where res: "add_shared_reference (w_ledger w) ow (ls_alloc ?x) (ls_kind ?x) = (r, l')" by fastforce
  let ?y = "\<lparr>ls_domain = led_domain (w_ledger w), ls_owner = ow, ls_alloc = ls_alloc ?x, ls_kind = ls_kind ?x, ls_ledger = w_id w\<rparr>"
  have refs: "refs_ok l' (case r of Inl _ \<Rightarrow> Q @ map fst (w_leases w) | Inr _ \<Rightarrow> (Q @ map fst (w_leases w)) @ [?y])"
    by (rule refs_share [OF ok(2) res]) simp_all
  show ?thesis
    using res
  proof (cases rule: add_shared_cases)
    case (refused e)
    with sh res own(1) show ?thesis by (simp add: try_share_def adopt_def undisturbed_def)
  next
    case (shared rec)
    have "books_ok l'" unfolding shared(5) by (rule books_share [OF ok(1) shared(2)]) simp_all
    moreover have "undisturbed Q (w_ledger w) l'" using own(3) by (auto simp: undisturbed_def shared(5) intro!: cost_frame)
    moreover have "apart Q (map fst (w_leases w) @ [?y])" using sh own(3) by (auto simp: sharing_def apart_def)
    moreover have "led_domain l' = led_domain (w_ledger w)" by (simp add: shared(5))
    ultimately show ?thesis
      using sh res own(1) refs by (simp add: try_share_def adopt_def sharing_def pool_sound_def shared(1))
  qed
qed

lemma sharing_drop:
  assumes sh: "sharing Q w" and j: "j < length (w_leases w)"
  shows "\<exists>w'. drop_handle w j = Some w' \<and> sharing Q w' \<and> undisturbed Q (w_ledger w) (w_ledger w')"
proof -
  obtain x n where x: "w_leases w ! j = (x, n)" by fastforce
  note own = sharing_own [OF sh j, unfolded x fst_conv snd_conv]
  have ok: "books_ok (w_ledger w)" "refs_ok (w_ledger w) (Q @ map fst (w_leases w))" using sh by (simp_all add: sharing_def)
  show ?thesis
  proof (cases "n > 1")
    case True
    have fsts: "map fst ((w_leases w)[j := (x, n - 1)]) = map fst (w_leases w)"
      using fst_lookup_update [OF j, of "n - 1"] x by simp
    then have "fst ` set ((w_leases w)[j := (x, n - 1)]) = fst ` set (w_leases w)" by (metis set_map)
    with sh fsts own(1) True set_update_subset_insert [of "w_leases w" j "(x, n - 1)"]
    have "sharing Q (w\<lparr>w_leases := (w_leases w)[j := (x, n - 1)]\<rparr>)" by (auto simp: sharing_def pool_sound_def)
    with True x show ?thesis by (simp add: drop_handle_def undisturbed_def)
  next
    case False
    have at: "length Q + j < length (Q @ map fst (w_leases w))" "(Q @ map fst (w_leases w)) ! (length Q + j) = x"
      "remove_at (length Q + j) (Q @ map fst (w_leases w)) = Q @ map fst (remove_at j (w_leases w))"
      using j x by (simp_all add: remove_at_def take_map drop_map)
    obtain l' where l': "remove_reference (w_ledger w) (ls_owner x) (ls_alloc x) = Some l'" "books_ok l'"
      "refs_ok l' (Q @ map fst (remove_at j (w_leases w)))"
      using remove_reference_ok [OF ok at(1)] at(2,3) by auto
    have "undisturbed Q (w_ledger w) l'"
      using l'(1) own(3) by (elim remove_reference_frame) (auto simp: undisturbed_def intro!: cost_frame)
    moreover have "sharing Q (w\<lparr>w_ledger := l', w_leases := remove_at j (w_leases w)\<rparr>)"
      using sh l'(2,3) set_remove_at [of j "w_leases w"] by (fastforce simp: sharing_def pool_sound_def apart_def)
    ultimately show ?thesis using False x l'(1) by (simp add: drop_handle_def)
  qed
qed

lemma reconcile_allocs: "reconcile l a b = Some (r, l') \<Longrightarrow> a' \<noteq> a \<Longrightarrow> led_allocs l' a' = led_allocs l a'"
  by (auto simp: reconcile_def reconcile_grow_def reconcile_shrink_def Let_def bind_eq_Some_conv set_bytes_def
      add_kind_def add_class_def split: if_splits option.splits prod.splits sum.splits resource_kind.splits
      reservation_class.splits dest!: subtract_class_allocs subtract_kind_allocs)

lemma sharing_step:
  assumes sh: "sharing Q w"
  shows "\<exists>w'. world_step op w = Some w' \<and> w_id w' = w_id w \<and> sharing Q w' \<and> undisturbed Q (w_ledger w) (w_ledger w')"
proof -
  have ok: "books_ok (w_ledger w)" "refs_ok (w_ledger w) (Q @ map fst (w_leases w))" using sh by (simp_all add: sharing_def)
  have same: "undisturbed Q l l" for l by (simp add: undisturbed_def)
  have "\<exists>w'. world_step op w = Some w' \<and> sharing Q w' \<and> undisturbed Q (w_ledger w) (w_ledger w')"
  proof (cases op)
    case (Reserve ow a k c b)
    with sharing_reserve [OF sh] show ?thesis by simp
  next
    case (Share ow j)
    with sharing_share [OF sh, of j ow] sh same show ?thesis by simp
  next
    case (ShareForeign ow x)
    with sh same show ?thesis by (simp add: try_share_def adopt_def)
  next
    case (CloneHandle j)
    show ?thesis
    proof (cases "j < length (w_leases w)")
      case True
      let ?p = "(fst (w_leases w ! j), Suc (snd (w_leases w ! j)))"
      have fsts: "map fst ((w_leases w)[j := ?p]) = map fst (w_leases w)" using fst_lookup_update [OF True] by simp
      then have "fst ` set ((w_leases w)[j := ?p]) = fst ` set (w_leases w)" by (metis set_map)
      with sh fsts sharing_own(1) [OF sh True] set_update_subset_insert [of "w_leases w" j ?p]
      have "sharing Q (w\<lparr>w_leases := (w_leases w)[j := ?p]\<rparr>)" by (auto simp: sharing_def pool_sound_def)
      with CloneHandle True same show ?thesis by simp
    qed (use CloneHandle sh same in simp)
  next
    case (DropHandle j)
    with sharing_drop [OF sh, of j] sh same show ?thesis by simp
  next
    case (Reconcile j b)
    show ?thesis
    proof (cases "j < length (w_leases w)")
      case True
      obtain r l' where res: "reconcile (w_ledger w) (ls_alloc (fst (w_leases w ! j))) b = Some (r, l')" "books_ok l'"
        using reconcile_books [OF ok(1)] by blast
      with sh reconcile_refs [OF ok(2) res(1)] have "sharing Q (w\<lparr>w_ledger := l'\<rparr>)" by (simp add: sharing_def)
      moreover have "undisturbed Q (w_ledger w) l'"
        using reconcile_allocs [OF res(1)] sharing_own(3) [OF sh True] by (auto simp: undisturbed_def intro!: cost_frame)
      ultimately show ?thesis using Reconcile True res(1) by simp
    qed (use Reconcile sh same in simp)
  next
    case (Info j)
    show ?thesis
    proof (cases "j < length (w_leases w)")
      case True
      obtain r where "led_allocs (w_ledger w) (ls_alloc (fst (w_leases w ! j))) = Some r"
        by (rule live_lease_record [OF ok(2) sharing_own(4) [OF sh True]])
      with Info True sh same show ?thesis by (simp add: lease_info_of_def)
    qed (use Info sh same in simp)
  qed
  with world_step_frame show ?thesis by blast
qed

interpretation shared: shared_pool "pool_acquire i" pool_release pool_holds pool_cost ls_alloc "pool_other i" pool_leases "pool_sound i" for i
proof (unfold_locales, goal_cases)
  case (1 l M E op)
  then obtain xs where xs: "mset xs = M + pool_leases E" "books_ok l" "refs_ok l xs" by (auto simp: pool_holds_def)
  obtain Q where Q: "mset Q = M" using ex_mset by blast
  let ?w = "\<lparr>w_id = i, w_ledger = l, w_leases = E\<rparr>"
  have "refs_ok l (Q @ map fst E)" by (rule refs_ok_perm [OF _ xs(3)]) (simp add: xs(1) Q pool_leases_def)
  then have "sharing Q ?w"
    using xs(2) 1(2,3) Q unfolding sharing_def apart_def by (fastforce simp: pool_leases_def disjoint_iff)
  from sharing_step [OF this, of op] obtain w' where w': "world_step op ?w = Some w'" "w_id w' = i" "sharing Q w'"
    "undisturbed Q l (w_ledger w')" by auto
  have "pool_other i op l E = Some (w_ledger w', w_leases w')" using w'(1) by (simp add: pool_other_def)
  moreover have "pool_holds (w_ledger w') (M + pool_leases (w_leases w'))"
    unfolding pool_holds_def pool_leases_def using w'(3) Q by (intro exI [of _ "Q @ map fst (w_leases w')"]) (auto simp: sharing_def)
  ultimately show ?case
    using w'(2-4) Q unfolding sharing_def undisturbed_def apart_def by (fastforce simp: pool_leases_def disjoint_iff)
qed

section \<open>Reachable states of a queue with a budget\<close>

definition rstart :: "('h, 'p) rqueue \<Rightarrow> 'l \<Rightarrow> nat \<Rightarrow> 'p \<Rightarrow> ('l, 'h, 'p, (lease \<times> nat) list) rstate" where
  "rstart q l n a = \<lparr>r_queue = q, r_pool = l, r_nonce = n, r_held = [], r_active = a, r_others = []\<rparr>"

abbreviation "pool_rinv i \<equiv> rinv pool_holds pool_cost ls_alloc pool_leases (pool_sound i)"
abbreviation "pool_step i \<equiv> rstep (pool_acquire i) pool_release (pool_other i)"
abbreviation "pool_reach i \<equiv> rreach (pool_acquire i) pool_release (pool_other i)"

lemma rstart_inv:
  assumes "budget_new d cap tcap rcap = Inr l" and "cap \<le> u64_max"
    and "rqueue_new ow slots True = Inr q"
  shows "pool_rinv i (rstart q l n a)"
proof -
  have "books_ok l \<and> refs_ok l []"
    using world_okD(1,2) [OF world_new_ok [OF assms(1,2)]] by (simp add: world_new_def)
  then have "pool_holds l {#}" unfolding pool_holds_def by (intro exI [of _ "[]"]) simp
  then show ?thesis
    using assms(3) by (auto simp: rinv_def rstart_def rqueue_new_def backed_def pool_leases_def pool_sound_def split: if_splits)
qed

lemma reached_inv:
  assumes "budget_new d cap tcap rcap = Inr l" and "cap \<le> u64_max"
    and "rqueue_new ow slots True = Inr q" and "pool_reach i (rstart q l n a) s"
  shows "pool_rinv i s"
  using shared.rreach_inv [OF assms(4)] rstart_inv [OF assms(1-3)] by blast

section \<open>A sample queue\<close>

definition queue_sample :: "(lease, nat) rqueue" where
  "queue_sample = \<lparr>rq_capacity = 2, rq_owner = ArenaOwnerId 1, rq_budget = True, rq_reserved = 0,
     rq_items = [], rq_retained = 0, rq_poisoned = False, rq_accepted = 0, rq_rejected = 0,
     rq_destroyed = 0, rq_reclaimed = 0\<rparr>"

lemma queue_sample_new: "rqueue_new (ArenaOwnerId 1) 2 True = Inr queue_sample"
  by (simp add: rqueue_new_def queue_sample_def)

lemma queue_sample_start: "pool_reach 3 (rstart queue_sample budget_sample_ledger 1 100)
    (rstart queue_sample budget_sample_ledger 1 100)"
  by (rule rreach.start)

section \<open>Properties\<close>

text \<open>
  C16: A retirement queue attached to a budget never panics: in every state reachable by reserving,
  committing, cancelling, publishing and draining, interleaved with whatever other users of the budget
  do with it and with the leases they own - reservations of any class and kind, shares, clones, drops,
  reconciliations - every next operation returns, theirs included; in particular the retained bytes never
  overflow under the lock.
\<close>

theorem retirement_total:
  assumes "budget_new d cap tcap rcap = Inr l" and "cap \<le> u64_max"
    and "rqueue_new ow slots True = Inr q" and "pool_reach i (rstart q l n a) s"
  shows "\<exists>s'. pool_step i op s = Returned s'"
  using shared.rstep_inv [OF reached_inv [OF assms]] by blast

theorem retirement_total_witness:
  "\<exists>s'. pool_step 3 (Publish 101 5) (rstart queue_sample budget_sample_ledger 1 (100 :: nat)) = Returned s'"
  using retirement_total [OF budget_sample_new queue_sample_new queue_sample_start] .

text \<open>
  In every reachable state the slots in flight are exactly the outstanding reservations and the
  pending items, and fit the capacity; the retained bytes are the sum over the pending items; and
  each pending item's bytes are still charged to its own live allocation in the budget.
\<close>

theorem retirement_accounting:
  assumes "budget_new d cap tcap rcap = Inr l" and "cap \<le> u64_max"
    and "rqueue_new ow slots True = Inr q" and "pool_reach i (rstart q l n a) s"
  shows "\<exists>st. rqueue_status (r_queue s) = Inr st \<and>
    rs_in_flight st = length (r_held s) + rs_pending st \<and> rs_in_flight st \<le> rs_capacity st \<and>
    rs_retained st = sum_list (map ri_bytes (rq_items (r_queue s))) \<and>
    (\<forall>it\<in>set (rq_items (r_queue s)). \<exists>h r. ri_lease it = Some h \<and>
       led_allocs (r_pool s) (ls_alloc h) = Some r \<and> rec_bytes r = ri_bytes it) \<and>
    distinct (map (ls_alloc \<circ> the \<circ> ri_lease) (rq_items (r_queue s)))"
proof -
  note inv = reached_inv [OF assms]
  then have bk: "backed pool_holds pool_cost ls_alloc (pool_leases (r_others s)) (r_pool s)
      (held_entries (r_held s) @ item_entries (rq_items (r_queue s)))" by (simp add: rinv_def)
  have "\<exists>h r. ri_lease it = Some h \<and> led_allocs (r_pool s) (ls_alloc h) = Some r \<and>
      rec_bytes r = ri_bytes it" if it: "it \<in> set (rq_items (r_queue s))" for it
  proof -
    have mem: "(ri_lease it, ri_bytes it) \<in> set (item_entries (rq_items (r_queue s)))"
      using it by (simp add: item_entries_def)
    moreover have "\<forall>x\<in>set (item_entries (rq_items (r_queue s))).
        fst x \<noteq> None \<and> pool_cost (r_pool s) (the (fst x)) = snd x"
      using bk unfolding backed_def by simp
    ultimately have "ri_lease it \<noteq> None \<and> pool_cost (r_pool s) (the (ri_lease it)) = ri_bytes it"
      by fastforce
    then obtain h where h: "ri_lease it = Some h" "pool_cost (r_pool s) h = ri_bytes it" by auto
    from bk obtain xs where xs: "mset xs = mset (map (the \<circ> fst)
        (held_entries (r_held s) @ item_entries (rq_items (r_queue s)))) + pool_leases (r_others s)"
      "refs_ok (r_pool s) xs" by (auto simp: backed_def pool_holds_def)
    have "h \<in> (the \<circ> fst) ` set (item_entries (rq_items (r_queue s)))"
      using mem h(1) by force
    then have "h \<in># mset xs" unfolding xs(1) by simp
    then have "h \<in> set xs" by simp
    with xs(2) obtain r where "led_allocs (r_pool s) (ls_alloc h) = Some r" by (rule live_lease_record)
    with h show ?thesis by (auto simp: pool_cost_def)
  qed
  moreover have "distinct (map (ls_alloc \<circ> the \<circ> ri_lease) (rq_items (r_queue s)))"
    using bk by (auto simp: backed_def item_entries_def comp_def)
  ultimately show ?thesis
    using inv by (auto simp: rqueue_status_def rinv_def)
qed

theorem retirement_accounting_witness:
  "\<exists>st. rqueue_status queue_sample = Inr st \<and> rs_in_flight st \<le> rs_capacity st"
  using retirement_accounting [OF budget_sample_new queue_sample_new queue_sample_start]
  by (auto simp: rstart_def)

text \<open>
  A publication takes effect exactly when a slot can be reserved: then the new snapshot is
  active and the old one is the last pending item, whole, under the slot that is reported; when it
  is deferred the caller gets its snapshot back, and the active snapshot, the pending items and the
  budget are as they were.
\<close>

theorem publish_or_defer_exact:
  assumes "budget_new d cap tcap rcap = Inr l" and "cap \<le> u64_max"
    and "rqueue_new ow slots True = Inr q" and "pool_reach i (rstart q l n a) s"
  shows "\<exists>r q' l' n' a'.
    publish_or_defer (pool_acquire i) pool_release (r_queue s) (r_pool s) (r_nonce s) (r_active s) new b
      = (Returned r, q', l', n', a') \<and>
    (case fst (reserve_slot (pool_acquire i) (r_queue s) (r_pool s) (r_nonce s) b) of
       Inl e \<Rightarrow> r = Deferred new e \<and> a' = r_active s \<and> rq_items q' = rq_items (r_queue s) \<and> l' = r_pool s
     | Inr rv \<Rightarrow> r = Published (rv_slot rv) b \<and> a' = new \<and>
         rq_items q' = rq_items (r_queue s) @ [\<lparr>ri_slot = rv_slot rv, ri_bytes = b,
           ri_lease = rv_lease rv, ri_payload = r_active s\<rparr>])"
proof -
  obtain r q' l' n' a' where pub:
    "publish_or_defer (pool_acquire i) pool_release (r_queue s) (r_pool s) (r_nonce s) (r_active s) new b
      = (Returned r, q', l', n', a')"
    and sh: "case fst (reserve_slot (pool_acquire i) (r_queue s) (r_pool s) (r_nonce s) b) of
       Inl e \<Rightarrow> r = Deferred new e \<and> a' = r_active s \<and> rq_items q' = rq_items (r_queue s) \<and> l' = r_pool s
     | Inr rv \<Rightarrow> r = Published (rv_slot rv) b \<and> a' = new \<and>
         rq_reserved (r_queue s) < rq_capacity (r_queue s) \<and>
         rq_items q' = rq_items (r_queue s) @ [\<lparr>ri_slot = rv_slot rv, ri_bytes = b,
           ri_lease = rv_lease rv, ri_payload = r_active s\<rparr>]"
    using shared.publish_shape [OF reached_inv [OF assms], where new = new and b = b] by blast
  from pub sh show ?thesis
    by (intro exI [of _ r] exI [of _ q'] exI [of _ l'] exI [of _ n'] exI [of _ a'])
      (auto split: sum.splits)
qed

theorem publish_or_defer_exact_witness:
  "\<exists>r q' l' n'. publish_or_defer (pool_acquire 3) pool_release queue_sample budget_sample_ledger 1
      (100 :: nat) 101 50 = (Returned (Deferred 101 r), q', l', n', 100)"
proof -
  have "fst (reserve_slot (pool_acquire 3) queue_sample budget_sample_ledger 1 50)
      = Inl (BudgetDenied (CapacityExhausted Retirement 50 10))"
    by (simp add: reserve_slot_def queue_sample_def pool_acquire_eq try_reserve_class_def
        budget_sample_ledger_def class_available_def Let_def)
  with publish_or_defer_exact [OF budget_sample_new queue_sample_new queue_sample_start, of 101 50]
  show ?thesis by (fastforce simp: rstart_def)
qed

text \<open>
  Draining destroys the oldest pending items first: a batch of \<open>k\<close> removes the first \<open>k\<close> items,
  or all of them, reports their number and bytes exactly, keeps the rest in order, and gives back
  their slots and retained bytes.
\<close>

theorem drain_batch_fifo:
  assumes "budget_new d cap tcap rcap = Inr l" and "cap \<le> u64_max"
    and "rqueue_new ow slots True = Inr q" and "pool_reach i (rstart q l n a) s"
  shows "\<exists>q' l'. drain_batch pool_release (r_queue s) (r_pool s) k =
      (Returned (Inr \<lparr>dr_destroyed = min k (length (rq_items (r_queue s))),
         dr_reclaimed = sum_list (map ri_bytes (take k (rq_items (r_queue s)))),
         dr_remaining = length (rq_items (r_queue s)) - k\<rparr>), q', l') \<and>
    rq_items q' = drop k (rq_items (r_queue s)) \<and>
    rq_reserved q' = length (r_held s) + length (rq_items q') \<and>
    rq_retained q' = sum_list (map ri_bytes (rq_items q'))"
proof -
  note inv = reached_inv [OF assms]
  let ?q = "r_queue s"
  have "backed pool_holds pool_cost ls_alloc (pool_leases (r_others s)) (r_pool s)
      (item_entries (rq_items ?q) @ held_entries (r_held s))"
    by (rule backed_perm [where es = "held_entries (r_held s) @ item_entries (rq_items ?q)"])
      (use inv in \<open>simp_all add: rinv_def\<close>)
  from pool.drain_batch_inv [OF this, of k] inv show ?thesis
    by (auto simp: rinv_def)
qed

theorem drain_batch_fifo_witness:
  "\<exists>q' l'. drain_batch pool_release queue_sample budget_sample_ledger 4 =
     (Returned (Inr \<lparr>dr_destroyed = 0, dr_reclaimed = 0, dr_remaining = 0\<rparr>), q', l')"
  using drain_batch_fifo [OF budget_sample_new queue_sample_new queue_sample_start, of 4]
  by (auto simp: rstart_def queue_sample_def)

text \<open>
  C24: Without a budget nothing bounds the sizes that callers declare. Whatever the state of the queue, a
  publication panics exactly when a slot is free and its size and the retained bytes exceed \<open>u64::MAX\<close>
  together. The panic happens inside the critical section and after the active snapshot was replaced: the
  old snapshot is not pending, its slot stays taken, and every later reservation, drain and status of the
  queue is refused as poisoned. A publication that does not panic leaves the poison as it was.
\<close>

theorem budgetless_overflow_poisons:
  assumes "\<not> rq_budget q" and "publish_or_defer acq rel q l n active new b = (r, q', l', n', a')"
  shows "(r = Panicked \<longleftrightarrow> 0 < b \<and> \<not> rq_poisoned q \<and> rq_reserved q < rq_capacity q \<and> u64_max < rq_retained q + b) \<and>
    (if r = Panicked then a' = new \<and> rq_items q' = rq_items q \<and> rq_reserved q' = Suc (rq_reserved q) \<and>
       rqueue_status q' = Inl Poisoned \<and> (\<forall>k. drain_batch rel q' l' k = (Returned (Inl Poisoned), q', l')) \<and>
       (\<forall>c > 0. fst (reserve_slot acq q' l' n' c) = Inl Poisoned)
     else rq_poisoned q' = rq_poisoned q)"
  using assms
  by (auto simp: publish_or_defer_def reserve_slot_def commit_swap_def commit_payload_def push_item_def
      checked_add_def Let_def rqueue_status_def drain_batch_def split: if_splits)

theorem budgetless_overflow_poisons_witness:
  "\<exists>q l n. publish_or_defer (pool_acquire 3) pool_release (queue_sample\<lparr>rq_budget := False\<rparr>)
      budget_sample_ledger 1 (100 :: nat) 101 (2 ^ 63) = (Returned (Published 1 (2 ^ 63)), q, l, n, 101) \<and>
    fst (publish_or_defer (pool_acquire 3) pool_release q l n 101 102 (2 ^ 63)) = Panicked \<and>
    fst (publish_or_defer (pool_acquire 3) pool_release q l n 101 102 (2 ^ 63 - 1)) \<noteq> Panicked"
proof -
  let ?it = "\<lparr>ri_slot = 1, ri_bytes = 2 ^ 63, ri_lease = None, ri_payload = 100 :: nat\<rparr>"
  let ?q = "queue_sample\<lparr>rq_budget := False, rq_reserved := 1, rq_accepted := 1, rq_retained := 2 ^ 63, rq_items := [?it]\<rparr>"
  have first: "publish_or_defer (pool_acquire 3) pool_release (queue_sample\<lparr>rq_budget := False\<rparr>)
      budget_sample_ledger 1 (100 :: nat) 101 (2 ^ 63) = (Returned (Published 1 (2 ^ 63)), ?q, budget_sample_ledger, 2, 101)"
    by (simp add: publish_or_defer_def reserve_slot_def commit_swap_def commit_payload_def push_item_def
        checked_add_def Let_def queue_sample_def wrapping_add_def u64_max_val)
  have "\<not> rq_budget ?q" by simp
  note rule = budgetless_overflow_poisons [OF this]
  have "fst (publish_or_defer (pool_acquire 3) pool_release ?q budget_sample_ledger 2 101 102 (2 ^ 63)) = Panicked"
    by (cases "publish_or_defer (pool_acquire 3) pool_release ?q budget_sample_ledger 2 101 102 (2 ^ 63)")
      (use rule in \<open>fastforce simp: queue_sample_def u64_max_val\<close>)
  moreover have "fst (publish_or_defer (pool_acquire 3) pool_release ?q budget_sample_ledger 2 101 102 (2 ^ 63 - 1)) \<noteq> Panicked"
    by (cases "publish_or_defer (pool_acquire 3) pool_release ?q budget_sample_ledger 2 101 102 (2 ^ 63 - 1)")
      (use rule in \<open>fastforce simp: queue_sample_def u64_max_val\<close>)
  ultimately show ?thesis using first by blast
qed

end
