(* ===== verification/Tracing.thy ===== *)
theory Tracing
  imports Core_Ids
begin

text \<open>
  \<open>crates/fcb-core/src/tracing.rs\<close>: timestamps on clock domains, offsets between two domains,
  absolute deadlines, and the fixed-capacity event ring.

  A \<open>Duration\<close> is its number of nanoseconds. The signed offset of an adapter is an \<^typ>\<open>int\<close> kept
  in the range of \<open>i64\<close>; the \<open>i128\<close> intermediate values of the code cannot overflow and are plain
  integers.
\<close>

section \<open>Timestamps and offsets\<close>

datatype tracing_error =
    TimestampOverflow
  | TimestampUnderflow
  | InvalidDuration
  | DomainMismatch clock_domain_id clock_domain_id
  | RingFull nat nat
  | SequenceExhausted

record timestamp =
  ts_domain :: clock_domain_id
  ts_nanos :: nat

definition checked_add_nanos :: "timestamp \<Rightarrow> nat \<Rightarrow> tracing_error + timestamp" where
  "checked_add_nanos t n =
     and_then (ok_or TimestampOverflow (checked_add (ts_nanos t) n)) (\<lambda>total.
     Inr \<lparr>ts_domain = ts_domain t, ts_nanos = total\<rparr>)"

definition checked_sub_nanos :: "timestamp \<Rightarrow> nat \<Rightarrow> tracing_error + timestamp" where
  "checked_sub_nanos t n =
     and_then (ok_or TimestampUnderflow (checked_sub (ts_nanos t) n)) (\<lambda>difference.
     Inr \<lparr>ts_domain = ts_domain t, ts_nanos = difference\<rparr>)"

definition from_duration :: "clock_domain_id \<Rightarrow> nat \<Rightarrow> tracing_error + timestamp" where
  "from_duration d offset =
     (if offset \<le> u64_max then Inr \<lparr>ts_domain = d, ts_nanos = offset\<rparr> else Inl InvalidDuration)"

definition i64_min :: int where "i64_min = - (2 ^ 63)"
definition i64_max :: int where "i64_max = 2 ^ 63 - 1"

record domain_offset =
  off_source :: clock_domain_id
  off_target :: clock_domain_id
  off_nanos :: int

definition offset_new ::
  "clock_domain_id \<Rightarrow> clock_domain_id \<Rightarrow> int \<Rightarrow> tracing_error + domain_offset" where
  "offset_new source target n =
     (if source = target then Inl (DomainMismatch source target)
      else Inr \<lparr>off_source = source, off_target = target, off_nanos = n\<rparr>)"

definition between_readings :: "timestamp \<Rightarrow> timestamp \<Rightarrow> tracing_error + domain_offset" where
  "between_readings source target =
     (let difference = int (ts_nanos target) - int (ts_nanos source) in
      if difference < i64_min \<or> i64_max < difference then Inl InvalidDuration
      else offset_new (ts_domain source) (ts_domain target) difference)"

definition convert_to ::
  "timestamp \<Rightarrow> domain_offset \<Rightarrow> clock_domain_id \<Rightarrow> tracing_error + timestamp" where
  "convert_to t adapter target =
     (if off_source adapter \<noteq> ts_domain t then Inl (DomainMismatch (off_source adapter) (ts_domain t))
      else if off_target adapter \<noteq> target then Inl (DomainMismatch (off_target adapter) target)
      else let shifted = int (ts_nanos t) + off_nanos adapter in
        if shifted < 0 then Inl TimestampUnderflow
        else if shifted > int u64_max then Inl TimestampOverflow
        else Inr \<lparr>ts_domain = target, ts_nanos = nat shifted\<rparr>)"

section \<open>Deadlines\<close>

datatype deadline_state = Active nat | Expired nat

definition deadline_after :: "timestamp \<Rightarrow> nat \<Rightarrow> tracing_error + timestamp" where
  "deadline_after start lead =
     (if lead > u64_max then Inl InvalidDuration else checked_add_nanos start lead)"

definition state_from :: "timestamp \<Rightarrow> timestamp \<Rightarrow> tracing_error + deadline_state" where
  "state_from at now =
     (if ts_domain now \<noteq> ts_domain at then Inl (DomainMismatch (ts_domain at) (ts_domain now))
      else if ts_nanos now \<le> ts_nanos at then
        and_then (ok_or TimestampUnderflow (checked_sub (ts_nanos at) (ts_nanos now))) (\<lambda>r. Inr (Active r))
      else
        and_then (ok_or TimestampOverflow (checked_sub (ts_nanos now) (ts_nanos at))) (\<lambda>a. Inr (Expired a)))"

section \<open>The event ring\<close>

datatype trace_kind = Admitted | Completed | RetiredEvent | Dropped

record trace_event =
  te_sequence :: nat
  te_at :: timestamp
  te_kind :: trace_kind
  te_detail :: nat

record event_ring =
  er_capacity :: nat
  er_events :: "trace_event list"
  er_next :: nat
  er_dropped :: nat
  er_evicted :: nat
  er_accepted :: nat

definition ring_new :: "nat \<Rightarrow> event_ring" where
  "ring_new cap = \<lparr>er_capacity = cap, er_events = [], er_next = 1, er_dropped = 0, er_evicted = 0,
     er_accepted = 0\<rparr>"

definition push_accepted ::
  "event_ring \<Rightarrow> timestamp \<Rightarrow> trace_kind \<Rightarrow> nat \<Rightarrow> (tracing_error + nat) \<times> event_ring" where
  "push_accepted r at k d = (case checked_add (er_next r) 1 of
     None \<Rightarrow> (Inl SequenceExhausted, r)
   | Some next \<Rightarrow>
       let r1 = r\<lparr>er_next := next, er_events := er_events r @
         [\<lparr>te_sequence = er_next r, te_at = at, te_kind = k, te_detail = d\<rparr>]\<rparr> in
       (case checked_add (er_accepted r1) 1 of
          None \<Rightarrow> (Inl SequenceExhausted, r1)
        | Some n \<Rightarrow> (Inr (er_next r), r1\<lparr>er_accepted := n\<rparr>)))"

definition ring_push ::
  "event_ring \<Rightarrow> timestamp \<Rightarrow> trace_kind \<Rightarrow> nat \<Rightarrow> (tracing_error + nat) \<times> event_ring" where
  "ring_push r at k d =
     (if length (er_events r) \<ge> er_capacity r then
        (case checked_add (er_dropped r) 1 of
           None \<Rightarrow> (Inl SequenceExhausted, r)
         | Some n \<Rightarrow> (Inl (RingFull (er_capacity r) n), r\<lparr>er_dropped := n\<rparr>))
      else push_accepted r at k d)"

definition ring_push_overwrite ::
  "event_ring \<Rightarrow> timestamp \<Rightarrow> trace_kind \<Rightarrow> nat \<Rightarrow> (tracing_error + nat) \<times> event_ring" where
  "ring_push_overwrite r at k d =
     (if length (er_events r) \<ge> er_capacity r then
        let r1 = r\<lparr>er_events := tl (er_events r)\<rparr> in
        (case checked_add (er_evicted r1) 1 of
           None \<Rightarrow> (Inl SequenceExhausted, r1)
         | Some n \<Rightarrow> push_accepted (r1\<lparr>er_evicted := n\<rparr>) at k d)
      else push_accepted r at k d)"

record overflow_summary =
  os_capacity :: nat
  os_occupied :: nat
  os_dropped :: nat
  os_evicted :: nat
  os_accepted :: nat

definition ring_summary :: "event_ring \<Rightarrow> overflow_summary" where
  "ring_summary r = \<lparr>os_capacity = er_capacity r, os_occupied = length (er_events r),
     os_dropped = er_dropped r, os_evicted = er_evicted r, os_accepted = er_accepted r\<rparr>"

text \<open>Operations on a ring: the flag selects \<open>push_overwrite\<close>.\<close>

fun ring_run ::
  "(bool \<times> timestamp \<times> trace_kind \<times> nat) list \<Rightarrow> event_ring \<Rightarrow> (tracing_error + nat) list \<times> event_ring" where
  "ring_run [] r = ([], r)"
| "ring_run ((overwrite, at, k, d) # ops) r =
     (case (if overwrite then ring_push_overwrite r at k d else ring_push r at k d) of
        (res, r') \<Rightarrow> (case ring_run ops r' of (rs, r'') \<Rightarrow> (res # rs, r'')))"

definition ring_ok :: "event_ring \<Rightarrow> bool" where
  "ring_ok r \<longleftrightarrow> 0 < er_capacity r \<and> length (er_events r) \<le> er_capacity r \<and>
     0 < er_next r \<and> er_next r \<le> u64_max \<and> er_next r = Suc (er_accepted r) \<and>
     er_accepted r = er_evicted r + length (er_events r) \<and>
     map te_sequence (er_events r) = [er_next r - length (er_events r)..<er_next r]"

lemma ring_ok_new: "0 < cap \<Longrightarrow> ring_ok (ring_new cap)"
  by (simp add: ring_ok_def ring_new_def)

lemma push_accepted_cases:
  assumes "ring_ok r \<or> (0 < er_next r \<and> er_next r \<le> u64_max \<and> er_next r = Suc (er_accepted r))"
  shows "push_accepted r at k d =
    (if er_next r = u64_max then (Inl SequenceExhausted, r)
     else (Inr (er_next r), r\<lparr>er_next := Suc (er_next r), er_accepted := Suc (er_accepted r),
       er_events := er_events r @ [\<lparr>te_sequence = er_next r, te_at = at, te_kind = k, te_detail = d\<rparr>]\<rparr>))"
  using assms by (auto simp: push_accepted_def ring_ok_def checked_add_def Let_def)

lemma push_accepted_ok:
  assumes ok: "ring_ok r" and room: "length (er_events r) < er_capacity r"
  shows "ring_ok (snd (push_accepted r at k d))"
proof (cases "er_next r = u64_max")
  case True
  then show ?thesis using ok by (simp add: push_accepted_cases)
next
  case False
  have "er_next r - length (er_events r) < er_next r" if "er_events r \<noteq> []"
    using ok that by (simp add: ring_ok_def)
  then have "[Suc (er_next r) - length (er_events r @ [x])..<Suc (er_next r)]
      = [er_next r - length (er_events r)..<er_next r] @ [er_next r]" for x
    by simp
  then show ?thesis
    using False ok room by (simp add: push_accepted_cases ring_ok_def)
qed

lemma ring_push_ok: "ring_ok r \<Longrightarrow> ring_ok (snd (ring_push r at k d))"
proof (cases "er_capacity r \<le> length (er_events r)")
  case True
  assume "ring_ok r"
  with True show ?thesis by (auto simp: ring_push_def ring_ok_def split: option.split)
qed (simp add: ring_push_def push_accepted_ok)

lemma evict_ok:
  assumes ok: "ring_ok r" and full: "er_capacity r \<le> length (er_events r)"
  shows "er_evicted r < u64_max"
    "ring_ok (r\<lparr>er_events := tl (er_events r), er_evicted := Suc (er_evicted r)\<rparr>)"
    "length (tl (er_events r)) < er_capacity r"
proof -
  obtain e es where es: "er_events r = e # es"
    using ok full by (cases "er_events r") (auto simp: ring_ok_def)
  show "er_evicted r < u64_max"
    using ok es by (auto simp: ring_ok_def)
  have seq: "map te_sequence (er_events r) = [er_next r - length (er_events r)..<er_next r]"
    and len: "length es < er_next r"
    using ok es by (auto simp: ring_ok_def)
  have "map te_sequence es = tl (map te_sequence (er_events r))" by (simp add: es)
  also have "\<dots> = [Suc (er_next r - Suc (length es))..<er_next r]"
    unfolding seq by (simp add: es del: upt_Suc)
  also have "\<dots> = [er_next r - length es..<er_next r]"
    using len by (simp add: Suc_diff_Suc)
  finally show "ring_ok (r\<lparr>er_events := tl (er_events r), er_evicted := Suc (er_evicted r)\<rparr>)"
    using ok es by (auto simp: ring_ok_def)
  show "length (tl (er_events r)) < er_capacity r"
    using ok es by (auto simp: ring_ok_def)
qed

lemma ring_push_overwrite_ok: "ring_ok r \<Longrightarrow> ring_ok (snd (ring_push_overwrite r at k d))"
proof (cases "er_capacity r \<le> length (er_events r)")
  case True
  assume ok: "ring_ok r"
  with True evict_ok [OF ok True] show ?thesis
    by (simp add: ring_push_overwrite_def push_accepted_ok)
qed (simp add: ring_push_overwrite_def push_accepted_ok)

text \<open>What a sequence of results says: the numbers handed out, and the rejections counted.\<close>

definition granted :: "(tracing_error + nat) list \<Rightarrow> nat list" where
  "granted rs = concat (map (case_sum (\<lambda>_. []) (\<lambda>n. [n])) rs)"

fun is_ring_full :: "tracing_error + nat \<Rightarrow> bool" where
  "is_ring_full (Inl (RingFull _ _)) = True"
| "is_ring_full _ = False"

lemma granted_simps [simp]:
  "granted [] = []" "granted (Inl e # rs) = granted rs" "granted (Inr n # rs) = n # granted rs"
  by (simp_all add: granted_def)

lemma push_accepted_result:
  assumes "ring_ok r" and "push_accepted r at k d = (res, r')"
  shows "granted [res] = [er_next r..<er_next r'] \<and> \<not> is_ring_full res \<and>
    er_dropped r' = er_dropped r \<and> er_capacity r' = er_capacity r"
  using assms by (auto simp: push_accepted_cases split: if_splits)

lemma push_result:
  assumes ok: "ring_ok r"
    and res: "(if ov then ring_push_overwrite r at k d else ring_push r at k d) = (res, r')"
  shows "ring_ok r' \<and> granted [res] = [er_next r..<er_next r'] \<and>
    er_dropped r' = er_dropped r + (if is_ring_full res then 1 else 0) \<and>
    er_capacity r' = er_capacity r \<and> er_next r \<le> er_next r'"
proof -
  have "ring_ok r'"
    using ring_push_ok [OF ok, of at k d] ring_push_overwrite_ok [OF ok, of at k d] res
    by (cases ov) auto
  moreover have "granted [res] = [er_next r..<er_next r'] \<and>
      er_dropped r' = er_dropped r + (if is_ring_full res then 1 else 0) \<and>
      er_capacity r' = er_capacity r \<and> er_next r \<le> er_next r'"
  proof (cases "er_capacity r \<le> length (er_events r)")
    case True
    let ?r = "r\<lparr>er_events := tl (er_events r), er_evicted := Suc (er_evicted r)\<rparr>"
    from True ok res evict_ok [OF ok True] push_accepted_cases [of ?r at k d] show ?thesis
      by (cases ov)
        (auto simp: ring_push_def ring_push_overwrite_def checked_add_def split: if_splits)
  next
    case False
    then have "push_accepted r at k d = (res, r')"
      using res by (cases ov) (auto simp: ring_push_def ring_push_overwrite_def)
    with push_accepted_result [OF ok this] push_accepted_cases [of r at k d] ok show ?thesis
      by (auto split: if_splits)
  qed
  ultimately show ?thesis by blast
qed

lemma ring_run_result:
  "ring_ok r \<Longrightarrow> ring_run ops r = (rs, r') \<Longrightarrow>
     ring_ok r' \<and> granted rs = [er_next r..<er_next r'] \<and> er_next r \<le> er_next r' \<and>
     er_dropped r' = er_dropped r + length (filter is_ring_full rs) \<and> er_capacity r' = er_capacity r"
proof (induction ops arbitrary: r rs)
  case (Cons x ops)
  obtain ov at k d where x: "x = (ov, at, k, d)" by (cases x) auto
  obtain res r1 where step: "(if ov then ring_push_overwrite r at k d else ring_push r at k d) = (res, r1)"
    by fastforce
  obtain rs1 where rs: "ring_run ops r1 = (rs1, r')" "rs = res # rs1"
    using Cons.prems(2) by (auto simp: x step split: prod.splits)
  note one = push_result [OF Cons.prems(1) step]
  note rest = Cons.IH [OF conjunct1 [OF one] rs(1)]
  have "granted rs = granted [res] @ granted rs1" by (simp add: rs(2) granted_def)
  also have "\<dots> = [er_next r..<er_next r1] @ [er_next r1..<er_next r']" using one rest by simp
  also have "\<dots> = [er_next r..<er_next r']"
    using one rest by (metis le_add_diff_inverse upt_add_eq_append)
  finally show ?case using one rest by (auto simp: rs(2))
qed simp

section \<open>Properties\<close>

text \<open>
  Whatever is pushed onto a ring, its contents are always the last events accepted: their
  sequence numbers are consecutive and end just before the next one, the numbers granted over its
  life are 1, 2, 3 and so on without a gap, the ring never exceeds its capacity, every accepted
  event is still present or counted as evicted, and every rejection is counted as dropped.
\<close>

theorem event_ring_accounting:
  assumes "0 < cap" and "ring_run ops (ring_new cap) = (rs, r)"
  shows "let s = ring_summary r in
    os_capacity s = cap \<and> os_occupied s \<le> cap \<and> os_accepted s = os_evicted s + os_occupied s \<and>
    os_accepted s = length (granted rs) \<and> os_dropped s = length (filter is_ring_full rs) \<and>
    granted rs = [1..<Suc (os_accepted s)] \<and>
    map te_sequence (er_events r) = [Suc (os_evicted s)..<Suc (os_accepted s)]"
proof -
  from ring_run_result [OF ring_ok_new [OF assms(1)] assms(2)]
  have run: "ring_ok r" "granted rs = [1..<er_next r]" "er_dropped r = length (filter is_ring_full rs)"
    "er_capacity r = cap" by (auto simp: ring_new_def)
  then show ?thesis
    by (auto simp: Let_def ring_summary_def ring_ok_def)
qed

theorem event_ring_accounting_witness:
  "os_evicted (ring_summary (snd (ring_run
     [(True, \<lparr>ts_domain = QId (ArenaOwnerId 1) 1, ts_nanos = 5\<rparr>, Admitted, 0),
      (False, \<lparr>ts_domain = QId (ArenaOwnerId 1) 1, ts_nanos = 6\<rparr>, Completed, 0),
      (True, \<lparr>ts_domain = QId (ArenaOwnerId 1) 1, ts_nanos = 7\<rparr>, Completed, 0)] (ring_new 1)))) = 1"
  (is "os_evicted (ring_summary (snd (ring_run ?ops _))) = 1")
proof -
  obtain rs r where run: "ring_run ?ops (ring_new 1) = (rs, r)" by fastforce
  then have "granted rs = [1, 2]" "length (er_events r) = 1"
    by (auto simp: ring_new_def ring_push_overwrite_def ring_push_def push_accepted_def
        checked_add_def u64_max_val Let_def)
  with event_ring_accounting [OF _ run] run show ?thesis
    by (simp add: Let_def ring_summary_def)
qed

text \<open>
  An adapter verified from one pair of readings converts the first reading exactly to the
  second, the adapter verified in the other direction converts it back, and converting any reading
  there and back returns that reading whenever both conversions succeed.
\<close>

theorem domain_offset_roundtrip:
  assumes "between_readings s t = Inr f" and "between_readings t s = Inr g"
    and "ts_nanos s \<le> u64_max" and "ts_nanos t \<le> u64_max"
  shows "convert_to s f (ts_domain t) = Inr t \<and> convert_to t g (ts_domain s) = Inr s \<and>
    (\<forall>x y z. convert_to x f (ts_domain t) = Inr y \<longrightarrow> convert_to y g (ts_domain s) = Inr z \<longrightarrow> z = x)"
proof -
  have f: "f = \<lparr>off_source = ts_domain s, off_target = ts_domain t,
      off_nanos = int (ts_nanos t) - int (ts_nanos s)\<rparr>"
    and g: "g = \<lparr>off_source = ts_domain t, off_target = ts_domain s,
      off_nanos = int (ts_nanos s) - int (ts_nanos t)\<rparr>"
    using assms(1,2) by (auto simp: between_readings_def offset_new_def Let_def split: if_splits)
  have "z = x" if xy: "convert_to x f (ts_domain t) = Inr y" and yz: "convert_to y g (ts_domain s) = Inr z"
    for x y z
  proof -
    have y: "y = \<lparr>ts_domain = ts_domain t, ts_nanos = nat (int (ts_nanos x) + off_nanos f)\<rparr>"
      "0 \<le> int (ts_nanos x) + off_nanos f" "ts_domain x = ts_domain s"
      using xy by (auto simp: convert_to_def f Let_def split: if_splits)
    have "z = \<lparr>ts_domain = ts_domain s, ts_nanos = nat (int (ts_nanos y) + off_nanos g)\<rparr>"
      using yz by (auto simp: convert_to_def g Let_def split: if_splits)
    then show ?thesis using y by (simp add: f g)
  qed
  then show ?thesis
    using assms(3,4) by (simp add: convert_to_def f g Let_def)
qed

theorem domain_offset_roundtrip_witness:
  "convert_to \<lparr>ts_domain = QId (ArenaOwnerId 1) 1, ts_nanos = 50\<rparr>
     \<lparr>off_source = QId (ArenaOwnerId 1) 1, off_target = QId (ArenaOwnerId 1) 2, off_nanos = - 20\<rparr>
     (QId (ArenaOwnerId 1) 2) = Inr \<lparr>ts_domain = QId (ArenaOwnerId 1) 2, ts_nanos = 30\<rparr>"
  using domain_offset_roundtrip
    [of "\<lparr>ts_domain = QId (ArenaOwnerId 1) 1, ts_nanos = 50\<rparr>"
        "\<lparr>ts_domain = QId (ArenaOwnerId 1) 2, ts_nanos = 30\<rparr>"
        "\<lparr>off_source = QId (ArenaOwnerId 1) 1, off_target = QId (ArenaOwnerId 1) 2, off_nanos = - 20\<rparr>"
        "\<lparr>off_source = QId (ArenaOwnerId 1) 2, off_target = QId (ArenaOwnerId 1) 1, off_nanos = 20\<rparr>"]
  by (simp add: between_readings_def offset_new_def Let_def i64_min_def i64_max_def u64_max_val)

text \<open>
  A deadline set a lead after a start is active with exactly the time left up to and including
  the deadline itself, and expired with exactly the time since after it, on its own clock domain
  only.
\<close>

theorem deadline_exact:
  assumes "deadline_after start lead = Inr at"
  shows "ts_nanos at = ts_nanos start + lead \<and> ts_nanos at \<le> u64_max \<and>
    state_from at now =
      (if ts_domain now \<noteq> ts_domain start then Inl (DomainMismatch (ts_domain start) (ts_domain now))
       else if ts_nanos now \<le> ts_nanos start + lead
       then Inr (Active (ts_nanos start + lead - ts_nanos now))
       else Inr (Expired (ts_nanos now - (ts_nanos start + lead))))"
  using assms
  by (auto simp: deadline_after_def checked_add_nanos_def result_simps arith64 state_from_def
      split: if_splits)

theorem deadline_exact_witness:
  "state_from \<lparr>ts_domain = QId (ArenaOwnerId 1) 1, ts_nanos = 30\<rparr>
     \<lparr>ts_domain = QId (ArenaOwnerId 1) 1, ts_nanos = 30\<rparr> = Inr (Active 0)"
  using deadline_exact [of "\<lparr>ts_domain = QId (ArenaOwnerId 1) 1, ts_nanos = 10\<rparr>" 20
      "\<lparr>ts_domain = QId (ArenaOwnerId 1) 1, ts_nanos = 30\<rparr>"
      "\<lparr>ts_domain = QId (ArenaOwnerId 1) 1, ts_nanos = 30\<rparr>"]
  by (simp add: deadline_after_def checked_add_nanos_def u64_max_val)

end
