(* ===== verification/Captures.thy ===== *)
theory Captures
  imports Core_Ids
begin

text \<open>
  \<open>crates/fcb-source/src/lib.rs\<close>: capture requests, complete and extent captures, grants, and the
  in-memory provider.

  A byte sequence is a list of \<open>8 word\<close>, a digest a \<open>64 word\<close>. A \<open>BTreeSet\<close> of granted files is a
  set, the provider's \<open>BTreeMap\<close> a map. The cancellation flag, an atomic that another thread may
  set, is the boolean that \<open>is_canceled\<close> reads.
\<close>

section \<open>Errors and digests\<close>

datatype source_error =
    ForeignOwner
  | MetadataMismatch
  | InvalidRange
  | OverlappingExtent
  | RangeOutOfBounds
  | RangeAlreadySet
  | Canceled
  | UnsupportedGuarantee
  | CaptureUnavailable
  | PayloadTooLarge
  | CaptureAlreadyPresent
  | GrantRevoked
  | RootUnavailable
  | PathEscape
  | SymlinkForbidden
  | ForeignSymlink
  | TraversalCycle
  | SpecialObject
  | EncodingError
  | ConcurrentModification
  | ChunkOutOfBounds
  | StaleCapture
  | PinActive
  | IdentityExhausted
  | SourceNativeSentinel
  | SourceInvalidUtf8Boundary
  | SourceInvalidUtf16
  | UnsupportedEncoding

definition from_core_error :: "core_error \<Rightarrow> source_error" where
  "from_core_error e = (case e of
     NativeSentinel \<Rightarrow> SourceNativeSentinel
   | InvalidUtf8Boundary \<Rightarrow> SourceInvalidUtf8Boundary
   | InvalidUtf16 \<Rightarrow> SourceInvalidUtf16
   | RangeReversed \<Rightarrow> InvalidRange
   | InvalidId \<Rightarrow> InvalidRange
   | LimitExceeded \<Rightarrow> RangeOutOfBounds
   | ArithmeticOverflow \<Rightarrow> RangeOutOfBounds
   | ArithmeticUnderflow \<Rightarrow> RangeOutOfBounds
   | OwnershipMismatch \<Rightarrow> ForeignOwner
   | _ \<Rightarrow> EncodingError)"

type_synonym digest = "64 word"

unbundle bit_operations_syntax

definition fnv_offset :: digest where "fnv_offset = 0xcbf29ce484222325"
definition fnv_prime :: digest where "fnv_prime = 0x00000100000001b3"

definition fnv_step :: "byte \<Rightarrow> digest \<Rightarrow> digest" where
  "fnv_step b h = (h XOR ucast b) * fnv_prime"

definition fnv_mix :: "nat \<Rightarrow> digest \<Rightarrow> digest" where
  "fnv_mix n h = h XOR word_rotl 32 (word_of_nat n)"

definition observe :: "byte list \<Rightarrow> digest" where
  "observe bytes = fnv_mix (length bytes) (fold fnv_step bytes fnv_offset)"

section \<open>Requests and complete captures\<close>

record capture_request =
  req_file :: file_id
  req_revision :: source_revision
  req_range :: "byte_range option"

definition request_new :: "file_id \<Rightarrow> source_revision \<Rightarrow> source_error + capture_request" where
  "request_new f rv =
     (if qid_owner f \<noteq> qid_owner rv then Inl ForeignOwner
      else Inr \<lparr>req_file = f, req_revision = rv, req_range = None\<rparr>)"

definition with_range :: "capture_request \<Rightarrow> byte_range \<Rightarrow> source_error + capture_request" where
  "with_range q r =
     (if req_range q \<noteq> None then Inl RangeAlreadySet
      else if range_start r = range_end r then Inl InvalidRange
      else Inr (q\<lparr>req_range := Some r\<rparr>))"

record complete_capture =
  cc_request :: capture_request
  cc_bytes :: "byte list"
  cc_length :: nat
  cc_digest :: digest

definition complete_new :: "capture_request \<Rightarrow> nat \<Rightarrow> byte list \<Rightarrow> source_error + complete_capture" where
  "complete_new q declared bytes =
     (if declared \<noteq> length bytes then Inl MetadataMismatch
      else Inr \<lparr>cc_request = q, cc_bytes = bytes, cc_length = declared, cc_digest = observe bytes\<rparr>)"

definition share_with_request ::
  "complete_capture \<Rightarrow> capture_request \<Rightarrow> source_error + complete_capture" where
  "share_with_request c q =
     (if req_range q \<noteq> req_range (cc_request c) then Inl InvalidRange
      else Inr (c\<lparr>cc_request := q\<rparr>))"

definition range_bytes :: "complete_capture \<Rightarrow> byte_range \<Rightarrow> source_error + byte list" where
  "range_bytes c r =
     (if range_start r = range_end r \<or> range_end r > length (cc_bytes c) then Inl RangeOutOfBounds
      else if range_start r > range_end r then Inl RangeOutOfBounds
      else Inr (slice (cc_bytes c) (range_start r) (range_end r)))"

section \<open>Extent captures\<close>

record observed_range =
  ob_range :: byte_range
  ob_digest :: digest

definition observed_new :: "byte_range \<Rightarrow> byte list \<Rightarrow> source_error + observed_range" where
  "observed_new r observed =
     (if range_start r = range_end r then Inl InvalidRange
      else if length observed \<noteq> range_len r then Inl MetadataMismatch
      else Inr \<lparr>ob_range = r, ob_digest = observe observed\<rparr>)"

record extent_capture =
  ec_request :: capture_request
  ec_observations :: "observed_range list"
  ec_holes :: "byte_range list"
  ec_total :: "nat option"

text \<open>The three validation loops of \<open>ExtentCapture::new\<close>.\<close>

fun check_observations :: "nat option \<Rightarrow> observed_range list \<Rightarrow> source_error + unit" where
  "check_observations previous [] = Inr ()"
| "check_observations previous (ob # obs) =
     (if (case previous of None \<Rightarrow> False | Some e \<Rightarrow> range_start (ob_range ob) < e)
      then Inl OverlappingExtent
      else check_observations (Some (range_end (ob_range ob))) obs)"

fun check_holes :: "nat option \<Rightarrow> nat option \<Rightarrow> byte_range list \<Rightarrow> source_error + unit" where
  "check_holes limit previous [] = Inr ()"
| "check_holes limit previous (h # hs) =
     (if range_start h = range_end h then Inl InvalidRange
      else if (case previous of None \<Rightarrow> False | Some e \<Rightarrow> range_start h < e) then Inl OverlappingExtent
      else if (case limit of None \<Rightarrow> False | Some t \<Rightarrow> range_end h > t) then Inl RangeOutOfBounds
      else check_holes limit (Some (range_end h)) hs)"

text \<open>The merge loop over both lists: each step retires one interval.\<close>

fun check_disjoint :: "observed_range list \<Rightarrow> byte_range list \<Rightarrow> source_error + unit" where
  "check_disjoint (ob # obs) (h # hs) =
     (if range_end (ob_range ob) \<le> range_start h then check_disjoint obs (h # hs)
      else if range_end h \<le> range_start (ob_range ob) then check_disjoint (ob # obs) hs
      else Inl OverlappingExtent)"
| "check_disjoint _ _ = Inr ()"

definition extent_new ::
  "capture_request \<Rightarrow> observed_range list \<Rightarrow> byte_range list \<Rightarrow> nat option \<Rightarrow>
   source_error + extent_capture" where
  "extent_new q obs holes limit =
     and_then (check_observations None obs) (\<lambda>_.
     and_then (check_holes limit None holes) (\<lambda>_.
     and_then (check_disjoint obs holes) (\<lambda>_.
     if limit \<noteq> None \<and> obs \<noteq> [] \<and> range_end (ob_range (last obs)) > the limit
     then Inl RangeOutOfBounds
     else Inr \<lparr>ec_request = q, ec_observations = obs, ec_holes = holes, ec_total = limit\<rparr>)))"

text \<open>The loop of \<open>covers\<close>: \<^const>\<open>None\<close> is the early \<open>return false\<close>.\<close>

fun covers_loop :: "nat \<Rightarrow> observed_range list \<Rightarrow> nat \<Rightarrow> nat option" where
  "covers_loop goal [] cursor = Some cursor"
| "covers_loop goal (ob # obs) cursor =
     (if range_end (ob_range ob) \<le> cursor then covers_loop goal obs cursor
      else if range_start (ob_range ob) > cursor then None
      else let cursor' = range_end (ob_range ob) in
        if cursor' \<ge> goal then Some cursor' else covers_loop goal obs cursor')"

definition covers :: "extent_capture \<Rightarrow> byte_range \<Rightarrow> bool" where
  "covers e r =
     (if range_start r = range_end r then False
      else case covers_loop (range_end r) (ec_observations e) (range_start r) of
        None \<Rightarrow> False | Some cursor \<Rightarrow> cursor \<ge> range_end r)"

section \<open>Grants and the in-memory provider\<close>

datatype capture_outcome = Complete complete_capture | Extent extent_capture

record source_grant =
  gr_owner :: arena_owner_id
  gr_files :: "file_id set"

definition grant_new :: "arena_owner_id \<Rightarrow> source_grant" where
  "grant_new ow = \<lparr>gr_owner = ow, gr_files = {}\<rparr>"

definition grant_file :: "source_grant \<Rightarrow> file_id \<Rightarrow> source_error + source_grant" where
  "grant_file g f =
     (if qid_owner f \<noteq> gr_owner g then Inl ForeignOwner
      else Inr (g\<lparr>gr_files := insert f (gr_files g)\<rparr>))"

definition admits :: "source_grant \<Rightarrow> file_id \<Rightarrow> bool" where
  "admits g f \<longleftrightarrow> qid_owner f = gr_owner g \<and> f \<in> gr_files g"

fun outcome_request :: "capture_outcome \<Rightarrow> capture_request" where
  "outcome_request (Complete c) = cc_request c"
| "outcome_request (Extent e) = ec_request e"

definition grant_validate :: "source_grant \<Rightarrow> capture_outcome \<Rightarrow> source_error + unit" where
  "grant_validate g out =
     (if qid_owner (req_file (outcome_request out)) \<noteq> gr_owner g then Inl ForeignOwner
      else if \<not> admits g (req_file (outcome_request out)) then Inl ForeignOwner
      else Inr ())"

record provider =
  pv_owner :: arena_owner_id
  pv_max_payload :: nat
  pv_captures :: "file_id \<times> source_revision \<rightharpoonup> byte list"

definition provider_new :: "arena_owner_id \<Rightarrow> nat \<Rightarrow> provider" where
  "provider_new ow m = \<lparr>pv_owner = ow, pv_max_payload = m, pv_captures = Map.empty\<rparr>"

definition provider_insert ::
  "provider \<Rightarrow> file_id \<Rightarrow> source_revision \<Rightarrow> byte list \<Rightarrow> (source_error + unit) \<times> provider" where
  "provider_insert p f rv bytes =
     (if qid_owner f \<noteq> pv_owner p \<or> qid_owner rv \<noteq> pv_owner p then (Inl ForeignOwner, p)
      else if pv_captures p (f, rv) \<noteq> None then (Inl CaptureAlreadyPresent, p)
      else (Inr (), p\<lparr>pv_captures := (pv_captures p)((f, rv) \<mapsto> bytes)\<rparr>))"

definition gate_request_on_cancel :: "bool \<Rightarrow> source_error + unit" where
  "gate_request_on_cancel canceled = (if canceled then Inl Canceled else Inr ())"

definition provider_capture ::
  "provider \<Rightarrow> source_grant \<Rightarrow> capture_request \<Rightarrow> bool \<Rightarrow> source_error + capture_outcome" where
  "provider_capture p g q canceled =
     (if qid_owner (req_file q) \<noteq> pv_owner p \<or> gr_owner g \<noteq> pv_owner p \<or> \<not> admits g (req_file q)
      then Inl ForeignOwner
      else
        and_then (gate_request_on_cancel canceled) (\<lambda>_.
        and_then (ok_or CaptureUnavailable (pv_captures p (req_file q, req_revision q))) (\<lambda>stored.
        and_then (case req_range q of
            None \<Rightarrow> Inr stored
          | Some r \<Rightarrow>
              if range_start r > range_end r \<or> range_end r > length stored then Inl RangeOutOfBounds
              else Inr (slice stored (range_start r) (range_end r))) (\<lambda>selected.
        if length selected > pv_max_payload p then Inl PayloadTooLarge
        else map_sum id Complete (complete_new q (length selected) selected)))))"

section \<open>Extents as sets of bytes\<close>

definition covered :: "byte_range \<Rightarrow> nat set" where
  "covered r = {range_start r..<range_end r}"

definition apart :: "byte_range \<Rightarrow> byte_range \<Rightarrow> bool" where
  "apart a b \<longleftrightarrow> range_end a \<le> range_start b"

abbreviation "filled r \<equiv> range_start r < range_end r"

lemma check_observations_iff:
  "\<forall>ob\<in>set obs. filled (ob_range ob) \<Longrightarrow> check_observations prev obs = Inr () \<longleftrightarrow>
     (\<forall>e ob. prev = Some e \<longrightarrow> ob \<in> set obs \<longrightarrow> e \<le> range_start (ob_range ob)) \<and>
     sorted_wrt apart (map ob_range obs)"
proof (induction obs arbitrary: prev)
  case (Cons ob obs)
  from Cons.IH [of "Some (range_end (ob_range ob))"] Cons.prems show ?case
    by (cases prev) (auto simp: apart_def not_less, fastforce+)
qed simp

lemma check_holes_iff:
  "check_holes limit prev hs = Inr () \<longleftrightarrow>
     (\<forall>h\<in>set hs. range_start h \<noteq> range_end h \<and> (\<forall>t. limit = Some t \<longrightarrow> range_end h \<le> t)) \<and>
     check_observations prev (map (\<lambda>h. \<lparr>ob_range = h, ob_digest = 0\<rparr>) hs) = Inr ()"
  by (induction hs arbitrary: prev) (auto simp: not_less split: option.splits)

lemma check_disjoint_iff:
  "\<lbrakk>sorted_wrt apart (map ob_range obs); sorted_wrt apart hs;
    \<forall>ob\<in>set obs. filled (ob_range ob); \<forall>h\<in>set hs. filled h\<rbrakk> \<Longrightarrow>
   check_disjoint obs hs = Inr () \<longleftrightarrow>
     (\<forall>ob\<in>set obs. \<forall>h\<in>set hs. apart (ob_range ob) h \<or> apart h (ob_range ob))"
proof (induction obs hs rule: check_disjoint.induct)
  case (1 ob obs h hs)
  show ?case
  proof (cases "range_end (ob_range ob) \<le> range_start h")
    case True
    then have "\<forall>h'\<in>set (h # hs). apart (ob_range ob) h'"
      using "1.prems" by (fastforce simp: apart_def)
    with 1 True show ?thesis by auto
  next
    case False
    show ?thesis
    proof (cases "range_end h \<le> range_start (ob_range ob)")
      case True
      then have "\<forall>ob'\<in>set (ob # obs). apart h (ob_range ob')"
        using "1.prems" by (fastforce simp: apart_def)
      with 1 False True show ?thesis by auto
    next
      case outer: False
      with False show ?thesis by (auto simp: apart_def)
    qed
  qed
qed auto

text \<open>The extents that the constructor accepts.\<close>

definition extent_valid :: "observed_range list \<Rightarrow> byte_range list \<Rightarrow> nat option \<Rightarrow> bool" where
  "extent_valid obs holes limit \<longleftrightarrow>
     (\<forall>h\<in>set holes. range_start h \<noteq> range_end h) \<and>
     sorted_wrt apart (map ob_range obs) \<and> sorted_wrt apart holes \<and>
     (\<forall>ob\<in>set obs. \<forall>h\<in>set holes. covered (ob_range ob) \<inter> covered h = {}) \<and>
     (\<forall>t. limit = Some t \<longrightarrow>
        (\<forall>ob\<in>set obs. range_end (ob_range ob) \<le> t) \<and> (\<forall>h\<in>set holes. range_end h \<le> t))"

lemma apart_disjoint:
  "filled a \<Longrightarrow> filled b \<Longrightarrow> covered a \<inter> covered b = {} \<longleftrightarrow> apart a b \<or> apart b a"
proof -
  assume fill: "filled a" "filled b"
  have "max (range_start a) (range_start b) \<in> covered a \<inter> covered b" if "\<not> (apart a b \<or> apart b a)"
    using that fill by (auto simp: covered_def apart_def)
  moreover have "covered a \<inter> covered b = {}" if "apart a b \<or> apart b a"
    using that by (auto simp: covered_def apart_def)
  ultimately show ?thesis by blast
qed

lemma last_bound:
  assumes "sorted_wrt apart (map ob_range obs)" and "\<forall>ob\<in>set obs. filled (ob_range ob)" and "obs \<noteq> []"
  shows "range_end (ob_range (last obs)) \<le> t \<longleftrightarrow> (\<forall>ob\<in>set obs. range_end (ob_range ob) \<le> t)"
  using assms
proof (induction obs)
  case (Cons ob obs)
  have "range_end (ob_range ob) \<le> range_end (ob_range (last obs))" if "obs \<noteq> []"
  proof -
    have "apart (ob_range ob) (ob_range (last obs))" "filled (ob_range (last obs))"
      using Cons.prems that last_in_set [OF that] by simp_all
    then show ?thesis by (simp add: apart_def)
  qed
  with Cons show ?case by (cases "obs = []") (auto dest: last_in_set intro: order_trans)
qed simp

lemma extent_new_iff:
  assumes fill: "\<forall>ob\<in>set obs. filled (ob_range ob)" and holes: "\<forall>h\<in>set holes. range_ok h"
  shows "is_ok (extent_new q obs holes limit) \<longleftrightarrow> extent_valid obs holes limit"
proof (cases "\<forall>h\<in>set holes. range_start h \<noteq> range_end h")
  case False
  then have "check_holes limit None holes \<noteq> Inr ()" by (auto simp: check_holes_iff)
  then have "\<not> is_ok (extent_new q obs holes limit)"
    by (auto simp: extent_new_def is_ok_iff result_simps)
  with False show ?thesis by (auto simp: extent_valid_def)
next
  case True
  then have hfill: "\<forall>h\<in>set holes. filled h"
    using holes by (auto simp: range_ok_def order.strict_iff_order)
  have obs_iff: "check_observations None obs = Inr () \<longleftrightarrow> sorted_wrt apart (map ob_range obs)"
    using check_observations_iff [OF fill] by simp
  have holes_iff: "check_holes limit None holes = Inr () \<longleftrightarrow> sorted_wrt apart holes \<and>
      (\<forall>h\<in>set holes. \<forall>t. limit = Some t \<longrightarrow> range_end h \<le> t)"
    using True hfill check_observations_iff [of "map (\<lambda>h. \<lparr>ob_range = h, ob_digest = 0\<rparr>) holes" None]
    by (auto simp: check_holes_iff comp_def)
  have "is_ok (extent_new q obs holes limit) \<longleftrightarrow> check_observations None obs = Inr () \<and>
      check_holes limit None holes = Inr () \<and> check_disjoint obs holes = Inr () \<and>
      \<not> (limit \<noteq> None \<and> obs \<noteq> [] \<and> range_end (ob_range (last obs)) > the limit)"
    by (auto simp: extent_new_def is_ok_iff result_simps)
  also have "\<dots> \<longleftrightarrow> extent_valid obs holes limit"
    using True fill hfill last_bound [of obs "the limit"] check_disjoint_iff [of obs holes]
      apart_disjoint
    unfolding obs_iff holes_iff extent_valid_def by (cases "obs = []"; cases limit) (auto simp: not_less)
  finally show ?thesis .
qed

lemma covers_loop_iff:
  "\<lbrakk>sorted_wrt apart (map ob_range obs); \<forall>ob\<in>set obs. filled (ob_range ob); cursor < goal\<rbrakk> \<Longrightarrow>
   (case covers_loop goal obs cursor of None \<Rightarrow> False | Some c \<Rightarrow> goal \<le> c) \<longleftrightarrow>
     {cursor..<goal} \<subseteq> (\<Union>ob\<in>set obs. covered (ob_range ob))"
proof (induction obs arbitrary: cursor)
  case (Cons ob obs)
  let ?s = "range_start (ob_range ob)" and ?e = "range_end (ob_range ob)"
  let ?U = "\<Union>ob\<in>set obs. covered (ob_range ob)"
  have later: "?U \<subseteq> {?e..}" using Cons.prems(1) by (fastforce simp: apart_def covered_def)
  have prems: "sorted_wrt apart (map ob_range obs)" "\<forall>ob\<in>set obs. filled (ob_range ob)"
    using Cons.prems by auto
  show ?case
  proof (cases "?e \<le> cursor")
    case True
    then have "{cursor..<goal} \<inter> covered (ob_range ob) = {}" by (auto simp: covered_def)
    then have "{cursor..<goal} \<subseteq> covered (ob_range ob) \<union> ?U \<longleftrightarrow> {cursor..<goal} \<subseteq> ?U" by blast
    with True Cons.IH [OF prems Cons.prems(3)] show ?thesis by simp
  next
    case False
    show ?thesis
    proof (cases "?s > cursor")
      case True
      then have "cursor \<notin> covered (ob_range ob) \<union> ?U"
        using False later by (simp add: covered_def not_le subset_iff) fastforce
      then have "\<not> {cursor..<goal} \<subseteq> covered (ob_range ob) \<union> ?U" using Cons.prems(3) by fastforce
      with False True show ?thesis by simp
    next
      case inside: False
      show ?thesis
      proof (cases "?e \<ge> goal")
        case True
        then have "{cursor..<goal} \<subseteq> covered (ob_range ob)" using inside by (auto simp: covered_def)
        with True False inside show ?thesis by (auto simp: Let_def)
      next
        case more: False
        have "{cursor..<goal} = {cursor..<?e} \<union> {?e..<goal}" using False more by auto
        moreover have "{cursor..<?e} \<subseteq> covered (ob_range ob)" using inside by (auto simp: covered_def)
        moreover have "{?e..<goal} \<inter> covered (ob_range ob) = {}" by (auto simp: covered_def)
        ultimately have "{cursor..<goal} \<subseteq> covered (ob_range ob) \<union> ?U \<longleftrightarrow> {?e..<goal} \<subseteq> ?U" by blast
        with False inside more Cons.IH [OF prems, of ?e] show ?thesis by (simp add: Let_def)
      qed
    qed
  qed
qed auto

section \<open>Digests collide\<close>

lemma xor_right_cancel: "a XOR c = b XOR c \<longleftrightarrow> a = b" for a b c :: "'a::len word"
  by (metis xor.assoc xor.right_neutral xor_self_eq)

lemma observe_single: "observe [0] \<noteq> observe [1]"
  unfolding observe_def fnv_mix_def
  by (simp add: xor_right_cancel fnv_step_def fnv_offset_def fnv_prime_def)

lemma digest_collision:
  "\<exists>xs ys. length xs < 2 ^ 64 \<and> length ys < 2 ^ 64 \<and> length xs \<noteq> length ys \<and> observe xs = observe ys"
proof -
  let ?N = "{..<2 ^ 64 :: nat}" and ?f = "\<lambda>n. observe (replicate n 0)"
  show ?thesis
  proof (cases "inj_on ?f ?N")
    case True
    then have "card (?f ` ?N) = CARD(digest)" by (simp add: card_image card_word)
    then have "?f ` ?N = UNIV" by (intro card_subset_eq) simp_all
    then have "observe [1] \<in> ?f ` ?N" by simp
    then obtain n where n: "n < 2 ^ 64" "?f n = observe [1]" by auto
    then have "n \<noteq> 1" using observe_single by (auto simp: replicate_Suc [of 0, simplified])
    with n show ?thesis
      by (intro exI [of _ "[1]"] exI [of _ "replicate n 0"]) simp
  next
    case False
    then obtain n m where "n < 2 ^ 64" "m < 2 ^ 64" "n \<noteq> m" "?f n = ?f m"
      by (auto simp: inj_on_def)
    then show ?thesis by (intro exI [of _ "replicate n 0"] exI [of _ "replicate m 0"]) simp
  qed
qed

section \<open>Properties\<close>

text \<open>
  An extent capture is accepted exactly when its metadata is consistent: the observations and
  the holes are each sorted and free of overlap, no hole is empty, no byte is both observed and a
  hole, and everything lies within the declared length - although the code compares the two lists
  in one linear merge only.
\<close>

theorem extent_accepts_exactly_consistent:
  assumes "\<forall>ob\<in>set obs. \<exists>bytes. observed_new (ob_range ob) bytes = Inr ob \<and> range_ok (ob_range ob)"
    and "\<forall>h\<in>set holes. range_ok h"
  shows "is_ok (extent_new q obs holes limit) \<longleftrightarrow> extent_valid obs holes limit"
proof (rule extent_new_iff [OF _ assms(2)])
  show "\<forall>ob\<in>set obs. filled (ob_range ob)"
    using assms(1) by (fastforce simp: observed_new_def range_ok_def order.strict_iff_order split: if_splits)
qed

theorem extent_accepts_exactly_consistent_witness:
  "\<not> is_ok (extent_new \<lparr>req_file = QId (ArenaOwnerId 1) 1, req_revision = QId (ArenaOwnerId 1) 1,
       req_range = None\<rparr>
     [\<lparr>ob_range = OffsetRange 0 2, ob_digest = observe [7, 7]\<rparr>] [OffsetRange 1 4] (Some 9))"
  (is "\<not> is_ok (extent_new ?q ?obs ?holes ?l)")
proof -
  have "observed_new (OffsetRange 0 2) [7, 7] = Inr \<lparr>ob_range = OffsetRange 0 2, ob_digest = observe [7, 7]\<rparr>"
    by (simp add: observed_new_def range_len_def)
  then have "\<forall>ob\<in>set ?obs. \<exists>bytes. observed_new (ob_range ob) bytes = Inr ob \<and> range_ok (ob_range ob)"
    by (auto simp: range_ok_def)
  moreover have "\<forall>h\<in>set ?holes. range_ok h" by (simp add: range_ok_def)
  ultimately have "is_ok (extent_new ?q ?obs ?holes ?l) \<longleftrightarrow> extent_valid ?obs ?holes ?l"
    by (rule extent_accepts_exactly_consistent)
  moreover have "1 \<in> covered (OffsetRange 0 2) \<inter> covered (OffsetRange 1 4)"
    by (simp add: covered_def)
  then have "\<not> extent_valid ?obs ?holes ?l" by (auto simp: extent_valid_def)
  ultimately show ?thesis by simp
qed

text \<open>
  C18: \<open>covers\<close> tells exactly whether every byte of a range was observed: for an accepted capture
  it returns true for a range if and only if the range is not empty and each of its bytes lies in
  some observation, in particular never for partial coverage or across a gap.
\<close>

theorem extent_covers_exact:
  assumes "\<forall>ob\<in>set obs. filled (ob_range ob)" and "\<forall>h\<in>set holes. range_ok h"
    and "extent_new q obs holes limit = Inr e" and "range_ok r"
  shows "covers e r \<longleftrightarrow> covered r \<noteq> {} \<and> covered r \<subseteq> (\<Union>ob\<in>set obs. covered (ob_range ob))"
proof -
  have e: "ec_observations e = obs"
    using assms(3) by (auto simp: extent_new_def result_simps split: if_splits)
  have "extent_valid obs holes limit"
    using extent_new_iff [OF assms(1,2), of q limit] assms(3) by simp
  then have sorted: "sorted_wrt apart (map ob_range obs)" by (simp add: extent_valid_def)
  show ?thesis
  proof (cases "range_start r = range_end r")
    case True
    then show ?thesis by (simp add: covers_def covered_def)
  next
    case False
    then have lt: "range_start r < range_end r" using assms(4) by (simp add: range_ok_def)
    have "covers e r \<longleftrightarrow> {range_start r..<range_end r} \<subseteq> (\<Union>ob\<in>set obs. covered (ob_range ob))"
      using covers_loop_iff [OF sorted assms(1) lt] False by (simp add: covers_def e)
    moreover have "covered r = {range_start r..<range_end r}" "covered r \<noteq> {}"
      using lt by (auto simp: covered_def)
    ultimately show ?thesis by simp
  qed
qed

theorem extent_covers_exact_witness:
  "covers \<lparr>ec_request = \<lparr>req_file = QId (ArenaOwnerId 1) 1, req_revision = QId (ArenaOwnerId 1) 1,
       req_range = None\<rparr>,
     ec_observations = [\<lparr>ob_range = OffsetRange 0 2, ob_digest = 0\<rparr>, \<lparr>ob_range = OffsetRange 2 5, ob_digest = 0\<rparr>],
     ec_holes = [], ec_total = None\<rparr> (OffsetRange 1 4)"
  (is "covers ?e ?r")
proof -
  have "extent_new (ec_request ?e) (ec_observations ?e) [] None = Inr ?e"
    by (simp add: extent_new_def)
  then have "covers ?e ?r \<longleftrightarrow> covered ?r \<noteq> {} \<and>
      covered ?r \<subseteq> (\<Union>ob\<in>set (ec_observations ?e). covered (ob_range ob))"
    by (intro extent_covers_exact) (auto simp: range_ok_def)
  then show ?thesis by (auto simp: covered_def)
qed

lemma complete_new_self [simp]:
  "complete_new q (length bytes) bytes = Inr \<lparr>cc_request = q, cc_bytes = bytes,
     cc_length = length bytes, cc_digest = observe bytes\<rparr>"
  by (simp add: complete_new_def)

text \<open>
  The in-memory provider returns exactly the retained bytes of the requested revision and range,
  under the requested identity and with their own digest and length, never more than its limit; it
  returns nothing for a file that the grant does not admit, and nothing after cancellation.
\<close>

theorem provider_capture_exact:
  "provider_capture p g q canceled = Inr out \<longleftrightarrow>
     qid_owner (req_file q) = pv_owner p \<and> gr_owner g = pv_owner p \<and> req_file q \<in> gr_files g \<and>
     \<not> canceled \<and>
     (\<exists>stored bytes. pv_captures p (req_file q, req_revision q) = Some stored \<and>
        length bytes \<le> pv_max_payload p \<and>
        (case req_range q of None \<Rightarrow> bytes = stored
         | Some r \<Rightarrow> range_start r \<le> range_end r \<and> range_end r \<le> length stored \<and>
             bytes = slice stored (range_start r) (range_end r)) \<and>
        out = Complete \<lparr>cc_request = q, cc_bytes = bytes, cc_length = length bytes,
          cc_digest = observe bytes\<rparr>)"
proof (cases "qid_owner (req_file q) = pv_owner p \<and> gr_owner g = pv_owner p \<and>
    req_file q \<in> gr_files g \<and> \<not> canceled")
  case False
  then show ?thesis
    by (auto simp: provider_capture_def admits_def gate_request_on_cancel_def)
next
  case True
  then have eq: "provider_capture p g q canceled =
      and_then (ok_or CaptureUnavailable (pv_captures p (req_file q, req_revision q))) (\<lambda>stored.
        and_then (case req_range q of
            None \<Rightarrow> Inr stored
          | Some r \<Rightarrow>
              if range_start r > range_end r \<or> range_end r > length stored then Inl RangeOutOfBounds
              else Inr (slice stored (range_start r) (range_end r))) (\<lambda>selected.
        if length selected > pv_max_payload p then Inl PayloadTooLarge
        else map_sum id Complete (complete_new q (length selected) selected)))"
    by (simp add: provider_capture_def admits_def gate_request_on_cancel_def)
  show ?thesis
  proof (cases "pv_captures p (req_file q, req_revision q)")
    case None
    with True show ?thesis unfolding eq by simp
  next
    case (Some stored)
    show ?thesis
    proof (cases "req_range q")
      case None
      with True Some show ?thesis unfolding eq by auto
    next
      case (Some r)
      with True \<open>pv_captures p _ = _\<close> show ?thesis
        unfolding eq complete_new_def
        by (cases "range_start r > range_end r \<or> range_end r > length stored") auto
    qed
  qed
qed

text \<open>
  The observation digest does not separate lengths: there are two byte sequences of different
  lengths below \<open>2 ^ 64\<close> with the same digest, contrary to what the comment on \<open>observe\<close> states.
\<close>

theorem digest_lengths_collide:
  "\<exists>xs ys. length xs < 2 ^ 64 \<and> length ys < 2 ^ 64 \<and> length xs \<noteq> length ys \<and> observe xs = observe ys"
  by (rule digest_collision)

end
