(* ===== verification/Keyed_Store.thy ===== *)
theory Keyed_Store
  imports Prelude
begin

text \<open>
  The contract of a store of immutable values under keys: a key holds at most one value, an accepted
  value is found under its own key, a key in use is never overwritten, and an eviction touches one
  key only. The retained-capture store and the pinned-snapshot store both keep it; what anchors and
  readers rely on is proved once here.
\<close>

datatype ('k, 'v) store_op = Put 'v | Evict 'k

fun store_run ::
  "('s \<Rightarrow> 'v \<Rightarrow> bool \<times> 's) \<Rightarrow> ('s \<Rightarrow> 'k \<Rightarrow> 's) \<Rightarrow> ('k, 'v) store_op list \<Rightarrow> 's \<Rightarrow> 's" where
  "store_run put evict [] s = s"
| "store_run put evict (Put v # ops) s = store_run put evict ops (snd (put s v))"
| "store_run put evict (Evict k # ops) s = store_run put evict ops (evict s k)"

locale keyed_store =
  fixes put :: "'s \<Rightarrow> 'v \<Rightarrow> bool \<times> 's"
    and evict :: "'s \<Rightarrow> 'k \<Rightarrow> 's"
    and look :: "'s \<Rightarrow> 'k \<Rightarrow> 'v option"
    and key :: "'v \<Rightarrow> 'k"
  assumes put_accepted: "put s v = (True, s') \<Longrightarrow>
      look s (key v) = None \<and> look s' = (look s)(key v \<mapsto> v)"
    and put_refused: "put s v = (False, s') \<Longrightarrow> s' = s"
    and evict_other: "k' \<noteq> k \<Longrightarrow> look (evict s k) k' = look s k'"
    and evict_same: "look (evict s k) k = None \<or> look (evict s k) k = look s k"
begin

lemma put_look: "look (snd (put s v)) k = look s k \<or>
    (key v = k \<and> look s k = None \<and> look (snd (put s v)) k = Some v)"
proof (cases "put s v")
  case (Pair b s')
  then show ?thesis using put_accepted [of s v s'] put_refused [of s v s'] by (cases b) auto
qed

text \<open>A value found under a key was there at the start or was put under exactly that key.\<close>

lemma run_provenance:
  "look (store_run put evict ops s) k = Some v \<Longrightarrow>
     look s k = Some v \<or> (Put v \<in> set ops \<and> key v = k)"
proof (induction ops arbitrary: s)
  case (Cons x ops)
  show ?case
  proof (cases x)
    case (Put w)
    with Cons.prems Cons.IH [of "snd (put s w)"] put_look [of s w k] show ?thesis by auto
  next
    case (Evict k')
    with Cons.prems Cons.IH [of "evict s k'"] evict_other [of k k' s] evict_same [of s k'] show ?thesis
      by (cases "k = k'") auto
  qed
qed simp

text \<open>A key without a value stays without one until a value is put under it.\<close>

lemma run_absent:
  "look s k = None \<Longrightarrow> \<forall>v. Put v \<in> set ops \<longrightarrow> key v \<noteq> k \<Longrightarrow>
     look (store_run put evict ops s) k = None"
  using run_provenance [of ops s k] by (cases "look (store_run put evict ops s) k") auto

text \<open>A value stays, unchanged, until its key is evicted.\<close>

lemma run_immutable:
  "look s k = Some v \<Longrightarrow> Evict k \<notin> set ops \<Longrightarrow> look (store_run put evict ops s) k = Some v"
proof (induction ops arbitrary: s)
  case (Cons x ops)
  show ?case
  proof (cases x)
    case (Put w)
    with Cons put_look [of s w k] show ?thesis by auto
  next
    case (Evict k')
    with Cons evict_other [of k k' s] show ?thesis by auto
  qed
qed simp

end

end
