(* ===== verification/Chunks.thy ===== *)
theory Chunks
  imports Captures Keyed_Store
begin

text \<open>
  \<open>crates/fcb-source/src/chunk.rs\<close>: chunked captures, exact range reads, the chunked reader, and the
  store of retained captures.

  Indexing and subtraction that panic out of range return an option with \<^const>\<open>None\<close> as the panic;
  \<open>chunked_capture_exact\<close> shows that a validated capture never panics. A reader is the script of the
  events its \<open>read\<close> calls meet: bytes that arrive (an empty arrival is the end of the file),
  interruptions, and errors; a call takes as many bytes of the next arrival as its buffer holds. The
  cancellation flag is the list of what the successive \<open>is_canceled\<close> polls see. \<open>read_file\<close> opens
  a file and compares its metadata around \<open>read_from_reader\<close>; the metadata are its arguments.
\<close>

section \<open>Chunks\<close>

definition kib :: nat where "kib = 1024"

definition chunk_size_candidates :: "nat list" where
  "chunk_size_candidates = [16 * kib, 64 * kib, 256 * kib]"

definition chunk_size_from_candidate :: "nat \<Rightarrow> source_error + nat" where
  "chunk_size_from_candidate n = (if n \<in> set chunk_size_candidates then Inr n else Inl MetadataMismatch)"

definition chunk_size_bounded :: "nat \<Rightarrow> source_error + nat" where
  "chunk_size_bounded n = (if 1 \<le> n \<and> n \<le> 1024 * 1024 then Inr n else Inl MetadataMismatch)"

record source_chunk =
  ch_index :: nat
  ch_range :: byte_range
  ch_bytes :: "byte list"
  ch_digest :: digest

definition chunk_new :: "nat \<Rightarrow> byte_range \<Rightarrow> byte list \<Rightarrow> source_error + source_chunk" where
  "chunk_new i r bytes =
     (if range_len r \<noteq> length bytes then Inl MetadataMismatch
      else Inr \<lparr>ch_index = i, ch_range = r, ch_bytes = bytes, ch_digest = observe bytes\<rparr>)"

text \<open>\<open>&xs[a..b]\<close>, which panics on bounds out of order or past the end.\<close>

definition index_slice :: "'a list \<Rightarrow> nat \<Rightarrow> nat \<Rightarrow> 'a list option" where
  "index_slice xs a b = (if a \<le> b \<and> b \<le> length xs then Some (slice xs a b) else None)"

definition chunk_slice :: "source_chunk \<Rightarrow> byte_range \<Rightarrow> (source_error + byte list) option" where
  "chunk_slice c r =
     (if range_is_empty r then Some (Inl InvalidRange)
      else if range_start r < range_start (ch_range c) \<or> range_end r > range_end (ch_range c)
      then Some (Inl RangeOutOfBounds)
      else map_option Inr (index_slice (ch_bytes c)
        (range_start r - range_start (ch_range c)) (range_end r - range_start (ch_range c))))"

record exact_range =
  xr_range :: byte_range
  xr_revision :: source_revision
  xr_bytes :: "byte list"
  xr_contiguous :: bool

section \<open>Chunked captures\<close>

record chunked_capture =
  kc_request :: capture_request
  kc_total :: nat
  kc_size :: nat
  kc_chunks :: "source_chunk list"
  kc_digest :: digest

text \<open>The digest over all chunks, byte by byte, with the total length mixed in at the end.\<close>

fun composite_loop :: "source_chunk list \<Rightarrow> digest \<Rightarrow> nat \<Rightarrow> digest \<times> nat" where
  "composite_loop [] h n = (h, n)"
| "composite_loop (c # cs) h n =
     composite_loop cs (fold fnv_step (ch_bytes c) h) (n + length (ch_bytes c))"

definition composite_digest :: "source_chunk list \<Rightarrow> digest" where
  "composite_digest cs = (case composite_loop cs fnv_offset 0 of (h, n) \<Rightarrow> fnv_mix n h)"

text \<open>The validation loop; \<open>n\<close> is the number of chunks, \<open>i\<close> the position.\<close>

fun check_chunks :: "nat \<Rightarrow> nat \<Rightarrow> nat \<Rightarrow> nat \<Rightarrow> nat \<Rightarrow> nat \<Rightarrow> source_chunk list \<Rightarrow> source_error + nat" where
  "check_chunks limit csize n i expected observed [] = Inr observed"
| "check_chunks limit csize n i expected observed (c # cs) =
     (if ch_index c \<noteq> i mod (u32_max + 1) then Inl MetadataMismatch
      else if range_start (ch_range c) \<noteq> expected then Inl MetadataMismatch
      else let len = (if i + 1 = n then limit - expected else csize) in
        if range_len (ch_range c) \<noteq> len then Inl MetadataMismatch
        else if length (ch_bytes c) \<noteq> len then Inl MetadataMismatch
        else and_then (ok_or RangeOutOfBounds (checked_add expected len)) (\<lambda>expected'.
             and_then (ok_or RangeOutOfBounds (checked_add observed len)) (\<lambda>observed'.
             check_chunks limit csize n (i + 1) expected' observed' cs)))"

definition div_ceil :: "nat \<Rightarrow> nat \<Rightarrow> nat" where
  "div_ceil a b = a div b + (if a mod b > 0 then 1 else 0)"

definition capture_new ::
  "capture_request \<Rightarrow> nat \<Rightarrow> nat \<Rightarrow> source_chunk list \<Rightarrow> source_error + chunked_capture" where
  "capture_new q limit csize cs =
     (if limit = 0 then
        (if cs \<noteq> [] then Inl MetadataMismatch
         else Inr \<lparr>kc_request = q, kc_total = limit, kc_size = csize, kc_chunks = cs,
                   kc_digest = observe []\<rparr>)
      else if cs = [] then Inl MetadataMismatch
      else if length cs \<noteq> div_ceil limit csize then Inl MetadataMismatch
      else and_then (check_chunks limit csize (length cs) 0 0 0 cs) (\<lambda>observed.
        if observed \<noteq> limit then Inl MetadataMismatch
        else Inr \<lparr>kc_request = q, kc_total = limit, kc_size = csize, kc_chunks = cs,
                  kc_digest = composite_digest cs\<rparr>))"

section \<open>Range reads\<close>

text \<open>The stitching loop over the chunks that a range touches.\<close>

fun stitch :: "nat \<Rightarrow> nat \<Rightarrow> source_chunk list \<Rightarrow> byte list option" where
  "stitch s e [] = Some []"
| "stitch s e (c # cs) =
     (let cstart = range_start (ch_range c); cend = range_end (ch_range c);
          ostart = max s cstart; oend = min e cend in
      if ostart < oend then
        Option.bind (index_slice (ch_bytes c) (ostart - cstart) (oend - cstart)) (\<lambda>part.
        map_option (\<lambda>rest. part @ rest) (stitch s e cs))
      else stitch s e cs)"

definition range_read :: "chunked_capture \<Rightarrow> byte_range \<Rightarrow> (source_error + exact_range) option" where
  "range_read c r =
     (if range_is_empty r then Some (Inl InvalidRange)
      else if range_end r > kc_total c then Some (Inl RangeOutOfBounds)
      else
        (let s = range_start r; e = range_end r;
             si = s div kc_size c; ei = (e - 1) div kc_size c in
         if si \<ge> length (kc_chunks c) \<or> ei \<ge> length (kc_chunks c) then Some (Inl ChunkOutOfBounds)
         else if si = ei then
           (let ch = kc_chunks c ! si in
            Option.bind (checked_sub s (range_start (ch_range ch))) (\<lambda>rs.
            Option.bind (checked_sub e (range_start (ch_range ch))) (\<lambda>re.
            Option.bind (index_slice (ch_bytes ch) rs re) (\<lambda>bytes.
            Some (Inr \<lparr>xr_range = r, xr_revision = req_revision (kc_request c), xr_bytes = bytes,
                       xr_contiguous = True\<rparr>)))))
         else
           Option.bind (stitch s e (slice (kc_chunks c) si (ei + 1))) (\<lambda>buffer.
           if length buffer \<noteq> e - s then Some (Inl MetadataMismatch)
           else Some (Inr \<lparr>xr_range = r, xr_revision = req_revision (kc_request c), xr_bytes = buffer,
                           xr_contiguous = False\<rparr>))))"

section \<open>The chunked reader\<close>

datatype read_event = Deliver "byte list" | Interrupt | Fail
datatype read_result = Data "byte list" | Interrupted | Failed

fun reader_read :: "read_event list \<Rightarrow> nat \<Rightarrow> read_result \<times> read_event list" where
  "reader_read [] k = (Data [], [])"
| "reader_read (Deliver bs # rs) k =
     (Data (take k bs), if length bs \<le> k then rs else Deliver (drop k bs) # rs)"
| "reader_read (Interrupt # rs) k = (Interrupted, rs)"
| "reader_read (Fail # rs) k = (Failed, rs)"

fun poll :: "bool list \<Rightarrow> bool \<times> bool list" where
  "poll [] = (False, [])"
| "poll (b # bs) = (b, bs)"

text \<open>The inner loop: fill one chunk buffer, retrying at most 32 interruptions in a row.\<close>

function fill_chunk ::
  "nat \<Rightarrow> byte list \<Rightarrow> nat \<Rightarrow> read_event list \<Rightarrow> bool list \<Rightarrow>
   (source_error + byte list) \<times> read_event list \<times> bool list" where
  "fill_chunk k acc i rs cs =
     (if length acc < k then
        (case poll cs of (c1, cs1) \<Rightarrow>
         if c1 then (Inl Canceled, rs, cs1)
         else case reader_read rs (k - length acc) of (res, rs1) \<Rightarrow>
           (case poll cs1 of (c2, cs2) \<Rightarrow>
            if c2 then (Inl Canceled, rs1, cs2)
            else case res of
              Data [] \<Rightarrow> (Inr acc, rs1, cs2)
            | Data (b # bs) \<Rightarrow> fill_chunk k (acc @ b # bs) 0 rs1 cs2
            | Interrupted \<Rightarrow> if i < 32 then fill_chunk k acc (i + 1) rs1 cs2
                            else (Inl RootUnavailable, rs1, cs2)
            | Failed \<Rightarrow> (Inl RootUnavailable, rs1, cs2)))
      else (Inr acc, rs, cs))"
  by pat_completeness auto
termination
  by (relation "measures [\<lambda>(k, acc, i, rs, cs). k - length acc, \<lambda>(k, acc, i, rs, cs). 32 - i]") auto

declare fill_chunk.simps [simp del]

text \<open>The outer loop; \<^const>\<open>None\<close> is the overflow of the \<open>u32\<close> chunk index.\<close>

function read_chunks ::
  "nat \<Rightarrow> nat \<Rightarrow> nat \<Rightarrow> nat \<Rightarrow> source_chunk list \<Rightarrow> read_event list \<Rightarrow> bool list \<Rightarrow>
   ((source_error + nat \<times> source_chunk list) \<times> bool list) option" where
  "read_chunks csize limit done index chunks rs cs =
     (case poll cs of (c0, cs0) \<Rightarrow>
      if c0 then Some (Inl Canceled, cs0)
      else case fill_chunk csize [] 0 rs cs0 of
        (Inl e, rs1, cs1) \<Rightarrow> Some (Inl e, cs1)
      | (Inr buf, rs1, cs1) \<Rightarrow>
          if buf = [] then Some (Inr (done, chunks), cs1)
          else if done + length buf > u64_max then Some (Inl RangeOutOfBounds, cs1)
          else if done + length buf > limit then Some (Inl PayloadTooLarge, cs1)
          else (case chunk_new index (OffsetRange done (done + length buf)) buf of
              Inl e \<Rightarrow> Some (Inl e, cs1)
            | Inr c \<Rightarrow>
                if index = u32_max then None
                else if length buf < csize then Some (Inr (done + length buf, chunks @ [c]), cs1)
                else read_chunks csize limit (done + length buf) (index + 1) (chunks @ [c]) rs1 cs1))"
  by pat_completeness auto
termination
  by (relation "measure (\<lambda>(csize, limit, done, index, chunks, rs, cs). limit - done)")
    (auto intro!: diff_less_mono2 simp flip: length_greater_0_conv)

declare read_chunks.simps [simp del]

definition read_from_reader ::
  "capture_request \<Rightarrow> nat \<Rightarrow> nat \<Rightarrow> nat option \<Rightarrow> read_event list \<Rightarrow> bool list \<Rightarrow>
   (source_error + chunked_capture) option" where
  "read_from_reader q csize limit expected rs cs =
     (case poll cs of (c0, cs0) \<Rightarrow>
      if c0 then Some (Inl Canceled)
      else if expected \<noteq> None \<and> the expected > limit then Some (Inl PayloadTooLarge)
      else Option.bind (read_chunks csize limit 0 0 [] rs cs0) (\<lambda>out. case out of
          (Inl e, _) \<Rightarrow> Some (Inl e)
        | (Inr (n, chunks), cs1) \<Rightarrow>
            if expected \<noteq> None \<and> n \<noteq> the expected then Some (Inl ConcurrentModification)
            else (case capture_new q n csize chunks of
                Inl e \<Rightarrow> Some (Inl e)
              | Inr c \<Rightarrow> if fst (poll cs1) then Some (Inl Canceled) else Some (Inr c))))"

text \<open>
  \<open>read_file\<close>: the file's metadata before and after the read. \<open>fm_len\<close> is its length and
  \<open>fm_modified\<close> its modification time, if the platform reports one.
\<close>

record file_meta =
  fm_regular :: bool
  fm_len :: nat
  fm_modified :: "nat option"

definition read_file ::
  "capture_request \<Rightarrow> nat \<Rightarrow> nat \<Rightarrow> (source_error + file_meta) \<Rightarrow> read_event list \<Rightarrow>
   file_meta option \<Rightarrow> bool \<Rightarrow> bool list \<Rightarrow> bool \<Rightarrow> (source_error + chunked_capture) option" where
  "read_file q csize limit opened rs after canceled_first cs canceled_last =
     (if canceled_first then Some (Inl Canceled)
      else case opened of
        Inl e \<Rightarrow> Some (Inl e)
      | Inr before \<Rightarrow>
          if \<not> fm_regular before then Some (Inl SpecialObject)
          else if fm_len before > limit then Some (Inl PayloadTooLarge)
          else Option.bind (read_from_reader q csize limit (Some (fm_len before)) rs cs) (\<lambda>res.
            case res of
              Inl e \<Rightarrow> Some (Inl e)
            | Inr c \<Rightarrow> (case after of
                None \<Rightarrow> Some (Inl ConcurrentModification)
              | Some m \<Rightarrow>
                  if fm_len m \<noteq> fm_len before then Some (Inl ConcurrentModification)
                  else if fm_modified before \<noteq> None \<and> fm_modified m \<noteq> None \<and>
                    fm_modified before \<noteq> fm_modified m then Some (Inl ConcurrentModification)
                  else if canceled_last then Some (Inl Canceled)
                  else Some (Inr c))))"

section \<open>The store of retained captures\<close>

record capture_store =
  st_owner :: arena_owner_id
  st_captures :: "file_id \<times> source_revision \<rightharpoonup> chunked_capture"

definition store_new :: "arena_owner_id \<Rightarrow> capture_store" where
  "store_new ow = \<lparr>st_owner = ow, st_captures = Map.empty\<rparr>"

definition store_insert :: "capture_store \<Rightarrow> chunked_capture \<Rightarrow> (source_error + unit) \<times> capture_store" where
  "store_insert s c =
     (let q = kc_request c; key = (req_file q, req_revision q) in
      if qid_owner (req_file q) \<noteq> st_owner s \<or> qid_owner (req_revision q) \<noteq> st_owner s
      then (Inl ForeignOwner, s)
      else if st_captures s key \<noteq> None then (Inl CaptureAlreadyPresent, s)
      else (Inr (), s\<lparr>st_captures := (st_captures s)(key \<mapsto> c)\<rparr>))"

definition store_get ::
  "capture_store \<Rightarrow> file_id \<Rightarrow> source_revision \<Rightarrow> source_error + chunked_capture" where
  "store_get s f rv =
     (if qid_owner f \<noteq> st_owner s \<or> qid_owner rv \<noteq> st_owner s then Inl ForeignOwner
      else ok_or CaptureUnavailable (st_captures s (f, rv)))"

definition store_evict :: "capture_store \<Rightarrow> file_id \<Rightarrow> source_revision \<Rightarrow> bool \<times> capture_store" where
  "store_evict s f rv =
     (st_captures s (f, rv) \<noteq> None, s\<lparr>st_captures := (st_captures s)((f, rv) := None)\<rparr>)"

definition resolve_anchor ::
  "capture_store \<Rightarrow> file_id \<Rightarrow> source_revision \<Rightarrow> byte_range \<Rightarrow> (source_error + exact_range) option" where
  "resolve_anchor s f rv r = (case store_get s f rv of
     Inr c \<Rightarrow> range_read c r
   | Inl CaptureUnavailable \<Rightarrow> Some (Inl StaleCapture)
   | Inl e \<Rightarrow> Some (Inl e))"

section \<open>The layout of a validated capture\<close>

definition content :: "source_chunk list \<Rightarrow> byte list" where
  "content cs = concat (map ch_bytes cs)"

lemma content_simps [simp]:
  "content [] = []" "content (c # cs) = ch_bytes c @ content cs"
  "content (cs @ cs') = content cs @ content cs'"
  by (simp_all add: content_def)

fun laid :: "nat \<Rightarrow> source_chunk list \<Rightarrow> bool" where
  "laid n [] = True"
| "laid n (c # cs) \<longleftrightarrow> ch_range c = OffsetRange n (n + length (ch_bytes c)) \<and>
     laid (n + length (ch_bytes c)) cs"

lemma laid_append: "laid n (cs @ cs') \<longleftrightarrow> laid n cs \<and> laid (n + length (content cs)) cs'"
  by (induction cs arbitrary: n) (auto simp: add.assoc)

lemma composite_loop_eq:
  "composite_loop cs h n = (fold fnv_step (content cs) h, n + length (content cs))"
  by (induction cs arbitrary: h n) auto

lemma composite_digest_eq: "composite_digest cs = observe (content cs)"
  by (simp add: composite_digest_def composite_loop_eq observe_def)

lemma check_chunks_layout:
  assumes "check_chunks limit csize n i e ob cs = Inr ttl" and "\<forall>c\<in>set cs. range_ok (ch_range c)"
    and "n = i + length cs" and "cs \<noteq> [] \<Longrightarrow> e + (length cs - 1) * csize \<le> limit"
  shows "laid e cs \<and> ttl = ob + length (content cs) \<and>
    (\<forall>c\<in>set (butlast cs). length (ch_bytes c) = csize) \<and>
    (cs \<noteq> [] \<longrightarrow> length (ch_bytes (last cs)) = limit - (e + (length cs - 1) * csize))"
  using assms
proof (induction cs arbitrary: i e ob)
  case (Cons c cs)
  let ?len = "if i + 1 = n then limit - e else csize"
  have step: "range_start (ch_range c) = e" "range_len (ch_range c) = ?len"
    "length (ch_bytes c) = ?len" "check_chunks limit csize n (i + 1) (e + ?len) (ob + ?len) cs = Inr ttl"
    using Cons.prems(1) by (auto simp: Let_def result_simps arith64 split: if_splits)
  have range: "ch_range c = OffsetRange e (e + ?len)"
    using step(1,2) Cons.prems(2) by (cases "ch_range c") (auto simp: range_len_def range_ok_def)
  show ?case
  proof (cases "cs = []")
    case True
    then show ?thesis using step range Cons.prems(3,4) by simp
  next
    case False
    then have len: "?len = csize" and pos: "0 < length cs" using Cons.prems(3) by auto
    have room: "e + csize + (length cs - 1) * csize \<le> limit"
      using Cons.prems(4) pos by (cases "length cs") (auto simp: algebra_simps)
    have "laid (e + csize) cs \<and> ttl = ob + csize + length (content cs) \<and>
        (\<forall>c\<in>set (butlast cs). length (ch_bytes c) = csize) \<and>
        (cs \<noteq> [] \<longrightarrow> length (ch_bytes (last cs)) = limit - (e + csize + (length cs - 1) * csize))"
      using Cons.IH [of "i + 1" "e + ?len" "ob + ?len"] step(4) Cons.prems(2,3) room len by simp
    moreover have "e + csize + (length cs - 1) * csize = e + length cs * csize"
      using pos by (cases "length cs") (auto simp: algebra_simps)
    ultimately show ?thesis using False step(3) len range by auto
  qed
qed simp

lemma content_uniform:
  "\<forall>c\<in>set cs. length (ch_bytes c) = k \<Longrightarrow> length (content cs) = length cs * k"
  by (induction cs) auto

text \<open>What the constructor establishes, for chunks that were themselves validated.\<close>

definition layout :: "chunked_capture \<Rightarrow> bool" where
  "layout c \<longleftrightarrow> laid 0 (kc_chunks c) \<and> length (content (kc_chunks c)) = kc_total c \<and>
     kc_digest c = observe (content (kc_chunks c)) \<and>
     (\<forall>ch\<in>set (butlast (kc_chunks c)). length (ch_bytes ch) = kc_size c) \<and>
     length (kc_chunks c) = div_ceil (kc_total c) (kc_size c)"

lemma div_ceil_bounds:
  assumes "0 < b" and "0 < a"
  shows "0 < div_ceil a b" "(div_ceil a b - 1) * b < a" "a \<le> div_ceil a b * b"
proof -
  have eq: "a div b * b + a mod b = a" by (rule div_mult_mod_eq)
  have "a mod b < b" using assms(1) by simp
  have pos: "a mod b = 0 \<Longrightarrow> 0 < a div b" using assms eq by (cases "a div b") auto
  then show "0 < div_ceil a b" by (auto simp: div_ceil_def)
  show "(div_ceil a b - 1) * b < a"
  proof (cases "a mod b = 0")
    case True
    then have "(div_ceil a b - 1) * b + b = a"
      using eq pos by (cases "a div b") (auto simp: div_ceil_def)
    then show ?thesis using assms(1) by linarith
  next
    case False
    then have "div_ceil a b - 1 = a div b" by (simp add: div_ceil_def)
    moreover have "a div b * b < a" using eq False by linarith
    ultimately show ?thesis by (simp only:)
  qed
  show "a \<le> div_ceil a b * b"
  proof (cases "a mod b = 0")
    case True
    then show ?thesis using eq by (simp add: div_ceil_def)
  next
    case False
    then have "div_ceil a b * b = a div b * b + b" by (simp add: div_ceil_def)
    with eq \<open>a mod b < b\<close> show ?thesis by linarith
  qed
qed

lemma capture_new_layout:
  assumes new: "capture_new q limit csize cs = Inr c" and "\<forall>ch\<in>set cs. range_ok (ch_range ch)"
    and "0 < csize"
  shows "layout c \<and> kc_chunks c = cs \<and> kc_total c = limit \<and> kc_size c = csize \<and> kc_request c = q"
proof (cases "limit = 0")
  case True
  then show ?thesis
    using new by (auto simp: capture_new_def layout_def observe_def div_ceil_def split: if_splits)
next
  case False
  then have cs: "cs \<noteq> []" "length cs = div_ceil limit csize"
    and chk: "check_chunks limit csize (length cs) 0 0 0 cs = Inr limit"
    and c: "c = \<lparr>kc_request = q, kc_total = limit, kc_size = csize, kc_chunks = cs,
      kc_digest = composite_digest cs\<rparr>"
    using new by (auto simp: capture_new_def result_simps split: if_splits)
  have "(length cs - 1) * csize \<le> limit"
    using div_ceil_bounds(2) [of csize limit] False assms(3) cs(2) by simp
  then show ?thesis
    using check_chunks_layout [OF chk assms(2)] cs
    by (auto simp: c layout_def composite_digest_eq)
qed

section \<open>Range reads are slices of the content\<close>

lemma laid_starts: "laid n cs \<Longrightarrow> c \<in> set cs \<Longrightarrow> n \<le> range_start (ch_range c)"
  by (induction cs arbitrary: n) fastforce+

lemma stitch_eq:
  "laid n cs \<Longrightarrow> n \<le> s \<Longrightarrow> s \<le> e \<Longrightarrow> stitch s e cs = Some (slice (content cs) (s - n) (e - n))"
proof (induction cs arbitrary: n s)
  case (Cons c cs)
  let ?m = "n + length (ch_bytes c)"
  have r: "range_start (ch_range c) = n" "range_end (ch_range c) = ?m"
    and rest: "laid ?m cs" using Cons.prems(1) by auto
  show ?case
  proof (cases "s < min e ?m")
    case True
    then have part: "index_slice (ch_bytes c) (s - n) (min e ?m - n) = Some (slice (ch_bytes c) (s - n) (min e ?m - n))"
      using Cons.prems(2) by (auto simp: index_slice_def)
    have later: "stitch s e cs = stitch (max s ?m) e cs"
      if "laid k cs" "?m \<le> k" for k
      using that
    proof (induction cs arbitrary: k)
      case (Cons d ds)
      then have eq: "max (max s ?m) (range_start (ch_range d)) = max s (range_start (ch_range d))" by auto
      have "laid (k + length (ch_bytes d)) ds" "?m \<le> k + length (ch_bytes d)"
        using Cons.prems by auto
      then have IH: "stitch (max s ?m) e ds = stitch s e ds" using Cons.IH by simp
      show ?case by (simp only: stitch.simps Let_def eq IH)
    qed simp
    show ?thesis
    proof (cases "e \<le> ?m")
      case True
      have none: "stitch s e cs = Some []" if "laid k cs" "e \<le> k" for k
        using that
      proof (induction cs arbitrary: k)
        case (Cons d ds)
        then have "laid (k + length (ch_bytes d)) ds" "e \<le> k + length (ch_bytes d)" by auto
        with Cons show ?case by (auto simp: Let_def)
      qed simp
      show ?thesis
        using True \<open>s < min e ?m\<close> part none [OF rest True] r Cons.prems(2)
        by (simp add: Let_def max_def min_def slice_append_left)
    next
      case False
      have "stitch s e cs = Some (slice (content cs) 0 (e - ?m))"
        using later [OF rest order_refl] Cons.IH [OF rest, of ?m] False True by (simp add: max_def)
      then show ?thesis
        using False True part r Cons.prems(2)
        by (simp add: Let_def max_def min_def slice_append_cross)
    qed
  next
    case False
    then show ?thesis
    proof (cases "s < e")
      case True
      with False have "?m \<le> s" by (simp add: min_def split: if_splits)
      moreover from this have "\<not> max s n < min e ?m" by simp
      ultimately show ?thesis
        using Cons.IH [OF rest, of s] Cons.prems(3) r by (simp add: Let_def slice_append_right)
    next
      case out: False
      then have "s = e" using Cons.prems(3) by simp
      moreover have "stitch e e cs = Some []" by (induction cs) (auto simp: Let_def)
      ultimately show ?thesis using r by (simp add: Let_def slice_def)
    qed
  qed
qed (simp add: slice_def)

lemma drop_take_content:
  assumes "i \<le> j" and "j \<le> length cs"
  shows "content (slice cs i j) = slice (content cs) (length (content (take i cs))) (length (content (take j cs)))"
proof -
  have split: "cs = take i cs @ slice cs i j @ drop j cs"
    using assms by (simp add: slice_def) (metis append_take_drop_id drop_drop le_add_diff_inverse2 add.commute)
  have "take j cs = take i cs @ slice cs i j"
    using assms by (metis slice_def append_take_drop_id add_diff_inverse_nat le_add_diff_inverse not_less take_add)
  then have len: "length (content (take j cs)) = length (content (take i cs)) + length (content (slice cs i j))"
    by simp
  have "content cs = content (take i cs) @ content (slice cs i j) @ content (drop j cs)"
    by (subst split) (simp only: content_simps)
  then show ?thesis
    by (simp add: len slice_def)
qed

lemma layout_take:
  assumes "layout c" and "i < length (kc_chunks c)"
  shows "length (content (take i (kc_chunks c))) = i * kc_size c"
proof -
  have "take i (kc_chunks c) = take i (butlast (kc_chunks c))"
    using assms(2) by (simp add: butlast_conv_take)
  then have "\<forall>ch\<in>set (take i (kc_chunks c)). length (ch_bytes ch) = kc_size c"
    using assms(1) by (auto simp: layout_def dest: in_set_takeD)
  then show ?thesis using content_uniform [of "take i (kc_chunks c)" "kc_size c"] assms(2) by simp
qed

text \<open>The chunks \<open>i\<close> to \<open>j - 1\<close> start at \<open>i * kc_size\<close> and hold that part of the content.\<close>

lemma layout_slice:
  assumes lay: "layout c" and ij: "i < j" "j \<le> length (kc_chunks c)"
  shows "laid (i * kc_size c) (slice (kc_chunks c) i j)"
    "content (slice (kc_chunks c) i j) = slice (content (kc_chunks c)) (i * kc_size c)
       (length (content (take j (kc_chunks c))))"
proof -
  let ?cs = "kc_chunks c"
  have i: "length (content (take i ?cs)) = i * kc_size c"
    using layout_take [OF lay, of i] ij by simp
  have "laid 0 (take i ?cs @ drop i ?cs)" using lay by (simp add: layout_def)
  then have "laid (i * kc_size c) (drop i ?cs)" using i by (simp only: laid_append) simp
  then have "laid (i * kc_size c) (take (j - i) (drop i ?cs) @ drop (j - i) (drop i ?cs))"
    by (simp only: append_take_drop_id)
  then show "laid (i * kc_size c) (slice ?cs i j)"
    by (simp only: laid_append slice_def)
  show "content (slice ?cs i j) = slice (content ?cs) (i * kc_size c) (length (content (take j ?cs)))"
    using drop_take_content [of i j ?cs] ij i by simp
qed

lemma slice_slice:
  assumes "a \<le> s" and "e \<le> b" and "b \<le> length xs"
  shows "slice (slice xs a b) (s - a) (e - a) = slice xs s e"
proof -
  have "drop (s - a) (drop a xs) = drop s xs" using assms(1) by simp
  moreover have "min (e - a - (s - a)) (b - a - (s - a)) = e - s" using assms by simp
  ultimately show ?thesis by (simp add: slice_def drop_take)
qed

lemma layout_prefix_end:
  assumes lay: "layout c" and size: "0 < kc_size c" and e: "0 < e" "e \<le> kc_total c"
  shows "(e - 1) div kc_size c < length (kc_chunks c)"
    "e \<le> length (content (take (Suc ((e - 1) div kc_size c)) (kc_chunks c)))"
proof -
  let ?j = "(e - 1) div kc_size c" and ?cs = "kc_chunks c"
  have "kc_total c \<le> length ?cs * kc_size c" "e - 1 < kc_total c"
    using lay e div_ceil_bounds(3) [OF size, of "kc_total c"] by (auto simp: layout_def)
  then have "e - 1 < length ?cs * kc_size c" by linarith
  then show j: "?j < length ?cs" using size by (simp add: less_mult_imp_div_less)
  show "e \<le> length (content (take (Suc ?j) ?cs))"
  proof (cases "Suc ?j < length ?cs")
    case True
    have "e - 1 < Suc ?j * kc_size c" using size by (simp add: dividend_less_div_times add.commute)
    then show ?thesis using layout_take [OF lay True] by simp
  next
    case False
    then have "take (Suc ?j) ?cs = ?cs" using j by simp
    then show ?thesis using lay e by (simp add: layout_def)
  qed
qed

lemma range_read_eq:
  assumes lay: "layout c" and size: "0 < kc_size c" and r: "range_ok r"
  shows "range_read c r =
    Some (if range_is_empty r then Inl InvalidRange
      else if range_end r > kc_total c then Inl RangeOutOfBounds
      else Inr \<lparr>xr_range = r, xr_revision = req_revision (kc_request c),
        xr_bytes = slice (content (kc_chunks c)) (range_start r) (range_end r),
        xr_contiguous = (range_start r div kc_size c = (range_end r - 1) div kc_size c)\<rparr>)"
proof (cases "range_is_empty r \<or> range_end r > kc_total c")
  case True
  then show ?thesis by (auto simp: range_read_def)
next
  case False
  let ?s = "range_start r" and ?e = "range_end r" and ?k = "kc_size c" and ?cs = "kc_chunks c"
  let ?i = "range_start r div kc_size c" and ?j = "(range_end r - 1) div kc_size c"
  have se: "?s < ?e" "?e \<le> kc_total c"
    using False r by (auto simp: range_is_empty_def range_ok_def)
  have ij: "?i \<le> ?j" using se(1) by (intro div_le_mono) simp
  have e0: "0 < ?e" using se by simp
  note j = layout_prefix_end [OF lay size e0 se(2)]
  let ?part = "slice ?cs ?i (Suc ?j)" and ?fin = "length (content (take (Suc ?j) ?cs))"
  have ij': "?i < Suc ?j" "Suc ?j \<le> length ?cs" using ij j(1) by auto
  have part: "laid (?i * ?k) ?part" "content ?part = slice (content ?cs) (?i * ?k) ?fin"
    using layout_slice [OF lay ij'] by auto
  have start: "?i * ?k \<le> ?s" by simp
  have "?fin \<le> length (content ?cs)"
    by (metis content_simps(3) append_take_drop_id length_append le_add1)
  then have bytes: "slice (content ?part) (?s - ?i * ?k) (?e - ?i * ?k) = slice (content ?cs) ?s ?e"
    unfolding part(2) using start j(2) by (intro slice_slice) auto
  show ?thesis
  proof (cases "?i = ?j")
    case True
    let ?ch = "?cs ! ?i"
    have one: "?part = [?ch]" using True j(1) by (simp add: slice_def take_Suc_conv_app_nth [of 0, simplified] Cons_nth_drop_Suc [symmetric])
    then have ch: "ch_range ?ch = OffsetRange (?i * ?k) (?i * ?k + length (ch_bytes ?ch))"
      "content ?part = ch_bytes ?ch" using part(1) by auto
    have "length (ch_bytes ?ch) = length (slice (content ?cs) (?i * ?k) ?fin)"
      by (metis part(2) ch(2))
    also have "\<dots> = min (?fin - ?i * ?k) (length (content ?cs) - ?i * ?k)" by (rule length_slice)
    finally have "?e - ?i * ?k \<le> length (ch_bytes ?ch)"
      using j(2) \<open>?fin \<le> length (content ?cs)\<close> by linarith
    then have "index_slice (ch_bytes ?ch) (?s - ?i * ?k) (?e - ?i * ?k) = Some (slice (content ?cs) ?s ?e)"
      using se(1) bytes ch(2) by (simp add: index_slice_def)
    then show ?thesis
      using False True j(1) ch(1) start se(1) by (simp add: range_read_def Let_def)
  next
    case two: False
    have "stitch ?s ?e ?part = Some (slice (content ?cs) ?s ?e)"
      using stitch_eq [OF part(1) start, of ?e] se(1) bytes by simp
    then show ?thesis
      using False two j(1) ij se lay by (simp add: range_read_def Let_def layout_def)
  qed
qed

section \<open>The chunked reader delivers what arrives\<close>

text \<open>The bytes that arrive before the end of the file.\<close>

fun arrivals :: "read_event list \<Rightarrow> byte list" where
  "arrivals [] = []"
| "arrivals (Deliver [] # rs) = []"
| "arrivals (Deliver (b # bs) # rs) = (b # bs) @ arrivals rs"
| "arrivals (Interrupt # rs) = arrivals rs"
| "arrivals (Fail # rs) = []"

lemma reader_read_data:
  "0 < k \<Longrightarrow> reader_read rs k = (Data (b # bs), rs1) \<Longrightarrow>
     arrivals rs = (b # bs) @ arrivals rs1 \<and> length (b # bs) \<le> k"
proof (cases rs)
  case (Cons x rs')
  assume k: "0 < k" and res: "reader_read rs k = (Data (b # bs), rs1)"
  then obtain d ds where x: "x = Deliver (d # ds)"
    using Cons by (cases x; cases "case x of Deliver y \<Rightarrow> y | _ \<Rightarrow> []") (auto split: if_splits)
  show ?thesis
  proof (cases "length (d # ds) \<le> k")
    case True
    with res x Cons show ?thesis by auto
  next
    case False
    then obtain e es where "drop k (d # ds) = e # es" by (cases "drop k (d # ds)") auto
    moreover have "b # bs = take k (d # ds)" "rs1 = Deliver (drop k (d # ds)) # rs'"
      using res x Cons False by auto
    moreover have "take k (d # ds) @ drop k (d # ds) = d # ds" by (rule append_take_drop_id)
    ultimately have "arrivals rs = ((b # bs) @ e # es) @ arrivals rs'" "arrivals rs1 = (e # es) @ arrivals rs'"
      "length (b # bs) \<le> k"
      using x Cons by simp_all
    then show ?thesis by simp
  qed
qed simp

lemma reader_read_eof: "0 < k \<Longrightarrow> reader_read rs k = (Data [], rs1) \<Longrightarrow> arrivals rs = []"
  by (cases rs rule: arrivals.cases) auto

lemma reader_read_interrupted: "reader_read rs k = (Interrupted, rs1) \<Longrightarrow> arrivals rs = arrivals rs1"
  by (cases rs rule: arrivals.cases) auto

lemma fill_chunk_ok:
  "\<lbrakk>fill_chunk k acc i rs cs = (Inr buf, rs1, cs1); length acc \<le> k\<rbrakk> \<Longrightarrow>
   (length buf < k \<and> buf = acc @ arrivals rs) \<or>
   (length buf = k \<and> (\<exists>x. buf = acc @ x \<and> arrivals rs = x @ arrivals rs1))"
proof (induction k acc i rs cs rule: fill_chunk.induct)
  case (1 k acc i rs cs)
  show ?case
  proof (cases "length acc < k")
    case False
    with 1 show ?thesis by (auto simp: fill_chunk.simps [of k acc i rs cs])
  next
    case True
    obtain c1 ys where p1: "poll cs = (c1, ys)" by fastforce
    obtain res rs2 where rd: "reader_read rs (k - length acc) = (res, rs2)" by fastforce
    obtain c2 zs where p2: "poll ys = (c2, zs)" by fastforce
    have c: "\<not> c1" "\<not> c2"
      using "1.prems"(1) True p1 rd p2 by (auto simp: fill_chunk.simps [of k acc i rs cs] split: if_splits)
    show ?thesis
    proof (cases res)
      case (Data bs)
      show ?thesis
      proof (cases bs)
        case Nil
        with "1.prems"(1) True p1 rd p2 c Data reader_read_eof [of "k - length acc" rs rs2] show ?thesis
          by (auto simp: fill_chunk.simps [of k acc i rs cs])
      next
        case (Cons d ds)
        have data: "arrivals rs = (d # ds) @ arrivals rs2" "length (d # ds) \<le> k - length acc"
          using reader_read_data [of "k - length acc" rs d ds rs2] rd True Data Cons by auto
        have rec: "fill_chunk k (acc @ d # ds) 0 rs2 zs = (Inr buf, rs1, cs1)"
          using "1.prems"(1) True p1 rd p2 c Data Cons by (simp add: fill_chunk.simps [of k acc i rs cs])
        have "(length buf < k \<and> buf = (acc @ d # ds) @ arrivals rs2) \<or>
            (length buf = k \<and> (\<exists>x. buf = (acc @ d # ds) @ x \<and> arrivals rs2 = x @ arrivals rs1))"
          using "1.IH"(1) [OF True p1 [symmetric] _ rd [symmetric] p2 [symmetric] _ Data Cons rec] c data(2) True
          by auto
        then show ?thesis using data(1) by auto
      qed
    next
      case Interrupted
      then have "i < 32" and rec: "fill_chunk k acc (i + 1) rs2 zs = (Inr buf, rs1, cs1)"
        using "1.prems"(1) True p1 rd p2 c by (auto simp: fill_chunk.simps [of k acc i rs cs] split: if_splits)
      then show ?thesis
        using "1.IH"(2) [OF True p1 [symmetric] _ rd [symmetric] p2 [symmetric] _ Interrupted] c True
          reader_read_interrupted [of rs "k - length acc" rs2] rd Interrupted by auto
    next
      case Failed
      with "1.prems"(1) True p1 rd p2 c show ?thesis by (simp add: fill_chunk.simps [of k acc i rs cs])
    qed
  qed
qed

definition chunks_ok :: "nat \<Rightarrow> source_chunk list \<Rightarrow> bool" where
  "chunks_ok csize cs \<longleftrightarrow> laid 0 cs \<and> (\<forall>c\<in>set (butlast cs). length (ch_bytes c) = csize)"

lemma read_chunks_ok:
  assumes "0 < csize" and "limit \<le> u32_max" and "laid 0 chunks"
    and "\<forall>c\<in>set chunks. length (ch_bytes c) = csize" and "index = length chunks"
    and "don = length (content chunks)" and "don \<le> limit"
  shows "\<exists>res cs1. read_chunks csize limit don index chunks rs cs = Some (res, cs1) \<and>
    (\<forall>n chunks'. res = Inr (n, chunks') \<longrightarrow> n = length (content chunks') \<and> n \<le> limit \<and>
       chunks_ok csize chunks' \<and> content chunks' = content chunks @ arrivals rs)"
  using assms
proof (induction csize limit don index chunks rs cs rule: read_chunks.induct)
  case (1 csize limit don index chunks rs cs)
  obtain c0 cs0 where p0: "poll cs = (c0, cs0)" by fastforce
  obtain r rs1 cs1 where fill: "fill_chunk csize [] 0 rs cs0 = (r, rs1, cs1)"
    by (cases "fill_chunk csize [] 0 rs cs0") auto
  have butlast: "\<forall>c\<in>set (butlast chunks). length (ch_bytes c) = csize"
    using "1.prems"(4) by (auto dest: in_set_butlastD)
  show ?case
  proof (cases "c0 \<or> (\<exists>e. r = Inl e)")
    case True
    with p0 fill show ?thesis by (auto simp: read_chunks.simps [of csize limit don index chunks rs cs])
  next
    case False
    then obtain buf where r: "\<not> c0" "r = Inr buf" by (cases r) auto
    note filled = fill_chunk_ok [OF fill [unfolded r(2)]]
    show ?thesis
    proof (cases "buf = []")
      case True
      with filled "1.prems"(1) have "arrivals rs = []" by auto
      moreover have "read_chunks csize limit don index chunks rs cs = Some (Inr (don, chunks), cs1)"
        using True p0 fill r by (simp add: read_chunks.simps [of csize limit don index chunks rs cs])
      ultimately show ?thesis using "1.prems" butlast by (simp add: chunks_ok_def)
    next
      case some: False
      show ?thesis
      proof (cases "don + length buf > u64_max \<or> don + length buf > limit")
        case True
        with some p0 fill r show ?thesis by (auto simp: read_chunks.simps [of csize limit don index chunks rs cs])
      next
        case fits: False
        let ?c = "\<lparr>ch_index = index, ch_range = OffsetRange don (don + length buf), ch_bytes = buf,
          ch_digest = observe buf\<rparr>"
        have new: "chunk_new index (OffsetRange don (don + length buf)) buf = Inr ?c"
          by (simp add: chunk_new_def range_len_def)
        have "index \<le> don"
          using "1.prems"(1,4,5,6) content_uniform [of chunks csize] by (cases csize) auto
        moreover have "0 < length buf" using some by simp
        ultimately have index: "index \<noteq> u32_max" using fits "1.prems"(2) by linarith
        have laid: "laid 0 (chunks @ [?c])" using "1.prems"(3,6) by (simp add: laid_append)
        show ?thesis
        proof (cases "length buf < csize")
          case True
          have "read_chunks csize limit don index chunks rs cs
              = Some (Inr (don + length buf, chunks @ [?c]), cs1)"
            using True some fits new index p0 fill r
            by (simp add: read_chunks.simps [of csize limit don index chunks rs cs])
          moreover have "buf = arrivals rs" using True filled by auto
          ultimately show ?thesis
            using fits laid "1.prems"(4,6) by (simp add: chunks_ok_def)
        next
          case full: False
          with filled obtain arr: "arrivals rs = buf @ arrivals rs1" "length buf = csize" by auto
          have "\<exists>res cs2. read_chunks csize limit (don + length buf) (index + 1) (chunks @ [?c]) rs1 cs1
              = Some (res, cs2) \<and> (\<forall>n chunks'. res = Inr (n, chunks') \<longrightarrow> n = length (content chunks') \<and>
              n \<le> limit \<and> chunks_ok csize chunks' \<and> content chunks' = content (chunks @ [?c]) @ arrivals rs1)"
            using "1.prems" fits arr(2) laid p0 fill r some new index full
            by (intro "1.IH" [OF p0 [symmetric] _ fill [symmetric]]) auto
          moreover have "read_chunks csize limit don index chunks rs cs
              = read_chunks csize limit (don + length buf) (index + 1) (chunks @ [?c]) rs1 cs1"
            using some fits new index p0 fill r full
            by (simp add: read_chunks.simps [of csize limit don index chunks rs cs])
          ultimately show ?thesis using arr(1) by simp
        qed
      qed
    qed
  qed
qed

lemma laid_ranges_ok: "laid n cs \<Longrightarrow> \<forall>c\<in>set cs. range_ok (ch_range c)"
  by (induction cs arbitrary: n) (auto simp: range_ok_def)

lemma read_from_reader_ok:
  assumes "0 < csize" and "limit \<le> u32_max"
  shows "\<exists>res. read_from_reader q csize limit expected rs cs = Some res \<and>
    (\<forall>c. res = Inr c \<longrightarrow> layout c \<and> kc_size c = csize \<and> kc_request c = q \<and>
       content (kc_chunks c) = arrivals rs \<and> kc_total c \<le> limit \<and>
       (\<forall>n. expected = Some n \<longrightarrow> n = kc_total c))"
proof -
  obtain c0 cs0 where p0: "poll cs = (c0, cs0)" by fastforce
  obtain r cs1 where run: "read_chunks csize limit 0 0 [] rs cs0 = Some (r, cs1)"
    and ok: "\<And>n chunks. r = Inr (n, chunks) \<Longrightarrow> n = length (content chunks) \<and> n \<le> limit \<and>
       chunks_ok csize chunks \<and> content chunks = arrivals rs"
    using read_chunks_ok [OF assms, of "[]" 0 0 rs cs0] by auto
  show ?thesis
  proof (cases "c0 \<or> (expected \<noteq> None \<and> the expected > limit) \<or> (\<exists>e. r = Inl e)")
    case True
    with p0 run show ?thesis by (cases c0) (auto simp: read_from_reader_def)
  next
    case False
    then obtain n chunks where r: "r = Inr (n, chunks)" by (cases r) auto
    have eq: "read_from_reader q csize limit expected rs cs =
        (if expected \<noteq> None \<and> n \<noteq> the expected then Some (Inl ConcurrentModification)
         else (case capture_new q n csize chunks of
                Inl e \<Rightarrow> Some (Inl e)
              | Inr c \<Rightarrow> if fst (poll cs1) then Some (Inl Canceled) else Some (Inr c)))"
      using False p0 run r by (auto simp: read_from_reader_def)
    have chunks: "n = length (content chunks)" "n \<le> limit" "laid 0 chunks" "content chunks = arrivals rs"
      using ok [OF r] by (auto simp: chunks_ok_def)
    have "layout c \<and> kc_size c = csize \<and> kc_request c = q \<and> kc_chunks c = chunks \<and> kc_total c = n"
      if "capture_new q n csize chunks = Inr c" for c
      using capture_new_layout [OF that laid_ranges_ok [OF chunks(3)] assms(1)] by auto
    note built = this
    show ?thesis
    proof (cases "(expected \<noteq> None \<and> n \<noteq> the expected) \<or> fst (poll cs1) \<or>
        (\<exists>e. capture_new q n csize chunks = Inl e)")
      case True
      then have "\<exists>e. read_from_reader q csize limit expected rs cs = Some (Inl e)"
        unfolding eq by (cases "capture_new q n csize chunks") auto
      then show ?thesis by (elim exE) simp
    next
      case False
      then obtain c where c: "capture_new q n csize chunks = Inr c"
        by (cases "capture_new q n csize chunks") auto
      with False eq have "read_from_reader q csize limit expected rs cs = Some (Inr c)" by simp
      with False built [OF c] chunks show ?thesis by (intro exI [of _ "Inr c"]) auto
    qed
  qed
qed

section \<open>The retained store keeps the contract\<close>

definition capture_key :: "chunked_capture \<Rightarrow> file_id \<times> source_revision" where
  "capture_key c = (req_file (kc_request c), req_revision (kc_request c))"

definition store_put :: "capture_store \<Rightarrow> chunked_capture \<Rightarrow> bool \<times> capture_store" where
  "store_put s c = (is_ok (fst (store_insert s c)), snd (store_insert s c))"

interpretation retained: keyed_store store_put "\<lambda>s k. snd (store_evict s (fst k) (snd k))"
  st_captures capture_key
  by unfold_locales
    (auto simp: store_put_def store_insert_def store_evict_def capture_key_def Let_def split: if_splits)

abbreviation "retained_run \<equiv> store_run store_put (\<lambda>s k. snd (store_evict s (fst k) (snd k)))"

lemma retained_owner: "st_owner (retained_run ops s) = st_owner s"
proof (induction ops arbitrary: s)
  case (Cons x ops)
  then show ?case
    by (cases x) (auto simp: store_put_def store_insert_def store_evict_def Let_def)
qed simp

section \<open>Properties\<close>

text \<open>A capture of three bytes in two chunks, for the concrete instances.\<close>

definition chunk_sample_request :: capture_request where
  "chunk_sample_request =
     \<lparr>req_file = QId (ArenaOwnerId 1) 1, req_revision = QId (ArenaOwnerId 1) 2, req_range = None\<rparr>"

definition chunk_sample_chunks :: "source_chunk list" where
  "chunk_sample_chunks =
     [\<lparr>ch_index = 0, ch_range = OffsetRange 0 2, ch_bytes = [1, 2], ch_digest = observe [1, 2]\<rparr>,
      \<lparr>ch_index = 1, ch_range = OffsetRange 2 3, ch_bytes = [3], ch_digest = observe [3]\<rparr>]"

definition chunk_sample :: chunked_capture where
  "chunk_sample = \<lparr>kc_request = chunk_sample_request, kc_total = 3, kc_size = 2,
     kc_chunks = chunk_sample_chunks, kc_digest = composite_digest chunk_sample_chunks\<rparr>"

lemma chunk_sample_new: "capture_new chunk_sample_request 3 2 chunk_sample_chunks = Inr chunk_sample"
  by (simp add: capture_new_def chunk_sample_def chunk_sample_chunks_def div_ceil_def range_len_def
      checked_add_def u64_max_val u32_max_def)

text \<open>
  C8: A capture assembled from validated chunks is exactly its content: the constructor accepts only
  chunks that tile the declared length, its composite digest is the digest of the concatenation,
  and every range read - inside one chunk, across chunk boundaries, at the ends or out of bounds -
  returns exactly the slice of the concatenated bytes or the documented error, and never panics.
\<close>

theorem chunked_capture_exact:
  assumes "capture_new q limit csize cs = Inr c" and "0 < csize"
    and "\<forall>ch\<in>set cs. range_ok (ch_range ch)" and "range_ok r"
  shows "length (content cs) = limit \<and> kc_digest c = observe (content cs) \<and>
    range_read c r = Some
      (if range_is_empty r then Inl InvalidRange
       else if range_end r > limit then Inl RangeOutOfBounds
       else Inr \<lparr>xr_range = r, xr_revision = req_revision q,
         xr_bytes = slice (content cs) (range_start r) (range_end r),
         xr_contiguous = (range_start r div csize = (range_end r - 1) div csize)\<rparr>)"
proof -
  have lay: "layout c" "kc_chunks c = cs" "kc_total c = limit" "kc_size c = csize" "kc_request c = q"
    using capture_new_layout [OF assms(1,3,2)] by auto
  then show ?thesis
    using range_read_eq [OF lay(1) _ assms(4)] assms(2) by (simp add: layout_def)
qed

theorem chunked_capture_exact_witness:
  "range_read chunk_sample (OffsetRange 1 3) = Some (Inr \<lparr>xr_range = OffsetRange 1 3,
     xr_revision = QId (ArenaOwnerId 1) 2, xr_bytes = [2, 3], xr_contiguous = False\<rparr>)"
proof -
  have "\<forall>ch\<in>set chunk_sample_chunks. range_ok (ch_range ch)" "range_ok (OffsetRange 1 3 :: byte_range)"
    by (simp_all add: chunk_sample_chunks_def range_ok_def)
  from chunked_capture_exact [OF chunk_sample_new _ this] show ?thesis
    by (simp add: chunk_sample_chunks_def chunk_sample_request_def slice_def range_is_empty_def)
qed

text \<open>
  Reading never panics, and a capture that the reader returns holds exactly the bytes that
  arrived before the end of the file, whatever short reads, interruptions and chunk boundaries lie
  between, within the payload limit and with exactly the expected length where one was given.
\<close>

theorem read_from_reader_exact:
  assumes "0 < csize" and "limit \<le> u32_max"
  shows "\<exists>res. read_from_reader q csize limit expected rs cs = Some res \<and>
    (\<forall>c. res = Inr c \<longrightarrow> content (kc_chunks c) = arrivals rs \<and>
       kc_digest c = observe (arrivals rs) \<and> kc_total c = length (arrivals rs) \<and>
       kc_total c \<le> limit \<and> (\<forall>n. expected = Some n \<longrightarrow> n = kc_total c))"
proof -
  obtain res where res: "read_from_reader q csize limit expected rs cs = Some res"
    and ok: "\<And>c. res = Inr c \<Longrightarrow> layout c \<and> kc_size c = csize \<and> kc_request c = q \<and>
       content (kc_chunks c) = arrivals rs \<and> kc_total c \<le> limit \<and>
       (\<forall>n. expected = Some n \<longrightarrow> n = kc_total c)"
    using read_from_reader_ok [OF assms] by blast
  show ?thesis
  proof (intro exI conjI allI impI)
    show "read_from_reader q csize limit expected rs cs = Some res" by (rule res)
    fix c
    assume "res = Inr c"
    from ok [OF this] show "content (kc_chunks c) = arrivals rs"
      "kc_digest c = observe (arrivals rs)" "kc_total c = length (arrivals rs)" "kc_total c \<le> limit"
      "\<And>n. expected = Some n \<Longrightarrow> n = kc_total c"
      by (auto simp: layout_def)
  qed
qed

theorem read_from_reader_exact_witness:
  "is_ok (the (read_from_reader chunk_sample_request 2 10 (Some 3)
       [Deliver [1], Interrupt, Deliver [2, 3]] [])) \<and>
   content (kc_chunks (projr (the (read_from_reader chunk_sample_request 2 10 (Some 3)
       [Deliver [1], Interrupt, Deliver [2, 3]] [])))) = [1, 2, 3]"
  (is "is_ok (the ?r) \<and> _")
proof -
  have "is_ok (the ?r)"
    by (simp add: read_from_reader_def read_chunks.simps fill_chunk.simps chunk_new_def capture_new_def
        div_ceil_def range_len_def checked_add_def u64_max_val u32_max_def)
  moreover from this obtain c where "the ?r = Inr c" by (cases "the ?r") auto
  moreover have "\<exists>res. ?r = Some res \<and>
    (\<forall>c. res = Inr c \<longrightarrow> content (kc_chunks c) = arrivals [Deliver [1], Interrupt, Deliver [2, 3]] \<and>
       kc_digest c = observe (arrivals [Deliver [1], Interrupt, Deliver [2, 3]]) \<and>
       kc_total c = length (arrivals [Deliver [1], Interrupt, Deliver [2, 3]]) \<and>
       kc_total c \<le> 10 \<and> (\<forall>n. Some 3 = Some n \<longrightarrow> n = kc_total c))"
    by (rule read_from_reader_exact) (simp_all add: u32_max_def)
  ultimately show ?thesis by auto
qed

text \<open>
  An anchor never resolves to substituted bytes: whatever is inserted and evicted, a resolved
  anchor comes from a capture that was inserted under exactly that file and revision, and once the
  capture is evicted the anchor is stale until that very key is inserted again.
\<close>

theorem anchor_never_substituted:
  assumes "resolve_anchor (retained_run ops (store_new ow)) f rv r = Some res"
  shows "(\<forall>x. res = Inr x \<longrightarrow>
      (\<exists>c. Put c \<in> set ops \<and> capture_key c = (f, rv) \<and> range_read c r = Some (Inr x))) \<and>
    (\<forall>before after. ops = before @ Evict (f, rv) # after \<longrightarrow>
       (\<forall>c. Put c \<in> set after \<longrightarrow> capture_key c \<noteq> (f, rv)) \<longrightarrow>
       qid_owner f = ow \<longrightarrow> qid_owner rv = ow \<longrightarrow> res = Inl StaleCapture)"
proof (intro conjI allI impI)
  let ?s = "retained_run ops (store_new ow)"
  fix x
  assume "res = Inr x"
  then obtain c where c: "st_captures ?s (f, rv) = Some c" "range_read c r = Some (Inr x)"
    using assms
    by (auto simp: resolve_anchor_def store_get_def split: sum.splits source_error.splits if_splits option.splits)
      (auto simp: result_simps)
  from retained.run_provenance [OF c(1)] c(2)
  show "\<exists>c. Put c \<in> set ops \<and> capture_key c = (f, rv) \<and> range_read c r = Some (Inr x)"
    by (auto simp: store_new_def)
next
  fix bef aft
  assume ops: "ops = bef @ Evict (f, rv) # aft" and no: "\<forall>c. Put c \<in> set aft \<longrightarrow> capture_key c \<noteq> (f, rv)"
    and ow: "qid_owner f = ow" "qid_owner rv = ow"
  have run: "retained_run (xs @ ys) s = retained_run ys (retained_run xs s)" for xs ys s
  proof (induction xs arbitrary: s)
    case (Cons x xs)
    then show ?case by (cases x) auto
  qed simp
  let ?s = "snd (store_evict (retained_run bef (store_new ow)) f rv)"
  have "st_captures ?s (f, rv) = None" by (simp add: store_evict_def)
  then have "st_captures (retained_run aft ?s) (f, rv) = None"
    using no by (intro retained.run_absent) auto
  then have "st_captures (retained_run ops (store_new ow)) (f, rv) = None"
    by (simp add: ops run)
  then show "res = Inl StaleCapture"
    using assms ow retained_owner [of ops "store_new ow"]
    by (simp add: resolve_anchor_def store_get_def store_new_def)
qed

theorem anchor_never_substituted_witness:
  "resolve_anchor (retained_run
       [Put chunk_sample, Evict (QId (ArenaOwnerId 1) 1, QId (ArenaOwnerId 1) 2)]
       (store_new (ArenaOwnerId 1)))
     (QId (ArenaOwnerId 1) 1) (QId (ArenaOwnerId 1) 2) (OffsetRange 0 3) = Some (Inl StaleCapture)"
  (is "resolve_anchor (retained_run ?ops _) ?f ?rv ?r = _")
proof -
  obtain res where res: "resolve_anchor (retained_run ?ops (store_new (ArenaOwnerId 1))) ?f ?rv ?r = Some res"
    by (simp add: resolve_anchor_def store_get_def store_put_def store_insert_def store_evict_def
        store_new_def chunk_sample_def chunk_sample_request_def Let_def)
  have "?ops = [Put chunk_sample] @ Evict (?f, ?rv) # []" by simp
  with anchor_never_substituted [OF res] have "res = Inl StaleCapture" by fastforce
  with res show ?thesis by simp
qed

end
