(* ===== verification/Line_Index.thy ===== *)
theory Line_Index
  imports Chunks
begin

text \<open>
  \<open>crates/fcb-source/src/line_index.rs\<close>: the resumable line scanner over a chunked capture and the
  retained sparse line index.

  A \<open>LineNumber\<close> is the natural number it wraps (\<open>line_number_new\<close> refuses zero). The two
  unbounded loops of the source, in \<open>finish\<close> and \<open>locate_first_screen\<close>, are partial functions:
  \<^const>\<open>None\<close> is a loop that never returns, and \<open>line_index_exact\<close> and
  \<open>first_screen_exact\<close> show that they return. The specification is \<open>starts\<close>, the positions of a
  byte string at which a line begins.
\<close>

type_synonym line_number = nat

definition line_number_new :: "nat \<Rightarrow> source_error + line_number" where
  "line_number_new one_based = (if one_based = 0 then Inl InvalidRange else Inr one_based)"

definition zero_based :: "line_number \<Rightarrow> nat" where
  "zero_based l = l - 1"

record line_checkpoint =
  cp_line :: line_number
  cp_offset :: nat

record line_range_offsets =
  lr_start_line :: line_number
  lr_end_line :: line_number
  lr_start :: nat
  lr_end :: nat

datatype line_jump = Resolved line_number nat | PendingFarJump nat line_number

section \<open>The retained index\<close>

record sparse_index =
  ix_lines :: nat
  ix_bytes :: nat
  ix_stride :: nat
  ix_checkpoints :: "line_checkpoint list"
  ix_starts :: "nat list"
  ix_complete :: bool

definition sparse_index_new :: "nat \<Rightarrow> sparse_index" where
  "sparse_index_new stride = \<lparr>ix_lines = 0, ix_bytes = 0, ix_stride = max stride 1,
     ix_checkpoints = [], ix_starts = [], ix_complete = False\<rparr>"

definition nth_opt :: "'a list \<Rightarrow> nat \<Rightarrow> 'a option" where
  "nth_opt xs i = (if i < length xs then Some (xs ! i) else None)"

definition line_to_byte :: "sparse_index \<Rightarrow> line_number \<Rightarrow> source_error + nat" where
  "line_to_byte ix l =
     (if l > ix_lines ix then Inl RangeOutOfBounds
      else ok_or RangeOutOfBounds (nth_opt (ix_starts ix) (zero_based l)))"

text \<open>
  \<open>slice::binary_search\<close> on a strictly increasing list: the position of the element if there is
  one (\<^const>\<open>Inr\<close>), else the position where it would be inserted (\<^const>\<open>Inl\<close>).
\<close>

definition binary_search :: "'a::linorder list \<Rightarrow> 'a \<Rightarrow> nat + nat" where
  "binary_search xs x =
     (let i = partition_point (\<lambda>y. y < x) xs in if nth_opt xs i = Some x then Inr i else Inl i)"

definition byte_to_line :: "sparse_index \<Rightarrow> nat \<Rightarrow> source_error + line_number" where
  "byte_to_line ix off =
     (if off > ix_bytes ix \<or> ix_lines ix = 0 then Inl RangeOutOfBounds
      else let i = (case binary_search (ix_starts ix) off of
                      Inr exact \<Rightarrow> exact | Inl nxt \<Rightarrow> saturating_sub nxt 1) in
        and_then (ok_or RangeOutOfBounds (checked_add i 1)) line_number_new)"

section \<open>The resumable scanner\<close>

type_synonym capture_key = "capture_request \<times> nat \<times> nat \<times> digest"

record line_scanner =
  sc_stride :: nat
  sc_chunks :: nat
  sc_offset :: nat
  sc_line :: nat
  sc_cr :: bool
  sc_pending :: bool
  sc_checkpoints :: "line_checkpoint list"
  sc_starts :: "nat list"
  sc_complete :: bool
  sc_binding :: "capture_key option"

definition line_scanner_new :: "nat \<Rightarrow> line_scanner" where
  "line_scanner_new stride = \<lparr>sc_stride = max stride 1, sc_chunks = 0, sc_offset = 0, sc_line = 0,
     sc_cr = False, sc_pending = True, sc_checkpoints = [], sc_starts = [], sc_complete = False,
     sc_binding = None\<rparr>"

definition key_of_capture :: "chunked_capture \<Rightarrow> capture_key" where
  "key_of_capture c = (kc_request c, kc_total c, kc_size c, kc_digest c)"

definition validate_capture ::
  "line_scanner \<Rightarrow> chunked_capture \<Rightarrow> (source_error + unit) \<times> line_scanner" where
  "validate_capture s c = (case sc_binding s of
       Some bound \<Rightarrow> if bound \<noteq> key_of_capture c then (Inl MetadataMismatch, s) else (Inr (), s)
     | None \<Rightarrow> (Inr (), s\<lparr>sc_binding := Some (key_of_capture c)\<rparr>))"

definition record_line :: "line_scanner \<Rightarrow> nat \<Rightarrow> (source_error + unit) \<times> line_scanner" where
  "record_line s start = (case checked_add (sc_line s) 1 of
       None \<Rightarrow> (Inl RangeOutOfBounds, s)
     | Some l \<Rightarrow>
         let s1 = s\<lparr>sc_line := l, sc_starts := sc_starts s @ [start]\<rparr> in
         if l = 1 \<or> sc_stride s dvd l then
           (case line_number_new l of
              Inl e \<Rightarrow> (Inl e, s1)
            | Inr n \<Rightarrow> (Inr (), s1\<lparr>sc_checkpoints :=
                sc_checkpoints s1 @ [\<lparr>cp_line = n, cp_offset = start\<rparr>]\<rparr>))
         else (Inr (), s1))"

definition cr_byte :: byte where "cr_byte = 13"
definition lf_byte :: byte where "lf_byte = 10"

text \<open>The body of the loop over a chunk's bytes, after the offset has been advanced.\<close>

definition scan_byte :: "line_scanner \<Rightarrow> byte \<Rightarrow> (source_error + unit) \<times> line_scanner" where
  "scan_byte s b =
     (let offset = sc_offset s in
      case checked_add offset 1 of
        None \<Rightarrow> (Inl RangeOutOfBounds, s)
      | Some nxt \<Rightarrow>
          let s1 = s\<lparr>sc_offset := nxt\<rparr> in
          if sc_cr s1 \<and> b = lf_byte then (Inr (), s1\<lparr>sc_cr := False\<rparr>)
          else
            let s2 = s1\<lparr>sc_cr := False\<rparr> in
            (case (if sc_pending s2 then
                     (case record_line s2 offset of
                        (Inl e, s3) \<Rightarrow> (Inl e, s3)
                      | (Inr _, s3) \<Rightarrow> (Inr (), s3\<lparr>sc_pending := False\<rparr>))
                   else (Inr (), s2)) of
               (Inl e, s3) \<Rightarrow> (Inl e, s3)
             | (Inr _, s3) \<Rightarrow>
                 if b = cr_byte then (Inr (), s3\<lparr>sc_pending := True, sc_cr := True\<rparr>)
                 else if b = lf_byte then (Inr (), s3\<lparr>sc_pending := True\<rparr>)
                 else (Inr (), s3)))"

fun scan_bytes :: "line_scanner \<Rightarrow> byte list \<Rightarrow> (source_error + unit) \<times> line_scanner" where
  "scan_bytes s [] = (Inr (), s)"
| "scan_bytes s (b # bs) = (case scan_byte s b of
     (Inl e, s1) \<Rightarrow> (Inl e, s1)
   | (Inr _, s1) \<Rightarrow> scan_bytes s1 bs)"

definition scan_chunk :: "line_scanner \<Rightarrow> source_chunk \<Rightarrow> (source_error + unit) \<times> line_scanner" where
  "scan_chunk s c =
     (if range_start (ch_range c) \<noteq> sc_offset s then (Inl MetadataMismatch, s)
      else scan_bytes s (ch_bytes c))"

text \<open>The loop of \<open>step\<close> over at most \<open>n\<close> further chunks.\<close>

fun scan_chunks :: "nat \<Rightarrow> line_scanner \<Rightarrow> chunked_capture \<Rightarrow> (source_error + unit) \<times> line_scanner" where
  "scan_chunks 0 s c = (Inr (), s)"
| "scan_chunks (Suc n) s c = (case nth_opt (kc_chunks c) (sc_chunks s) of
     None \<Rightarrow> (Inl ChunkOutOfBounds, s)
   | Some ch \<Rightarrow> (case scan_chunk s ch of
       (Inl e, s1) \<Rightarrow> (Inl e, s1)
     | (Inr _, s1) \<Rightarrow> scan_chunks n (s1\<lparr>sc_chunks := sc_chunks s1 + 1\<rparr>) c))"

definition scanner_step ::
  "line_scanner \<Rightarrow> chunked_capture \<Rightarrow> nat \<Rightarrow> (source_error + bool) \<times> line_scanner" where
  "scanner_step s c budget = (case validate_capture s c of
     (Inl e, s1) \<Rightarrow> (Inl e, s1)
   | (Inr _, s1) \<Rightarrow>
       if sc_complete s1 then (Inr True, s1)
       else
         let total_chunks = length (kc_chunks c);
             end_chunk = min (saturating_add (sc_chunks s1) budget) total_chunks in
         (case scan_chunks (end_chunk - sc_chunks s1) s1 c of
            (Inl e, s2) \<Rightarrow> (Inl e, s2)
          | (Inr _, s2) \<Rightarrow>
              let s3 = s2\<lparr>sc_complete := (sc_chunks s2 = total_chunks)\<rparr> in
              (Inr (sc_complete s3), s3)))"

definition jump_to_line :: "line_scanner \<Rightarrow> line_number \<Rightarrow> line_jump" where
  "jump_to_line s target =
     (if target \<le> sc_line s then
        (case nth_opt (sc_starts s) (zero_based target) of
           Some off \<Rightarrow> Resolved target off
         | None \<Rightarrow> PendingFarJump (sc_line s) target)
      else PendingFarJump (sc_line s) target)"

fun resume_loop ::
  "nat \<Rightarrow> line_scanner \<Rightarrow> chunked_capture \<Rightarrow> line_number \<Rightarrow> (source_error + unit) \<times> line_scanner" where
  "resume_loop 0 s c target = (Inr (), s)"
| "resume_loop (Suc n) s c target =
     (if sc_line s \<ge> target \<or> sc_complete s then (Inr (), s)
      else case scanner_step s c 1 of
        (Inl e, s1) \<Rightarrow> (Inl e, s1)
      | (Inr _, s1) \<Rightarrow> resume_loop n s1 c target)"

definition resume_until_line ::
  "line_scanner \<Rightarrow> chunked_capture \<Rightarrow> line_number \<Rightarrow> nat \<Rightarrow> (source_error + line_jump) \<times> line_scanner" where
  "resume_until_line s c target budget = (case validate_capture s c of
     (Inl e, s1) \<Rightarrow> (Inl e, s1)
   | (Inr _, s1) \<Rightarrow> (case resume_loop budget s1 c target of
       (Inl e, s2) \<Rightarrow> (Inl e, s2)
     | (Inr _, s2) \<Rightarrow>
         if sc_complete s2 \<and> sc_line s2 < target then (Inl RangeOutOfBounds, s2)
         else (Inr (jump_to_line s2 target), s2)))"

text \<open>\<open>while cond(self) { self.step(capture, n)?; }\<close>\<close>

partial_function (option) step_while ::
  "(line_scanner \<Rightarrow> bool) \<Rightarrow> nat \<Rightarrow> line_scanner \<Rightarrow> chunked_capture \<Rightarrow>
   ((source_error + unit) \<times> line_scanner) option" where
  "step_while P n s c =
     (if P s then (case scanner_step s c n of
        (Inl e, s1) \<Rightarrow> Some (Inl e, s1)
      | (Inr _, s1) \<Rightarrow> step_while P n s1 c)
      else Some (Inr (), s))"

definition locate_first_screen ::
  "line_scanner \<Rightarrow> chunked_capture \<Rightarrow> nat \<Rightarrow>
   ((source_error + line_range_offsets) \<times> line_scanner) option" where
  "locate_first_screen s c screen_lines = (case validate_capture s c of
     (Inl e, s1) \<Rightarrow> Some (Inl e, s1)
   | (Inr _, s1) \<Rightarrow>
       if screen_lines = 0 then Some (Inl InvalidRange, s1)
       else Option.bind
         (step_while (\<lambda>s. sc_line s \<le> screen_lines \<and> \<not> sc_complete s) 1 s1 c) (\<lambda>out. case out of
           (Inl e, s2) \<Rightarrow> Some (Inl e, s2)
         | (Inr _, s2) \<Rightarrow>
             if sc_line s2 = 0 then Some (Inl CaptureUnavailable, s2)
             else
               let last_line = min (sc_line s2) screen_lines;
                   fin = (case nth_opt (sc_starts s2) last_line of
                            Some off \<Rightarrow> off | None \<Rightarrow> sc_offset s2) in
               Some (and_then (line_number_new 1) (\<lambda>first.
                     and_then (line_number_new last_line) (\<lambda>l.
                     Inr \<lparr>lr_start_line = first, lr_end_line = l, lr_start = 0, lr_end = fin\<rparr>)), s2)))"

definition scanner_finish ::
  "line_scanner \<Rightarrow> chunked_capture \<Rightarrow> ((source_error + sparse_index) \<times> line_scanner) option" where
  "scanner_finish s c = (case validate_capture s c of
     (Inl e, s1) \<Rightarrow> Some (Inl e, s1)
   | (Inr _, s1) \<Rightarrow>
       map_option (\<lambda>out. case out of
           (Inl e, s2) \<Rightarrow> (Inl e, s2)
         | (Inr _, s2) \<Rightarrow>
             (Inr \<lparr>ix_lines = sc_line s2, ix_bytes = kc_total c, ix_stride = sc_stride s2,
                   ix_checkpoints = sc_checkpoints s2, ix_starts = sc_starts s2, ix_complete = True\<rparr>, s2))
         (step_while (\<lambda>s. \<not> sc_complete s) 32 s1 c))"

section \<open>The lines of a byte string\<close>

text \<open>
  A line begins at the first byte, after a line feed, and after a carriage return that no line feed
  follows. A final terminator begins no line.
\<close>

definition is_start :: "byte list \<Rightarrow> nat \<Rightarrow> bool" where
  "is_start bs p \<longleftrightarrow> p < length bs \<and>
     (p = 0 \<or> bs ! (p - 1) = lf_byte \<or> (bs ! (p - 1) = cr_byte \<and> bs ! p \<noteq> lf_byte))"

definition starts :: "byte list \<Rightarrow> nat list" where
  "starts bs = filter (is_start bs) [0..<length bs]"

definition checkpoints_of :: "nat \<Rightarrow> nat list \<Rightarrow> line_checkpoint list" where
  "checkpoints_of stride ps =
     map (\<lambda>l. \<lparr>cp_line = l, cp_offset = ps ! (l - 1)\<rparr>)
       (filter (\<lambda>l. l = 1 \<or> stride dvd l) [1..<Suc (length ps)])"

lemma cr_neq_lf [simp]: "cr_byte \<noteq> lf_byte" "lf_byte \<noteq> cr_byte"
  by (simp_all add: cr_byte_def lf_byte_def)

lemma starts_Nil [simp]: "starts [] = []"
  by (simp add: starts_def)

lemma is_start_append: "p < length bs \<Longrightarrow> is_start (bs @ cs) p = is_start bs p"
  by (auto simp: is_start_def nth_append)

lemma starts_snoc: "starts (bs @ [b]) = starts bs @ (if is_start (bs @ [b]) (length bs) then [length bs] else [])"
proof -
  have "filter (is_start (bs @ [b])) [0..<length bs] = filter (is_start bs) [0..<length bs]"
    by (rule filter_cong) (auto simp: is_start_append)
  then show ?thesis by (simp add: starts_def)
qed

lemma is_start_last: "is_start (bs @ [b]) (length bs) \<longleftrightarrow>
   bs = [] \<or> last bs = lf_byte \<or> (last bs = cr_byte \<and> b \<noteq> lf_byte)"
  by (auto simp: is_start_def nth_append last_conv_nth)

lemma sorted_starts: "sorted_wrt (<) (starts bs)"
  by (simp add: starts_def sorted_wrt_filter)

lemma set_starts: "set (starts bs) = {p. is_start bs p}"
  by (auto simp: starts_def is_start_def)

lemma starts_prefix: "\<exists>ps. starts (bs @ cs) = starts bs @ ps"
proof (induction cs rule: rev_induct)
  case (snoc c cs)
  then show ?case using starts_snoc [of "bs @ cs" c] by auto
qed simp

lemma length_starts: "length (starts bs) \<le> length bs"
  using length_filter_le [of "is_start bs" "[0..<length bs]"] by (simp add: starts_def)

lemma starts_hd: "bs \<noteq> [] \<Longrightarrow> \<exists>ps. starts bs = 0 # ps"
proof (cases bs)
  case (Cons b cs)
  have "starts [b] = [0]" by (simp add: starts_def is_start_def)
  with starts_prefix [of "[b]" cs] Cons show ?thesis by auto
qed simp

lemma starts_eq_Nil [simp]: "starts bs = [] \<longleftrightarrow> bs = []"
  using starts_hd [of bs] by (cases "bs = []") auto

lemma checkpoints_Nil [simp]: "checkpoints_of k [] = []"
  by (simp add: checkpoints_of_def)

lemma checkpoints_snoc:
  "checkpoints_of k (ps @ [p]) = checkpoints_of k ps @
     (if length ps = 0 \<or> k dvd Suc (length ps) then [\<lparr>cp_line = Suc (length ps), cp_offset = p\<rparr>] else [])"
proof -
  have "map (\<lambda>l. \<lparr>cp_line = l, cp_offset = (ps @ [p]) ! (l - 1)\<rparr>)
      (filter (\<lambda>l. l = 1 \<or> k dvd l) [1..<Suc (length ps)]) = checkpoints_of k ps"
    unfolding checkpoints_of_def by (rule map_cong) (auto simp: nth_append)
  then show ?thesis by (simp add: checkpoints_of_def nth_append)
qed

section \<open>The scanner follows the specification\<close>

text \<open>The state after the bytes \<open>bs\<close> have been scanned.\<close>

definition scanned :: "byte list \<Rightarrow> line_scanner \<Rightarrow> bool" where
  "scanned bs s \<longleftrightarrow> sc_offset s = length bs \<and> sc_starts s = starts bs \<and> sc_line s = length (starts bs) \<and>
     sc_cr s = (bs \<noteq> [] \<and> last bs = cr_byte) \<and>
     sc_pending s = (bs = [] \<or> last bs = cr_byte \<or> last bs = lf_byte) \<and>
     sc_checkpoints s = checkpoints_of (sc_stride s) (starts bs)"

lemma record_line_ok:
  assumes "sc_line s < u64_max"
  shows "record_line s p = (Inr (), s\<lparr>sc_line := Suc (sc_line s), sc_starts := sc_starts s @ [p],
     sc_checkpoints := sc_checkpoints s @ (if sc_line s = 0 \<or> sc_stride s dvd Suc (sc_line s)
       then [\<lparr>cp_line = Suc (sc_line s), cp_offset = p\<rparr>] else [])\<rparr>)"
  using assms by (simp add: record_line_def checked_add_def line_number_new_def)

lemma scan_byte_ok:
  assumes "scanned bs s" and "length bs < u64_max"
  shows "\<exists>s'. scan_byte s b = (Inr (), s') \<and> scanned (bs @ [b]) s' \<and> sc_chunks s' = sc_chunks s \<and>
    sc_stride s' = sc_stride s \<and> sc_binding s' = sc_binding s \<and> sc_complete s' = sc_complete s"
proof -
  have line: "sc_line s < u64_max"
    using assms length_starts [of bs] by (simp add: scanned_def)
  have off: "sc_offset s = length bs" using assms(1) by (simp add: scanned_def)
  show ?thesis
  proof (cases "sc_cr s \<and> b = lf_byte")
    case True
    then have eq: "scan_byte s b = (Inr (), s\<lparr>sc_offset := Suc (length bs), sc_cr := False\<rparr>)"
      using assms(2) off by (simp add: scan_byte_def Let_def checked_add_def)
    show ?thesis unfolding eq
      using True assms by (auto simp: scanned_def starts_snoc is_start_last)
  next
    case False
    then have cr: "sc_cr s \<longrightarrow> b \<noteq> lf_byte" by simp
    show ?thesis
    proof (cases "sc_pending s")
      case True
      let ?s3 = "s\<lparr>sc_offset := Suc (length bs), sc_cr := (b = cr_byte),
        sc_line := Suc (sc_line s), sc_starts := sc_starts s @ [length bs],
        sc_checkpoints := sc_checkpoints s @ (if sc_line s = 0 \<or> sc_stride s dvd Suc (sc_line s)
          then [\<lparr>cp_line = Suc (sc_line s), cp_offset = length bs\<rparr>] else []),
        sc_pending := (b = cr_byte \<or> b = lf_byte)\<rparr>"
      have eq: "scan_byte s b = (Inr (), ?s3)"
        using False True assms(2) off line
        by (auto simp: scan_byte_def Let_def checked_add_def record_line_ok)
      have "is_start (bs @ [b]) (length bs)"
        using True cr assms(1) by (auto simp: is_start_last scanned_def)
      then have "scanned (bs @ [b]) ?s3"
        using assms(1) by (simp add: scanned_def starts_snoc checkpoints_snoc)
      with eq show ?thesis by auto
    next
      case no: False
      have eq: "scan_byte s b = (Inr (), s\<lparr>sc_offset := Suc (length bs), sc_cr := (b = cr_byte),
          sc_pending := (b = cr_byte \<or> b = lf_byte)\<rparr>)"
        using False no assms(2) off by (auto simp: scan_byte_def Let_def checked_add_def)
      have "\<not> is_start (bs @ [b]) (length bs)"
        using no assms(1) by (auto simp: is_start_last scanned_def)
      then show ?thesis unfolding eq using assms(1) no by (auto simp: scanned_def starts_snoc)
    qed
  qed
qed

lemma scan_bytes_ok:
  assumes "scanned bs s" and "length bs + length cs \<le> u64_max"
  shows "\<exists>s'. scan_bytes s cs = (Inr (), s') \<and> scanned (bs @ cs) s' \<and> sc_chunks s' = sc_chunks s \<and>
    sc_stride s' = sc_stride s \<and> sc_binding s' = sc_binding s \<and> sc_complete s' = sc_complete s"
  using assms
proof (induction cs arbitrary: bs s)
  case (Cons c cs)
  obtain s1 where s1: "scan_byte s c = (Inr (), s1)" "scanned (bs @ [c]) s1" "sc_chunks s1 = sc_chunks s"
    "sc_stride s1 = sc_stride s" "sc_binding s1 = sc_binding s" "sc_complete s1 = sc_complete s"
    using scan_byte_ok [OF Cons.prems(1)] Cons.prems(2) by fastforce
  show ?case using Cons.IH [OF s1(2)] Cons.prems(2) s1 by simp
qed simp

section \<open>Steps over a validated capture\<close>

definition indexable :: "chunked_capture \<Rightarrow> bool" where
  "indexable c \<longleftrightarrow> layout c \<and> 0 < kc_size c \<and> kc_total c \<le> u64_max"

lemma indexable_chunks: "indexable c \<Longrightarrow> length (kc_chunks c) \<le> u64_max"
proof -
  assume c: "indexable c"
  have "length (kc_chunks c) \<le> kc_total c"
  proof (cases "kc_total c = 0")
    case True
    then show ?thesis using c by (simp add: indexable_def layout_def div_ceil_def)
  next
    case False
    then have "(length (kc_chunks c) - 1) * kc_size c < kc_total c"
      using c div_ceil_bounds(2) [of "kc_size c" "kc_total c"] by (simp add: indexable_def layout_def)
    moreover have "(length (kc_chunks c) - 1) * 1 \<le> (length (kc_chunks c) - 1) * kc_size c"
      using c by (intro mult_le_mono2) (simp add: indexable_def)
    ultimately show ?thesis by linarith
  qed
  with c show ?thesis by (simp add: indexable_def)
qed

text \<open>The chunk at the cursor starts where the bytes scanned so far end.\<close>

lemma chunk_at:
  assumes c: "indexable c" and k: "k < length (kc_chunks c)"
  shows "range_start (ch_range (kc_chunks c ! k)) = length (content (take k (kc_chunks c)))"
    "content (take (Suc k) (kc_chunks c)) = content (take k (kc_chunks c)) @ ch_bytes (kc_chunks c ! k)"
    "length (content (take (Suc k) (kc_chunks c))) \<le> u64_max"
proof -
  let ?cs = "kc_chunks c"
  have split: "?cs = take k ?cs @ ?cs ! k # drop (Suc k) ?cs" using k by (rule id_take_nth_drop)
  have "laid 0 (take k ?cs @ ?cs ! k # drop (Suc k) ?cs)"
    using c split by (simp add: indexable_def layout_def)
  then show "range_start (ch_range (?cs ! k)) = length (content (take k ?cs))"
    by (simp add: laid_append)
  show take: "content (take (Suc k) ?cs) = content (take k ?cs) @ ch_bytes (?cs ! k)"
    using k by (simp add: take_Suc_conv_app_nth)
  have "content ?cs = content (take (Suc k) ?cs) @ content (drop (Suc k) ?cs)"
    using content_simps(3) [of "take (Suc k) ?cs" "drop (Suc k) ?cs"] by simp
  then have "length (content (take (Suc k) ?cs)) \<le> length (content ?cs)" by simp
  then show "length (content (take (Suc k) ?cs)) \<le> u64_max"
    using c by (simp add: indexable_def layout_def)
qed

definition cursor :: "chunked_capture \<Rightarrow> line_scanner \<Rightarrow> bool" where
  "cursor c s \<longleftrightarrow> sc_chunks s \<le> length (kc_chunks c) \<and>
     scanned (content (take (sc_chunks s) (kc_chunks c))) s"

definition tracks :: "chunked_capture \<Rightarrow> line_scanner \<Rightarrow> bool" where
  "tracks c s \<longleftrightarrow> cursor c s \<and> (sc_complete s \<longrightarrow> sc_chunks s = length (kc_chunks c)) \<and>
     (sc_binding s = None \<or> sc_binding s = Some (key_of_capture c))"

lemma scan_chunks_ok:
  assumes "indexable c" and "cursor c s" and "sc_chunks s + n \<le> length (kc_chunks c)"
  shows "\<exists>s'. scan_chunks n s c = (Inr (), s') \<and> cursor c s' \<and> sc_chunks s' = sc_chunks s + n \<and>
    sc_stride s' = sc_stride s \<and> sc_binding s' = sc_binding s \<and> sc_complete s' = sc_complete s"
  using assms
proof (induction n arbitrary: s)
  case (Suc n)
  let ?k = "sc_chunks s" and ?cs = "kc_chunks c"
  have k: "?k < length ?cs" using Suc.prems(3) by simp
  note at = chunk_at [OF Suc.prems(1) k]
  have sc: "scanned (content (take ?k ?cs)) s" using Suc.prems(2) by (simp add: cursor_def)
  have "length (content (take ?k ?cs)) + length (ch_bytes (?cs ! ?k)) \<le> u64_max"
    using at(2,3) by simp
  from scan_bytes_ok [OF sc this] obtain s1 where s1: "scan_bytes s (ch_bytes (?cs ! ?k)) = (Inr (), s1)"
    "scanned (content (take (Suc ?k) ?cs)) s1" "sc_chunks s1 = ?k" "sc_stride s1 = sc_stride s"
    "sc_binding s1 = sc_binding s" "sc_complete s1 = sc_complete s"
    unfolding at(2) by auto
  let ?s2 = "s1\<lparr>sc_chunks := Suc ?k\<rparr>"
  have "cursor c ?s2" using s1(2) k by (simp add: cursor_def scanned_def)
  moreover have "scan_chunks (Suc n) s c = scan_chunks n ?s2 c"
    using s1(1,3) at(1) sc k by (simp add: nth_opt_def scan_chunk_def scanned_def)
  ultimately show ?case
    using Suc.IH [of ?s2] Suc.prems s1 by auto
qed simp

lemma tracks_validate:
  assumes "tracks c s"
  shows "validate_capture s c = (Inr (), s\<lparr>sc_binding := Some (key_of_capture c)\<rparr>)"
  using assms by (auto simp: tracks_def validate_capture_def)

lemma tracks_bind: "tracks c s \<Longrightarrow> tracks c (s\<lparr>sc_binding := Some (key_of_capture c)\<rparr>)"
  by (simp add: tracks_def cursor_def scanned_def)

lemma step_ok:
  assumes "indexable c" and "tracks c s"
  shows "\<exists>s'. scanner_step s c b = (Inr (sc_complete s'), s') \<and> tracks c s' \<and>
    sc_binding s' = Some (key_of_capture c) \<and> sc_stride s' = sc_stride s \<and>
    (sc_complete s \<longrightarrow> s' = s\<lparr>sc_binding := Some (key_of_capture c)\<rparr>) \<and>
    (\<not> sc_complete s \<longrightarrow> sc_chunks s' = min (sc_chunks s + b) (length (kc_chunks c)) \<and>
       sc_complete s' = (sc_chunks s' = length (kc_chunks c)))"
proof (cases "sc_complete s")
  case True
  then show ?thesis using tracks_bind [OF assms(2)] tracks_validate [OF assms(2)]
    by (simp add: scanner_step_def)
next
  case False
  let ?s1 = "s\<lparr>sc_binding := Some (key_of_capture c)\<rparr>" and ?n = "length (kc_chunks c)"
  have ends: "min (saturating_add (sc_chunks s) b) ?n = min (sc_chunks s + b) ?n"
    using indexable_chunks [OF assms(1)] by (simp add: saturating_add_def min_def)
  have cur: "cursor c ?s1" "sc_chunks s \<le> ?n" using tracks_bind [OF assms(2)] by (auto simp: tracks_def cursor_def)
  then obtain s2 where s2: "scan_chunks (min (sc_chunks s + b) ?n - sc_chunks s) ?s1 c = (Inr (), s2)"
    "cursor c s2" "sc_chunks s2 = min (sc_chunks s + b) ?n" "sc_stride s2 = sc_stride s"
    "sc_binding s2 = Some (key_of_capture c)"
    using scan_chunks_ok [OF assms(1) cur(1), of "min (sc_chunks s + b) ?n - sc_chunks s"] by auto
  let ?s3 = "s2\<lparr>sc_complete := (sc_chunks s2 = ?n)\<rparr>"
  have "scanner_step s c b = (Inr (sc_complete ?s3), ?s3)"
    using False s2(1) ends tracks_validate [OF assms(2)] by (simp add: scanner_step_def Let_def)
  moreover have "tracks c ?s3" using s2 by (simp add: tracks_def cursor_def scanned_def)
  ultimately show ?thesis using False s2 by (intro exI [of _ ?s3]) simp
qed

text \<open>A loop that steps while its condition holds, and never on a finished scanner, ends.\<close>

lemma step_while_ok:
  assumes "indexable c" and "tracks c s" and "0 < b" and "\<And>s. P s \<Longrightarrow> \<not> sc_complete s"
  shows "\<exists>s'. step_while P b s c = Some (Inr (), s') \<and> tracks c s' \<and> \<not> P s' \<and>
    sc_stride s' = sc_stride s \<and>
    (sc_binding s = Some (key_of_capture c) \<longrightarrow> sc_binding s' = Some (key_of_capture c))"
  using assms(2)
proof (induction "2 * (length (kc_chunks c) - sc_chunks s) + (if sc_complete s then 0 else 1)"
    arbitrary: s rule: less_induct)
  case less
  show ?case
  proof (cases "P s")
    case False
    with less.prems show ?thesis by (simp add: step_while.simps [of P b s c])
  next
    case True
    then have open': "\<not> sc_complete s" by (rule assms(4))
    from step_ok [OF assms(1) less.prems, of b] open' obtain s1 where
      s1: "scanner_step s c b = (Inr (sc_complete s1), s1)" "tracks c s1" "sc_stride s1 = sc_stride s"
        "sc_binding s1 = Some (key_of_capture c)"
        "sc_chunks s1 = min (sc_chunks s + b) (length (kc_chunks c))"
        "sc_complete s1 = (sc_chunks s1 = length (kc_chunks c))" by blast
    have bound: "sc_chunks s \<le> length (kc_chunks c)" using less.prems by (simp add: tracks_def cursor_def)
    have dec: "2 * (length (kc_chunks c) - sc_chunks s1) + (if sc_complete s1 then 0 else 1)
        < 2 * (length (kc_chunks c) - sc_chunks s) + (if sc_complete s then 0 else 1 :: nat)"
      using s1(5,6) open' bound assms(3) by (auto simp: min_def)
    have run: "step_while P b s c = step_while P b s1 c"
      using True s1(1) by (simp add: step_while.simps [of P b s c])
    obtain s' where "step_while P b s1 c = Some (Inr (), s')" "tracks c s'" "\<not> P s'"
      "sc_stride s' = sc_stride s1" "sc_binding s' = Some (key_of_capture c)"
      using less.hyps [OF dec s1(2)] s1(4) by blast
    with run s1(3) show ?thesis by auto
  qed
qed

lemma resume_loop_ok:
  assumes "indexable c" and "tracks c s"
  shows "\<exists>s'. resume_loop n s c target = (Inr (), s') \<and> tracks c s' \<and> sc_stride s' = sc_stride s \<and>
    sc_chunks s \<le> sc_chunks s' \<and> sc_chunks s' \<le> sc_chunks s + n \<and>
    (target \<le> sc_line s' \<or> sc_complete s' \<or> sc_chunks s' = sc_chunks s + n)"
  using assms(2)
proof (induction n arbitrary: s)
  case (Suc n)
  show ?case
  proof (cases "sc_line s \<ge> target \<or> sc_complete s")
    case True
    with Suc.prems show ?thesis by auto
  next
    case False
    with step_ok [OF assms(1) Suc.prems, of 1] obtain s1 where
      s1: "scanner_step s c 1 = (Inr (sc_complete s1), s1)" "tracks c s1" "sc_stride s1 = sc_stride s"
        "sc_chunks s1 = min (sc_chunks s + 1) (length (kc_chunks c))"
        "sc_complete s1 = (sc_chunks s1 = length (kc_chunks c))" by blast
    have bound: "sc_chunks s \<le> length (kc_chunks c)" using Suc.prems by (simp add: tracks_def cursor_def)
    obtain s' where s': "resume_loop n s1 c target = (Inr (), s')" "tracks c s'" "sc_stride s' = sc_stride s1"
      "sc_chunks s1 \<le> sc_chunks s'" "sc_chunks s' \<le> sc_chunks s1 + n"
      "target \<le> sc_line s' \<or> sc_complete s' \<or> sc_chunks s' = sc_chunks s1 + n"
      using Suc.IH [OF s1(2)] by blast
    have run: "resume_loop (Suc n) s c target = resume_loop n s1 c target" using False s1(1) by simp
    have "target \<le> sc_line s' \<or> sc_complete s' \<or> sc_chunks s' = sc_chunks s + Suc n"
    proof (cases "sc_chunks s = length (kc_chunks c)")
      case True
      then have "sc_complete s1" using s1(4,5) by simp
      then have "resume_loop n s1 c target = (Inr (), s1)" by (cases n) simp_all
      with s'(1) have "s' = s1" by simp
      with \<open>sc_complete s1\<close> show ?thesis by simp
    next
      case False
      with bound s1(4) have "sc_chunks s1 = Suc (sc_chunks s)" by simp
      with s'(6) show ?thesis by simp
    qed
    with s' s1 bound show ?thesis unfolding run by (intro exI [of _ s']) auto
  qed
qed auto

section \<open>What a tracking scanner knows\<close>

abbreviation "lines_of c \<equiv> starts (content (kc_chunks c))"

lemma tracks_starts:
  assumes "tracks c s"
  shows "\<exists>ps. lines_of c = sc_starts s @ ps" "sc_line s = length (sc_starts s)"
    "sc_complete s \<Longrightarrow> sc_starts s = lines_of c"
    "sc_checkpoints s = checkpoints_of (sc_stride s) (sc_starts s)"
    "sc_complete s \<Longrightarrow> sc_offset s = length (content (kc_chunks c))"
proof -
  let ?k = "sc_chunks s"
  have sc: "scanned (content (take ?k (kc_chunks c))) s" "?k \<le> length (kc_chunks c)"
    using assms by (auto simp: tracks_def cursor_def)
  have "content (kc_chunks c) = content (take ?k (kc_chunks c)) @ content (drop ?k (kc_chunks c))"
    using content_simps(3) [of "take ?k (kc_chunks c)" "drop ?k (kc_chunks c)"] by simp
  then show "\<exists>ps. lines_of c = sc_starts s @ ps"
    using starts_prefix [of "content (take ?k (kc_chunks c))" "content (drop ?k (kc_chunks c))"] sc
    by (simp add: scanned_def)
  show "sc_line s = length (sc_starts s)" "sc_checkpoints s = checkpoints_of (sc_stride s) (sc_starts s)"
    using sc by (simp_all add: scanned_def)
  show "sc_starts s = lines_of c" "sc_offset s = length (content (kc_chunks c))" if "sc_complete s"
    using that sc assms by (simp_all add: scanned_def tracks_def)
qed

lemma jump_ok:
  assumes "tracks c s" and "0 < l"
  shows "jump_to_line s l = (if l \<le> sc_line s then Resolved l (lines_of c ! (l - 1))
    else PendingFarJump (sc_line s) l)"
proof -
  obtain ps where "lines_of c = sc_starts s @ ps" using tracks_starts(1) [OF assms(1)] by blast
  with tracks_starts(2) [OF assms(1)] assms(2) show ?thesis
    by (auto simp: jump_to_line_def nth_opt_def zero_based_def nth_append)
qed

lemma tracks_line_le: "tracks c s \<Longrightarrow> sc_line s \<le> length (lines_of c)"
  using tracks_starts(1,2) [of c s] by auto

lemma finish_ok:
  assumes "indexable c" and "tracks c s"
  shows "\<exists>s'. scanner_finish s c = Some (Inr \<lparr>ix_lines = length (lines_of c), ix_bytes = kc_total c,
      ix_stride = sc_stride s, ix_checkpoints = checkpoints_of (sc_stride s) (lines_of c),
      ix_starts = lines_of c, ix_complete = True\<rparr>, s') \<and> tracks c s' \<and> sc_stride s' = sc_stride s"
proof -
  let ?s1 = "s\<lparr>sc_binding := Some (key_of_capture c)\<rparr>"
  obtain s2 where s2: "step_while (\<lambda>s. \<not> sc_complete s) 32 ?s1 c = Some (Inr (), s2)" "tracks c s2"
    "sc_complete s2" "sc_stride s2 = sc_stride s"
    using step_while_ok [OF assms(1) tracks_bind [OF assms(2)], of 32 "\<lambda>s. \<not> sc_complete s"] by auto
  then show ?thesis
    using tracks_starts(2,3,4) [OF s2(2)] tracks_validate [OF assms(2)]
    by (simp add: scanner_finish_def)
qed

lemma screen_ok:
  assumes "indexable c" and "tracks c s"
  shows "\<exists>s'. locate_first_screen s c n = Some
     (if n = 0 then Inl InvalidRange
      else if content (kc_chunks c) = [] then Inl CaptureUnavailable
      else Inr \<lparr>lr_start_line = 1, lr_end_line = min n (length (lines_of c)), lr_start = 0,
        lr_end = (if n < length (lines_of c) then lines_of c ! n else kc_total c)\<rparr>, s') \<and>
     tracks c s' \<and> sc_stride s' = sc_stride s"
proof (cases "n = 0")
  case True
  then show ?thesis using tracks_validate [OF assms(2)] tracks_bind [OF assms(2)]
    by (simp add: locate_first_screen_def)
next
  case False
  let ?s1 = "s\<lparr>sc_binding := Some (key_of_capture c)\<rparr>" and ?P = "\<lambda>s. sc_line s \<le> n \<and> \<not> sc_complete s"
  obtain s2 where s2: "step_while ?P 1 ?s1 c = Some (Inr (), s2)" "tracks c s2"
    "n < sc_line s2 \<or> sc_complete s2" "sc_stride s2 = sc_stride s"
    using step_while_ok [OF assms(1) tracks_bind [OF assms(2)], of 1 ?P] by (auto simp: not_le)
  note st = tracks_starts [OF s2(2)]
  obtain ps where ps: "lines_of c = sc_starts s2 @ ps" using st(1) by blast
  have total': "length (content (kc_chunks c)) = kc_total c" using assms(1) by (simp add: indexable_def layout_def)
  have zero: "sc_line s2 = 0 \<longleftrightarrow> content (kc_chunks c) = []"
  proof
    assume "sc_line s2 = 0"
    then have "sc_complete s2" "sc_starts s2 = []" using s2(3) st(2) by auto
    then show "content (kc_chunks c) = []" using st(3) by simp
  next
    assume "content (kc_chunks c) = []"
    then show "sc_line s2 = 0" using ps st(2) by simp
  qed
  have last_line: "min (sc_line s2) n = min n (length (lines_of c))"
    using s2(3) st(2,3) ps by auto
  have fin: "(case nth_opt (sc_starts s2) (min n (length (lines_of c))) of Some off \<Rightarrow> off | None \<Rightarrow> sc_offset s2)
      = (if n < length (lines_of c) then lines_of c ! n else kc_total c)"
    using s2(3) st(2,3,5) ps total' by (auto simp: nth_opt_def nth_append min_def)
  have run: "locate_first_screen s c n = Some (if sc_line s2 = 0 then Inl CaptureUnavailable
      else Inr \<lparr>lr_start_line = 1, lr_end_line = min n (length (lines_of c)), lr_start = 0,
        lr_end = (if n < length (lines_of c) then lines_of c ! n else kc_total c)\<rparr>, s2)"
    using False tracks_validate [OF assms(2)] s2(1) last_line fin
    by (auto simp: locate_first_screen_def line_number_new_def Let_def)
  show ?thesis using False zero s2(2,4) unfolding run by auto
qed

section \<open>Lookups in a finished index\<close>

lemma takeWhile_less_sorted:
  fixes x :: "'a::linorder"
  assumes "sorted_wrt (<) xs" and "i < length xs"
  shows "xs ! i < x \<longleftrightarrow> i < length (takeWhile (\<lambda>y. y < x) xs)"
  using assms
proof (induction xs arbitrary: i)
  case (Cons y ys)
  show ?case
  proof (cases "y < x")
    case True
    with Cons show ?thesis by (cases i) auto
  next
    case False
    then have "\<not> (y # ys) ! i < x"
      using Cons.prems by (cases i) (auto dest!: nth_mem)
    with False show ?thesis by simp
  qed
qed simp

text \<open>The search returns the last position whose element is not greater than the key.\<close>

lemma binary_search_mem: "sorted_wrt (<) xs \<Longrightarrow> is_ok (binary_search xs x) \<longleftrightarrow> x \<in> set xs"
  by (induction xs) (fastforce simp: binary_search_def partition_point_def nth_opt_def Let_def split: if_splits)+

lemma binary_search_sorted:
  assumes xs: "sorted_wrt (<) xs" "xs \<noteq> []" "xs ! 0 \<le> x"
  defines "i \<equiv> (case binary_search xs x of Inr exact \<Rightarrow> exact | Inl nxt \<Rightarrow> saturating_sub nxt 1)"
  shows "i < length xs" "xs ! i \<le> x" "Suc i < length xs \<Longrightarrow> x < xs ! Suc i"
proof -
  let ?k = "length (takeWhile (\<lambda>y. y < x) xs)"
  note less = takeWhile_less_sorted [OF xs(1), of _ x]
  have le: "?k \<le> length xs" by (rule length_takeWhile_le)
  have mono: "xs ! a < xs ! b" if "a < b" "b < length xs" for a b
    using sorted_wrt_nth_less [OF xs(1) that] .
  have i: "i = (if nth_opt xs ?k = Some x then ?k else ?k - 1)"
    by (simp add: i_def binary_search_def partition_point_def)
  have "i < length xs \<and> xs ! i \<le> x \<and> (Suc i < length xs \<longrightarrow> x < xs ! Suc i)"
  proof (cases "nth_opt xs ?k = Some x")
    case True
    then have "?k < length xs" "xs ! ?k = x" by (auto simp: nth_opt_def split: if_splits)
    with i True mono [of ?k "Suc ?k"] show ?thesis by auto
  next
    case False
    have pos: "0 < ?k"
    proof (rule ccontr)
      assume "\<not> 0 < ?k"
      then have "\<not> xs ! 0 < x" using less [of 0] xs(2) by simp
      with xs(2,3) False \<open>\<not> 0 < ?k\<close> show False by (simp add: nth_opt_def)
    qed
    have inside: "?k - 1 < length xs" using pos le by linarith
    then have "xs ! (?k - 1) < x" using less [of "?k - 1"] pos by simp
    moreover have "x < xs ! ?k" if "?k < length xs"
      using less [OF that] that False by (simp add: nth_opt_def)
    ultimately show ?thesis using i False pos le inside by auto
  qed
  then show "i < length xs" "xs ! i \<le> x" "Suc i < length xs \<Longrightarrow> x < xs ! Suc i" by auto
qed

definition index_for :: "nat \<Rightarrow> byte list \<Rightarrow> sparse_index" where
  "index_for stride bs = \<lparr>ix_lines = length (starts bs), ix_bytes = length bs, ix_stride = max stride 1,
     ix_checkpoints = checkpoints_of (max stride 1) (starts bs), ix_starts = starts bs, ix_complete = True\<rparr>"

lemma byte_to_line_index:
  assumes "bs \<noteq> []" and "p \<le> length bs" and "length bs < u64_max"
  shows "\<exists>i. byte_to_line (index_for k bs) p = Inr (Suc i) \<and> i < length (starts bs) \<and>
    starts bs ! i \<le> p \<and> (Suc i < length (starts bs) \<longrightarrow> p < starts bs ! Suc i)"
proof -
  obtain ps where hd: "starts bs = 0 # ps" using starts_hd [OF assms(1)] by blast
  let ?i = "case binary_search (starts bs) p of Inr exact \<Rightarrow> exact | Inl nxt \<Rightarrow> saturating_sub nxt 1"
  have zero: "starts bs ! 0 \<le> p" using hd by simp
  note found = binary_search_sorted [OF sorted_starts _ zero]
  have ne: "starts bs \<noteq> []" using assms(1) by simp
  have "Suc ?i \<le> u64_max" using found(1) [OF ne] length_starts [of bs] assms(3) by linarith
  then have "byte_to_line (index_for k bs) p = Inr (Suc ?i)"
    using assms hd by (simp add: byte_to_line_def index_for_def line_number_new_def checked_add_def Let_def)
  with found [OF ne] show ?thesis by blast
qed

text \<open>The line found for a line's start is that line.\<close>

lemma start_line:
  assumes "j < length (starts bs)" and "length bs < u64_max"
  shows "byte_to_line (index_for k bs) (starts bs ! j) = Inr (Suc j)"
proof -
  let ?p = "starts bs ! j"
  have "?p \<in> set (starts bs)" using assms(1) by simp
  then have "?p \<le> length bs" "bs \<noteq> []" by (auto simp: set_starts is_start_def)
  then obtain i where i: "byte_to_line (index_for k bs) ?p = Inr (Suc i)" "i < length (starts bs)"
    "starts bs ! i \<le> ?p" "Suc i < length (starts bs) \<longrightarrow> ?p < starts bs ! Suc i"
    using byte_to_line_index [OF _ _ assms(2), of ?p k] by blast
  have mono: "starts bs ! a \<le> starts bs ! b" if "a \<le> b" "b < length (starts bs)" for a b
    using sorted_wrt_nth_less [OF sorted_starts, of a b bs] that by (cases "a = b") auto
  have strict: "starts bs ! a < starts bs ! b" if "a < b" "b < length (starts bs)" for a b
    using sorted_wrt_nth_less [OF sorted_starts that] .
  have "\<not> i < j" using i(4) mono [of "Suc i" j] assms(1) by auto
  moreover have "\<not> j < i" using i(2,3) strict [of j i] by auto
  ultimately show ?thesis using i(1) by simp
qed

section \<open>Any sequence of operations\<close>

datatype scan_op = Step nat | Resume line_number nat | Screen nat | Finish

fun scan_op_run :: "scan_op \<Rightarrow> line_scanner \<Rightarrow> chunked_capture \<Rightarrow> line_scanner option" where
  "scan_op_run (Step n) s c = Some (snd (scanner_step s c n))"
| "scan_op_run (Resume l n) s c = Some (snd (resume_until_line s c l n))"
| "scan_op_run (Screen n) s c = map_option snd (locate_first_screen s c n)"
| "scan_op_run Finish s c = map_option snd (scanner_finish s c)"

fun scan_run :: "scan_op list \<Rightarrow> line_scanner \<Rightarrow> chunked_capture \<Rightarrow> line_scanner option" where
  "scan_run [] s c = Some s"
| "scan_run (x # xs) s c = Option.bind (scan_op_run x s c) (\<lambda>s1. scan_run xs s1 c)"

lemma resume_ok:
  assumes "indexable c" and "tracks c s" and "0 < l"
  shows "\<exists>s'. resume_until_line s c l n =
      (if l \<le> sc_line s' then Inr (Resolved l (lines_of c ! (l - 1)))
       else if sc_complete s' then Inl RangeOutOfBounds
       else Inr (PendingFarJump (sc_line s') l), s') \<and> tracks c s' \<and> sc_stride s' = sc_stride s \<and>
    sc_chunks s \<le> sc_chunks s' \<and> sc_chunks s' \<le> sc_chunks s + n \<and>
    (l \<le> sc_line s' \<or> sc_complete s' \<or> sc_chunks s' = sc_chunks s + n)"
proof -
  let ?s1 = "s\<lparr>sc_binding := Some (key_of_capture c)\<rparr>"
  obtain s' where s': "resume_loop n ?s1 c l = (Inr (), s')" "tracks c s'" "sc_stride s' = sc_stride s"
    "sc_chunks s \<le> sc_chunks s'" "sc_chunks s' \<le> sc_chunks s + n"
    "l \<le> sc_line s' \<or> sc_complete s' \<or> sc_chunks s' = sc_chunks s + n"
    using resume_loop_ok [OF assms(1) tracks_bind [OF assms(2)], of n l] by auto
  then show ?thesis using tracks_validate [OF assms(2)] jump_ok [OF s'(2) assms(3)]
    by (intro exI [of _ s']) (auto simp: resume_until_line_def)
qed

lemma resume_zero_tracks:
  assumes "indexable c" and "tracks c s"
  shows "tracks c (snd (resume_until_line s c l n)) \<and>
    sc_stride (snd (resume_until_line s c l n)) = sc_stride s"
proof -
  obtain s' where "resume_loop n (s\<lparr>sc_binding := Some (key_of_capture c)\<rparr>) c l = (Inr (), s')"
    "tracks c s'" "sc_stride s' = sc_stride s"
    using resume_loop_ok [OF assms(1) tracks_bind [OF assms(2)], of n l] by auto
  then show ?thesis using tracks_validate [OF assms(2)] by (simp add: resume_until_line_def)
qed

lemma scan_op_ok:
  assumes "indexable c" and "tracks c s"
  shows "\<exists>s'. scan_op_run x s c = Some s' \<and> tracks c s' \<and> sc_stride s' = sc_stride s"
proof (cases x)
  case (Step n)
  then show ?thesis using step_ok [OF assms, of n] by auto
next
  case (Resume l n)
  then show ?thesis using resume_zero_tracks [OF assms, of l n] by simp
next
  case (Screen n)
  then show ?thesis using screen_ok [OF assms, of n] by auto
next
  case Finish
  then show ?thesis using finish_ok [OF assms] by auto
qed

lemma tracks_new: "tracks c (line_scanner_new k)" "sc_stride (line_scanner_new k) = max k 1"
  by (simp_all add: tracks_def cursor_def scanned_def line_scanner_new_def)

lemma scan_run_ok:
  assumes "indexable c" and "tracks c s"
  shows "\<exists>s'. scan_run xs s c = Some s' \<and> tracks c s' \<and> sc_stride s' = sc_stride s"
  using assms(2)
proof (induction xs arbitrary: s)
  case (Cons x xs)
  from scan_op_ok [OF assms(1) Cons.prems, of x] obtain s1 where
    s1: "scan_op_run x s c = Some s1" "tracks c s1" "sc_stride s1 = sc_stride s" by blast
  from Cons.IH [OF s1(2)] s1 show ?case by auto
qed simp

lemma capture_indexable:
  assumes "capture_new q limit csize cs = Inr c" and "0 < csize" and "limit \<le> u64_max"
    and "\<forall>ch\<in>set cs. range_ok (ch_range ch)"
  shows "indexable c" "kc_chunks c = cs" "kc_total c = limit" "length (content cs) = limit"
  using capture_new_layout [OF assms(1,4,2)] assms by (auto simp: indexable_def layout_def)

section \<open>Properties\<close>

text \<open>
  C7: Line indexing does not depend on how the capture is chunked or scheduled: after any sequence
  of budgeted steps, far jumps, first-screen requests and earlier finishes - each of which returns -
  finishing returns the index whose line starts are exactly those of the concatenated bytes, CRLF
  pairs split across chunks included, with its checkpoints at line one and at every stride.
\<close>

theorem line_index_exact:
  assumes "capture_new q limit csize cs = Inr c" and "0 < csize" and "limit \<le> u64_max"
    and "\<forall>ch\<in>set cs. range_ok (ch_range ch)"
  shows "\<exists>s s'. scan_run ops (line_scanner_new stride) c = Some s \<and>
    scanner_finish s c = Some (Inr (index_for stride (content cs)), s')"
proof -
  note c = capture_indexable [OF assms]
  obtain s where s: "scan_run ops (line_scanner_new stride) c = Some s" "tracks c s" "sc_stride s = max stride 1"
    using scan_run_ok [OF c(1) tracks_new(1), of ops stride] tracks_new(2) by auto
  with finish_ok [OF c(1) s(2)] c show ?thesis by (auto simp: index_for_def)
qed

theorem line_index_exact_witness:
  "\<exists>s s'. scan_run [Step 1, Screen 1, Resume 2 0] (line_scanner_new 4) chunk_sample = Some s \<and>
    scanner_finish s chunk_sample = Some (Inr (index_for 4 [1, 2, 3]), s')"
proof -
  have "\<forall>ch\<in>set chunk_sample_chunks. range_ok (ch_range ch)" "(3::nat) \<le> u64_max"
    by (simp_all add: chunk_sample_chunks_def range_ok_def u64_max_val)
  from line_index_exact [OF chunk_sample_new _ this(2,1), of "[Step 1, Screen 1, Resume 2 0]" 4]
  show ?thesis by (simp add: chunk_sample_chunks_def)
qed

text \<open>
  Lookups in a finished index are exact: a line number resolves to the start of that line and
  nothing past the last line resolves, a byte offset up to the end of the capture resolves to the one
  line that contains it, and the line of a line's start is that line.
\<close>

theorem line_lookup_exact:
  assumes "bs \<noteq> []" and "length bs < u64_max" and "0 < l"
  shows "line_to_byte (index_for k bs) l =
      (if l \<le> length (starts bs) then Inr (starts bs ! (l - 1)) else Inl RangeOutOfBounds) \<and>
    (if p \<le> length bs
     then \<exists>i. byte_to_line (index_for k bs) p = Inr (Suc i) \<and> i < length (starts bs) \<and>
       starts bs ! i \<le> p \<and> (Suc i = length (starts bs) \<or> p < starts bs ! Suc i)
     else byte_to_line (index_for k bs) p = Inl RangeOutOfBounds) \<and>
    and_then (line_to_byte (index_for k bs) l) (byte_to_line (index_for k bs)) =
      (if l \<le> length (starts bs) then Inr l else Inl RangeOutOfBounds)"
proof -
  have lookup: "line_to_byte (index_for k bs) l =
      (if l \<le> length (starts bs) then Inr (starts bs ! (l - 1)) else Inl RangeOutOfBounds)"
    using assms(3) by (auto simp: line_to_byte_def index_for_def nth_opt_def zero_based_def)
  have "byte_to_line (index_for k bs) p = Inl RangeOutOfBounds" if "p > length bs"
    using that by (simp add: byte_to_line_def index_for_def)
  moreover have "byte_to_line (index_for k bs) (starts bs ! (l - 1)) = Inr l" if l: "l \<le> length (starts bs)"
    using start_line [of "l - 1" bs k] assms l by simp
  ultimately show ?thesis
    using lookup byte_to_line_index [OF assms(1) _ assms(2), of p k] by fastforce
qed

theorem line_lookup_exact_witness:
  "line_to_byte (index_for 4 [97, 13, 10, 98]) 2 = Inr 3 \<and>
   (\<exists>i. byte_to_line (index_for 4 [97, 13, 10, 98]) 2 = Inr (Suc i) \<and> i < 2)"
proof -
  have st: "starts [97, 13, 10, 98] = [0, 3]"
    by (simp add: starts_def is_start_def upt_rec lf_byte_def cr_byte_def)
  have len: "length [97, 13, 10, 98 :: byte] < u64_max" by (simp add: u64_max_val)
  from line_lookup_exact [OF _ len, of 2 4 2] show ?thesis unfolding st by auto
qed

text \<open>
  The first screen returns on every reachable scanner and covers exactly the first lines of the
  capture: the range starts at byte zero, ends where the next line begins or at the end of the
  capture, and its last line is the requested one or the last there is; zero lines and an empty
  capture are refused.
\<close>

theorem first_screen_exact:
  assumes "capture_new q limit csize cs = Inr c" and "0 < csize" and "limit \<le> u64_max"
    and "\<forall>ch\<in>set cs. range_ok (ch_range ch)" and "scan_run ops (line_scanner_new stride) c = Some s"
  shows "map_option fst (locate_first_screen s c n) = Some
     (if n = 0 then Inl InvalidRange
      else if limit = 0 then Inl CaptureUnavailable
      else Inr \<lparr>lr_start_line = 1, lr_end_line = min n (length (starts (content cs))), lr_start = 0,
        lr_end = (if n < length (starts (content cs)) then starts (content cs) ! n else limit)\<rparr>)"
proof -
  note c = capture_indexable [OF assms(1-4)]
  have "tracks c s" using scan_run_ok [OF c(1) tracks_new(1), of ops stride] assms(5) by auto
  from screen_ok [OF c(1) this, of n] c show ?thesis by auto
qed

theorem first_screen_exact_witness:
  "map_option fst (locate_first_screen (line_scanner_new 4) chunk_sample 1) =
     Some (Inr \<lparr>lr_start_line = 1, lr_end_line = 1, lr_start = 0, lr_end = 3\<rparr>)"
proof -
  have "\<forall>ch\<in>set chunk_sample_chunks. range_ok (ch_range ch)" "(3::nat) \<le> u64_max"
    by (simp_all add: chunk_sample_chunks_def range_ok_def u64_max_val)
  moreover have "starts (content chunk_sample_chunks) = [0]"
    by (simp add: chunk_sample_chunks_def starts_def is_start_def upt_rec lf_byte_def cr_byte_def)
  moreover have "scan_run [] (line_scanner_new 4) chunk_sample = Some (line_scanner_new 4)" by simp
  ultimately show ?thesis
    using first_screen_exact [OF chunk_sample_new, of "[]" 4 "line_scanner_new 4" 1] by simp
qed

text \<open>
  A far jump never guesses: on every reachable scanner, resuming towards a line scans at most the
  budgeted number of chunks, answers with the true start of that line once it has been seen, reports
  it as pending only while the budget ran out before the end of the capture, and as out of bounds only
  when the capture has no such line.
\<close>

theorem resume_jump_exact:
  assumes "capture_new q limit csize cs = Inr c" and "0 < csize" and "limit \<le> u64_max"
    and "\<forall>ch\<in>set cs. range_ok (ch_range ch)" and "scan_run ops (line_scanner_new stride) c = Some s"
    and "0 < l"
  shows "\<exists>res s'. resume_until_line s c l n = (res, s') \<and>
    sc_chunks s' \<le> sc_chunks s + n \<and>
    (case res of
       Inr (Resolved l' off) \<Rightarrow> l' = l \<and> l \<le> length (starts (content cs)) \<and> off = starts (content cs) ! (l - 1)
     | Inr (PendingFarJump seen l') \<Rightarrow> l' = l \<and> seen < l \<and> sc_chunks s' = sc_chunks s + n
     | Inl e \<Rightarrow> e = RangeOutOfBounds \<and> length (starts (content cs)) < l)"
proof -
  note c = capture_indexable [OF assms(1-4)]
  have tr: "tracks c s" using scan_run_ok [OF c(1) tracks_new(1), of ops stride] assms(5) by auto
  obtain s' where s': "resume_until_line s c l n =
      (if l \<le> sc_line s' then Inr (Resolved l (lines_of c ! (l - 1)))
       else if sc_complete s' then Inl RangeOutOfBounds
       else Inr (PendingFarJump (sc_line s') l), s')" "tracks c s'" "sc_chunks s' \<le> sc_chunks s + n"
    "l \<le> sc_line s' \<or> sc_complete s' \<or> sc_chunks s' = sc_chunks s + n"
    using resume_ok [OF c(1) tr assms(6), of n] by blast
  have le: "sc_line s' \<le> length (starts (content cs))" using tracks_line_le [OF s'(2)] c(2) by simp
  have eq: "sc_complete s' \<Longrightarrow> sc_line s' = length (starts (content cs))"
    using tracks_starts(2,3) [OF s'(2)] c(2) by simp
  show ?thesis
    unfolding s'(1) using s'(3,4) le eq c(2) by auto
qed

theorem resume_jump_exact_witness:
  "fst (resume_until_line (line_scanner_new 4) chunk_sample 2 0) = Inr (PendingFarJump 0 2)"
proof -
  have "\<forall>ch\<in>set chunk_sample_chunks. range_ok (ch_range ch)" "(3::nat) \<le> u64_max"
    by (simp_all add: chunk_sample_chunks_def range_ok_def u64_max_val)
  moreover have "scan_run [] (line_scanner_new 4) chunk_sample = Some (line_scanner_new 4)" by simp
  ultimately obtain res s' where res: "resume_until_line (line_scanner_new 4) chunk_sample 2 0 = (res, s')"
    "case res of
       Inr (Resolved l' off) \<Rightarrow> l' = 2 \<and> 2 \<le> length (starts (content chunk_sample_chunks)) \<and>
         off = starts (content chunk_sample_chunks) ! (2 - 1)
     | Inr (PendingFarJump seen l') \<Rightarrow> l' = 2 \<and> seen < 2 \<and> sc_chunks s' = sc_chunks (line_scanner_new 4) + 0
     | Inl e \<Rightarrow> e = RangeOutOfBounds \<and> length (starts (content chunk_sample_chunks)) < 2"
    using resume_jump_exact [OF chunk_sample_new, of "[]" 4 "line_scanner_new 4" 2 0] by auto
  have "resume_until_line (line_scanner_new 4) chunk_sample 2 0
      = (Inr (PendingFarJump 0 2), (line_scanner_new 4)\<lparr>sc_binding := Some (key_of_capture chunk_sample)\<rparr>)"
    by (simp add: resume_until_line_def validate_capture_def line_scanner_new_def jump_to_line_def)
  with res show ?thesis by simp
qed

end
