(* ===== verification/Encoding.thy ===== *)
theory Encoding
  imports Text_Boundaries Captures
begin

text \<open>
  \<open>crates/fcb-source/src/encoding.rs\<close>, first part: encoding detection, the UTF-8 and UTF-16 decoders
  and the span lists of \<open>CaptureEncodingMap\<close>.

  The builders' cursor \<open>byte_idx\<close> is the remaining byte list, and the four positions, the decoded
  text and the spans are one accumulator. The repeated block \<open>spans.push(..); raw_pos =
  raw_pos.checked_add(..)?; ..\<close> is \<open>push_span\<close>. \<open>char::from_u32\<close>, \<open>char::encode_utf8\<close> and
  \<open>u16::from_le_bytes\<close> are the standard library's. The specification is \<open>utf8_units\<close> and
  \<open>utf16_units\<close>: the decoded units of a byte string one by one, without the coalescing of ASCII runs.
\<close>

datatype detected_encoding = Utf8 bool | Utf16Le | Utf16Be | Unsupported

definition bom_bytes_len :: "detected_encoding \<Rightarrow> nat" where
  "bom_bytes_len enc = (case enc of
     Utf8 has_bom \<Rightarrow> if has_bom then 3 else 0 | Utf16Le \<Rightarrow> 2 | Utf16Be \<Rightarrow> 2 | Unsupported \<Rightarrow> 0)"

definition is_utf16 :: "detected_encoding \<Rightarrow> bool" where
  "is_utf16 enc \<longleftrightarrow> enc = Utf16Le \<or> enc = Utf16Be"

definition starts_with :: "byte list \<Rightarrow> byte list \<Rightarrow> bool" where
  "starts_with bs p \<longleftrightarrow> take (length p) bs = p"

definition detect_encoding :: "byte list \<Rightarrow> detected_encoding" where
  "detect_encoding prefix =
     (if starts_with prefix [0xEF, 0xBB, 0xBF] then Utf8 True
      else if starts_with prefix [0xFF, 0xFE] then Utf16Le
      else if starts_with prefix [0xFE, 0xFF] then Utf16Be
      else Utf8 False)"

datatype span_kind =
  BomHeader | AsciiRun | BmpMultiByte | SurrogatePair | ReplacementMalformed | EscapedByte

record mapping_span =
  sp_raw :: nat
  sp_raw_len :: nat
  sp_dec :: nat
  sp_dec_len :: nat
  sp_u16 :: nat
  sp_u16_len :: nat
  sp_sca :: nat
  sp_sca_len :: nat
  sp_kind :: span_kind

definition raw_end :: "mapping_span \<Rightarrow> nat" where "raw_end s = sp_raw s + sp_raw_len s"
definition decoded_end :: "mapping_span \<Rightarrow> nat" where "decoded_end s = sp_dec s + sp_dec_len s"
definition utf16_end :: "mapping_span \<Rightarrow> nat" where "utf16_end s = sp_u16 s + sp_u16_len s"
definition scalar_end :: "mapping_span \<Rightarrow> nat" where "scalar_end s = sp_sca s + sp_sca_len s"

record encoding_map =
  em_encoding :: detected_encoding
  em_base_raw :: nat
  em_base_dec :: nat
  em_base_u16 :: nat
  em_base_sca :: nat
  em_raw :: nat
  em_dec :: nat
  em_u16 :: nat
  em_sca :: nat
  em_text :: "uchar list"
  em_spans :: "mapping_span list"

section \<open>Characters\<close>

definition char_from_u32 :: "nat \<Rightarrow> uchar option" where
  "char_from_u32 v = (if is_scalar v then Some v else None)"

definition byte_of :: "nat \<Rightarrow> byte" where
  "byte_of n = word_of_nat n"

definition utf8_encode :: "uchar \<Rightarrow> byte list" where
  "utf8_encode c =
     (if c < 0x80 then [byte_of c]
      else if c < 0x800 then [byte_of (0xC0 + c div 64), byte_of (0x80 + c mod 64)]
      else if c < 0x10000 then
        [byte_of (0xE0 + c div 4096), byte_of (0x80 + c div 64 mod 64), byte_of (0x80 + c mod 64)]
      else [byte_of (0xF0 + c div 262144), byte_of (0x80 + c div 4096 mod 64),
            byte_of (0x80 + c div 64 mod 64), byte_of (0x80 + c mod 64)])"

definition u16_unit :: "bool \<Rightarrow> byte \<Rightarrow> byte \<Rightarrow> nat" where
  "u16_unit le x y = (if le then unat x + 256 * unat y else unat y + 256 * unat x)"

definition in_bytes :: "byte \<Rightarrow> nat \<Rightarrow> nat \<Rightarrow> bool" where
  "in_bytes b lo hi \<longleftrightarrow> lo \<le> unat b \<and> unat b \<le> hi"

text \<open>\<open>decode_utf8_char\<close>: how many bytes to consume, and the character if they encode one.\<close>

definition decode_utf8_char :: "byte list \<Rightarrow> nat \<times> uchar option" where
  "decode_utf8_char bs = (case bs of
     [] \<Rightarrow> (0, None)
   | b0 # rst \<Rightarrow>
     if in_bytes b0 0xC2 0xDF then
       (case rst of
          b1 # _ \<Rightarrow>
            if in_bytes b1 0x80 0xBF then
              (2, char_from_u32 (push_bit 6 (unat (b0 AND 0x1F)) OR unat (b1 AND 0x3F)))
            else (1, None)
        | [] \<Rightarrow> (1, None))
     else if in_bytes b0 0xE0 0xEF then
       (case rst of
          b1 # b2 # _ \<Rightarrow>
            if (if b0 = 0xE0 then in_bytes b1 0xA0 0xBF
                else if b0 = 0xED then in_bytes b1 0x80 0x9F
                else in_bytes b1 0x80 0xBF) \<and> in_bytes b2 0x80 0xBF then
              (3, char_from_u32 (push_bit 12 (unat (b0 AND 0x0F)) OR push_bit 6 (unat (b1 AND 0x3F))
                OR unat (b2 AND 0x3F)))
            else (1, None)
        | _ \<Rightarrow> (1, None))
     else if in_bytes b0 0xF0 0xF4 then
       (case rst of
          b1 # b2 # b3 # _ \<Rightarrow>
            if (if b0 = 0xF0 then in_bytes b1 0x90 0xBF
                else if b0 = 0xF4 then in_bytes b1 0x80 0x8F
                else in_bytes b1 0x80 0xBF) \<and> in_bytes b2 0x80 0xBF \<and> in_bytes b3 0x80 0xBF then
              (4, char_from_u32 (push_bit 18 (unat (b0 AND 0x07)) OR push_bit 12 (unat (b1 AND 0x3F))
                OR push_bit 6 (unat (b2 AND 0x3F)) OR unat (b3 AND 0x3F)))
            else (1, None)
        | _ \<Rightarrow> (1, None))
     else (1, None))"

lemma decode_progress: "bs \<noteq> [] \<Longrightarrow> 0 < fst (decode_utf8_char bs)"
  by (auto simp: decode_utf8_char_def split: list.split)

lemma decode_positive: "decode_utf8_char (b # bs) = (n, c) \<Longrightarrow> 0 < n" "(n, c) = decode_utf8_char (b # bs) \<Longrightarrow> 0 < n"
  using decode_progress [of "b # bs"] by (auto simp: prod_eq_iff)

section \<open>The builders\<close>

record enc_acc =
  ea_raw :: nat
  ea_dec :: nat
  ea_u16 :: nat
  ea_sca :: nat
  ea_text :: "uchar list"
  ea_spans :: "mapping_span list"

definition push_span ::
  "enc_acc \<Rightarrow> nat \<Rightarrow> nat \<Rightarrow> nat \<Rightarrow> nat \<Rightarrow> span_kind \<Rightarrow> uchar list \<Rightarrow> source_error + enc_acc" where
  "push_span a n d u s k t =
     (let spans = ea_spans a @ [\<lparr>sp_raw = ea_raw a, sp_raw_len = n, sp_dec = ea_dec a, sp_dec_len = d,
            sp_u16 = ea_u16 a, sp_u16_len = u, sp_sca = ea_sca a, sp_sca_len = s, sp_kind = k\<rparr>] in
      and_then (ok_or RangeOutOfBounds (checked_add (ea_raw a) n)) (\<lambda>raw.
      and_then (ok_or RangeOutOfBounds (checked_add (ea_dec a) d)) (\<lambda>dec.
      and_then (ok_or RangeOutOfBounds (checked_add (ea_u16 a) u)) (\<lambda>u16.
      and_then (ok_or RangeOutOfBounds (checked_add (ea_sca a) s)) (\<lambda>sca.
      Inr \<lparr>ea_raw = raw, ea_dec = dec, ea_u16 = u16, ea_sca = sca, ea_text = ea_text a @ t,
           ea_spans = spans\<rparr>)))))"

text \<open>The byte order mark is a span of no decoded length; only the raw position advances.\<close>

definition push_bom :: "enc_acc \<Rightarrow> nat \<Rightarrow> source_error + enc_acc" where
  "push_bom a n =
     (let spans = ea_spans a @ [\<lparr>sp_raw = ea_raw a, sp_raw_len = n, sp_dec = ea_dec a, sp_dec_len = 0,
            sp_u16 = ea_u16 a, sp_u16_len = 0, sp_sca = ea_sca a, sp_sca_len = 0, sp_kind = BomHeader\<rparr>] in
      and_then (ok_or RangeOutOfBounds (checked_add (ea_raw a) n)) (\<lambda>raw.
      Inr (a\<lparr>ea_raw := raw, ea_spans := spans\<rparr>)))"

definition acc_new :: "nat \<Rightarrow> nat \<Rightarrow> nat \<Rightarrow> nat \<Rightarrow> enc_acc" where
  "acc_new raw dec u16 sca = \<lparr>ea_raw = raw, ea_dec = dec, ea_u16 = u16, ea_sca = sca,
     ea_text = [], ea_spans = []\<rparr>"

definition finish_map :: "detected_encoding \<Rightarrow> nat \<Rightarrow> nat \<Rightarrow> nat \<Rightarrow> nat \<Rightarrow> enc_acc \<Rightarrow> encoding_map" where
  "finish_map enc raw dec u16 sca a = \<lparr>em_encoding = enc, em_base_raw = raw, em_base_dec = dec,
     em_base_u16 = u16, em_base_sca = sca, em_raw = ea_raw a - raw, em_dec = ea_dec a - dec,
     em_u16 = ea_u16 a - u16, em_sca = ea_sca a - sca, em_text = ea_text a, em_spans = ea_spans a\<rparr>"

function utf8_loop :: "enc_acc \<Rightarrow> byte list \<Rightarrow> source_error + enc_acc" where
  "utf8_loop a [] = Inr a"
| "utf8_loop a (b # bs) =
     (if unat b < 0x80 then
        let run = takeWhile (\<lambda>x. unat x < 0x80) (b # bs); n = length run in
        and_then (push_span a n n n n AsciiRun (map unat run)) (\<lambda>a1. utf8_loop a1 (drop n (b # bs)))
      else case decode_utf8_char (b # bs) of
        (n, Some c) \<Rightarrow>
          and_then (push_span a n (len_utf8 c) (len_utf16 c) 1
              (if len_utf16 c = 2 then SurrogatePair else BmpMultiByte) [c])
            (\<lambda>a1. utf8_loop a1 (drop n (b # bs)))
      | (n, None) \<Rightarrow>
          and_then (push_span a n 3 1 1 ReplacementMalformed [0xFFFD])
            (\<lambda>a1. utf8_loop a1 (drop n (b # bs))))"
  by pat_completeness auto
termination
  by (relation "measure (\<lambda>(a, bs). length bs)") (auto dest: decode_positive simp: less_Suc_eq_le)

declare utf8_loop.simps(2) [simp del]

definition build_utf8 ::
  "byte list \<Rightarrow> bool \<Rightarrow> nat \<Rightarrow> nat \<Rightarrow> nat \<Rightarrow> nat \<Rightarrow> source_error + encoding_map" where
  "build_utf8 bs has_bom raw dec u16 sca =
     (let a = acc_new raw dec u16 sca in
      and_then
        (if raw = 0 \<and> has_bom \<and> starts_with bs [0xEF, 0xBB, 0xBF] then
           and_then (push_bom a 3) (\<lambda>a1. Inr (a1, drop 3 bs))
         else Inr (a, bs)) (\<lambda>(a1, rst).
      and_then (utf8_loop a1 rst) (\<lambda>a2. Inr (finish_map (Utf8 has_bom) raw dec u16 sca a2))))"

text \<open>The units of an ASCII run in a UTF-16 stream.\<close>

fun ascii_run16 :: "bool \<Rightarrow> byte list \<Rightarrow> nat list" where
  "ascii_run16 le (x # y # bs) =
     (if u16_unit le x y < 0x80 then u16_unit le x y # ascii_run16 le bs else [])"
| "ascii_run16 le bs = []"

definition is_high :: "nat \<Rightarrow> bool" where "is_high v \<longleftrightarrow> 0xD800 \<le> v \<and> v \<le> 0xDBFF"
definition is_low :: "nat \<Rightarrow> bool" where "is_low v \<longleftrightarrow> 0xDC00 \<le> v \<and> v \<le> 0xDFFF"

text \<open>The character of a surrogate pair at the head of the stream, if there is one.\<close>

fun pair_char :: "bool \<Rightarrow> byte list \<Rightarrow> uchar option" where
  "pair_char le (x # y # z # w # bs) =
     (if is_high (u16_unit le x y) \<and> is_low (u16_unit le z w) then
        char_from_u32 (0x10000 + push_bit 10 (u16_unit le x y - 0xD800) + (u16_unit le z w - 0xDC00))
      else None)"
| "pair_char le bs = None"

function utf16_loop :: "bool \<Rightarrow> enc_acc \<Rightarrow> byte list \<Rightarrow> source_error + enc_acc" where
  "utf16_loop le a [] = Inr a"
| "utf16_loop le a [x] = push_span a 1 3 1 1 ReplacementMalformed [0xFFFD]"
| "utf16_loop le a (x # y # bs) =
     (let v = u16_unit le x y in
      if v < 0x80 then
        let run = ascii_run16 le (x # y # bs); n = length run in
        and_then (push_span a (2 * n) n n n AsciiRun run) (\<lambda>a1. utf16_loop le a1 (drop (2 * n) (x # y # bs)))
      else if is_high v then
        (case pair_char le (x # y # bs) of
           Some c \<Rightarrow> and_then (push_span a 4 (len_utf8 c) 2 1 SurrogatePair [c])
             (\<lambda>a1. utf16_loop le a1 (drop 4 (x # y # bs)))
         | None \<Rightarrow> and_then (push_span a 2 3 1 1 ReplacementMalformed [0xFFFD]) (\<lambda>a1. utf16_loop le a1 bs))
      else if is_low v then
        and_then (push_span a 2 3 1 1 ReplacementMalformed [0xFFFD]) (\<lambda>a1. utf16_loop le a1 bs)
      else (case char_from_u32 v of
          Some c \<Rightarrow> and_then (push_span a 2 (len_utf8 c) 1 1 BmpMultiByte [c]) (\<lambda>a1. utf16_loop le a1 bs)
        | None \<Rightarrow> and_then (push_span a 2 3 1 1 ReplacementMalformed [0xFFFD]) (\<lambda>a1. utf16_loop le a1 bs)))"
  by pat_completeness auto
termination
  by (relation "measure (\<lambda>(le, a, bs). length bs)") auto

declare utf16_loop.simps(3) [simp del]

definition build_utf16 ::
  "byte list \<Rightarrow> bool \<Rightarrow> nat \<Rightarrow> nat \<Rightarrow> nat \<Rightarrow> nat \<Rightarrow> source_error + encoding_map" where
  "build_utf16 bs le raw dec u16 sca =
     (let a = acc_new raw dec u16 sca; bom = (if le then [0xFF, 0xFE] else [0xFE, 0xFF]) in
      and_then
        (if raw = 0 \<and> starts_with bs bom then
           and_then (push_bom a 2) (\<lambda>a1. Inr (a1, drop 2 bs))
         else Inr (a, bs)) (\<lambda>(a1, rst).
      and_then (utf16_loop le a1 rst) (\<lambda>a2.
      Inr (finish_map (if le then Utf16Le else Utf16Be) raw dec u16 sca a2))))"

text \<open>\<open>write!(decoded_text, "\\x{:02X}", b)\<close>\<close>

definition hex_digit :: "nat \<Rightarrow> uchar" where
  "hex_digit n = (if n < 10 then 48 + n else 55 + n)"

definition escape_byte :: "byte \<Rightarrow> uchar list" where
  "escape_byte b = [92, 120, hex_digit (unat b div 16), hex_digit (unat b mod 16)]"

fun escaped_loop :: "enc_acc \<Rightarrow> byte list \<Rightarrow> source_error + enc_acc" where
  "escaped_loop a [] = Inr a"
| "escaped_loop a (b # bs) =
     and_then (push_span a 1 4 4 4 EscapedByte (escape_byte b)) (\<lambda>a1. escaped_loop a1 bs)"

definition build_escaped ::
  "byte list \<Rightarrow> nat \<Rightarrow> nat \<Rightarrow> nat \<Rightarrow> nat \<Rightarrow> source_error + encoding_map" where
  "build_escaped bs raw dec u16 sca =
     (if length bs * 4 > usize_max then Inl PayloadTooLarge
      else and_then (escaped_loop (acc_new raw dec u16 sca) bs) (\<lambda>a.
        Inr (finish_map Unsupported raw dec u16 sca a)))"

definition build_with_base_offset ::
  "byte list \<Rightarrow> detected_encoding \<Rightarrow> nat \<Rightarrow> nat \<Rightarrow> nat \<Rightarrow> nat \<Rightarrow> source_error + encoding_map" where
  "build_with_base_offset bs enc raw dec u16 sca =
     and_then (ok_or RangeOutOfBounds (checked_add raw (length bs))) (\<lambda>_.
     case enc of
       Utf8 has_bom \<Rightarrow> build_utf8 bs has_bom raw dec u16 sca
     | Utf16Le \<Rightarrow> build_utf16 bs True raw dec u16 sca
     | Utf16Be \<Rightarrow> build_utf16 bs False raw dec u16 sca
     | Unsupported \<Rightarrow> build_escaped bs raw dec u16 sca)"

definition build_with_encoding :: "byte list \<Rightarrow> detected_encoding \<Rightarrow> source_error + encoding_map" where
  "build_with_encoding bs enc = build_with_base_offset bs enc 0 0 0 0"

definition build :: "byte list \<Rightarrow> source_error + encoding_map" where
  "build bs = build_with_encoding bs (detect_encoding bs)"

section \<open>The decoded units of a byte string\<close>

text \<open>
  A unit is the number of raw bytes it takes, the scalars they decode to and the kind of span it
  belongs to: one ASCII byte, one encoded character, one malformed sequence, one escaped byte, or the
  byte order mark, which decodes to nothing.
\<close>

type_synonym dunit = "nat \<times> uchar list \<times> span_kind"

definition u_raw :: "dunit \<Rightarrow> nat" where "u_raw u = fst u"
definition u_chars :: "dunit \<Rightarrow> uchar list" where "u_chars u = fst (snd u)"
definition u_kind :: "dunit \<Rightarrow> span_kind" where "u_kind u = snd (snd u)"
definition u_dec :: "dunit \<Rightarrow> nat" where "u_dec u = sum_list (map len_utf8 (u_chars u))"
definition u_u16 :: "dunit \<Rightarrow> nat" where "u_u16 u = sum_list (map len_utf16 (u_chars u))"
definition u_sca :: "dunit \<Rightarrow> nat" where "u_sca u = length (u_chars u)"

lemmas unit_simps = u_raw_def u_chars_def u_kind_def u_dec_def u_u16_def u_sca_def

function utf8_units :: "byte list \<Rightarrow> dunit list" where
  "utf8_units [] = []"
| "utf8_units (b # bs) =
     (if unat b < 0x80 then (1, [unat b], AsciiRun) # utf8_units bs
      else case decode_utf8_char (b # bs) of
        (n, Some c) \<Rightarrow> (n, [c], if len_utf16 c = 2 then SurrogatePair else BmpMultiByte) #
          utf8_units (drop n (b # bs))
      | (n, None) \<Rightarrow> (n, [0xFFFD], ReplacementMalformed) # utf8_units (drop n (b # bs)))"
  by pat_completeness auto
termination
  by (relation "measure length") (auto dest: decode_positive simp: less_Suc_eq_le)

declare utf8_units.simps(2) [simp del]

function utf16_units :: "bool \<Rightarrow> byte list \<Rightarrow> dunit list" where
  "utf16_units le [] = []"
| "utf16_units le [x] = [(1, [0xFFFD], ReplacementMalformed)]"
| "utf16_units le (x # y # bs) =
     (let v = u16_unit le x y in
      if v < 0x80 then (2, [v], AsciiRun) # utf16_units le bs
      else if is_high v then
        (case pair_char le (x # y # bs) of
           Some c \<Rightarrow> (4, [c], SurrogatePair) # utf16_units le (drop 2 bs)
         | None \<Rightarrow> (2, [0xFFFD], ReplacementMalformed) # utf16_units le bs)
      else if is_low v then (2, [0xFFFD], ReplacementMalformed) # utf16_units le bs
      else (case char_from_u32 v of
          Some c \<Rightarrow> (2, [c], BmpMultiByte) # utf16_units le bs
        | None \<Rightarrow> (2, [0xFFFD], ReplacementMalformed) # utf16_units le bs))"
  by pat_completeness auto
termination
  by (relation "measure (\<lambda>(le, bs). length bs)") auto

declare utf16_units.simps(3) [simp del]

definition escaped_units :: "byte list \<Rightarrow> dunit list" where
  "escaped_units bs = map (\<lambda>b. (1, escape_byte b, EscapedByte)) bs"

definition bom_units :: "detected_encoding \<Rightarrow> nat \<Rightarrow> byte list \<Rightarrow> dunit list" where
  "bom_units enc raw bs =
     (if raw = 0 \<and> (enc = Utf8 True \<and> starts_with bs [0xEF, 0xBB, 0xBF] \<or>
           enc = Utf16Le \<and> starts_with bs [0xFF, 0xFE] \<or> enc = Utf16Be \<and> starts_with bs [0xFE, 0xFF])
      then [(bom_bytes_len enc, [], BomHeader)] else [])"

definition body_units :: "detected_encoding \<Rightarrow> byte list \<Rightarrow> dunit list" where
  "body_units enc bs = (case enc of
     Utf8 _ \<Rightarrow> utf8_units bs | Utf16Le \<Rightarrow> utf16_units True bs | Utf16Be \<Rightarrow> utf16_units False bs
   | Unsupported \<Rightarrow> escaped_units bs)"

definition units_of :: "detected_encoding \<Rightarrow> nat \<Rightarrow> byte list \<Rightarrow> dunit list" where
  "units_of enc raw bs =
     bom_units enc raw bs @ body_units enc (drop (sum_list (map u_raw (bom_units enc raw bs))) bs)"

section \<open>What a unit looks like\<close>

definition unit_width :: "detected_encoding \<Rightarrow> nat" where
  "unit_width enc = (if is_utf16 enc then 2 else 1)"

definition unit_ok :: "nat \<Rightarrow> dunit \<Rightarrow> bool" where
  "unit_ok w u \<longleftrightarrow> 0 < u_raw u \<and> (case u_kind u of
     AsciiRun \<Rightarrow> u_raw u = w \<and> (\<exists>c. u_chars u = [c] \<and> c < 0x80)
   | BomHeader \<Rightarrow> u_chars u = []
   | BmpMultiByte \<Rightarrow> (\<exists>c. u_chars u = [c] \<and> len_utf16 c = 1)
   | SurrogatePair \<Rightarrow> (\<exists>c. u_chars u = [c] \<and> len_utf16 c = 2)
   | ReplacementMalformed \<Rightarrow> u_chars u = [0xFFFD]
   | EscapedByte \<Rightarrow> u_raw u = 1 \<and> length (u_chars u) = 4 \<and> (\<forall>c\<in>set (u_chars u). c < 0x80))"

lemma len_utf16_not2: "len_utf16 c \<noteq> 2 \<longleftrightarrow> len_utf16 c = 1"
  by (simp add: len_utf16_def)

lemma utf8_units_ok: "u \<in> set (utf8_units bs) \<Longrightarrow> unit_ok 1 u"
proof (induction bs rule: utf8_units.induct)
  case (2 b bs)
  show ?case
  proof (cases "unat b < 0x80")
    case True
    with 2 show ?thesis by (auto simp: utf8_units.simps(2) unit_ok_def unit_simps)
  next
    case False
    obtain n ch where d: "decode_utf8_char (b # bs) = (n, ch)" by fastforce
    note pos = decode_positive(1) [OF d]
    show ?thesis
    proof (cases ch)
      case None
      with 2 False d pos show ?thesis by (auto simp: utf8_units.simps(2) unit_ok_def unit_simps)
    next
      case (Some c)
      with 2 False d pos show ?thesis
        by (auto simp: utf8_units.simps(2) unit_ok_def unit_simps len_utf16_not2 split: if_splits)
    qed
  qed
qed simp

lemma pair_char_len: "pair_char le bs = Some c \<Longrightarrow> len_utf16 c = 2 \<and> is_scalar c \<and> 0x10000 \<le> c \<and>
    (\<exists>x y z w rst. bs = x # y # z # w # rst)"
  by (cases "(le, bs)" rule: pair_char.cases) (auto simp: len_utf16_def char_from_u32_def split: if_splits)

lemma u16_unit_bound: "u16_unit le x y < 0x10000"
  using unat_byte [of x] unat_byte [of y] by (simp add: u16_unit_def)

lemma utf16_units_ok: "u \<in> set (utf16_units le bs) \<Longrightarrow> unit_ok 2 u"
proof (induction le bs rule: utf16_units.induct)
  case (3 le x y bs)
  let ?v = "u16_unit le x y"
  have bmp: "len_utf16 c = 1" if "char_from_u32 ?v = Some c" for c
    using that u16_unit_bound [of le x y] by (auto simp: char_from_u32_def len_utf16_def split: if_splits)
  consider "?v < 0x80" | "\<not> ?v < 0x80" "is_high ?v" | "\<not> ?v < 0x80" "\<not> is_high ?v" "is_low ?v"
    | "\<not> ?v < 0x80" "\<not> is_high ?v" "\<not> is_low ?v" by blast
  then show ?case
  proof cases
    case 1
    with 3 show ?thesis by (auto simp: utf16_units.simps(3) unit_ok_def unit_simps)
  next
    case 2
    with 3 pair_char_len [of le "x # y # bs"] show ?thesis
      by (cases "pair_char le (x # y # bs)") (auto simp: utf16_units.simps(3) unit_ok_def unit_simps)
  next
    case i: 3
    with 3 show ?thesis by (auto simp: utf16_units.simps(3) unit_ok_def unit_simps)
  next
    case 4
    with 3 bmp show ?thesis
      by (cases "char_from_u32 ?v") (auto simp: utf16_units.simps(3) unit_ok_def unit_simps Let_def)
  qed
qed (auto simp: unit_ok_def unit_simps)

lemma escaped_units_ok: "u \<in> set (escaped_units bs) \<Longrightarrow> unit_ok 1 u"
proof -
  assume "u \<in> set (escaped_units bs)"
  then obtain b where "u = (1, escape_byte b, EscapedByte)" by (auto simp: escaped_units_def)
  moreover have "unat b div 16 < 16" using unat_byte [of b] by simp
  ultimately show ?thesis by (auto simp: unit_ok_def unit_simps escape_byte_def hex_digit_def)
qed

lemma body_units_ok: "u \<in> set (body_units enc bs) \<Longrightarrow> unit_ok (unit_width enc) u"
  using utf8_units_ok [of u bs] utf16_units_ok [of u _ bs] escaped_units_ok [of u bs]
  by (cases enc) (simp_all add: body_units_def unit_width_def is_utf16_def)

lemma bom_units_ok: "u \<in> set (bom_units enc raw bs) \<Longrightarrow> unit_ok (unit_width enc) u"
  by (cases enc) (auto simp: bom_units_def unit_ok_def unit_simps bom_bytes_len_def split: if_splits)

lemma units_of_ok: "u \<in> set (units_of enc raw bs) \<Longrightarrow> unit_ok (unit_width enc) u"
  by (auto simp: units_of_def simp del: split_paired_All intro: bom_units_ok body_units_ok)

section \<open>The units cover the bytes\<close>

lemma decode_bound: "fst (decode_utf8_char bs) \<le> length bs"
  by (auto simp: decode_utf8_char_def split: list.split)

lemma utf8_units_raw: "sum_list (map u_raw (utf8_units bs)) = length bs"
proof (induction bs rule: utf8_units.induct)
  case (2 b bs)
  obtain n ch where d: "decode_utf8_char (b # bs) = (n, ch)" by fastforce
  then have "0 < n" "n \<le> length (b # bs)" using decode_positive(1) [OF d] decode_bound [of "b # bs"] by simp_all
  with 2 d show ?case by (cases ch) (simp_all add: utf8_units.simps(2) u_raw_def)
qed simp

lemma utf16_units_raw: "sum_list (map u_raw (utf16_units le bs)) = length bs"
proof (induction le bs rule: utf16_units.induct)
  case (3 le x y bs)
  then show ?case
    by (cases "pair_char le (x # y # bs)"; cases "char_from_u32 (u16_unit le x y)")
      (auto simp: utf16_units.simps(3) u_raw_def Let_def dest!: pair_char_len)
qed (simp_all add: u_raw_def)

lemma body_units_raw: "sum_list (map u_raw (body_units enc bs)) = length bs"
proof -
  have "sum_list (map u_raw (escaped_units bs)) = length bs"
    by (induction bs) (simp_all add: escaped_units_def u_raw_def)
  then show ?thesis
    using utf8_units_raw utf16_units_raw by (cases enc) (simp_all add: body_units_def)
qed

lemma bom_units_raw: "sum_list (map u_raw (bom_units enc raw bs)) \<le> length bs"
proof -
  have "length p \<le> length bs" if "starts_with bs p" for p
    using that length_take [of "length p" bs] by (metis min.cobounded1 starts_with_def)
  from this [of "[0xEF, 0xBB, 0xBF]"] this [of "[0xFF, 0xFE]"] this [of "[0xFE, 0xFF]"]
  show ?thesis by (cases enc) (auto simp: bom_units_def bom_bytes_len_def u_raw_def)
qed

lemma units_of_raw: "sum_list (map u_raw (units_of enc raw bs)) = length bs"
  using bom_units_raw [of enc raw bs] by (simp add: units_of_def body_units_raw)

section \<open>The spans tile the units\<close>

text \<open>A span stands for one unit, or for a run of ASCII units.\<close>

definition part_ok :: "nat \<Rightarrow> mapping_span \<Rightarrow> dunit list \<Rightarrow> bool" where
  "part_ok w s us \<longleftrightarrow> us \<noteq> [] \<and> (\<forall>u\<in>set us. unit_ok w u \<and> u_kind u = sp_kind s) \<and>
     (sp_kind s \<noteq> AsciiRun \<longrightarrow> length us = 1) \<and>
     sp_raw_len s = sum_list (map u_raw us) \<and> sp_dec_len s = sum_list (map u_dec us) \<and>
     sp_u16_len s = sum_list (map u_u16 us) \<and> sp_sca_len s = sum_list (map u_sca us)"

text \<open>The spans follow each other without gap or overlap in one domain, from \<open>p\<close> to \<open>q\<close>.\<close>

fun contiguous :: "(mapping_span \<Rightarrow> nat) \<Rightarrow> (mapping_span \<Rightarrow> nat) \<Rightarrow> nat \<Rightarrow> mapping_span list \<Rightarrow> nat \<Rightarrow> bool" where
  "contiguous st ln p [] q \<longleftrightarrow> p = q"
| "contiguous st ln p (s # ss) q \<longleftrightarrow> st s = p \<and> contiguous st ln (p + ln s) ss q"

lemma contiguous_append:
  "contiguous st ln p ss q \<Longrightarrow> contiguous st ln q ss' r \<Longrightarrow> contiguous st ln p (ss @ ss') r"
  by (induction ss arbitrary: p) auto

definition moves :: "enc_acc \<Rightarrow> dunit list \<Rightarrow> enc_acc \<Rightarrow> bool" where
  "moves a us a' \<longleftrightarrow>
     ea_raw a' = ea_raw a + sum_list (map u_raw us) \<and> ea_dec a' = ea_dec a + sum_list (map u_dec us) \<and>
     ea_u16 a' = ea_u16 a + sum_list (map u_u16 us) \<and> ea_sca a' = ea_sca a + sum_list (map u_sca us) \<and>
     ea_text a' = ea_text a @ concat (map u_chars us)"

definition spans_between :: "nat \<Rightarrow> enc_acc \<Rightarrow> mapping_span list \<Rightarrow> dunit list list \<Rightarrow> enc_acc \<Rightarrow> bool" where
  "spans_between w a ss parts a' \<longleftrightarrow> list_all2 (part_ok w) ss parts \<and>
     contiguous sp_raw sp_raw_len (ea_raw a) ss (ea_raw a') \<and>
     contiguous sp_dec sp_dec_len (ea_dec a) ss (ea_dec a') \<and>
     contiguous sp_u16 sp_u16_len (ea_u16 a) ss (ea_u16 a') \<and>
     contiguous sp_sca sp_sca_len (ea_sca a) ss (ea_sca a')"

definition extends :: "nat \<Rightarrow> enc_acc \<Rightarrow> dunit list \<Rightarrow> enc_acc \<Rightarrow> bool" where
  "extends w a us a' \<longleftrightarrow> moves a us a' \<and>
     (\<exists>ss parts. ea_spans a' = ea_spans a @ ss \<and> concat parts = us \<and> spans_between w a ss parts a')"

text \<open>All four positions after the units fit in a \<open>u64\<close>.\<close>

definition fits :: "enc_acc \<Rightarrow> dunit list \<Rightarrow> bool" where
  "fits a us \<longleftrightarrow>
     ea_raw a + sum_list (map u_raw us) \<le> u64_max \<and> ea_dec a + sum_list (map u_dec us) \<le> u64_max \<and>
     ea_u16 a + sum_list (map u_u16 us) \<le> u64_max \<and> ea_sca a + sum_list (map u_sca us) \<le> u64_max"

lemma extends_refl: "extends w a [] a"
  by (auto simp: extends_def moves_def spans_between_def intro!: exI [of _ "[]"])

lemma moves_trans: "moves a us a1 \<Longrightarrow> moves a1 us' a2 \<Longrightarrow> moves a (us @ us') a2"
  by (simp add: moves_def)

lemma spans_between_append:
  "spans_between w a ss parts a1 \<Longrightarrow> spans_between w a1 ss' parts' a2 \<Longrightarrow>
     spans_between w a (ss @ ss') (parts @ parts') a2"
  unfolding spans_between_def by (blast intro: list_all2_appendI contiguous_append)

lemma extends_trans:
  assumes "extends w a us a1" and "extends w a1 us' a2"
  shows "extends w a (us @ us') a2"
proof -
  from assms(1) obtain ss parts where 1: "ea_spans a1 = ea_spans a @ ss" "concat parts = us"
    "spans_between w a ss parts a1" by (auto simp: extends_def)
  from assms(2) obtain ss' parts' where 2: "ea_spans a2 = ea_spans a1 @ ss'" "concat parts' = us'"
    "spans_between w a1 ss' parts' a2" by (auto simp: extends_def)
  have "ea_spans a2 = ea_spans a @ ss @ ss'" "concat (parts @ parts') = us @ us'"
    using 1(1,2) 2(1,2) by simp_all
  with spans_between_append [OF 1(3) 2(3)] assms moves_trans show ?thesis
    unfolding extends_def by blast
qed

lemma fits_append: "extends w a us a1 \<Longrightarrow> fits a (us @ us') \<longleftrightarrow> fits a1 us' "
  by (simp add: extends_def moves_def fits_def add.assoc) 

text \<open>A pushed span that is made of units accounts for exactly these.\<close>

lemma push_span_ok:
  assumes us: "us \<noteq> []" "\<forall>u\<in>set us. unit_ok w u \<and> u_kind u = k" "k \<noteq> AsciiRun \<longrightarrow> length us = 1"
    and lens: "n = sum_list (map u_raw us)" "d = sum_list (map u_dec us)" "u = sum_list (map u_u16 us)"
      "s = sum_list (map u_sca us)" "t = concat (map u_chars us)"
  shows "(\<exists>a1. push_span a n d u s k t = Inr a1 \<and> extends w a us a1 \<and> fits a us) \<or>
    (push_span a n d u s k t = Inl RangeOutOfBounds \<and> \<not> fits a us)"
proof (cases "fits a us")
  case True
  let ?sp = "\<lparr>sp_raw = ea_raw a, sp_raw_len = n, sp_dec = ea_dec a, sp_dec_len = d,
    sp_u16 = ea_u16 a, sp_u16_len = u, sp_sca = ea_sca a, sp_sca_len = s, sp_kind = k\<rparr>"
  let ?a1 = "\<lparr>ea_raw = ea_raw a + n, ea_dec = ea_dec a + d, ea_u16 = ea_u16 a + u, ea_sca = ea_sca a + s,
    ea_text = ea_text a @ t, ea_spans = ea_spans a @ [?sp]\<rparr>"
  have "push_span a n d u s k t = Inr ?a1"
    using True by (simp add: push_span_def fits_def lens)
  moreover have "part_ok w ?sp us" using us by (simp add: part_ok_def lens)
  then have "spans_between w a [?sp] [us] ?a1" by (simp add: spans_between_def)
  then have "extends w a us ?a1"
    unfolding extends_def by (intro conjI exI [of _ "[?sp]"] exI [of _ "[us]"]) (simp_all add: moves_def lens)
  ultimately show ?thesis using True by blast
next
  case False
  then have "push_span a n d u s k t = Inl RangeOutOfBounds"
    by (auto simp: push_span_def fits_def lens checked_add_def)
  with False show ?thesis by blast
qed

text \<open>The contract of a builder loop: it accounts for exactly the units, or reports the overflow.\<close>

definition accounts :: "nat \<Rightarrow> enc_acc \<Rightarrow> dunit list \<Rightarrow> source_error + enc_acc \<Rightarrow> bool" where
  "accounts w a us res \<longleftrightarrow>
     (\<exists>a'. res = Inr a' \<and> extends w a us a' \<and> fits a us) \<or> (res = Inl RangeOutOfBounds \<and> \<not> fits a us)"

lemma accounts_then:
  assumes "accounts w a us res" and "\<And>a1. extends w a us a1 \<Longrightarrow> res = Inr a1 \<Longrightarrow> accounts w a1 us' (f a1)"
  shows "accounts w a (us @ us') (and_then res f)"
proof (cases res)
  case (Inl e)
  with assms(1) have "e = RangeOutOfBounds" "\<not> fits a us" by (auto simp: accounts_def)
  with Inl show ?thesis by (auto simp: accounts_def fits_def)
next
  case (Inr a1)
  with assms(1) have "extends w a us a1" by (auto simp: accounts_def)
  with assms(2) [OF this Inr] Inr show ?thesis
    using extends_trans [of w a us a1 us'] fits_append [of w a us a1 us'] by (auto simp: accounts_def)
qed

lemma push_accounts:
  assumes "us \<noteq> []" "\<forall>u\<in>set us. unit_ok w u \<and> u_kind u = k" "k \<noteq> AsciiRun \<longrightarrow> length us = 1"
    and "n = sum_list (map u_raw us)" "d = sum_list (map u_dec us)" "u = sum_list (map u_u16 us)"
      "s = sum_list (map u_sca us)" "t = concat (map u_chars us)"
  shows "accounts w a us (push_span a n d u s k t)"
  using push_span_ok [OF assms, of a] by (simp add: accounts_def)

section \<open>The loops account for the units\<close>

lemma accounts_Nil: "fits a [] \<Longrightarrow> accounts w a [] (Inr a)"
  by (simp add: accounts_def extends_refl)

lemma extends_fits: "extends w a us a1 \<Longrightarrow> fits a us \<Longrightarrow> fits a1 []"
  by (simp add: extends_def moves_def fits_def)

lemma utf8_units_run:
  "utf8_units bs = map (\<lambda>x. (1, [unat x], AsciiRun)) (takeWhile (\<lambda>x. unat x < 0x80) bs) @
     utf8_units (dropWhile (\<lambda>x. unat x < 0x80) bs)"
  by (induction bs) (simp_all add: utf8_units.simps(2))

lemma len_ascii [simp]: "c < 0x80 \<Longrightarrow> len_utf8 c = 1" "c < 0x80 \<Longrightarrow> len_utf16 c = 1"
  by (simp_all add: len_utf8_def len_utf16_def)

lemma ascii_part:
  assumes "\<forall>c\<in>set cs. c < 0x80" and "us = map (\<lambda>c. (w, [c], AsciiRun)) cs" and "0 < w"
  shows "\<forall>u\<in>set us. unit_ok w u \<and> u_kind u = AsciiRun" "sum_list (map u_raw us) = w * length cs"
    "sum_list (map u_dec us) = length cs" "sum_list (map u_u16 us) = length cs"
    "sum_list (map u_sca us) = length cs" "concat (map u_chars us) = cs"
  using assms unfolding assms(2) by (induction cs) (auto simp: unit_ok_def unit_simps)

lemma ascii_accounts:
  assumes "\<forall>c\<in>set cs. c < 0x80" and "cs \<noteq> []" and "0 < w"
  shows "accounts w a (map (\<lambda>c. (w, [c], AsciiRun)) cs)
    (push_span a (w * length cs) (length cs) (length cs) (length cs) AsciiRun cs)"
  using ascii_part [OF assms(1) refl assms(3)] assms(2)
  by (intro push_accounts) simp_all

lemma char_accounts:
  assumes "unit_ok w (n, [c], k)" and "k \<noteq> AsciiRun" and "len_utf8 c = d" "len_utf16 c = u"
  shows "accounts w a [(n, [c], k)] (push_span a n d u 1 k [c])"
  using assms by (intro push_accounts) (simp_all add: unit_simps)

lemma len_replacement: "len_utf8 0xFFFD = 3" "len_utf16 0xFFFD = 1"
  by (simp_all add: len_utf8_def len_utf16_def)

lemma replacement_accounts:
  "0 < n \<Longrightarrow> accounts w a [(n, [0xFFFD], ReplacementMalformed)] (push_span a n 3 1 1 ReplacementMalformed [0xFFFD])"
  by (rule char_accounts) (simp_all add: unit_ok_def unit_simps len_replacement)

lemma utf8_loop_accounts: "fits a [] \<Longrightarrow> accounts 1 a (utf8_units bs) (utf8_loop a bs)"
proof (induction a bs rule: utf8_loop.induct)
  case (1 a)
  then show ?case by (simp add: accounts_Nil)
next
  case (2 a b bs)
  show ?case
  proof (cases "unat b < 0x80")
    case True
    let ?run = "takeWhile (\<lambda>x. unat x < 0x80) (b # bs)"
    let ?cs = "map unat ?run" and ?rst = "drop (length ?run) (b # bs)"
    have units: "utf8_units (b # bs) = map (\<lambda>c. (1, [c], AsciiRun)) ?cs @ utf8_units ?rst"
      unfolding dropWhile_eq_drop [symmetric] by (subst utf8_units_run) simp
    have loop: "utf8_loop a (b # bs) =
        and_then (push_span a (1 * length ?cs) (length ?cs) (length ?cs) (length ?cs) AsciiRun ?cs)
          (\<lambda>a1. utf8_loop a1 ?rst)"
      using True by (simp add: utf8_loop.simps(2) Let_def)
    have push: "accounts 1 a (map (\<lambda>c. (1, [c], AsciiRun)) ?cs)
        (push_span a (1 * length ?cs) (length ?cs) (length ?cs) (length ?cs) AsciiRun ?cs)"
      using True by (intro ascii_accounts) (auto dest: set_takeWhileD)
    show ?thesis unfolding units loop
    proof (rule accounts_then [OF push])
      fix a1
      assume ext: "extends 1 a (map (\<lambda>c. (1, [c], AsciiRun)) ?cs) a1"
        and ok: "push_span a (1 * length ?cs) (length ?cs) (length ?cs) (length ?cs) AsciiRun ?cs = Inr a1"
      have "fits a1 []" using push ok extends_fits [OF ext] by (auto simp: accounts_def)
      then show "accounts 1 a1 (utf8_units ?rst) (utf8_loop a1 ?rst)"
        by (rule "2.IH"(1) [OF True refl refl])
    qed
  next
    case False
    obtain n ch where d: "decode_utf8_char (b # bs) = (n, ch)" by fastforce
    let ?rst = "drop n (b # bs)"
    define u where "u = (case ch of Some c \<Rightarrow> (n, [c], if len_utf16 c = 2 then SurrogatePair else BmpMultiByte)
      | None \<Rightarrow> (n, [0xFFFD], ReplacementMalformed))"
    define res where "res = (case ch of
        Some c \<Rightarrow> push_span a n (len_utf8 c) (len_utf16 c) 1 (if len_utf16 c = 2 then SurrogatePair else BmpMultiByte) [c]
      | None \<Rightarrow> push_span a n 3 1 1 ReplacementMalformed [0xFFFD])"
    have units: "utf8_units (b # bs) = [u] @ utf8_units ?rst"
      using False d by (cases ch) (simp_all add: utf8_units.simps(2) u_def)
    have loop: "utf8_loop a (b # bs) = and_then res (\<lambda>a1. utf8_loop a1 ?rst)"
      using False d by (cases ch) (simp_all add: utf8_loop.simps(2) res_def)
    have "u \<in> set (utf8_units (b # bs))" unfolding units by simp
    then have "unit_ok 1 u" by (rule utf8_units_ok)
    then have push: "accounts 1 a [u] res"
      using decode_positive(1) [OF d] unfolding u_def res_def
      by (cases ch) (simp_all add: char_accounts replacement_accounts del: One_nat_def)
    show ?thesis unfolding units loop
    proof (rule accounts_then [OF push])
      fix a1
      assume ext: "extends 1 a [u] a1" and ok: "res = Inr a1"
      have fit: "fits a1 []" using push ok extends_fits [OF ext] by (auto simp: accounts_def)
      show "accounts 1 a1 (utf8_units ?rst) (utf8_loop a1 ?rst)"
      proof (cases ch)
        case None
        with fit show ?thesis using "2.IH"(2) [OF False d [symmetric]] by simp
      next
        case (Some c)
        with fit show ?thesis using "2.IH"(3) [OF False d [symmetric]] by simp
      qed
    qed
  qed
qed

lemma ascii_run16_lt: "c \<in> set (ascii_run16 le bs) \<Longrightarrow> c < 0x80"
  by (induction le bs rule: ascii_run16.induct) (auto split: if_splits)

lemma utf16_units_run:
  "utf16_units le bs = map (\<lambda>c. (2, [c], AsciiRun)) (ascii_run16 le bs) @
     utf16_units le (drop (2 * length (ascii_run16 le bs)) bs)"
  by (induction le bs rule: ascii_run16.induct) (auto simp: utf16_units.simps(3) Let_def)

lemma utf16_loop_accounts: "fits a [] \<Longrightarrow> accounts 2 a (utf16_units le bs) (utf16_loop le a bs)"
proof (induction le a bs rule: utf16_loop.induct)
  case (1 le a)
  then show ?case by (simp add: accounts_Nil)
next
  case (2 le a x)
  then show ?case by (simp add: replacement_accounts del: One_nat_def)
next
  case (3 le a x y bs)
  let ?v = "u16_unit le x y"
  have one: "accounts 2 a (utf16_units le (x # y # bs)) (utf16_loop le a (x # y # bs))"
    if units: "utf16_units le (x # y # bs) = us @ utf16_units le rst"
      and loop: "utf16_loop le a (x # y # bs) = and_then res (\<lambda>a1. utf16_loop le a1 rst)"
      and push: "accounts 2 a us res"
      and IH: "\<And>a1. fits a1 [] \<Longrightarrow> accounts 2 a1 (utf16_units le rst) (utf16_loop le a1 rst)" for us rst res
    unfolding units loop
  proof (rule accounts_then [OF push])
    fix a1
    assume ext: "extends 2 a us a1" and ok: "res = Inr a1"
    have "fits a1 []" using push ok extends_fits [OF ext] by (auto simp: accounts_def)
    then show "accounts 2 a1 (utf16_units le rst) (utf16_loop le a1 rst)" by (rule IH)
  qed
  consider "?v < 0x80" | "\<not> ?v < 0x80" "is_high ?v" | "\<not> ?v < 0x80" "\<not> is_high ?v" "is_low ?v"
    | "\<not> ?v < 0x80" "\<not> is_high ?v" "\<not> is_low ?v" by blast
  then show ?case
  proof cases
    case 1
    let ?cs = "ascii_run16 le (x # y # bs)"
    have "?cs \<noteq> []" using 1 by simp
    then have push: "accounts 2 a (map (\<lambda>c. (2, [c], AsciiRun)) ?cs)
        (push_span a (2 * length ?cs) (length ?cs) (length ?cs) (length ?cs) AsciiRun ?cs)"
      by (intro ascii_accounts) (auto dest: ascii_run16_lt)
    show ?thesis
      by (rule one [OF utf16_units_run _ push]) (use 1 "3.IH"(1) [OF refl 1 refl refl] in
          \<open>simp_all add: utf16_loop.simps(3) Let_def\<close>)
  next
    case 2
    show ?thesis
    proof (cases "pair_char le (x # y # bs)")
      case None
      show ?thesis
        by (rule one [of "[(2, [0xFFFD], ReplacementMalformed)]" bs "push_span a 2 3 1 1 ReplacementMalformed [0xFFFD]"])
          (use 2 None "3.IH"(2) [OF refl 2 None] in
            \<open>simp_all add: utf16_loop.simps(3) utf16_units.simps(3) Let_def replacement_accounts del: One_nat_def\<close>)
    next
      case (Some c)
      then have ok: "unit_ok 2 (4, [c], SurrogatePair)" "len_utf16 c = 2"
        using pair_char_len [OF Some] by (auto simp: unit_ok_def unit_simps)
      show ?thesis
        by (rule one [of "[(4, [c], SurrogatePair)]" "drop 2 bs" "push_span a 4 (len_utf8 c) 2 1 SurrogatePair [c]"])
          (use 2 Some ok "3.IH"(3) [OF refl 2 Some] in
            \<open>simp_all add: utf16_loop.simps(3) utf16_units.simps(3) Let_def char_accounts del: One_nat_def\<close>)
    qed
  next
    case i: 3
    show ?thesis
      by (rule one [of "[(2, [0xFFFD], ReplacementMalformed)]" bs "push_span a 2 3 1 1 ReplacementMalformed [0xFFFD]"])
        (use i "3.IH"(4) [OF refl i] in
          \<open>simp_all add: utf16_loop.simps(3) utf16_units.simps(3) Let_def replacement_accounts del: One_nat_def\<close>)
  next
    case 4
    show ?thesis
    proof (cases "char_from_u32 ?v")
      case None
      show ?thesis
        by (rule one [of "[(2, [0xFFFD], ReplacementMalformed)]" bs "push_span a 2 3 1 1 ReplacementMalformed [0xFFFD]"])
          (use 4 None "3.IH"(5) [OF refl 4 None] in
            \<open>simp_all add: utf16_loop.simps(3) utf16_units.simps(3) Let_def replacement_accounts del: One_nat_def\<close>)
    next
      case (Some c)
      have "(2, [c], BmpMultiByte) \<in> set (utf16_units le (x # y # bs))"
        using 4 Some by (simp add: utf16_units.simps(3) Let_def)
      then have ok: "unit_ok 2 (2, [c], BmpMultiByte)" by (rule utf16_units_ok)
      then have "len_utf16 c = 1" by (simp add: unit_ok_def unit_simps)
      with ok show ?thesis
        by (intro one [of "[(2, [c], BmpMultiByte)]" bs "push_span a 2 (len_utf8 c) 1 1 BmpMultiByte [c]"])
          (use 4 Some "3.IH"(6) [OF refl 4 Some] in
            \<open>simp_all add: utf16_loop.simps(3) utf16_units.simps(3) Let_def char_accounts del: One_nat_def\<close>)
    qed
  qed
qed

lemma escaped_loop_accounts: "fits a [] \<Longrightarrow> accounts 1 a (escaped_units bs) (escaped_loop a bs)"
proof (induction bs arbitrary: a)
  case Nil
  then show ?case by (simp add: accounts_Nil escaped_units_def)
next
  case (Cons b bs)
  let ?u = "(1, escape_byte b, EscapedByte)"
  have units: "escaped_units (b # bs) = [?u] @ escaped_units bs" by (simp add: escaped_units_def)
  have ok: "unit_ok 1 ?u" using escaped_units_ok [of ?u "[b]"] by (simp add: escaped_units_def)
  then have "\<forall>c\<in>set (escape_byte b). c < 0x80" by (simp add: unit_ok_def unit_simps)
  then have "sum_list (map len_utf8 (escape_byte b)) = 4" "sum_list (map len_utf16 (escape_byte b)) = 4"
    by (simp_all add: escape_byte_def)
  then have push: "accounts 1 a [?u] (push_span a 1 4 4 4 EscapedByte (escape_byte b))"
    using ok by (intro push_accounts) (simp_all add: unit_simps escape_byte_def)
  show ?case unfolding units escaped_loop.simps
  proof (rule accounts_then [OF push])
    fix a1
    assume ext: "extends 1 a [?u] a1" and res: "push_span a 1 4 4 4 EscapedByte (escape_byte b) = Inr a1"
    have "fits a1 []" using push res extends_fits [OF ext] by (auto simp: accounts_def)
    then show "accounts 1 a1 (escaped_units bs) (escaped_loop a1 bs)" by (rule Cons.IH)
  qed
qed

lemma push_bom_accounts:
  "0 < n \<Longrightarrow> fits a [] \<Longrightarrow> accounts w a [(n, [], BomHeader)] (push_bom a n)"
proof -
  assume n: "0 < n" and "fits a []"
  then have "push_bom a n = push_span a n 0 0 0 BomHeader []"
    by (cases a) (simp add: push_bom_def push_span_def fits_def Let_def)
  moreover have "accounts w a [(n, [], BomHeader)] (push_span a n 0 0 0 BomHeader [])"
    using n by (intro push_accounts) (simp_all add: unit_ok_def unit_simps)
  ultimately show ?thesis by simp
qed

section \<open>The whole map\<close>

definition bases_fit :: "nat \<Rightarrow> nat \<Rightarrow> nat \<Rightarrow> nat \<Rightarrow> bool" where
  "bases_fit raw dec u16 sca \<longleftrightarrow> raw \<le> u64_max \<and> dec \<le> u64_max \<and> u16 \<le> u64_max \<and> sca \<le> u64_max"

lemma fits_Nil: "fits (acc_new raw dec u16 sca) [] \<longleftrightarrow> bases_fit raw dec u16 sca"
  by (simp add: fits_def acc_new_def bases_fit_def)

text \<open>A loop after the optional byte order mark.\<close>

lemma after_bom:
  assumes "bases_fit raw dec u16 sca" and "0 < n"
    and "\<And>a bs. fits a [] \<Longrightarrow> accounts w a (body bs) (loop a bs)"
  shows "accounts w (acc_new raw dec u16 sca)
     ((if b then [(n, [], BomHeader)] else []) @ body (if b then drop n bs else bs))
     (and_then (if b then and_then (push_bom (acc_new raw dec u16 sca) n) (\<lambda>a1. Inr (a1, drop n bs))
        else Inr (acc_new raw dec u16 sca, bs)) (\<lambda>(a1, rst). loop a1 rst))"
proof (cases b)
  case False
  then show ?thesis using assms(1,3) by (simp add: fits_Nil)
next
  case True
  let ?a = "acc_new raw dec u16 sca"
  have push: "accounts w ?a [(n, [], BomHeader)] (push_bom ?a n)"
    using assms(1,2) by (intro push_bom_accounts) (simp_all add: fits_Nil)
  have "accounts w ?a ([(n, [], BomHeader)] @ body (drop n bs))
      (and_then (push_bom ?a n) (\<lambda>a1. loop a1 (drop n bs)))"
  proof (rule accounts_then [OF push])
    fix a1
    assume ext: "extends w ?a [(n, [], BomHeader)] a1" and res: "push_bom ?a n = Inr a1"
    have "fits a1 []" using push res extends_fits [OF ext] by (auto simp: accounts_def)
    then show "accounts w a1 (body (drop n bs)) (loop a1 (drop n bs))" by (rule assms(3))
  qed
  moreover have "and_then (and_then (push_bom ?a n) (\<lambda>a1. Inr (a1, drop n bs))) (\<lambda>(a1, rst). loop a1 rst)
      = and_then (push_bom ?a n) (\<lambda>a1. loop a1 (drop n bs))"
    by (cases "push_bom ?a n") simp_all
  ultimately show ?thesis using True by simp
qed

text \<open>
  The result of a build: the accumulator after exactly the units of the byte string, or an error
  when one of the four domains leaves the \<open>u64\<close> range.
\<close>

definition builds :: "detected_encoding \<Rightarrow> nat \<Rightarrow> nat \<Rightarrow> nat \<Rightarrow> nat \<Rightarrow> byte list \<Rightarrow> source_error + encoding_map \<Rightarrow> bool" where
  "builds enc raw dec u16 sca bs res \<longleftrightarrow>
     (if fits (acc_new raw dec u16 sca) (units_of enc raw bs)
      then \<exists>a. res = Inr (finish_map enc raw dec u16 sca a) \<and>
        extends (unit_width enc) (acc_new raw dec u16 sca) (units_of enc raw bs) a
      else \<exists>e. res = Inl e)"

lemma builds_finish:
  assumes "accounts (unit_width enc) (acc_new raw dec u16 sca) (units_of enc raw bs) res"
    and "res' = and_then res (\<lambda>a. Inr (finish_map enc raw dec u16 sca a))"
  shows "builds enc raw dec u16 sca bs res'"
  using assms by (auto simp: builds_def accounts_def)

lemma and_then_assoc: "and_then (and_then r f) g = and_then r (\<lambda>x. and_then (f x) g)"
  by (cases r) simp_all

lemma build_utf8_builds:
  assumes "bases_fit raw dec u16 sca"
  shows "builds (Utf8 has_bom) raw dec u16 sca bs (build_utf8 bs has_bom raw dec u16 sca)"
proof (rule builds_finish)
  let ?b = "raw = 0 \<and> has_bom \<and> starts_with bs [0xEF, 0xBB, 0xBF]"
  have "units_of (Utf8 has_bom) raw bs =
      (if ?b then [(3, [], BomHeader)] else []) @ utf8_units (if ?b then drop 3 bs else bs)"
    by (auto simp: units_of_def bom_units_def body_units_def bom_bytes_len_def u_raw_def)
  then show "accounts (unit_width (Utf8 has_bom)) (acc_new raw dec u16 sca) (units_of (Utf8 has_bom) raw bs)
     (and_then (if ?b then and_then (push_bom (acc_new raw dec u16 sca) 3) (\<lambda>a1. Inr (a1, drop 3 bs))
        else Inr (acc_new raw dec u16 sca, bs)) (\<lambda>(a1, rst). utf8_loop a1 rst))"
    using after_bom [OF assms, of 3 1 utf8_units utf8_loop ?b bs] utf8_loop_accounts
    by (simp add: unit_width_def is_utf16_def)
qed (simp add: build_utf8_def and_then_assoc Let_def case_prod_beta)

lemma build_utf16_builds:
  assumes "bases_fit raw dec u16 sca" and "enc = (if le then Utf16Le else Utf16Be)"
  shows "builds enc raw dec u16 sca bs (build_utf16 bs le raw dec u16 sca)"
proof (rule builds_finish)
  let ?b = "raw = 0 \<and> starts_with bs (if le then [0xFF, 0xFE] else [0xFE, 0xFF])"
  have "units_of enc raw bs =
      (if ?b then [(2, [], BomHeader)] else []) @ utf16_units le (if ?b then drop 2 bs else bs)"
    using assms(2) by (auto simp: units_of_def bom_units_def body_units_def bom_bytes_len_def u_raw_def)
  moreover have "unit_width enc = 2" using assms(2) by (simp add: unit_width_def is_utf16_def)
  ultimately show "accounts (unit_width enc) (acc_new raw dec u16 sca) (units_of enc raw bs)
     (and_then (if ?b then and_then (push_bom (acc_new raw dec u16 sca) 2) (\<lambda>a1. Inr (a1, drop 2 bs))
        else Inr (acc_new raw dec u16 sca, bs)) (\<lambda>(a1, rst). utf16_loop le a1 rst))"
    using after_bom [OF assms(1), of 2 2 "utf16_units le" "utf16_loop le" ?b bs] utf16_loop_accounts
    by simp
qed (simp add: build_utf16_def and_then_assoc Let_def case_prod_beta assms(2))

lemma escaped_dec: "sum_list (map u_dec (escaped_units bs)) = 4 * length bs"
proof (induction bs)
  case (Cons b bs)
  have "unit_ok 1 (1, escape_byte b, EscapedByte)"
    using escaped_units_ok [of "(1, escape_byte b, EscapedByte)" "[b]"] by (simp add: escaped_units_def)
  then have "\<forall>c\<in>set (escape_byte b). c < 0x80" by (simp add: unit_ok_def unit_simps)
  then have "u_dec (1, escape_byte b, EscapedByte) = 4" by (simp add: unit_simps escape_byte_def)
  with Cons show ?case by (simp add: escaped_units_def)
qed (simp add: escaped_units_def)

lemma build_builds:
  assumes "bases_fit raw dec u16 sca"
  shows "builds enc raw dec u16 sca bs (build_with_base_offset bs enc raw dec u16 sca)"
proof (cases "raw + length bs \<le> u64_max")
  case False
  then have "\<not> fits (acc_new raw dec u16 sca) (units_of enc raw bs)"
    using units_of_raw [of enc raw bs] by (simp add: fits_def acc_new_def)
  with False show ?thesis by (simp add: builds_def build_with_base_offset_def checked_add_def)
next
  case True
  show ?thesis
  proof (cases enc)
    case (Utf8 has_bom)
    with True build_utf8_builds [OF assms] show ?thesis by (simp add: build_with_base_offset_def)
  next
    case Utf16Le
    with True build_utf16_builds [OF assms, of enc True] show ?thesis by (simp add: build_with_base_offset_def)
  next
    case Utf16Be
    with True build_utf16_builds [OF assms, of enc False] show ?thesis by (simp add: build_with_base_offset_def)
  next
    case Unsupported
    have units: "units_of enc raw bs = escaped_units bs" "unit_width enc = 1"
      using Unsupported by (simp_all add: units_of_def bom_units_def body_units_def unit_width_def is_utf16_def)
    show ?thesis
    proof (cases "length bs * 4 > usize_max")
      case True
      then have "\<not> fits (acc_new raw dec u16 sca) (units_of enc raw bs)"
        using escaped_dec [of bs] by (simp add: fits_def acc_new_def units usize_max_def)
      with True \<open>raw + length bs \<le> u64_max\<close> Unsupported show ?thesis
        by (simp add: builds_def build_with_base_offset_def build_escaped_def)
    next
      case False
      have "accounts (unit_width enc) (acc_new raw dec u16 sca) (units_of enc raw bs)
          (escaped_loop (acc_new raw dec u16 sca) bs)"
        unfolding units using assms by (intro escaped_loop_accounts) (simp add: fits_Nil)
      then show ?thesis
        by (rule builds_finish)
          (use False \<open>raw + length bs \<le> u64_max\<close> Unsupported in
            \<open>simp add: build_with_base_offset_def build_escaped_def\<close>)
    qed
  qed
qed

section \<open>Properties\<close>

text \<open>
  C15: A decoding map is built exactly when every position fits in a \<open>u64\<close>, whatever the bytes,
  encoding and base offsets. Its totals are the lengths of the raw bytes and of the decoded text in
  UTF-8 bytes, UTF-16 units and scalars, and its spans tile all four domains without gap or overlap
  from the bases to the bases plus the totals.
\<close>

theorem encoding_map_exact:
  assumes "bases_fit raw dec u16 sca"
  shows "if fits (acc_new raw dec u16 sca) (units_of enc raw bs)
    then \<exists>m. build_with_base_offset bs enc raw dec u16 sca = Inr m \<and>
      em_text m = concat (map u_chars (units_of enc raw bs)) \<and> em_raw m = length bs \<and>
      em_dec m = sum_list (map len_utf8 (em_text m)) \<and> em_u16 m = sum_list (map len_utf16 (em_text m)) \<and>
      em_sca m = length (em_text m) \<and>
      contiguous sp_raw sp_raw_len raw (em_spans m) (raw + em_raw m) \<and>
      contiguous sp_dec sp_dec_len dec (em_spans m) (dec + em_dec m) \<and>
      contiguous sp_u16 sp_u16_len u16 (em_spans m) (u16 + em_u16 m) \<and>
      contiguous sp_sca sp_sca_len sca (em_spans m) (sca + em_sca m)
    else \<not> is_ok (build_with_base_offset bs enc raw dec u16 sca)"
proof -
  have sums: "sum_list (map u_dec us) = sum_list (map len_utf8 (concat (map u_chars us)))"
    "sum_list (map u_u16 us) = sum_list (map len_utf16 (concat (map u_chars us)))"
    "sum_list (map u_sca us) = length (concat (map u_chars us))" for us :: "dunit list"
    by (induction us) (simp_all add: u_dec_def u_u16_def u_sca_def)
  show ?thesis
    using build_builds [OF assms, of enc bs]
    by (auto simp: builds_def extends_def moves_def spans_between_def acc_new_def finish_map_def
        units_of_raw sums)
qed

theorem encoding_map_exact_witness:
  "\<exists>m. build_with_base_offset [0xEF, 0xBB, 0xBF, 65] (Utf8 True) 0 0 0 0 = Inr m \<and>
     em_raw m = 4 \<and> em_sca m = 1"
proof -
  have units: "units_of (Utf8 True) 0 [0xEF, 0xBB, 0xBF, 65] = [(3, [], BomHeader), (1, [65], AsciiRun)]"
    by (simp add: units_of_def bom_units_def body_units_def starts_with_def bom_bytes_len_def u_raw_def
        utf8_units.simps(2))
  have "bases_fit 0 0 0 0" by (simp add: bases_fit_def)
  from encoding_map_exact [OF this, of "Utf8 True" "[0xEF, 0xBB, 0xBF, 65]"] show ?thesis
    unfolding units by (auto simp: fits_def acc_new_def unit_simps u64_max_val)
qed

end
