(* ===== verification/Utf8_Codec.thy ===== *)
theory Utf8_Codec
  imports Encoding
begin

text \<open>
  The UTF-8 decoder of \<open>encoding.rs\<close> against the standard encoding: \<open>decode_utf8_char\<close> recognises
  exactly the encodings of the non-ASCII scalar values, shortest form and surrogates included, and
  consumes one byte of everything else; text encoded in UTF-8 or UTF-16 decodes to itself.
\<close>

section \<open>Bits and digits\<close>

lemma or_shift: "(y::nat) < 2 ^ n \<Longrightarrow> push_bit n x OR y = x * 2 ^ n + y"
proof -
  assume "y < 2 ^ n"
  then have y: "take_bit n y = y" by (simp add: take_bit_eq_mod)
  have "push_bit n x + y = push_bit n x OR y"
    by (rule disjunctive_add) (metis bit_push_bit_iff bit_take_bit_iff y linorder_not_le)
  then show ?thesis by (simp add: push_bit_eq_mult)
qed

lemma unat_and_mask: "unat ((b :: byte) AND mask n) = unat b mod 2 ^ n"
  unfolding take_bit_eq_mask [symmetric] unsigned_take_bit_eq by (rule take_bit_eq_mod)

lemma unat_masks:
  "unat ((b :: byte) AND 0x3F) = unat b mod 64" "unat (b AND 0x1F) = unat b mod 32"
  "unat (b AND 0x0F) = unat b mod 16" "unat (b AND 0x07) = unat b mod 8"
  using unat_and_mask [of b 6] unat_and_mask [of b 5] unat_and_mask [of b 4] unat_and_mask [of b 3]
  by (simp_all add: mask_eq_exp_minus_1)

lemma digit: "(r::nat) < k \<Longrightarrow> (x * k + r) div k = x" "r < k \<Longrightarrow> (x * k + r) mod k = r"
  by simp_all

lemma digits3:
  fixes x y z :: nat
  assumes "y < 64" and "z < 64"
  shows "(x * 4096 + y * 64 + z) div 4096 = x" "(x * 4096 + y * 64 + z) div 64 = x * 64 + y"
    "(x * 4096 + y * 64 + z) mod 64 = z"
  using digit [of "y * 64 + z" 4096 x] digit [of z 64 "x * 64 + y"] assms by (simp_all add: algebra_simps)

lemma digits4:
  fixes v x y z :: nat
  assumes "x < 64" "y < 64" and "z < 64"
  shows "(v * 262144 + x * 4096 + y * 64 + z) div 262144 = v"
    "(v * 262144 + x * 4096 + y * 64 + z) div 4096 = v * 64 + x"
    "(v * 262144 + x * 4096 + y * 64 + z) div 64 = v * 4096 + x * 64 + y"
    "(v * 262144 + x * 4096 + y * 64 + z) mod 64 = z"
  using digit [of "x * 4096 + y * 64 + z" 262144 v] digit [of "y * 64 + z" 4096 "v * 64 + x"]
    digit [of z 64 "v * 4096 + x * 64 + y"] assms by (simp_all add: algebra_simps)

text \<open>A byte written as its distance from a base.\<close>

lemma byte_of_unat [simp]: "byte_of (unat b) = b"
  by (simp add: byte_of_def)

lemma unat_byte_of [simp]: "n < 256 \<Longrightarrow> unat (byte_of n) = n"
  by (simp add: byte_of_def unsigned_of_nat take_bit_eq_mod)

lemma byte_of_eq [simp]: "n < 256 \<Longrightarrow> byte_of n = b \<longleftrightarrow> n = unat b"
  using unat_byte_of [of n] by auto

lemma byte_base:
  assumes "in_bytes b lo hi"
  obtains d where "d \<le> hi - lo" "b = byte_of (lo + d)" "lo + d < 256"
  using assms that [of "unat b - lo"] unat_byte [of b] by (auto simp: in_bytes_def)

section \<open>One encoded character\<close>

text \<open>
  The sequences of two, three and four bytes that the decoder accepts, by the digits they carry.
\<close>

definition seq2 :: "nat \<Rightarrow> nat \<Rightarrow> byte list" where
  "seq2 x y = [byte_of (0xC0 + x), byte_of (0x80 + y)]"

definition seq3 :: "nat \<Rightarrow> nat \<Rightarrow> nat \<Rightarrow> byte list" where
  "seq3 x y z = [byte_of (0xE0 + x), byte_of (0x80 + y), byte_of (0x80 + z)]"

definition seq4 :: "nat \<Rightarrow> nat \<Rightarrow> nat \<Rightarrow> nat \<Rightarrow> byte list" where
  "seq4 v x y z = [byte_of (0xF0 + v), byte_of (0x80 + x), byte_of (0x80 + y), byte_of (0x80 + z)]"

definition ok2 :: "nat \<Rightarrow> nat \<Rightarrow> bool" where "ok2 x y \<longleftrightarrow> 2 \<le> x \<and> x < 32 \<and> y < 64"
definition ok3 :: "nat \<Rightarrow> nat \<Rightarrow> nat \<Rightarrow> bool" where
  "ok3 x y z \<longleftrightarrow> x < 16 \<and> y < 64 \<and> z < 64 \<and> (x = 0 \<longrightarrow> 32 \<le> y) \<and> (x = 13 \<longrightarrow> y < 32)"
definition ok4 :: "nat \<Rightarrow> nat \<Rightarrow> nat \<Rightarrow> nat \<Rightarrow> bool" where
  "ok4 v x y z \<longleftrightarrow> v \<le> 4 \<and> x < 64 \<and> y < 64 \<and> z < 64 \<and> (v = 0 \<longrightarrow> 16 \<le> x) \<and> (v = 4 \<longrightarrow> x < 16)"

lemma encode_seq:
  "ok2 x y \<Longrightarrow> is_scalar (x * 64 + y) \<and> 0x80 \<le> x * 64 + y \<and> utf8_encode (x * 64 + y) = seq2 x y"
  "ok3 x y z \<Longrightarrow> is_scalar (x * 4096 + y * 64 + z) \<and> 0x80 \<le> x * 4096 + y * 64 + z \<and>
     utf8_encode (x * 4096 + y * 64 + z) = seq3 x y z"
  "ok4 v x y z \<Longrightarrow> is_scalar (v * 262144 + x * 4096 + y * 64 + z) \<and>
     0x80 \<le> v * 262144 + x * 4096 + y * 64 + z \<and>
     utf8_encode (v * 262144 + x * 4096 + y * 64 + z) = seq4 v x y z"
proof -
  assume "ok2 x y"
  then have b: "2 \<le> x" "x < 32" "y < 64" by (auto simp: ok2_def)
  then have "0x80 \<le> x * 64 + y" "x * 64 + y < 0x800" by linarith+
  with b show "is_scalar (x * 64 + y) \<and> 0x80 \<le> x * 64 + y \<and> utf8_encode (x * 64 + y) = seq2 x y"
    by (simp add: is_scalar_def utf8_encode_def seq2_def)
next
  assume "ok3 x y z"
  then have b: "x < 16" "y < 64" "z < 64" "x = 0 \<longrightarrow> 32 \<le> y" "x = 13 \<longrightarrow> y < 32" by (auto simp: ok3_def)
  let ?c = "x * 4096 + y * 64 + z"
  have lo: "0x800 \<le> ?c" using b by (cases "x = 0") (simp, linarith)
  have hi: "?c < 0x10000" using b by linarith
  have "\<not> (0xD800 \<le> ?c \<and> ?c \<le> 0xDFFF)"
  proof (cases "x = 13")
    case True
    then show ?thesis using b by simp
  next
    case False
    then consider "x \<le> 12" | "14 \<le> x" by linarith
    then show ?thesis using b by cases linarith+
  qed
  with lo hi digits3 [OF b(2,3), of x] b show
    "is_scalar ?c \<and> 0x80 \<le> ?c \<and> utf8_encode ?c = seq3 x y z"
    by (simp add: is_scalar_def utf8_encode_def seq3_def)
next
  assume "ok4 v x y z"
  then have b: "v \<le> 4" "x < 64" "y < 64" "z < 64" "v = 0 \<longrightarrow> 16 \<le> x" "v = 4 \<longrightarrow> x < 16"
    by (auto simp: ok4_def)
  let ?c = "v * 262144 + x * 4096 + y * 64 + z"
  have lo: "0x10000 \<le> ?c" using b by (cases "v = 0") (simp, linarith)
  have hi: "?c < 0x110000"
  proof (cases "v = 4")
    case True
    then show ?thesis using b by simp
  next
    case False
    then have "v \<le> 3" using b by simp
    then show ?thesis using b by linarith
  qed
  have "(v * 4096 + x * 64 + y) mod 64 = y" "(v * 64 + x) mod 64 = x"
    using b digit(2) [of y 64 "v * 64 + x"] by (simp_all add: algebra_simps)
  with lo hi digits4 [OF b(2-4), of v] show
    "is_scalar ?c \<and> 0x80 \<le> ?c \<and> utf8_encode ?c = seq4 v x y z"
    by (simp add: is_scalar_def utf8_encode_def seq4_def)
qed

lemma base_mods:
  "x < 32 \<Longrightarrow> (192 + x) mod 32 = (x::nat)" "y < 64 \<Longrightarrow> (128 + y) mod 64 = (y::nat)"
  "x < 16 \<Longrightarrow> (224 + x) mod 16 = (x::nat)" "x < 8 \<Longrightarrow> (240 + x) mod 8 = (x::nat)"
  using digit(2) [of x 32 6] digit(2) [of y 64 2] digit(2) [of x 16 14] digit(2) [of x 8 30] by simp_all

lemma decode_seq:
  "ok2 x y \<Longrightarrow> decode_utf8_char (seq2 x y @ bs) = (2, Some (x * 64 + y))"
  "ok3 x y z \<Longrightarrow> decode_utf8_char (seq3 x y z @ bs) = (3, Some (x * 4096 + y * 64 + z))"
  "ok4 v x y z \<Longrightarrow> decode_utf8_char (seq4 v x y z @ bs) = (4, Some (v * 262144 + x * 4096 + y * 64 + z))"
proof -
  assume ok: "ok2 x y"
  then have "push_bit 6 x OR y = x * 64 + y" using or_shift [of y 6 x] by (simp add: ok2_def)
  with ok encode_seq(1) [OF ok] show "decode_utf8_char (seq2 x y @ bs) = (2, Some (x * 64 + y))"
    by (simp add: decode_utf8_char_def seq2_def in_bytes_def unat_masks base_mods ok2_def char_from_u32_def)
next
  assume ok: "ok3 x y z"
  have "push_bit 12 x OR push_bit 6 y OR z = x * 4096 + (y * 64 + z)"
    using or_shift [of z 6 y] or_shift [of "y * 64 + z" 12 x] ok by (simp add: ok3_def or.assoc)
  with ok encode_seq(2) [OF ok] show
    "decode_utf8_char (seq3 x y z @ bs) = (3, Some (x * 4096 + y * 64 + z))"
    by (auto simp: decode_utf8_char_def seq3_def in_bytes_def unat_masks base_mods ok3_def char_from_u32_def add.assoc)
next
  assume ok: "ok4 v x y z"
  have "push_bit 18 v OR push_bit 12 x OR push_bit 6 y OR z = v * 262144 + (x * 4096 + (y * 64 + z))"
    using or_shift [of z 6 y] or_shift [of "y * 64 + z" 12 x] or_shift [of "x * 4096 + (y * 64 + z)" 18 v] ok
    by (simp add: ok4_def or.assoc)
  with ok encode_seq(3) [OF ok] show
    "decode_utf8_char (seq4 v x y z @ bs) = (4, Some (v * 262144 + x * 4096 + y * 64 + z))"
    by (auto simp: decode_utf8_char_def seq4_def in_bytes_def unat_masks base_mods ok4_def char_from_u32_def add.assoc)
qed

text \<open>Whatever the decoder accepts is one of these sequences.\<close>

lemma decode_accepts:
  assumes "bs \<noteq> []"
  shows "decode_utf8_char bs = (1, None) \<or> (\<exists>x y r. ok2 x y \<and> bs = seq2 x y @ r) \<or>
    (\<exists>x y z r. ok3 x y z \<and> bs = seq3 x y z @ r) \<or> (\<exists>v x y z r. ok4 v x y z \<and> bs = seq4 v x y z @ r)"
proof -
  obtain b0 tl0 where bs: "bs = b0 # tl0" using assms by (cases bs) auto
  consider "in_bytes b0 0xC2 0xDF" | "in_bytes b0 0xE0 0xEF" | "in_bytes b0 0xF0 0xF4"
    | "\<not> in_bytes b0 0xC2 0xDF" "\<not> in_bytes b0 0xE0 0xEF" "\<not> in_bytes b0 0xF0 0xF4" by blast
  then show ?thesis
  proof cases
    case 1
    show ?thesis
    proof (cases "\<exists>b1 r. tl0 = b1 # r \<and> in_bytes b1 0x80 0xBF")
      case True
      then obtain b1 r where tl0: "tl0 = b1 # r" "in_bytes b1 0x80 0xBF" by blast
      have "ok2 (unat b0 - 0xC0) (unat b1 - 0x80)" "bs = seq2 (unat b0 - 0xC0) (unat b1 - 0x80) @ r"
        using 1 tl0 bs by (auto simp: ok2_def seq2_def in_bytes_def)
      then show ?thesis by blast
    next
      case False
      then have "decode_utf8_char bs = (1, None)"
        using 1 bs by (auto simp: decode_utf8_char_def split: list.split)
      then show ?thesis by blast
    qed
  next
    case 2
    let ?ok = "\<lambda>b1. if b0 = 0xE0 then in_bytes b1 0xA0 0xBF else if b0 = 0xED then in_bytes b1 0x80 0x9F
      else in_bytes b1 0x80 0xBF"
    have no2: "\<not> in_bytes b0 0xC2 0xDF" using 2 by (simp add: in_bytes_def)
    show ?thesis
    proof (cases "\<exists>b1 b2 r. tl0 = b1 # b2 # r \<and> ?ok b1 \<and> in_bytes b2 0x80 0xBF")
      case True
      then obtain b1 b2 r where tl0: "tl0 = b1 # b2 # r" "?ok b1" "in_bytes b2 0x80 0xBF" by blast
      have "b0 = 0xE0 \<longleftrightarrow> unat b0 = 0xE0" "b0 = 0xED \<longleftrightarrow> unat b0 = 0xED" by (simp_all add: word_unat_eq_iff)
      then have "ok3 (unat b0 - 0xE0) (unat b1 - 0x80) (unat b2 - 0x80)"
        "bs = seq3 (unat b0 - 0xE0) (unat b1 - 0x80) (unat b2 - 0x80) @ r"
        using 2 tl0 bs by (auto simp: ok3_def seq3_def in_bytes_def split: if_splits)
      then show ?thesis by blast
    next
      case False
      then have "decode_utf8_char bs = (1, None)"
        using 2 no2 bs by (auto simp: decode_utf8_char_def split: list.split)
      then show ?thesis by blast
    qed
  next
    case 3
    let ?ok = "\<lambda>b1. if b0 = 0xF0 then in_bytes b1 0x90 0xBF else if b0 = 0xF4 then in_bytes b1 0x80 0x8F
      else in_bytes b1 0x80 0xBF"
    have no: "\<not> in_bytes b0 0xC2 0xDF" "\<not> in_bytes b0 0xE0 0xEF" using 3 by (simp_all add: in_bytes_def)
    show ?thesis
    proof (cases "\<exists>b1 b2 b3 r. tl0 = b1 # b2 # b3 # r \<and> ?ok b1 \<and> in_bytes b2 0x80 0xBF \<and> in_bytes b3 0x80 0xBF")
      case True
      then obtain b1 b2 b3 r where tl0: "tl0 = b1 # b2 # b3 # r" "?ok b1" "in_bytes b2 0x80 0xBF"
        "in_bytes b3 0x80 0xBF" by blast
      have "b0 = 0xF0 \<longleftrightarrow> unat b0 = 0xF0" "b0 = 0xF4 \<longleftrightarrow> unat b0 = 0xF4" by (simp_all add: word_unat_eq_iff)
      then have "ok4 (unat b0 - 0xF0) (unat b1 - 0x80) (unat b2 - 0x80) (unat b3 - 0x80)"
        "bs = seq4 (unat b0 - 0xF0) (unat b1 - 0x80) (unat b2 - 0x80) (unat b3 - 0x80) @ r"
        using 3 tl0 bs by (auto simp: ok4_def seq4_def in_bytes_def split: if_splits)
      then show ?thesis by blast
    next
      case False
      then have "decode_utf8_char bs = (1, None)"
        using 3 no bs by (auto simp: decode_utf8_char_def split: list.split)
      then show ?thesis by blast
    qed
  next
    case 4
    then have "decode_utf8_char bs = (1, None)" using bs by (simp add: decode_utf8_char_def)
    then show ?thesis by blast
  qed
qed

lemma seq_lens: "length (seq2 x y) = 2" "length (seq3 x y z) = 3" "length (seq4 v x y z) = 4"
  by (simp_all add: seq2_def seq3_def seq4_def)

lemma length_utf8_encode: "length (utf8_encode c) = len_utf8 c"
  by (simp add: utf8_encode_def len_utf8_def)

lemma decode_sound:
  assumes "decode_utf8_char bs = (n, Some c)"
  shows "is_scalar c" "0x80 \<le> c" "\<exists>r. bs = utf8_encode c @ r" "n = len_utf8 c"
proof -
  have ne: "bs \<noteq> []" using assms by (auto simp: decode_utf8_char_def)
  from decode_accepts [OF ne] assms consider x y r where "ok2 x y" "bs = seq2 x y @ r"
    | x y z r where "ok3 x y z" "bs = seq3 x y z @ r" | v x y z r where "ok4 v x y z" "bs = seq4 v x y z @ r"
    by fastforce
  then have "is_scalar c \<and> 0x80 \<le> c \<and> (\<exists>r. bs = utf8_encode c @ r) \<and> n = length (utf8_encode c)"
  proof cases
    case (1 x y r)
    with assms encode_seq(1) [OF 1(1)] decode_seq(1) [OF 1(1), of r] show ?thesis by (auto simp: seq_lens)
  next
    case (2 x y z r)
    with assms encode_seq(2) [OF 2(1)] decode_seq(2) [OF 2(1), of r] show ?thesis by (auto simp: seq_lens)
  next
    case (3 v x y z r)
    with assms encode_seq(3) [OF 3(1)] decode_seq(3) [OF 3(1), of r] show ?thesis by (auto simp: seq_lens)
  qed
  then show "is_scalar c" "0x80 \<le> c" "\<exists>r. bs = utf8_encode c @ r" "n = len_utf8 c"
    by (auto simp: length_utf8_encode)
qed

lemma scalar_digits:
  assumes "is_scalar c" and "0x80 \<le> c"
  shows "(\<exists>x y. ok2 x y \<and> c = x * 64 + y) \<or> (\<exists>x y z. ok3 x y z \<and> c = x * 4096 + y * 64 + z) \<or>
      (\<exists>v x y z. ok4 v x y z \<and> c = v * 262144 + x * 4096 + y * 64 + z)"
proof -
  have sc: "c < 0x110000" "\<not> (0xD800 \<le> c \<and> c \<le> 0xDFFF)" using assms(1) by (auto simp: is_scalar_def)
  define z where "z = c mod 64"
  define y where "y = c div 64 mod 64"
  define x where "x = c div 4096 mod 64"
  define v where "v = c div 262144"
  have z: "c = c div 64 * 64 + z" "z < 64" by (simp_all add: z_def)
  have y: "c div 64 = c div 4096 * 64 + y" "y < 64"
    using div_mult_mod_eq [of "c div 64" 64] by (simp_all add: y_def flip: div_mult2_eq)
  have x: "c div 4096 = v * 64 + x" "x < 64"
    using div_mult_mod_eq [of "c div 4096" 64] by (simp_all add: x_def v_def flip: div_mult2_eq)
  consider "c < 0x800" | "0x800 \<le> c" "c < 0x10000" | "0x10000 \<le> c" by linarith
  then show ?thesis
  proof cases
    case 1
    with z assms(2) have "ok2 (c div 64) z" by (simp add: ok2_def)
    with z show ?thesis by blast
  next
    case 2
    have c: "c = c div 4096 * 4096 + y * 64 + z" using z y by simp
    have "c div 4096 < 16" using 2 by simp
    then have "ok3 (c div 4096) y z" using c 2 y z sc(2) by (auto simp: ok3_def)
    with c show ?thesis by blast
  next
    case 3
    have c: "c = v * 262144 + x * 4096 + y * 64 + z" using z(1) y(1) x(1) by simp
    have "v \<le> 4" using sc(1) c by linarith
    then have "ok4 v x y z" using c 3 x y z sc(1) by (auto simp: ok4_def)
    with c show ?thesis by blast
  qed
qed

lemma decode_complete:
  assumes "is_scalar c" and "0x80 \<le> c"
  shows "decode_utf8_char (utf8_encode c @ r) = (len_utf8 c, Some c)"
  using scalar_digits [OF assms] encode_seq decode_seq seq_lens
  by (fastforce simp flip: length_utf8_encode)

lemma decode_none: "bs \<noteq> [] \<Longrightarrow> decode_utf8_char bs = (n, None) \<Longrightarrow> n = 1"
  using decode_accepts [of bs] decode_seq by fastforce

section \<open>Encoded text\<close>

text \<open>\<open>str::encode_utf16\<close> as bytes of either order.\<close>

definition unit_bytes :: "bool \<Rightarrow> nat \<Rightarrow> byte list" where
  "unit_bytes le v =
     (if le then [byte_of (v mod 256), byte_of (v div 256)] else [byte_of (v div 256), byte_of (v mod 256)])"

definition utf16_encode :: "bool \<Rightarrow> uchar \<Rightarrow> byte list" where
  "utf16_encode le c =
     (if c < 0x10000 then unit_bytes le c
      else unit_bytes le (0xD800 + (c - 0x10000) div 1024) @ unit_bytes le (0xDC00 + (c - 0x10000) mod 1024))"

definition encode_text :: "detected_encoding \<Rightarrow> uchar list \<Rightarrow> byte list" where
  "encode_text enc str = (case enc of
     Utf8 _ \<Rightarrow> concat (map utf8_encode str) | Utf16Le \<Rightarrow> concat (map (utf16_encode True) str)
   | Utf16Be \<Rightarrow> concat (map (utf16_encode False) str) | Unsupported \<Rightarrow> [])"

definition bom_bytes :: "detected_encoding \<Rightarrow> byte list" where
  "bom_bytes enc = (case enc of
     Utf8 has_bom \<Rightarrow> if has_bom then [0xEF, 0xBB, 0xBF] else [] | Utf16Le \<Rightarrow> [0xFF, 0xFE]
   | Utf16Be \<Rightarrow> [0xFE, 0xFF] | Unsupported \<Rightarrow> [])"

lemma decode_ascii: "unat b < 0x80 \<Longrightarrow> decode_utf8_char (b # bs) = (1, None)"
  by (simp add: decode_utf8_char_def in_bytes_def)

lemma utf8_units_char:
  assumes "is_scalar c"
  shows "\<exists>n k. utf8_units (utf8_encode c @ r) = (n, [c], k) # utf8_units r \<and> k \<noteq> ReplacementMalformed"
proof (cases "c < 0x80")
  case True
  then have "utf8_encode c @ r = byte_of c # r" by (simp add: utf8_encode_def)
  with True show ?thesis by (simp add: utf8_units.simps(2))
next
  case False
  then obtain b bs where b: "utf8_encode c @ r = b # bs"
    using length_utf8_encode [of c] len_utf8_pos [of c] by (cases "utf8_encode c") (auto simp del: len_utf8_pos)
  have d: "decode_utf8_char (b # bs) = (len_utf8 c, Some c)"
    using decode_complete [OF assms, of r] False b by simp
  then have "\<not> unat b < 0x80" using decode_ascii [of b bs] by auto
  moreover have "drop (len_utf8 c) (b # bs) = r" unfolding b [symmetric] length_utf8_encode [symmetric] by simp
  ultimately show ?thesis unfolding b using d by (simp add: utf8_units.simps(2))
qed

lemma unit_bytes_read: "v < 0x10000 \<Longrightarrow> \<exists>x y. unit_bytes le v = [x, y] \<and> u16_unit le x y = v"
  using mult_div_mod_eq [of 256 v] by (auto simp: unit_bytes_def u16_unit_def simp del: byte_of_eq)

lemma utf16_units_char:
  assumes "is_scalar c"
  shows "\<exists>n k. utf16_units le (utf16_encode le c @ r) = (n, [c], k) # utf16_units le r \<and> k \<noteq> ReplacementMalformed"
proof (cases "c < 0x10000")
  case True
  then obtain x y where "unit_bytes le c = [x, y]" "u16_unit le x y = c" using unit_bytes_read [of c le] by blast
  with True assms show ?thesis
    by (auto simp: utf16_encode_def utf16_units.simps(3) Let_def is_high_def is_low_def is_scalar_def char_from_u32_def)
next
  case False
  let ?hi = "0xD800 + (c - 0x10000) div 1024" and ?lo = "0xDC00 + (c - 0x10000) mod 1024"
  have c: "c < 0x110000" using assms by (simp add: is_scalar_def)
  then have hi: "?hi \<le> 0xDBFF" and lo: "?lo \<le> 0xDFFF" by simp_all
  obtain x y where xy: "unit_bytes le ?hi = [x, y]" "u16_unit le x y = ?hi"
    using unit_bytes_read [of ?hi le] hi by auto
  obtain z w where zw: "unit_bytes le ?lo = [z, w]" "u16_unit le z w = ?lo"
    using unit_bytes_read [of ?lo le] lo by auto
  have "0x10000 + push_bit 10 (?hi - 0xD800) + (?lo - 0xDC00) = c"
    using False mult_div_mod_eq [of 1024 "c - 0x10000"] by (simp add: push_bit_eq_mult)
  then have "pair_char le (x # y # z # w # r) = Some c"
    using xy(2) zw(2) hi lo assms by (simp add: is_high_def is_low_def char_from_u32_def)
  moreover have "\<not> ?hi < 0x80" "is_high ?hi" using hi by (auto simp: is_high_def)
  ultimately show ?thesis
    using False xy zw by (simp add: utf16_encode_def utf16_units.simps(3) Let_def)
qed

lemma body_units_text:
  assumes "\<forall>c\<in>set str. is_scalar c" and "enc \<noteq> Unsupported"
  shows "concat (map u_chars (body_units enc (encode_text enc str))) = str"
    "\<forall>u\<in>set (body_units enc (encode_text enc str)). u_kind u \<noteq> ReplacementMalformed"
proof -
  have "concat (map u_chars (body_units enc (encode_text enc str))) = str \<and>
    (\<forall>u\<in>set (body_units enc (encode_text enc str)). u_kind u \<noteq> ReplacementMalformed)"
    using assms(1)
  proof (induction str)
    case Nil
    then show ?case by (cases enc) (simp_all add: encode_text_def body_units_def escaped_units_def)
  next
    case (Cons c str)
    then have sc: "is_scalar c" by simp
    have "\<exists>n k. body_units enc (encode_text enc (c # str)) = (n, [c], k) # body_units enc (encode_text enc str) \<and>
        k \<noteq> ReplacementMalformed"
      using utf8_units_char [OF sc] utf16_units_char [OF sc] assms(2)
      by (cases enc) (simp_all add: body_units_def encode_text_def)
    with Cons show ?case by (auto simp: u_chars_def u_kind_def)
  qed
  then show "concat (map u_chars (body_units enc (encode_text enc str))) = str"
    "\<forall>u\<in>set (body_units enc (encode_text enc str)). u_kind u \<noteq> ReplacementMalformed" by auto
qed

lemma units_of_text:
  assumes "enc \<noteq> Unsupported"
  shows "units_of enc 0 (bom_bytes enc @ bs) =
    (if enc = Utf8 False then [] else [(bom_bytes_len enc, [], BomHeader)]) @ body_units enc bs"
proof -
  have "bom_units enc 0 (bom_bytes enc @ bs) =
      (if enc = Utf8 False then [] else [(bom_bytes_len enc, [], BomHeader)])"
    using assms by (cases enc) (auto simp: bom_units_def bom_bytes_def starts_with_def)
  moreover have "length (bom_bytes enc) = bom_bytes_len enc"
    by (cases enc) (simp_all add: bom_bytes_def bom_bytes_len_def)
  ultimately show ?thesis using assms
    by (cases enc) (auto simp: units_of_def u_raw_def bom_bytes_len_def bom_bytes_def)
qed

lemma detect_bom: "enc \<noteq> Unsupported \<Longrightarrow> enc \<noteq> Utf8 False \<Longrightarrow> detect_encoding (bom_bytes enc @ bs) = enc"
  by (cases enc) (auto simp: detect_encoding_def bom_bytes_def starts_with_def)

section \<open>Properties\<close>

text \<open>
  C11: The UTF-8 decoder of the multi-byte branch accepts exactly the standard encodings of the scalar
  values from U+0080 on, at the front of its input: overlong forms, encoded surrogates, values past
  U+10FFFF and truncated sequences are refused. So is an ASCII byte, which \<open>build_utf8\<close> takes before it
  asks this decoder. An acceptance consumes the character's length, a refusal exactly one byte, and only
  an empty input consumes nothing.
\<close>

theorem utf8_decoder_exact:
  "decode_utf8_char bs = (n, ch) \<longleftrightarrow> (case ch of
      Some c \<Rightarrow> is_scalar c \<and> 0x80 \<le> c \<and> n = len_utf8 c \<and> (\<exists>r. bs = utf8_encode c @ r)
    | None \<Rightarrow> n = (if bs = [] then 0 else 1) \<and> \<not> (\<exists>c r. is_scalar c \<and> 0x80 \<le> c \<and> bs = utf8_encode c @ r))"
proof (cases ch)
  case (Some c)
  then show ?thesis using decode_sound [of bs n c] decode_complete [of c] by auto
next
  case None
  have "n = (if bs = [] then 0 else 1) \<and> \<not> (\<exists>c r. is_scalar c \<and> 0x80 \<le> c \<and> bs = utf8_encode c @ r)"
    if d: "decode_utf8_char bs = (n, None)"
  proof (intro conjI notI)
    show "n = (if bs = [] then 0 else 1)" using d decode_none [of bs n] by (auto simp: decode_utf8_char_def)
    assume "\<exists>c r. is_scalar c \<and> 0x80 \<le> c \<and> bs = utf8_encode c @ r"
    then obtain c r where c: "is_scalar c" "0x80 \<le> c" "bs = utf8_encode c @ r" by blast
    from decode_complete [OF c(1,2), of r] d show False unfolding c(3) by simp
  qed
  moreover have "decode_utf8_char bs = (if bs = [] then 0 else 1, None)"
    if "\<not> (\<exists>c r. is_scalar c \<and> 0x80 \<le> c \<and> bs = utf8_encode c @ r)"
  proof -
    obtain m ch' where d: "decode_utf8_char bs = (m, ch')" by fastforce
    have "ch' = None"
    proof (rule ccontr)
      assume "ch' \<noteq> None"
      then obtain c where "decode_utf8_char bs = (m, Some c)" using d by auto
      from decode_sound(1-3) [OF this] that show False by blast
    qed
    with d decode_none [of bs m] show ?thesis by (auto simp: decode_utf8_char_def)
  qed
  ultimately show ?thesis using None by auto
qed

theorem utf8_decoder_exact_witness:
  "decode_utf8_char [0xC3, 0xA9, 0x21] = (2, Some 0xE9)"
proof -
  have "utf8_encode 0xE9 = [0xC3, 0xA9]" by (simp add: utf8_encode_def byte_of_def)
  moreover have "is_scalar 0xE9" "len_utf8 0xE9 = 2" by (simp_all add: is_scalar_def len_utf8_def)
  ultimately show ?thesis
    using utf8_decoder_exact [of "[0xC3, 0xA9, 0x21]" 2 "Some 0xE9"] by simp
qed

text \<open>
  C25: Text survives: the UTF-8 and UTF-16 encodings of any text, with the byte order mark the
  encoding calls for, decode to exactly that text without a replacement character, and the encodings
  that carry a mark are detected from it.
\<close>

theorem text_decodes_exactly:
  assumes "\<forall>c\<in>set str. is_scalar c" and "enc \<noteq> Unsupported"
    and "fits (acc_new 0 0 0 0) (units_of enc 0 (bom_bytes enc @ encode_text enc str))"
  shows "\<exists>m. build_with_encoding (bom_bytes enc @ encode_text enc str) enc = Inr m \<and> em_text m = str \<and>
    ReplacementMalformed \<notin> sp_kind ` set (em_spans m) \<and>
    (enc = Utf8 False \<or> build (bom_bytes enc @ encode_text enc str) = Inr m)"
proof -
  let ?bs = "bom_bytes enc @ encode_text enc str"
  let ?us = "units_of enc 0 ?bs"
  have "bases_fit 0 0 0 0" by (simp add: bases_fit_def)
  from build_builds [OF this, of enc ?bs] assms(3) obtain a where
    a: "build_with_encoding ?bs enc = Inr (finish_map enc 0 0 0 0 a)"
      "extends (unit_width enc) (acc_new 0 0 0 0) ?us a"
    by (auto simp: builds_def build_with_encoding_def)
  have chars: "concat (map u_chars ?us) = str"
    using units_of_text [OF assms(2), of "encode_text enc str"] body_units_text(1) [OF assms(1,2)]
    by (simp add: u_chars_def)
  have kinds: "\<forall>u\<in>set ?us. u_kind u \<noteq> ReplacementMalformed"
    using units_of_text [OF assms(2), of "encode_text enc str"] body_units_text(2) [OF assms(1,2)]
    by (auto simp: u_kind_def)
  from a(2) obtain parts where parts: "concat parts = ?us" "list_all2 (part_ok (unit_width enc)) (ea_spans a) parts"
    by (auto simp: extends_def spans_between_def acc_new_def)
  have "ReplacementMalformed \<notin> sp_kind ` set (ea_spans a)"
  proof
    assume "ReplacementMalformed \<in> sp_kind ` set (ea_spans a)"
    then obtain i where i: "i < length (ea_spans a)" "sp_kind (ea_spans a ! i) = ReplacementMalformed"
      by (auto simp: in_set_conv_nth)
    then have ok: "part_ok (unit_width enc) (ea_spans a ! i) (parts ! i)" "i < length parts"
      using parts(2) by (auto simp: list_all2_conv_all_nth)
    then obtain u where "u \<in> set (parts ! i)" "u_kind u = ReplacementMalformed"
      using i(2) by (auto simp: part_ok_def neq_Nil_conv)
    moreover have "u \<in> set ?us" using calculation ok(2) parts(1) by (metis nth_mem set_concat UN_I)
    ultimately show False using kinds by blast
  qed
  moreover have "em_text (finish_map enc 0 0 0 0 a) = str"
    using a(2) chars by (simp add: extends_def moves_def finish_map_def acc_new_def)
  moreover have "enc = Utf8 False \<or> build ?bs = build_with_encoding ?bs enc"
    using detect_bom [OF assms(2), of "encode_text enc str"] by (cases "enc = Utf8 False") (simp_all add: build_def)
  ultimately show ?thesis using a(1) by (intro exI [of _ "finish_map enc 0 0 0 0 a"]) (auto simp: finish_map_def)
qed

theorem text_decodes_exactly_witness:
  "\<exists>m. build [0xFF, 0xFE, 0x3D, 0xD8, 0x00, 0xDE] = Inr m \<and> em_text m = [0x1F600]"
proof -
  have bytes: "bom_bytes Utf16Le @ encode_text Utf16Le [0x1F600] = [0xFF, 0xFE, 0x3D, 0xD8, 0x00, 0xDE]"
    by (simp add: bom_bytes_def encode_text_def utf16_encode_def unit_bytes_def byte_of_def)
  have units: "units_of Utf16Le 0 [0xFF, 0xFE, 0x3D, 0xD8, 0x00, 0xDE] =
      [(2, [], BomHeader), (4, [0x1F600], SurrogatePair)]"
    by (simp add: units_of_def bom_units_def body_units_def starts_with_def bom_bytes_len_def u_raw_def
        utf16_units.simps(3) u16_unit_def is_high_def is_low_def char_from_u32_def is_scalar_def push_bit_eq_mult)
  have "fits (acc_new 0 0 0 0) (units_of Utf16Le 0 (bom_bytes Utf16Le @ encode_text Utf16Le [0x1F600]))"
    unfolding bytes units by (simp add: fits_def acc_new_def unit_simps len_utf8_def len_utf16_def u64_max_val)
  from text_decodes_exactly [OF _ _ this] show ?thesis
    unfolding bytes by (auto simp: is_scalar_def)
qed

end
