(* ===== verification/Encoding_Map.thy ===== *)
theory Encoding_Map
  imports Utf8_Codec
begin

text \<open>
  \<open>crates/fcb-source/src/encoding.rs\<close>, second part: the translations of \<open>CaptureEncodingMap\<close> between
  raw bytes, decoded UTF-8, UTF-16 code units and scalars, the range translations and the copy
  operations. The four \<open>find_span_by_*\<close> routines are one definition over the start and end of the
  domain. A \<open>&str\<close> is its list of scalars; \<open>is_char_boundary\<close> and slicing of a string are the
  standard library's.
\<close>

section \<open>The translations\<close>

definition find_span ::
  "(mapping_span \<Rightarrow> nat) \<Rightarrow> (mapping_span \<Rightarrow> nat) \<Rightarrow> mapping_span list \<Rightarrow> nat \<Rightarrow> mapping_span option" where
  "find_span st en spans v =
     (if spans = [] then None
      else let idx = partition_point (\<lambda>s. st s \<le> v) spans in
        if 0 < idx \<and> v \<le> en (spans ! (idx - 1)) then Some (spans ! (idx - 1))
        else if idx < length spans \<and> st (spans ! idx) = v then Some (spans ! idx)
        else None)"

definition find_span_by_decoded :: "encoding_map \<Rightarrow> nat \<Rightarrow> mapping_span option" where
  "find_span_by_decoded m v = find_span sp_dec decoded_end (em_spans m) v"
definition find_span_by_raw :: "encoding_map \<Rightarrow> nat \<Rightarrow> mapping_span option" where
  "find_span_by_raw m v = find_span sp_raw raw_end (em_spans m) v"
definition find_span_by_utf16 :: "encoding_map \<Rightarrow> nat \<Rightarrow> mapping_span option" where
  "find_span_by_utf16 m v = find_span sp_u16 utf16_end (em_spans m) v"
definition find_span_by_scalar :: "encoding_map \<Rightarrow> nat \<Rightarrow> mapping_span option" where
  "find_span_by_scalar m v = find_span sp_sca scalar_end (em_spans m) v"

definition decoded_utf8_to_byte_offset :: "encoding_map \<Rightarrow> nat \<Rightarrow> source_error + nat" where
  "decoded_utf8_to_byte_offset m v =
     (if v < em_base_dec m \<or> v > em_base_dec m + em_dec m then Inl RangeOutOfBounds
      else if v = em_base_dec m + em_dec m then Inr (em_base_raw m + em_raw m)
      else and_then (ok_or RangeOutOfBounds (find_span_by_decoded m v)) (\<lambda>s.
        case sp_kind s of
          AsciiRun \<Rightarrow>
            let delta = v - sp_dec s in
            if is_utf16 (em_encoding m) then Inr (sp_raw s + delta * 2) else Inr (sp_raw s + delta)
        | EscapedByte \<Rightarrow>
            if 4 dvd (v - sp_dec s) then Inr (sp_raw s) else Inl SourceInvalidUtf8Boundary
        | BomHeader \<Rightarrow> Inr (raw_end s)
        | _ \<Rightarrow>
            if v = sp_dec s then Inr (sp_raw s)
            else if v = decoded_end s then Inr (raw_end s)
            else Inl SourceInvalidUtf8Boundary))"

definition byte_to_decoded_utf8_offset :: "encoding_map \<Rightarrow> nat \<Rightarrow> source_error + nat" where
  "byte_to_decoded_utf8_offset m v =
     (if v < em_base_raw m \<or> v > em_base_raw m + em_raw m then Inl RangeOutOfBounds
      else if v = em_base_raw m + em_raw m then Inr (em_base_dec m + em_dec m)
      else and_then (ok_or RangeOutOfBounds (find_span_by_raw m v)) (\<lambda>s.
        case sp_kind s of
          BomHeader \<Rightarrow> Inr (sp_dec s)
        | AsciiRun \<Rightarrow>
            let delta = v - sp_raw s in
            if is_utf16 (em_encoding m) then
              (if \<not> 2 dvd delta then Inl SourceInvalidUtf16 else Inr (sp_dec s + delta div 2))
            else Inr (sp_dec s + delta)
        | ReplacementMalformed \<Rightarrow>
            if v = sp_raw s then Inr (sp_dec s)
            else if v = raw_end s then Inr (decoded_end s)
            else Inl EncodingError
        | EscapedByte \<Rightarrow> Inr (sp_dec s + (v - sp_raw s) * 4)
        | _ \<Rightarrow>
            if v = sp_raw s then Inr (sp_dec s)
            else if v = raw_end s then Inr (decoded_end s)
            else if is_utf16 (em_encoding m) then Inl SourceInvalidUtf16
            else Inl SourceInvalidUtf8Boundary))"

definition utf16_to_byte_offset :: "encoding_map \<Rightarrow> nat \<Rightarrow> source_error + nat" where
  "utf16_to_byte_offset m v =
     (if v = native_not_found then Inl SourceNativeSentinel
      else if v < em_base_u16 m \<or> v > em_base_u16 m + em_u16 m then Inl RangeOutOfBounds
      else if v = em_base_u16 m + em_u16 m then Inr (em_base_raw m + em_raw m)
      else and_then (ok_or RangeOutOfBounds (find_span_by_utf16 m v)) (\<lambda>s.
        case sp_kind s of
          AsciiRun \<Rightarrow>
            let delta = v - sp_u16 s in
            if is_utf16 (em_encoding m) then Inr (sp_raw s + delta * 2) else Inr (sp_raw s + delta)
        | BomHeader \<Rightarrow> Inr (raw_end s)
        | _ \<Rightarrow>
            if v = sp_u16 s then Inr (sp_raw s)
            else if v = utf16_end s then Inr (raw_end s)
            else Inl SourceInvalidUtf16))"

definition byte_to_utf16_offset :: "encoding_map \<Rightarrow> nat \<Rightarrow> source_error + nat" where
  "byte_to_utf16_offset m v =
     (if v < em_base_raw m \<or> v > em_base_raw m + em_raw m then Inl RangeOutOfBounds
      else if v = em_base_raw m + em_raw m then Inr (em_base_u16 m + em_u16 m)
      else and_then (ok_or RangeOutOfBounds (find_span_by_raw m v)) (\<lambda>s.
        case sp_kind s of
          BomHeader \<Rightarrow> Inr (sp_u16 s)
        | AsciiRun \<Rightarrow>
            let delta = v - sp_raw s in
            if is_utf16 (em_encoding m) then
              (if \<not> 2 dvd delta then Inl SourceInvalidUtf16 else Inr (sp_u16 s + delta div 2))
            else Inr (sp_u16 s + delta)
        | ReplacementMalformed \<Rightarrow>
            if v = sp_raw s then Inr (sp_u16 s)
            else if v = raw_end s then Inr (utf16_end s)
            else Inl EncodingError
        | EscapedByte \<Rightarrow> Inr (sp_u16 s + (v - sp_raw s) * 4)
        | _ \<Rightarrow>
            if v = sp_raw s then Inr (sp_u16 s)
            else if v = raw_end s then Inr (utf16_end s)
            else if is_utf16 (em_encoding m) then Inl SourceInvalidUtf16
            else Inl SourceInvalidUtf8Boundary))"

definition scalar_to_byte_offset :: "encoding_map \<Rightarrow> nat \<Rightarrow> source_error + nat" where
  "scalar_to_byte_offset m v =
     (if v < em_base_sca m \<or> v > em_base_sca m + em_sca m then Inl RangeOutOfBounds
      else if v = em_base_sca m + em_sca m then Inr (em_base_raw m + em_raw m)
      else and_then (ok_or RangeOutOfBounds (find_span_by_scalar m v)) (\<lambda>s.
        case sp_kind s of
          AsciiRun \<Rightarrow>
            let delta = v - sp_sca s in
            if is_utf16 (em_encoding m) then Inr (sp_raw s + delta * 2) else Inr (sp_raw s + delta)
        | _ \<Rightarrow> if v = sp_sca s then Inr (sp_raw s) else Inr (raw_end s)))"

definition byte_to_scalar_index :: "encoding_map \<Rightarrow> nat \<Rightarrow> source_error + nat" where
  "byte_to_scalar_index m v =
     (if v < em_base_raw m \<or> v > em_base_raw m + em_raw m then Inl RangeOutOfBounds
      else if v = em_base_raw m + em_raw m then Inr (em_base_sca m + em_sca m)
      else and_then (ok_or RangeOutOfBounds (find_span_by_raw m v)) (\<lambda>s.
        case sp_kind s of
          BomHeader \<Rightarrow> Inr (sp_sca s)
        | AsciiRun \<Rightarrow>
            let delta = v - sp_raw s in
            if is_utf16 (em_encoding m) then
              (if \<not> 2 dvd delta then Inl SourceInvalidUtf16 else Inr (sp_sca s + delta div 2))
            else Inr (sp_sca s + delta)
        | ReplacementMalformed \<Rightarrow>
            if v = sp_raw s then Inr (sp_sca s)
            else if v = raw_end s then Inr (scalar_end s)
            else Inl EncodingError
        | EscapedByte \<Rightarrow> Inr (sp_sca s + (v - sp_raw s) * 4)
        | _ \<Rightarrow>
            if v = sp_raw s then Inr (sp_sca s)
            else if v = raw_end s then Inr (scalar_end s)
            else if is_utf16 (em_encoding m) then Inl SourceInvalidUtf16
            else Inl SourceInvalidUtf8Boundary))"

section \<open>Ranges and copies\<close>

definition decoded_utf8_range_to_byte_range :: "encoding_map \<Rightarrow> byte_range \<Rightarrow> source_error + byte_range" where
  "decoded_utf8_range_to_byte_range m r =
     and_then (decoded_utf8_to_byte_offset m (range_start r)) (\<lambda>s.
     and_then (decoded_utf8_to_byte_offset m (range_end r)) (\<lambda>e.
     map_err from_core_error (range_new s e)))"

definition byte_range_to_decoded_utf8_range :: "encoding_map \<Rightarrow> byte_range \<Rightarrow> source_error + byte_range" where
  "byte_range_to_decoded_utf8_range m r =
     and_then (byte_to_decoded_utf8_offset m (range_start r)) (\<lambda>s.
     and_then (byte_to_decoded_utf8_offset m (range_end r)) (\<lambda>e.
     map_err from_core_error (range_new s e)))"

definition native_nsrange_to_byte_range :: "encoding_map \<Rightarrow> nat \<Rightarrow> nat \<Rightarrow> source_error + byte_range" where
  "native_nsrange_to_byte_range m location len =
     (if location = native_not_found then Inl SourceNativeSentinel
      else
        and_then (ok_or RangeOutOfBounds (checked_add location len)) (\<lambda>end_u16.
        and_then (map_err from_core_error (utf16_from_native location)) (\<lambda>start_cu.
        and_then (map_err from_core_error (utf16_from_native end_u16)) (\<lambda>end_cu.
        and_then (utf16_to_byte_offset m start_cu) (\<lambda>s.
        and_then (utf16_to_byte_offset m end_cu) (\<lambda>e.
        map_err from_core_error (range_new s e)))))))"

definition byte_range_to_native_nsrange :: "encoding_map \<Rightarrow> byte_range \<Rightarrow> source_error + nat \<times> nat" where
  "byte_range_to_native_nsrange m r =
     and_then (byte_to_utf16_offset m (range_start r)) (\<lambda>s.
     and_then (byte_to_utf16_offset m (range_end r)) (\<lambda>e.
     and_then (ok_or InvalidRange (checked_sub e s)) (\<lambda>len. Inr (s, len))))"

definition copy_original_bytes :: "byte list \<Rightarrow> byte_range \<Rightarrow> source_error + byte list" where
  "copy_original_bytes raw r =
     (if range_start r \<le> range_end r \<and> range_end r \<le> length raw
      then Inr (slice raw (range_start r) (range_end r)) else Inl RangeOutOfBounds)"

text \<open>The scalars of a string between two character boundaries of its UTF-8 form.\<close>

definition boundary_index :: "uchar list \<Rightarrow> nat \<Rightarrow> nat" where
  "boundary_index str off = length (takeWhile (\<lambda>n. utf8_upto str n < off) [0..<Suc (length str)])"

definition str_slice :: "uchar list \<Rightarrow> nat \<Rightarrow> nat \<Rightarrow> uchar list" where
  "str_slice str s e = slice str (boundary_index str s) (boundary_index str e)"

definition copy_unicode_text :: "encoding_map \<Rightarrow> byte_range \<Rightarrow> source_error + uchar list" where
  "copy_unicode_text m r =
     and_then (ok_or RangeOutOfBounds (checked_sub (range_start r) (em_base_dec m))) (\<lambda>s.
     and_then (ok_or RangeOutOfBounds (checked_sub (range_end r) (em_base_dec m))) (\<lambda>e.
     let len = utf8_upto (em_text m) (length (em_text m)) in
     if s > len \<or> e > len \<or> s > e then Inl RangeOutOfBounds
     else if \<not> is_char_boundary (em_text m) s \<or> \<not> is_char_boundary (em_text m) e
     then Inl SourceInvalidUtf8Boundary
     else Inr (str_slice (em_text m) s e)))"

definition copy_escaped_display :: "byte list \<Rightarrow> byte_range \<Rightarrow> source_error + uchar list" where
  "copy_escaped_display raw r =
     and_then (copy_original_bytes raw r) (\<lambda>bytes. Inr (concat (map escape_byte bytes)))"

section \<open>The span of a position\<close>

text \<open>In a contiguous domain the search returns the span that contains the position.\<close>

fun seek :: "(mapping_span \<Rightarrow> nat) \<Rightarrow> (mapping_span \<Rightarrow> nat) \<Rightarrow> mapping_span list \<Rightarrow> nat \<Rightarrow> mapping_span option" where
  "seek st ln [] v = None"
| "seek st ln (s # ss) v = (if v < st s + ln s then Some s else seek st ln ss v)"

lemma contiguous_le: "contiguous st ln p ss q \<Longrightarrow> p \<le> q"
proof (induction ss arbitrary: p)
  case (Cons s ss)
  then show ?case using add_leD1 by fastforce
qed simp

lemma find_last:
  assumes "contiguous st ln p ss q" and "p \<le> v" and "v < q"
  shows "\<exists>s. seek st ln ss v = Some s \<and> last (takeWhile (\<lambda>s. st s \<le> v) ss) = s \<and>
    takeWhile (\<lambda>s. st s \<le> v) ss \<noteq> [] \<and> st s \<le> v \<and> v < st s + ln s \<and> s \<in> set ss"
  using assms(1,2)
proof (induction ss arbitrary: p)
  case Nil
  with assms(3) show ?case by simp
next
  case (Cons s ss)
  then have s: "st s = p" and more: "contiguous st ln (p + ln s) ss q" by auto
  show ?case
  proof (cases "v < p + ln s")
    case True
    have "takeWhile (\<lambda>s. st s \<le> v) ss = []" using more True by (cases ss) auto
    with True s Cons.prems(2) show ?thesis by simp
  next
    case False
    with Cons.IH [OF more] obtain s' where "seek st ln ss v = Some s'"
      "last (takeWhile (\<lambda>s. st s \<le> v) ss) = s'" "takeWhile (\<lambda>s. st s \<le> v) ss \<noteq> []" "st s' \<le> v"
      "v < st s' + ln s'" "s' \<in> set ss" by auto
    with False s Cons.prems(2) show ?thesis by auto
  qed
qed

lemma find_span_seek:
  assumes "contiguous st ln p ss q" and "p \<le> v" and "v < q" and "\<And>s. en s = st s + ln s"
  shows "find_span st en ss v = seek st ln ss v"
proof -
  let ?tw = "takeWhile (\<lambda>s. st s \<le> v) ss"
  obtain s where s: "seek st ln ss v = Some s" "last ?tw = s" "?tw \<noteq> []" "st s \<le> v" "v < st s + ln s"
    using find_last [OF assms(1-3)] by blast
  have "last ?tw = ss ! (length ?tw - 1)" "0 < length ?tw" "ss \<noteq> []"
    using s(3) by (auto simp: last_conv_nth takeWhile_nth)
  with s assms(4) [of s] show ?thesis
    by (simp add: find_span_def partition_point_def)
qed

section \<open>The boundaries of the units\<close>

definition upto_units :: "(dunit \<Rightarrow> nat) \<Rightarrow> dunit list \<Rightarrow> nat \<Rightarrow> nat" where
  "upto_units f us k = sum_list (map f (take k us))"

text \<open>
  Positions \<open>v\<close> and \<open>r\<close> of two domains correspond when they are the positions of the same unit, or
  both the end. The unit must have a length in the first domain: the byte order mark has none in the
  decoded ones.
\<close>

definition corresponds ::
  "(dunit \<Rightarrow> nat) \<Rightarrow> (dunit \<Rightarrow> nat) \<Rightarrow> nat \<Rightarrow> nat \<Rightarrow> dunit list \<Rightarrow> nat \<Rightarrow> nat \<Rightarrow> bool" where
  "corresponds f g p tp us v r \<longleftrightarrow> (\<exists>k\<le>length us. (k = length us \<or> 0 < f (us ! k)) \<and>
     v = p + upto_units f us k \<and> r = tp + upto_units g us k)"

definition inside :: "(dunit \<Rightarrow> nat) \<Rightarrow> (dunit \<Rightarrow> nat) \<Rightarrow> nat \<Rightarrow> nat \<Rightarrow> dunit list \<Rightarrow> nat \<Rightarrow> nat \<Rightarrow> bool" where
  "inside f g p tp us v r \<longleftrightarrow> (\<exists>k<length us. 0 < f (us ! k) \<and>
     v = p + upto_units f us k \<and> r = tp + upto_units g us k)"

lemma upto_units_Nil [simp]: "upto_units f [] k = 0"
  by (simp add: upto_units_def)

lemma upto_units_0 [simp]: "upto_units f us 0 = 0"
  by (simp add: upto_units_def)

lemma upto_units_append:
  "upto_units f (us @ vs) k =
     (if k \<le> length us then upto_units f us k else sum_list (map f us) + upto_units f vs (k - length us))"
  by (simp add: upto_units_def)

lemma upto_units_full: "length us \<le> k \<Longrightarrow> upto_units f us k = sum_list (map f us)"
  by (simp add: upto_units_def)

lemma upto_units_less:
  assumes "k < length us" and "0 < f (us ! k)"
  shows "upto_units f us k < sum_list (map f us)"
proof -
  have "us = take k us @ us ! k # drop (Suc k) us" using assms(1) by (rule id_take_nth_drop)
  then have "sum_list (map f us) = upto_units f us k + (f (us ! k) + sum_list (map f (drop (Suc k) us)))"
    unfolding upto_units_def by (metis map_append sum_list.append list.simps(9) sum_list.Cons)
  with assms(2) show ?thesis by simp
qed

lemma inside_append_left:
  assumes "v < p + sum_list (map f us)"
  shows "inside f g p tp (us @ vs) v r \<longleftrightarrow> inside f g p tp us v r"
proof
  assume "inside f g p tp (us @ vs) v r"
  then obtain k where k: "k < length (us @ vs)" "0 < f ((us @ vs) ! k)" "v = p + upto_units f (us @ vs) k"
    "r = tp + upto_units g (us @ vs) k" by (auto simp: inside_def)
  have "k < length us"
  proof (rule ccontr)
    assume "\<not> k < length us"
    then have "sum_list (map f us) \<le> upto_units f (us @ vs) k"
      by (cases "k = length us") (auto simp: upto_units_append upto_units_full)
    with k(3) assms show False by simp
  qed
  with k show "inside f g p tp us v r" by (auto simp: inside_def nth_append upto_units_append)
next
  assume "inside f g p tp us v r"
  then obtain k where "k < length us" "0 < f (us ! k)" "v = p + upto_units f us k" "r = tp + upto_units g us k"
    by (auto simp: inside_def)
  then show "inside f g p tp (us @ vs) v r"
    unfolding inside_def by (intro exI [of _ k]) (auto simp: nth_append upto_units_append)
qed

lemma inside_append_right:
  assumes "p + sum_list (map f us) \<le> v"
  shows "inside f g p tp (us @ vs) v r \<longleftrightarrow>
    inside f g (p + sum_list (map f us)) (tp + sum_list (map g us)) vs v r"
proof
  assume "inside f g p tp (us @ vs) v r"
  then obtain k where k: "k < length (us @ vs)" "0 < f ((us @ vs) ! k)" "v = p + upto_units f (us @ vs) k"
    "r = tp + upto_units g (us @ vs) k" by (auto simp: inside_def)
  have "length us \<le> k"
  proof (rule ccontr)
    assume "\<not> length us \<le> k"
    then show False
      using k(2,3) upto_units_less [of k us f] assms by (simp add: nth_append upto_units_append)
  qed
  then show "inside f g (p + sum_list (map f us)) (tp + sum_list (map g us)) vs v r"
    using k unfolding inside_def
    by (intro exI [of _ "k - length us"])
      (cases "k = length us", auto simp: nth_append upto_units_append upto_units_full)
next
  assume "inside f g (p + sum_list (map f us)) (tp + sum_list (map g us)) vs v r"
  then obtain k where "k < length vs" "0 < f (vs ! k)" "v = p + sum_list (map f us) + upto_units f vs k"
    "r = tp + sum_list (map g us) + upto_units g vs k" by (auto simp: inside_def)
  then show "inside f g p tp (us @ vs) v r"
    unfolding inside_def
    by (intro exI [of _ "length us + k"]) (cases k, auto simp: upto_units_append upto_units_full nth_append)
qed

text \<open>
  A translation that is exact inside every span is exact on the whole map.
\<close>

lemma translate_inside:
  assumes "contiguous st ln p ss q" and "contiguous tst tln tp ss tq" and "list_all2 (part_ok w) ss parts"
    and "p \<le> v" and "v < q"
    and lens: "\<And>s us. part_ok w s us \<Longrightarrow> ln s = sum_list (map f us)"
      "\<And>s us. part_ok w s us \<Longrightarrow> tln s = sum_list (map g us)"
    and exact: "\<And>s us. s \<in> set ss \<Longrightarrow> part_ok w s us \<Longrightarrow> st s \<le> v \<Longrightarrow> v < st s + ln s \<Longrightarrow>
      tr s = Inr r \<longleftrightarrow> inside f g (st s) (tst s) us v r"
  shows "and_then (ok_or e (seek st ln ss v)) tr = Inr r \<longleftrightarrow> inside f g p tp (concat parts) v r"
  using assms(1-4) exact
proof (induction ss arbitrary: p tp parts)
  case Nil
  with assms(5) show ?case by simp
next
  case (Cons s ss)
  obtain us parts' where parts: "parts = us # parts'" "part_ok w s us" "list_all2 (part_ok w) ss parts'"
    using Cons.prems(3) by (cases parts) auto
  have s: "st s = p" "tst s = tp" "ln s = sum_list (map f us)" "tln s = sum_list (map g us)"
    and more: "contiguous st ln (p + ln s) ss q" "contiguous tst tln (tp + tln s) ss tq"
    using Cons.prems(1,2) lens [OF parts(2)] by auto
  show ?case
  proof (cases "v < p + ln s")
    case True
    have "tr s = Inr r \<longleftrightarrow> inside f g p tp us v r"
      using Cons.prems(5) [of s us] parts(2) Cons.prems(4) True s by simp
    with True s inside_append_left [of v p f us g tp "concat parts'" r] show ?thesis
      unfolding parts(1) by simp
  next
    case False
    have "and_then (ok_or e (seek st ln ss v)) tr = Inr r \<longleftrightarrow>
        inside f g (p + ln s) (tp + tln s) (concat parts') v r"
    proof (rule Cons.IH [OF more parts(3)])
      show "p + ln s \<le> v" using False by simp
      show "tr s' = Inr r \<longleftrightarrow> inside f g (st s') (tst s') us' v r"
        if "s' \<in> set ss" "part_ok w s' us'" "st s' \<le> v" "v < st s' + ln s'" for s' us'
        using that by (intro Cons.prems(5)) simp_all
    qed
    with False s inside_append_right [of p f us v g tp "concat parts'" r] show ?thesis
      unfolding parts(1) by simp
  qed
qed

lemma corresponds_inside:
  assumes "v < p + sum_list (map f us)"
  shows "corresponds f g p tp us v r \<longleftrightarrow> inside f g p tp us v r"
proof -
  have "v \<noteq> p + upto_units f us (length us)" using assms by (simp add: upto_units_full)
  then show ?thesis unfolding corresponds_def inside_def by (metis le_neq_implies_less less_imp_le)
qed

lemma corresponds_end:
  "corresponds f g p tp us (p + sum_list (map f us)) r \<longleftrightarrow> r = tp + sum_list (map g us)"
proof
  assume "corresponds f g p tp us (p + sum_list (map f us)) r"
  then obtain k where k: "k \<le> length us" "k = length us \<or> 0 < f (us ! k)"
    "sum_list (map f us) = upto_units f us k" "r = tp + upto_units g us k" by (auto simp: corresponds_def)
  then have "k = length us" using upto_units_less [of k us f] by (cases "k < length us") auto
  with k(4) show "r = tp + sum_list (map g us)" by (simp add: upto_units_full)
next
  assume "r = tp + sum_list (map g us)"
  then show "corresponds f g p tp us (p + sum_list (map f us)) r"
    unfolding corresponds_def by (intro exI [of _ "length us"]) (simp add: upto_units_full)
qed

lemma upto_units_le: "upto_units f us k \<le> sum_list (map f us)"
proof -
  have "sum_list (map f us) = upto_units f us k + sum_list (map f (drop k us))"
    unfolding upto_units_def by (metis append_take_drop_id map_append sum_list_append)
  then show ?thesis by simp
qed

lemma corresponds_bounds:
  assumes "corresponds f g p tp us v r"
  shows "p \<le> v" "v \<le> p + sum_list (map f us)"
  using assms upto_units_le [of f us] by (auto simp: corresponds_def)

section \<open>What a built map satisfies\<close>

definition map_ok :: "encoding_map \<Rightarrow> dunit list \<Rightarrow> bool" where
  "map_ok m us \<longleftrightarrow> (\<exists>parts. concat parts = us \<and>
     list_all2 (part_ok (unit_width (em_encoding m))) (em_spans m) parts) \<and>
     contiguous sp_raw sp_raw_len (em_base_raw m) (em_spans m) (em_base_raw m + em_raw m) \<and>
     contiguous sp_dec sp_dec_len (em_base_dec m) (em_spans m) (em_base_dec m + em_dec m) \<and>
     contiguous sp_u16 sp_u16_len (em_base_u16 m) (em_spans m) (em_base_u16 m + em_u16 m) \<and>
     contiguous sp_sca sp_sca_len (em_base_sca m) (em_spans m) (em_base_sca m + em_sca m) \<and>
     em_raw m = sum_list (map u_raw us) \<and> em_dec m = sum_list (map u_dec us) \<and>
     em_u16 m = sum_list (map u_u16 us) \<and> em_sca m = sum_list (map u_sca us)"

lemma build_map_ok:
  assumes "build_with_base_offset bs enc raw dec u16 sca = Inr m" and "bases_fit raw dec u16 sca"
  shows "map_ok m (units_of enc raw bs)" "em_encoding m = enc" "em_base_raw m = raw" "em_base_dec m = dec"
    "em_base_u16 m = u16" "em_base_sca m = sca" "em_text m = concat (map u_chars (units_of enc raw bs))"
  using build_builds [OF assms(2), of enc bs] assms(1)
  by (auto simp: builds_def extends_def moves_def spans_between_def acc_new_def finish_map_def map_ok_def
      split: if_splits)

lemma encoding_map_built:
  "bases_fit raw dec u16 sca \<Longrightarrow> fits (acc_new raw dec u16 sca) (units_of enc raw bs) \<Longrightarrow>
     \<exists>m. build_with_base_offset bs enc raw dec u16 sca = Inr m"
  using build_builds [of raw dec u16 sca enc bs] by (auto simp: builds_def)

text \<open>Only the escaped view has escaped bytes.\<close>

lemma no_escapes:
  assumes "enc \<noteq> Unsupported" and "u \<in> set (units_of enc raw bs)"
  shows "u_kind u \<noteq> EscapedByte"
proof -
  have u8: "u_kind u \<noteq> EscapedByte" if "u \<in> set (utf8_units bs)" for bs
    using that
  proof (induction bs rule: utf8_units.induct)
    case (2 b bs)
    then show ?case
      by (cases "unat b < 0x80"; cases "decode_utf8_char (b # bs)"; cases "snd (decode_utf8_char (b # bs))")
        (auto simp: utf8_units.simps(2) u_kind_def split: if_splits)
  qed simp
  have u16: "u_kind u \<noteq> EscapedByte" if "u \<in> set (utf16_units le bs)" for le bs
    using that
  proof (induction le bs rule: utf16_units.induct)
    case (3 le x y bs)
    then show ?case
      by (cases "pair_char le (x # y # bs)"; cases "char_from_u32 (u16_unit le x y)")
        (auto simp: utf16_units.simps(3) Let_def u_kind_def split: if_splits)
  qed (auto simp: u_kind_def)
  show ?thesis
    using assms u8 u16
    by (cases enc) (auto simp: units_of_def body_units_def bom_units_def u_kind_def split: if_splits)
qed

text \<open>One unit, seen from inside its span.\<close>

lemma inside_single:
  "inside f g p tp [u] v r \<longleftrightarrow> 0 < f u \<and> v = p \<and> r = tp"
  by (auto simp: inside_def upto_units_def)

lemma inside_run:
  assumes "\<forall>u\<in>set us. f u = a \<and> g u = b" and "0 < a"
  shows "inside f g p tp us v r \<longleftrightarrow> (\<exists>k<length us. v = p + k * a \<and> r = tp + k * b)"
proof -
  have "upto_units f us k = k * a" "upto_units g us k = k * b" if "k \<le> length us" for k
  proof -
    have f: "map f (take k us) = replicate k a" and g: "map g (take k us) = replicate k b"
      using assms(1) that by (auto intro!: nth_equalityI)
    show "upto_units f us k = k * a" "upto_units g us k = k * b"
      unfolding upto_units_def f g by (simp_all add: sum_list_replicate)
  qed
  with assms show ?thesis unfolding inside_def by (metis less_imp_le nth_mem)
qed

lemma part_lens:
  assumes "part_ok w s us"
  shows "sp_raw_len s = sum_list (map u_raw us)" "sp_dec_len s = sum_list (map u_dec us)"
    "sp_u16_len s = sum_list (map u_u16 us)" "sp_sca_len s = sum_list (map u_sca us)"
  using assms by (simp_all add: part_ok_def)

text \<open>A span is a run of ASCII units of one width, or a single unit of its kind.\<close>

lemma part_cases:
  assumes "part_ok w s us"
  obtains (ascii) "sp_kind s = AsciiRun" "\<forall>u\<in>set us. u_raw u = w \<and> u_dec u = 1 \<and> u_u16 u = 1 \<and> u_sca u = 1"
      "sp_raw_len s = length us * w" "sp_dec_len s = length us" "sp_u16_len s = length us" "sp_sca_len s = length us"
    | (single) u where "us = [u]" "unit_ok w u" "u_kind u = sp_kind s" "sp_kind s \<noteq> AsciiRun"
      "sp_raw_len s = u_raw u" "sp_dec_len s = u_dec u" "sp_u16_len s = u_u16 u" "sp_sca_len s = u_sca u"
proof (cases "sp_kind s = AsciiRun")
  case True
  have u: "\<forall>u\<in>set us. u_raw u = w \<and> u_dec u = 1 \<and> u_u16 u = 1 \<and> u_sca u = 1"
  proof
    fix u assume "u \<in> set us"
    then have "unit_ok w u" "u_kind u = AsciiRun" using assms True by (auto simp: part_ok_def)
    then show "u_raw u = w \<and> u_dec u = 1 \<and> u_u16 u = 1 \<and> u_sca u = 1"
      by (auto simp: unit_ok_def u_dec_def u_u16_def u_sca_def)
  qed
  have "map u_raw us = replicate (length us) w" "map u_dec us = replicate (length us) 1"
    "map u_u16 us = replicate (length us) 1" "map u_sca us = replicate (length us) 1"
    using u by (auto intro!: nth_equalityI)
  with True u show thesis using part_lens [OF assms]
    by (intro ascii) (simp_all add: sum_list_replicate)
next
  case False
  then obtain u where "us = [u]" using assms by (auto simp: part_ok_def length_Suc_conv)
  with False show thesis using assms by (intro single) (auto simp: part_ok_def)
qed

lemma unit_lens:
  assumes "unit_ok w u"
  shows "0 < u_raw u" "u_kind u = BomHeader \<Longrightarrow> u_dec u = 0 \<and> u_u16 u = 0 \<and> u_sca u = 0"
    "u_kind u = BmpMultiByte \<Longrightarrow> 0 < u_dec u \<and> u_u16 u = 1 \<and> u_sca u = 1"
    "u_kind u = SurrogatePair \<Longrightarrow> 0 < u_dec u \<and> u_u16 u = 2 \<and> u_sca u = 1"
    "u_kind u = ReplacementMalformed \<Longrightarrow> u_dec u = 3 \<and> u_u16 u = 1 \<and> u_sca u = 1"
    "u_kind u = EscapedByte \<Longrightarrow> u_raw u = 1 \<and> u_dec u = 4 \<and> u_u16 u = 4 \<and> u_sca u = 4"
proof -
  have four: "sum_list (map len_utf8 cs) = 4" "sum_list (map len_utf16 cs) = 4"
    if "length cs = 4" "\<forall>c\<in>set cs. c < 0x80" for cs
  proof -
    have "map len_utf8 cs = replicate 4 1" "map len_utf16 cs = replicate 4 1"
      using that by (auto intro!: nth_equalityI)
    then show "sum_list (map len_utf8 cs) = 4" "sum_list (map len_utf16 cs) = 4"
      by (simp_all add: sum_list_replicate)
  qed
  show "0 < u_raw u" "u_kind u = BomHeader \<Longrightarrow> u_dec u = 0 \<and> u_u16 u = 0 \<and> u_sca u = 0"
    "u_kind u = BmpMultiByte \<Longrightarrow> 0 < u_dec u \<and> u_u16 u = 1 \<and> u_sca u = 1"
    "u_kind u = SurrogatePair \<Longrightarrow> 0 < u_dec u \<and> u_u16 u = 2 \<and> u_sca u = 1"
    "u_kind u = ReplacementMalformed \<Longrightarrow> u_dec u = 3 \<and> u_u16 u = 1 \<and> u_sca u = 1"
    "u_kind u = EscapedByte \<Longrightarrow> u_raw u = 1 \<and> u_dec u = 4 \<and> u_u16 u = 4 \<and> u_sca u = 4"
    using assms four by (auto simp: unit_ok_def u_dec_def u_u16_def u_sca_def len_replacement)
qed

section \<open>Every translation is exact\<close>

lemmas span_ends = raw_end_def decoded_end_def utf16_end_def scalar_end_def

text \<open>The shape all translations share: bounds, the end, and the span of the position.\<close>

lemma translation_exact:
  assumes m: "list_all2 (part_ok w) ss parts" "contiguous st ln p ss (p + n)" "contiguous tst tln tp ss (tp + tn)"
    and n: "n = sum_list (map f (concat parts))" "tn = sum_list (map g (concat parts))"
    and lens: "\<And>s us. part_ok w s us \<Longrightarrow> ln s = sum_list (map f us)"
      "\<And>s us. part_ok w s us \<Longrightarrow> tln s = sum_list (map g us)"
    and ends: "\<And>s. en s = st s + ln s"
    and exact: "\<And>s us. s \<in> set ss \<Longrightarrow> part_ok w s us \<Longrightarrow> st s \<le> v \<Longrightarrow> v < st s + ln s \<Longrightarrow>
      tr s = Inr r \<longleftrightarrow> inside f g (st s) (tst s) us v r"
  shows "(if v < p \<or> v > p + n then Inl e else if v = p + n then Inr (tp + tn)
      else and_then (ok_or e (find_span st en ss v)) tr) = Inr r \<longleftrightarrow>
    corresponds f g p tp (concat parts) v r"
proof -
  consider "v < p \<or> v > p + n" | "v = p + n" | "p \<le> v" "v < p + n" by linarith
  then show ?thesis
  proof cases
    case 1
    then show ?thesis using corresponds_bounds [of f g p tp "concat parts" v r] n(1) by auto
  next
    case 2
    then show ?thesis using corresponds_end [of f g p tp "concat parts" r] n by auto
  next
    case 3
    have "find_span st en ss v = seek st ln ss v" by (rule find_span_seek [OF m(2) 3 ends])
    moreover have "and_then (ok_or e (seek st ln ss v)) tr = Inr r \<longleftrightarrow> inside f g p tp (concat parts) v r"
      by (rule translate_inside [OF m(2,3,1) 3 lens exact])
    moreover have "corresponds f g p tp (concat parts) v r \<longleftrightarrow> inside f g p tp (concat parts) v r"
      using 3(2) n(1) by (intro corresponds_inside) simp
    ultimately show ?thesis using 3 by simp
  qed
qed

lemma width: "unit_width enc = (if is_utf16 enc then 2 else 1)"
  by (simp add: unit_width_def)

lemma decoded_to_byte_exact:
  assumes "map_ok m us"
  shows "decoded_utf8_to_byte_offset m v = Inr r \<longleftrightarrow>
    corresponds u_dec u_raw (em_base_dec m) (em_base_raw m) us v r"
proof -
  obtain parts where parts: "concat parts = us" "list_all2 (part_ok (unit_width (em_encoding m))) (em_spans m) parts"
    using assms by (auto simp: map_ok_def)
  show ?thesis
    unfolding decoded_utf8_to_byte_offset_def find_span_by_decoded_def parts(1) [symmetric]
  proof (rule translation_exact [OF parts(2), where ln = sp_dec_len and tst = sp_raw and tln = sp_raw_len], goal_cases)
    case (8 s us')
    note s = 8(2-4)
    show ?case
      using s(1)
    proof (cases rule: part_cases)
      case ascii
      have "inside u_dec u_raw (sp_dec s) (sp_raw s) us' v r \<longleftrightarrow>
          (\<exists>k<length us'. v = sp_dec s + k * 1 \<and> r = sp_raw s + k * unit_width (em_encoding m))"
        using ascii(2) by (intro inside_run) simp_all
      also have "\<dots> \<longleftrightarrow> r = sp_raw s + (v - sp_dec s) * unit_width (em_encoding m)"
        using s(2,3) ascii(4) by (auto intro!: exI [of _ "v - sp_dec s"])
      finally show ?thesis
        using ascii(1) by (cases "is_utf16 (em_encoding m)") (simp_all add: width Let_def eq_commute [of r])
    next
      case (single u)
      have "4 dvd (v - sp_dec s) \<longleftrightarrow> v = sp_dec s" if "sp_dec_len s = 4"
        using s(2,3) that dvd_imp_le [of 4 "v - sp_dec s"] by (cases "v = sp_dec s") auto
      then show ?thesis
        using s(2,3) single unit_lens [OF single(2)]
        by (cases "sp_kind s") (auto simp: inside_single span_ends)
    qed
  qed (use assms parts(1) in \<open>auto simp: map_ok_def part_lens span_ends\<close>)
qed

lemma utf16_to_byte_exact:
  assumes "map_ok m us" and "v \<noteq> native_not_found"
  shows "utf16_to_byte_offset m v = Inr r \<longleftrightarrow>
    corresponds u_u16 u_raw (em_base_u16 m) (em_base_raw m) us v r"
proof -
  obtain parts where parts: "concat parts = us" "list_all2 (part_ok (unit_width (em_encoding m))) (em_spans m) parts"
    using assms by (auto simp: map_ok_def)
  show ?thesis
    unfolding utf16_to_byte_offset_def find_span_by_utf16_def if_not_P [OF assms(2)] parts(1) [symmetric]
  proof (rule translation_exact [OF parts(2), where ln = sp_u16_len and tst = sp_raw and tln = sp_raw_len], goal_cases)
    case (8 s us')
    note s = 8(2-4)
    show ?case
      using s(1)
    proof (cases rule: part_cases)
      case ascii
      have "inside u_u16 u_raw (sp_u16 s) (sp_raw s) us' v r \<longleftrightarrow>
          (\<exists>k<length us'. v = sp_u16 s + k * 1 \<and> r = sp_raw s + k * unit_width (em_encoding m))"
        using ascii(2) by (intro inside_run) simp_all
      also have "\<dots> \<longleftrightarrow> r = sp_raw s + (v - sp_u16 s) * unit_width (em_encoding m)"
        using s(2,3) ascii by (auto intro!: exI [of _ "v - sp_u16 s"])
      finally show ?thesis
        using ascii(1) by (cases "is_utf16 (em_encoding m)") (simp_all add: width Let_def eq_commute [of r])
    next
      case (single u)
      then show ?thesis
        using s(2,3) single unit_lens [OF single(2)]
        by (cases "sp_kind s") (auto simp: inside_single span_ends)
    qed
  qed (use assms parts(1) in \<open>auto simp: map_ok_def part_lens span_ends\<close>)
qed

lemma scalar_to_byte_exact:
  assumes "map_ok m us" and "\<forall>s\<in>set (em_spans m). sp_kind s \<noteq> EscapedByte"
  shows "scalar_to_byte_offset m v = Inr r \<longleftrightarrow>
    corresponds u_sca u_raw (em_base_sca m) (em_base_raw m) us v r"
proof -
  obtain parts where parts: "concat parts = us" "list_all2 (part_ok (unit_width (em_encoding m))) (em_spans m) parts"
    using assms by (auto simp: map_ok_def)
  show ?thesis
    unfolding scalar_to_byte_offset_def find_span_by_scalar_def parts(1) [symmetric]
  proof (rule translation_exact [OF parts(2), where ln = sp_sca_len and tst = sp_raw and tln = sp_raw_len], goal_cases)
    case (8 s us')
    note s = 8(2-4)
    show ?case
      using s(1)
    proof (cases rule: part_cases)
      case ascii
      have "inside u_sca u_raw (sp_sca s) (sp_raw s) us' v r \<longleftrightarrow>
          (\<exists>k<length us'. v = sp_sca s + k * 1 \<and> r = sp_raw s + k * unit_width (em_encoding m))"
        using ascii(2) by (intro inside_run) simp_all
      also have "\<dots> \<longleftrightarrow> r = sp_raw s + (v - sp_sca s) * unit_width (em_encoding m)"
        using s(2,3) ascii by (auto intro!: exI [of _ "v - sp_sca s"])
      finally show ?thesis
        using ascii(1) by (cases "is_utf16 (em_encoding m)") (simp_all add: width Let_def eq_commute [of r])
    next
      case (single u)
      then show ?thesis
        using s(2,3) single unit_lens [OF single(2)] 8(1) assms(2)
        by (cases "sp_kind s") (auto simp: inside_single span_ends)
    qed
  qed (use assms parts(1) in \<open>auto simp: map_ok_def part_lens span_ends\<close>)
qed

text \<open>A raw position strictly inside the byte order mark belongs to no unit.\<close>

definition in_bom :: "encoding_map \<Rightarrow> nat \<Rightarrow> bool" where
  "in_bom m v \<longleftrightarrow> (\<exists>s\<in>set (em_spans m). sp_kind s = BomHeader \<and> sp_raw s < v \<and> v < raw_end s)"

lemma run_position:
  assumes "p \<le> (v::nat)" and "v < p + n * w" and "0 < w"
  shows "(\<exists>k<n. v = p + k * w \<and> r = q + k * 1) \<longleftrightarrow> w dvd (v - p) \<and> r = q + (v - p) div w"
proof
  assume "\<exists>k<n. v = p + k * w \<and> r = q + k * 1"
  then obtain k where "v = p + k * w" "r = q + k" by auto
  then show "w dvd (v - p) \<and> r = q + (v - p) div w" using assms(3) by simp
next
  assume d: "w dvd (v - p) \<and> r = q + (v - p) div w"
  then obtain k where "v - p = w * k" by (auto elim: dvdE)
  then have k: "v - p = k * w" by (simp add: mult.commute)
  have "k * w < n * w" using k assms(1,2) by linarith
  then have "k < n" using assms(3) by simp
  moreover have "v = p + k * w" "r = q + k" using d k assms by auto
  ultimately show "\<exists>k<n. v = p + k * w \<and> r = q + k * 1" by auto
qed

lemma byte_to_decoded_exact:
  assumes "map_ok m us" and "\<not> in_bom m v"
  shows "byte_to_decoded_utf8_offset m v = Inr r \<longleftrightarrow>
    corresponds u_raw u_dec (em_base_raw m) (em_base_dec m) us v r"
proof -
  obtain parts where parts: "concat parts = us" "list_all2 (part_ok (unit_width (em_encoding m))) (em_spans m) parts"
    using assms by (auto simp: map_ok_def)
  show ?thesis
    unfolding byte_to_decoded_utf8_offset_def find_span_by_raw_def parts(1) [symmetric]
  proof (rule translation_exact [OF parts(2), where ln = sp_raw_len and tst = sp_dec and tln = sp_dec_len], goal_cases)
    case (8 s us')
    note s = 8(2-4)
    show ?case
      using s(1)
    proof (cases rule: part_cases)
      case ascii
      have w: "0 < unit_width (em_encoding m)" by (simp add: width)
      have "inside u_raw u_dec (sp_raw s) (sp_dec s) us' v r \<longleftrightarrow>
          (\<exists>k<length us'. v = sp_raw s + k * unit_width (em_encoding m) \<and> r = sp_dec s + k * 1)"
        using ascii(2) w by (intro inside_run) simp_all
      also have "\<dots> \<longleftrightarrow> unit_width (em_encoding m) dvd (v - sp_raw s) \<and>
          r = sp_dec s + (v - sp_raw s) div unit_width (em_encoding m)"
        using run_position [OF s(2) _ w, of "length us'" r "sp_dec s"] s(3) ascii(3) by simp
      finally show ?thesis
        using ascii(1) by (cases "is_utf16 (em_encoding m)") (simp_all add: width Let_def eq_commute [of r])
    next
      case (single u)
      have "sp_kind s = BomHeader \<Longrightarrow> v = sp_raw s"
        using assms(2) 8(1) s(2,3) by (auto simp: in_bom_def raw_end_def)
      then show ?thesis
        using s(2,3) single unit_lens [OF single(2)]
        by (cases "sp_kind s") (auto simp: inside_single span_ends)
    qed
  qed (use assms parts(1) in \<open>auto simp: map_ok_def part_lens span_ends\<close>)
qed

lemma byte_to_utf16_exact:
  assumes "map_ok m us" and "\<not> in_bom m v"
  shows "byte_to_utf16_offset m v = Inr r \<longleftrightarrow>
    corresponds u_raw u_u16 (em_base_raw m) (em_base_u16 m) us v r"
proof -
  obtain parts where parts: "concat parts = us" "list_all2 (part_ok (unit_width (em_encoding m))) (em_spans m) parts"
    using assms by (auto simp: map_ok_def)
  show ?thesis
    unfolding byte_to_utf16_offset_def find_span_by_raw_def parts(1) [symmetric]
  proof (rule translation_exact [OF parts(2), where ln = sp_raw_len and tst = sp_u16 and tln = sp_u16_len], goal_cases)
    case (8 s us')
    note s = 8(2-4)
    show ?case
      using s(1)
    proof (cases rule: part_cases)
      case ascii
      have w: "0 < unit_width (em_encoding m)" by (simp add: width)
      have "inside u_raw u_u16 (sp_raw s) (sp_u16 s) us' v r \<longleftrightarrow>
          (\<exists>k<length us'. v = sp_raw s + k * unit_width (em_encoding m) \<and> r = sp_u16 s + k * 1)"
        using ascii(2) w by (intro inside_run) simp_all
      also have "\<dots> \<longleftrightarrow> unit_width (em_encoding m) dvd (v - sp_raw s) \<and>
          r = sp_u16 s + (v - sp_raw s) div unit_width (em_encoding m)"
        using run_position [OF s(2) _ w, of "length us'" r "sp_u16 s"] s(3) ascii(3) by simp
      finally show ?thesis
        using ascii(1) by (cases "is_utf16 (em_encoding m)") (simp_all add: width Let_def eq_commute [of r])
    next
      case (single u)
      have "sp_kind s = BomHeader \<Longrightarrow> v = sp_raw s"
        using assms(2) 8(1) s(2,3) by (auto simp: in_bom_def raw_end_def)
      then show ?thesis
        using s(2,3) single unit_lens [OF single(2)]
        by (cases "sp_kind s") (auto simp: inside_single span_ends)
    qed
  qed (use assms parts(1) in \<open>auto simp: map_ok_def part_lens span_ends\<close>)
qed

lemma byte_to_scalar_exact:
  assumes "map_ok m us" and "\<not> in_bom m v"
  shows "byte_to_scalar_index m v = Inr r \<longleftrightarrow>
    corresponds u_raw u_sca (em_base_raw m) (em_base_sca m) us v r"
proof -
  obtain parts where parts: "concat parts = us" "list_all2 (part_ok (unit_width (em_encoding m))) (em_spans m) parts"
    using assms by (auto simp: map_ok_def)
  show ?thesis
    unfolding byte_to_scalar_index_def find_span_by_raw_def parts(1) [symmetric]
  proof (rule translation_exact [OF parts(2), where ln = sp_raw_len and tst = sp_sca and tln = sp_sca_len], goal_cases)
    case (8 s us')
    note s = 8(2-4)
    show ?case
      using s(1)
    proof (cases rule: part_cases)
      case ascii
      have w: "0 < unit_width (em_encoding m)" by (simp add: width)
      have "inside u_raw u_sca (sp_raw s) (sp_sca s) us' v r \<longleftrightarrow>
          (\<exists>k<length us'. v = sp_raw s + k * unit_width (em_encoding m) \<and> r = sp_sca s + k * 1)"
        using ascii(2) w by (intro inside_run) simp_all
      also have "\<dots> \<longleftrightarrow> unit_width (em_encoding m) dvd (v - sp_raw s) \<and>
          r = sp_sca s + (v - sp_raw s) div unit_width (em_encoding m)"
        using run_position [OF s(2) _ w, of "length us'" r "sp_sca s"] s(3) ascii(3) by simp
      finally show ?thesis
        using ascii(1) by (cases "is_utf16 (em_encoding m)") (simp_all add: width Let_def eq_commute [of r])
    next
      case (single u)
      have "sp_kind s = BomHeader \<Longrightarrow> v = sp_raw s"
        using assms(2) 8(1) s(2,3) by (auto simp: in_bom_def raw_end_def)
      then show ?thesis
        using s(2,3) single unit_lens [OF single(2)]
        by (cases "sp_kind s") (auto simp: inside_single span_ends)
    qed
  qed (use assms parts(1) in \<open>auto simp: map_ok_def part_lens span_ends\<close>)
qed

section \<open>There and back\<close>

lemma contiguous_starts: "contiguous st ln p ss q \<Longrightarrow> s \<in> set ss \<Longrightarrow> p \<le> st s"
  by (induction ss arbitrary: p) fastforce+

text \<open>No unit boundary lies strictly inside the span of a single unit.\<close>

lemma single_span_gap:
  assumes "contiguous sp_raw sp_raw_len p ss q" and "list_all2 (part_ok w) ss parts"
    and "s \<in> set ss" and "sp_kind s \<noteq> AsciiRun" and "r = p + upto_units u_raw (concat parts) k"
  shows "r \<le> sp_raw s \<or> sp_raw s + sp_raw_len s \<le> r"
  using assms(1-3,5)
proof (induction ss arbitrary: p parts k)
  case (Cons s0 ss)
  obtain us parts' where parts: "parts = us # parts'" "part_ok w s0 us" "list_all2 (part_ok w) ss parts'"
    using Cons.prems(2) by (cases parts) auto
  have s0: "sp_raw s0 = p" "sp_raw_len s0 = sum_list (map u_raw us)"
    and more: "contiguous sp_raw sp_raw_len (p + sp_raw_len s0) ss q"
    using Cons.prems(1) parts(2) by (auto simp: part_lens)
  show ?case
  proof (cases "k < length us")
    case True
    have r: "r = p + upto_units u_raw us k" using Cons.prems(4) True parts(1) by (simp add: upto_units_append)
    show ?thesis
    proof (cases "s = s0")
      case s: True
      then have "length us = 1" using assms(4) parts(2) by (simp add: part_ok_def)
      with True r s s0 show ?thesis by simp
    next
      case False
      then have "p + sp_raw_len s0 \<le> sp_raw s" using contiguous_starts [OF more] Cons.prems(3) by simp
      with r s0 upto_units_le [of u_raw us k] show ?thesis by simp
    qed
  next
    case False
    then have r: "r = p + sp_raw_len s0 + upto_units u_raw (concat parts') (k - length us)"
      using Cons.prems(4) s0 parts(1)
      by (cases "k = length us") (simp_all add: upto_units_append upto_units_full)
    show ?thesis
    proof (cases "s = s0")
      case True
      with r s0 show ?thesis by simp
    next
      case False
      with Cons.IH [OF more parts(3) _ r] Cons.prems(3) show ?thesis by simp
    qed
  qed
qed simp

lemma boundary_not_in_bom:
  assumes "map_ok m us" and "corresponds f u_raw p (em_base_raw m) us v r"
  shows "\<not> in_bom m r"
proof
  assume "in_bom m r"
  then obtain s where s: "s \<in> set (em_spans m)" "sp_kind s = BomHeader" "sp_raw s < r" "r < raw_end s"
    by (auto simp: in_bom_def)
  obtain parts where parts: "concat parts = us" "list_all2 (part_ok (unit_width (em_encoding m))) (em_spans m) parts"
    using assms(1) by (auto simp: map_ok_def)
  obtain k where "r = em_base_raw m + upto_units u_raw (concat parts) k"
    using assms(2) parts(1) by (auto simp: corresponds_def)
  from single_span_gap [OF _ parts(2) s(1) _ this] assms(1) s show False
    by (auto simp: map_ok_def raw_end_def)
qed

lemma unit_in_part:
  "list_all2 P ss parts \<Longrightarrow> u \<in> set (concat parts) \<Longrightarrow> \<exists>s us. P s us \<and> u \<in> set us"
  by (induction ss parts rule: list_all2_induct) auto

lemma map_ok_raw_pos:
  assumes "map_ok m us" and "u \<in> set us"
  shows "0 < u_raw u"
proof -
  obtain parts where "concat parts = us" "list_all2 (part_ok (unit_width (em_encoding m))) (em_spans m) parts"
    using assms(1) by (auto simp: map_ok_def)
  with unit_in_part [of _ _ parts u] assms(2) obtain s ps where
    "part_ok (unit_width (em_encoding m)) s ps" "u \<in> set ps" by blast
  then show ?thesis by (simp add: part_ok_def unit_ok_def)
qed

lemma corresponds_back:
  assumes "map_ok m us" and "corresponds f u_raw p (em_base_raw m) us v r"
  shows "corresponds u_raw f (em_base_raw m) p us r v"
  using assms map_ok_raw_pos [OF assms(1)] unfolding corresponds_def by (metis le_neq_implies_less nth_mem)

lemma range_new_iff: "range_new s e = Inr (b :: byte_range) \<longleftrightarrow> s \<le> e \<and> b = OffsetRange s e"
  by (auto simp: range_new_Inr_iff)

section \<open>Where positions and units do not correspond\<close>

lemma seek_unique:
  assumes "contiguous st ln p ss q" "s \<in> set ss" "st s \<le> v" "v < st s + ln s"
  shows "seek st ln ss v = Some s"
  using assms
proof (induction ss arbitrary: p)
  case (Cons s0 ss)
  then have more: "st s0 = p" "contiguous st ln (p + ln s0) ss q" by auto
  show ?case
  proof (cases "s = s0")
    case False
    then have "s \<in> set ss" using Cons.prems(2) by simp
    with contiguous_starts [OF more(2) this] Cons.IH [OF more(2) this] Cons.prems(3,4) more(1) show ?thesis by auto
  qed (use Cons.prems in simp)
qed simp

lemma part_of_span: "list_all2 P ss parts \<Longrightarrow> s \<in> set ss \<Longrightarrow> \<exists>us\<in>set parts. P s us"
  by (induction ss parts rule: list_all2_induct) auto

text \<open>Inside the byte order mark a byte position translates to the start of the text.\<close>

lemma bom_span_first:
  assumes "list_all2 (part_ok w) ss parts" "concat parts = units_of enc raw bs" "s \<in> set ss" "sp_kind s = BomHeader"
  shows "\<exists>ss'. ss = s # ss'"
proof -
  have body: "u_kind u \<noteq> BomHeader" if "u \<in> set (body_units enc bs')" for u bs'
  proof -
    have u8: "u_kind u \<noteq> BomHeader" if "u \<in> set (utf8_units bs)" for bs
      using that
    proof (induction bs rule: utf8_units.induct)
      case (2 b bs)
      then show ?case
        by (cases "unat b < 0x80"; cases "decode_utf8_char (b # bs)"; cases "snd (decode_utf8_char (b # bs))")
          (auto simp: utf8_units.simps(2) u_kind_def split: if_splits)
    qed simp
    have u16: "u_kind u \<noteq> BomHeader" if "u \<in> set (utf16_units le bs)" for le bs
      using that
    proof (induction le bs rule: utf16_units.induct)
      case (3 le x y bs)
      then show ?case
        by (cases "pair_char le (x # y # bs)"; cases "char_from_u32 (u16_unit le x y)")
          (auto simp: utf16_units.simps(3) Let_def u_kind_def split: if_splits)
    qed (auto simp: u_kind_def)
    show ?thesis
      using that u8 u16 by (cases enc) (auto simp: body_units_def escaped_units_def u_kind_def)
  qed
  obtain s0 ss' where ss: "ss = s0 # ss'" using assms(3) by (cases ss) auto
  then obtain p0 ps where parts: "parts = p0 # ps" "part_ok w s0 p0" "list_all2 (part_ok w) ss' ps"
    using assms(1) by (cases parts) auto
  obtain u0 p0' where p0: "p0 = u0 # p0'" using parts(2) by (cases p0) (auto simp: part_ok_def)
  have "s = s0"
  proof (rule ccontr)
    assume "s \<noteq> s0"
    then have "s \<in> set ss'" using assms(3) ss by simp
    then obtain us where us: "us \<in> set ps" "part_ok w s us" using part_of_span [OF parts(3)] by blast
    have u: "hd us \<in> set us" "u_kind (hd us) = BomHeader"
      using us(2) assms(4) hd_in_set [of us] unfolding part_ok_def by metis+
    have units: "u0 # p0' @ concat ps = bom_units enc raw bs @ body_units enc (drop (sum_list (map u_raw (bom_units enc raw bs))) bs)"
      using assms(2) parts(1) p0 by (simp add: units_of_def)
    have "hd us \<in> set (concat ps)" using u us by auto
    then have "hd us \<in> set (body_units enc (drop (sum_list (map u_raw (bom_units enc raw bs))) bs))"
    proof (cases "bom_units enc raw bs")
      case Nil
      with units have "set (body_units enc (drop (sum_list (map u_raw (bom_units enc raw bs))) bs)) = set (u0 # p0' @ concat ps)"
        by (metis append_Nil)
      with \<open>hd us \<in> set (concat ps)\<close> show ?thesis by simp
    next
      case (Cons b bl)
      then have "bl = []" by (auto simp: bom_units_def split: if_splits)
      with units Cons have "p0' @ concat ps = body_units enc (drop (sum_list (map u_raw (bom_units enc raw bs))) bs)" by simp
      with \<open>hd us \<in> set (concat ps)\<close> show ?thesis by (metis Un_iff set_append)
    qed
    with body u(2) show False by blast
  qed
  with ss show ?thesis by simp
qed

lemma in_bom_translations:
  assumes "map_ok m (units_of enc raw bs)" "in_bom m r"
  shows "byte_to_decoded_utf8_offset m r = Inr (em_base_dec m)" "byte_to_utf16_offset m r = Inr (em_base_u16 m)"
    "byte_to_scalar_index m r = Inr (em_base_sca m)"
proof -
  obtain parts where parts: "concat parts = units_of enc raw bs" "list_all2 (part_ok (unit_width (em_encoding m))) (em_spans m) parts"
    using assms(1) by (auto simp: map_ok_def)
  obtain s where s: "s \<in> set (em_spans m)" "sp_kind s = BomHeader" "sp_raw s < r" "r < sp_raw s + sp_raw_len s"
    using assms(2) by (auto simp: in_bom_def raw_end_def)
  obtain ss where ss: "em_spans m = s # ss" using bom_span_first [OF parts(2,1) s(1,2)] by blast
  have c: "contiguous sp_raw sp_raw_len (em_base_raw m) (em_spans m) (em_base_raw m + em_raw m)"
    "sp_raw s = em_base_raw m" "sp_dec s = em_base_dec m" "sp_u16 s = em_base_u16 m" "sp_sca s = em_base_sca m"
    using assms(1) ss by (auto simp: map_ok_def)
  have "sp_raw s + sp_raw_len s \<le> em_base_raw m + em_raw m" using c(1) ss by (auto dest: contiguous_le)
  then have r: "em_base_raw m \<le> r" "r < em_base_raw m + em_raw m" using s(3,4) c(2) by simp_all
  have "find_span_by_raw m r = Some s"
    using find_span_seek [OF c(1) r, of raw_end] seek_unique [OF c(1) s(1), of r] s(3,4)
    by (simp add: find_span_by_raw_def raw_end_def)
  with r s(2) c(3-5) show "byte_to_decoded_utf8_offset m r = Inr (em_base_dec m)"
    "byte_to_utf16_offset m r = Inr (em_base_u16 m)" "byte_to_scalar_index m r = Inr (em_base_sca m)"
    by (simp_all add: byte_to_decoded_utf8_offset_def byte_to_utf16_offset_def byte_to_scalar_index_def)
qed

text \<open>In the escaped view a byte is four scalars; a scalar inside them translates to the next byte.\<close>

lemma contiguous_scaled:
  assumes "contiguous st ln p ss q" "contiguous tst tln tp ss tq" "\<forall>s\<in>set ss. ln s = 4 * tln s" "s \<in> set ss"
  shows "\<exists>d. st s = p + 4 * d \<and> tst s = tp + d"
  using assms
proof (induction ss arbitrary: p tp)
  case (Cons s0 ss)
  show ?case
  proof (cases "s = s0")
    case True
    then show ?thesis using Cons.prems(1,2) by (intro exI [of _ 0]) simp
  next
    case False
    with Cons.IH [of "p + ln s0" "tp + tln s0"] Cons.prems obtain d where
      "st s = p + ln s0 + 4 * d" "tst s = tp + tln s0 + d" by auto
    then show ?thesis using Cons.prems(3) by (intro exI [of _ "tln s0 + d"]) simp
  qed
qed simp

lemma scalar_rounds_up:
  assumes m: "map_ok m (units_of Unsupported raw bs)"
  shows "scalar_to_byte_offset m v = Inr r \<longleftrightarrow> em_base_sca m \<le> v \<and> v \<le> em_base_sca m + 4 * length bs \<and>
    r = em_base_raw m + (v - em_base_sca m + 3) div 4"
proof -
  obtain parts where parts: "concat parts = units_of Unsupported raw bs" "list_all2 (part_ok (unit_width (em_encoding m))) (em_spans m) parts"
    using m by (auto simp: map_ok_def)
  have esc: "u_kind u = EscapedByte" if "u \<in> set (units_of Unsupported raw bs)" for u
    using that by (auto simp: units_of_def body_units_def bom_units_def escaped_units_def u_kind_def)
  have ok: "unit_ok (unit_width Unsupported) u" if "u \<in> set (units_of Unsupported raw bs)" for u
    using that by (rule units_of_ok)
  have each: "sp_kind s = EscapedByte \<and> sp_raw_len s = 1 \<and> sp_sca_len s = 4" if s: "s \<in> set (em_spans m)" for s
  proof -
    obtain us where us: "us \<in> set parts" "part_ok (unit_width (em_encoding m)) s us"
      using part_of_span [OF parts(2) s] by blast
    from us(2) show ?thesis
    proof (cases rule: part_cases)
      case ascii
      from us(2) obtain u where "u \<in> set us" "u_kind u = sp_kind s" by (cases us) (auto simp: part_ok_def)
      with esc us(1) ascii(1) parts(1) show ?thesis by (metis UN_I set_concat span_kind.distinct(9) span_kind.distinct)
    next
      case (single u)
      then have u: "u \<in> set (units_of Unsupported raw bs)" using us(1) parts(1) by (metis UN_I list.set_intros(1) set_concat)
      from esc [OF u] single unit_lens(6) [OF single(2)] show ?thesis by simp
    qed
  qed
  have lens: "u_raw u = 1 \<and> u_sca u = 4" if "u \<in> set (units_of Unsupported raw bs)" for u
    using unit_lens(6) [OF ok [OF that] esc [OF that]] by simp
  have "map u_sca (units_of Unsupported raw bs) = map (\<lambda>u. 4 * u_raw u) (units_of Unsupported raw bs)" using lens by simp
  then have sums: "sum_list (map u_sca (units_of Unsupported raw bs)) = 4 * sum_list (map u_raw (units_of Unsupported raw bs))"
    by (simp only: sum_list_const_mult)
  have tot: "em_sca m = 4 * em_raw m" "em_raw m = length bs"
    using m sums units_of_raw [of Unsupported raw bs] by (simp_all only: map_ok_def)
  have c: "contiguous sp_sca sp_sca_len (em_base_sca m) (em_spans m) (em_base_sca m + em_sca m)"
    "contiguous sp_raw sp_raw_len (em_base_raw m) (em_spans m) (em_base_raw m + em_raw m)"
    using m unfolding map_ok_def by blast+
  consider "v < em_base_sca m \<or> v > em_base_sca m + em_sca m" | "v = em_base_sca m + em_sca m"
    | "em_base_sca m \<le> v" "v < em_base_sca m + em_sca m" by linarith
  then show ?thesis
  proof cases
    case 1
    then show ?thesis using tot by (auto simp: scalar_to_byte_offset_def)
  next
    case 2
    then show ?thesis using tot by (auto simp: scalar_to_byte_offset_def)
  next
    case 3
    obtain s where s: "seek sp_sca sp_sca_len (em_spans m) v = Some s" "sp_sca s \<le> v" "v < sp_sca s + sp_sca_len s" "s \<in> set (em_spans m)"
      using find_last [OF c(1) 3] by blast
    have f: "find_span_by_scalar m v = Some s"
      using find_span_seek [OF c(1) 3, of scalar_end] s(1) by (simp add: find_span_by_scalar_def scalar_end_def)
    obtain d where d: "sp_sca s = em_base_sca m + 4 * d" "sp_raw s = em_base_raw m + d"
      using contiguous_scaled [OF c _ s(4)] each by auto
    have "(v - em_base_sca m + 3) div 4 = (if v = sp_sca s then d else d + 1)"
      using s(2,3) d(1) each [OF s(4)] by auto
    then show ?thesis
      using f 3 each [OF s(4)] d tot by (auto simp: scalar_to_byte_offset_def raw_end_def)
  qed
qed

section \<open>Properties\<close>

text \<open>
  C26: Offsets translate exactly on the boundaries of the decoded units and nowhere else: a decoded,
  UTF-16 or scalar offset translates to a byte offset, and back, precisely when the two are the
  positions of the same unit (or both the end), for every encoding and base, malformed input
  included. The three exceptions are exact as well: the native sentinel is refused; in the escaped view of
  an unsupported encoding, where each byte is four scalars, a scalar index translates to a byte by rounding
  up; and a byte position strictly inside a byte order mark translates to the start of the text.
\<close>

theorem translations_exact:
  assumes "build_with_base_offset bs enc raw dec u16 sca = Inr m" and "bases_fit raw dec u16 sca"
  defines "us \<equiv> units_of enc raw bs"
  shows "(decoded_utf8_to_byte_offset m v = Inr r \<longleftrightarrow> corresponds u_dec u_raw dec raw us v r) \<and>
    (utf16_to_byte_offset m v = Inr r \<longleftrightarrow> v \<noteq> native_not_found \<and> corresponds u_u16 u_raw u16 raw us v r) \<and>
    (scalar_to_byte_offset m v = Inr r \<longleftrightarrow> (if enc = Unsupported
       then sca \<le> v \<and> v \<le> sca + 4 * length bs \<and> r = raw + (v - sca + 3) div 4
       else corresponds u_sca u_raw sca raw us v r)) \<and>
    (byte_to_decoded_utf8_offset m r = Inr v \<longleftrightarrow> (if in_bom m r then v = dec else corresponds u_raw u_dec raw dec us r v)) \<and>
    (byte_to_utf16_offset m r = Inr v \<longleftrightarrow> (if in_bom m r then v = u16 else corresponds u_raw u_u16 raw u16 us r v)) \<and>
    (byte_to_scalar_index m r = Inr v \<longleftrightarrow> (if in_bom m r then v = sca else corresponds u_raw u_sca raw sca us r v))"
proof -
  note m = build_map_ok [OF assms(1,2), folded us_def]
  have u16: "utf16_to_byte_offset m native_not_found = Inl SourceNativeSentinel"
    by (simp add: utf16_to_byte_offset_def)
  have plain: "\<forall>s\<in>set (em_spans m). sp_kind s \<noteq> EscapedByte" if "enc \<noteq> Unsupported"
  proof
    fix s
    assume "s \<in> set (em_spans m)"
    with m(1) obtain us' where us': "part_ok (unit_width (em_encoding m)) s us'" "set us' \<subseteq> set us"
      by (fastforce simp: map_ok_def list_all2_conv_all_nth in_set_conv_nth)
    then obtain u where "u \<in> set us" "u_kind u = sp_kind s" by (fastforce simp: part_ok_def neq_Nil_conv)
    with no_escapes [OF that, of u raw bs] show "sp_kind s \<noteq> EscapedByte" by (simp add: us_def)
  qed
  show ?thesis
    using decoded_to_byte_exact [OF m(1), of v r] utf16_to_byte_exact [OF m(1), of v r] u16
      scalar_to_byte_exact [OF m(1) plain, of v r] byte_to_decoded_exact [OF m(1), of r v]
      byte_to_utf16_exact [OF m(1), of r v] byte_to_scalar_exact [OF m(1), of r v]
      in_bom_translations [OF m(1) [unfolded us_def], of r] scalar_rounds_up [of m raw bs v r] m(1)
    unfolding m(3-6) by (cases "v = native_not_found"; cases "in_bom m r"; cases "enc = Unsupported") (auto simp: us_def)
qed

theorem translations_exact_witness:
  "\<exists>m. build_with_base_offset [0xC3, 0xA9, 65] (Utf8 False) 0 0 0 0 = Inr m \<and>
     utf16_to_byte_offset m 1 = Inr 2"
proof -
  have units: "units_of (Utf8 False) 0 [0xC3, 0xA9, 65] = [(2, [0xE9], BmpMultiByte), (1, [65], AsciiRun)]"
    by (simp add: units_of_def bom_units_def body_units_def utf8_units.simps(2) decode_utf8_char_def in_bytes_def
        unat_masks or_shift [of _ 6, simplified] char_from_u32_def is_scalar_def len_utf16_def)
  have base: "bases_fit 0 0 0 0" by (simp add: bases_fit_def)
  have "fits (acc_new 0 0 0 0) (units_of (Utf8 False) 0 [0xC3, 0xA9, 65])"
    unfolding units by (simp add: fits_def acc_new_def unit_simps len_utf8_def len_utf16_def u64_max_val)
  with encoding_map_built [OF base, of "Utf8 False" "[0xC3, 0xA9, 65]"]
  obtain m where m: "build_with_base_offset [0xC3, 0xA9, 65] (Utf8 False) 0 0 0 0 = Inr m" by auto
  have "corresponds u_u16 u_raw 0 0 (units_of (Utf8 False) 0 [0xC3, 0xA9, 65]) 1 2"
    unfolding corresponds_def units
    by (intro exI [of _ 1]) (simp add: upto_units_def unit_simps len_utf16_def)
  with translations_exact [OF m base, of 1 2] m show ?thesis
    by (auto simp: native_not_found_def u64_max_val)
qed

text \<open>
  Matches and selections come back: a decoded range or a native UTF-16 range that maps to a byte
  range is exactly what that byte range maps back to.
\<close>

theorem ranges_roundtrip:
  assumes "build_with_base_offset bs enc raw dec u16 sca = Inr m" and "bases_fit raw dec u16 sca"
    and "range_ok rng"
  shows "(decoded_utf8_range_to_byte_range m rng = Inr b \<longrightarrow> byte_range_to_decoded_utf8_range m b = Inr rng) \<and>
    (native_nsrange_to_byte_range m loc len = Inr b \<longrightarrow> byte_range_to_native_nsrange m b = Inr (loc, len))"
proof -
  note m = build_map_ok [OF assms(1,2)]
  have back_dec: "byte_to_decoded_utf8_offset m r = Inr v" if "decoded_utf8_to_byte_offset m v = Inr r" for v r
    using that corresponds_back [OF m(1)] boundary_not_in_bom [OF m(1)]
    by (simp add: decoded_to_byte_exact [OF m(1)] byte_to_decoded_exact [OF m(1)])
  have back_u16: "byte_to_utf16_offset m r = Inr v" if "utf16_to_byte_offset m v = Inr r" for v r
  proof -
    from that have v: "v \<noteq> native_not_found" by (auto simp: utf16_to_byte_offset_def)
    then show ?thesis using that corresponds_back [OF m(1)] boundary_not_in_bom [OF m(1)]
      by (simp add: utf16_to_byte_exact [OF m(1)] byte_to_utf16_exact [OF m(1)])
  qed
  show ?thesis
  proof (intro conjI impI)
    assume "decoded_utf8_range_to_byte_range m rng = Inr b"
    then show "byte_range_to_decoded_utf8_range m b = Inr rng"
      using assms(3) back_dec
      by (cases rng) (auto simp: decoded_utf8_range_to_byte_range_def byte_range_to_decoded_utf8_range_def
          result_simps range_new_iff range_ok_def)
  next
    assume "native_nsrange_to_byte_range m loc len = Inr b"
    then show "byte_range_to_native_nsrange m b = Inr (loc, len)"
      using back_u16
      by (auto simp: native_nsrange_to_byte_range_def byte_range_to_native_nsrange_def result_simps range_new_iff
          utf16_from_native_def arith64 split: if_splits)
  qed
qed

theorem ranges_roundtrip_witness:
  "\<exists>m b. build_with_base_offset [65, 66] (Utf8 False) 0 0 0 0 = Inr m \<and>
     native_nsrange_to_byte_range m 0 1 = Inr b \<and> byte_range_to_native_nsrange m b = Inr (0, 1)"
proof -
  have units: "units_of (Utf8 False) 0 [65, 66] = [(1, [65], AsciiRun), (1, [66], AsciiRun)]"
    by (simp add: units_of_def bom_units_def body_units_def utf8_units.simps(2))
  have base: "bases_fit 0 0 0 0" by (simp add: bases_fit_def)
  have "fits (acc_new 0 0 0 0) (units_of (Utf8 False) 0 [65, 66])"
    unfolding units by (simp add: fits_def acc_new_def unit_simps u64_max_val)
  with encoding_map_built [OF base, of "Utf8 False" "[65, 66]"]
  obtain m where m: "build_with_base_offset [65, 66] (Utf8 False) 0 0 0 0 = Inr m" by auto
  note ok = build_map_ok [OF m base]
  have "corresponds u_u16 u_raw 0 0 (units_of (Utf8 False) 0 [65, 66]) v v" if "v \<le> 1" for v
    unfolding corresponds_def units using that
    by (intro exI [of _ v]) (auto simp: upto_units_def unit_simps le_Suc_eq)
  then have "utf16_to_byte_offset m 0 = Inr 0" "utf16_to_byte_offset m 1 = Inr 1"
    using utf16_to_byte_exact [OF ok(1), of 0 0] utf16_to_byte_exact [OF ok(1), of 1 1] ok(3,5)
    by (auto simp: native_not_found_def u64_max_val)
  then have "native_nsrange_to_byte_range m 0 1 = Inr (OffsetRange 0 1)"
    by (simp add: native_nsrange_to_byte_range_def native_not_found_def u64_max_val utf16_from_native_def
        checked_add_def range_new_iff result_simps)
  with ranges_roundtrip [OF m base, of "OffsetRange 0 0" "OffsetRange 0 1" 0 1] m show ?thesis
    by (auto simp: range_ok_def)
qed

end
