(* ===== verification/Chunk_Decoder.thy ===== *)
theory Chunk_Decoder
  imports Encoding_Map "HOL-Library.Sublist"
begin

text \<open>
  \<open>StatefulChunkDecoder\<close> of \<open>crates/fcb-source/src/encoding.rs\<close>: streaming decoding of a capture that
  arrives in chunks of any size, holding back the bytes of a character that a chunk boundary splits.

  \<open>pending_bytes\<close> is the array of four bytes with its length; \<open>copy_from_slice\<close> into it panics
  (\<^const>\<open>None\<close>) when more than four bytes would be held back, which never happens. A failing
  allocation (\<open>try_reserve_exact\<close>) is not modelled.
\<close>

record chunk_decoder =
  cd_encoding :: detected_encoding
  cd_bytes :: "byte list"
  cd_len :: nat
  cd_raw :: nat
  cd_dec :: nat
  cd_u16 :: nat
  cd_sca :: nat

definition with_raw_offset :: "detected_encoding \<Rightarrow> nat \<Rightarrow> chunk_decoder" where
  "with_raw_offset enc raw = \<lparr>cd_encoding = enc, cd_bytes = [0, 0, 0, 0], cd_len = 0, cd_raw = raw,
     cd_dec = 0, cd_u16 = 0, cd_sca = 0\<rparr>"

definition chunk_decoder_new :: "detected_encoding \<Rightarrow> chunk_decoder" where
  "chunk_decoder_new enc = with_raw_offset enc 0"

definition lead_needed :: "byte \<Rightarrow> nat" where
  "lead_needed b =
     (if in_bytes b 0xC2 0xDF then 2 else if in_bytes b 0xE0 0xEF then 3
      else if in_bytes b 0xF0 0xF4 then 4 else 1)"

fun trailing_loop :: "byte list \<Rightarrow> nat list \<Rightarrow> nat" where
  "trailing_loop bs [] = 0"
| "trailing_loop bs (i # js) =
     (let b = bs ! (length bs - i) in
      if unat b < 0x80 then 0
      else if unat b \<ge> 0xC0 then (if i < lead_needed b then i else 0)
      else trailing_loop bs js)"

definition find_trailing_utf8_split :: "byte list \<Rightarrow> nat" where
  "find_trailing_utf8_split bs =
     (if length bs = 0 then 0 else trailing_loop bs [1..<Suc (min 4 (length bs))])"

definition retain_len :: "detected_encoding \<Rightarrow> byte list \<Rightarrow> nat" where
  "retain_len enc buffer = (case enc of
     Utf8 _ \<Rightarrow> find_trailing_utf8_split buffer
   | Unsupported \<Rightarrow> 0
   | _ \<Rightarrow>
     let complete = length buffer - length buffer mod 2;
         retain = length buffer - complete in
     if complete \<ge> 2 \<and>
        is_high (u16_unit (enc = Utf16Le) (buffer ! (complete - 2)) (buffer ! (complete - 1)))
     then retain + 2 else retain)"

definition advance :: "chunk_decoder \<Rightarrow> encoding_map \<Rightarrow> (source_error + unit) \<times> chunk_decoder" where
  "advance d m =
     (case and_then (ok_or RangeOutOfBounds (checked_add (cd_raw d) (em_raw m))) (\<lambda>raw.
           and_then (ok_or RangeOutOfBounds (checked_add (cd_dec d) (em_dec m))) (\<lambda>dec.
           and_then (ok_or RangeOutOfBounds (checked_add (cd_u16 d) (em_u16 m))) (\<lambda>u16.
           and_then (ok_or RangeOutOfBounds (checked_add (cd_sca d) (em_sca m))) (\<lambda>sca.
           Inr (raw, dec, u16, sca))))) of
        Inl e \<Rightarrow> (Inl e, d)
      | Inr (raw, dec, u16, sca) \<Rightarrow>
          (Inr (), d\<lparr>cd_raw := raw, cd_dec := dec, cd_u16 := u16, cd_sca := sca\<rparr>))"

definition build_here :: "chunk_decoder \<Rightarrow> byte list \<Rightarrow> source_error + encoding_map" where
  "build_here d bs = build_with_base_offset bs (cd_encoding d) (cd_raw d) (cd_dec d) (cd_u16 d) (cd_sca d)"

definition decode_chunk ::
  "chunk_decoder \<Rightarrow> byte list \<Rightarrow> ((source_error + encoding_map) \<times> chunk_decoder) option" where
  "decode_chunk d chunk = (case checked_add (cd_len d) (length chunk) of
     None \<Rightarrow> Some (Inl PayloadTooLarge, d)
   | Some _ \<Rightarrow>
     let buffer = take (cd_len d) (cd_bytes d) @ chunk in
     if buffer = [] then Some (build_here d [], d)
     else
       let retain = retain_len (cd_encoding d) buffer; process = length buffer - retain in
       (case build_here d (take process buffer) of
          Inl e \<Rightarrow> Some (Inl e, d)
        | Inr m \<Rightarrow> (case advance d m of
            (Inl e, d1) \<Rightarrow> Some (Inl e, d1)
          | (Inr _, d1) \<Rightarrow>
              if retain > length (cd_bytes d) then None
              else Some (Inr m, d1\<lparr>cd_bytes := drop process buffer @ drop retain (cd_bytes d),
                                   cd_len := retain\<rparr>))))"

definition decoder_finish ::
  "chunk_decoder \<Rightarrow> (source_error + encoding_map option) \<times> chunk_decoder" where
  "decoder_finish d =
     (if cd_len d = 0 then (Inr None, d)
      else case build_here d (take (cd_len d) (cd_bytes d)) of
        Inl e \<Rightarrow> (Inl e, d)
      | Inr m \<Rightarrow> (case advance d m of
          (Inl e, d1) \<Rightarrow> (Inl e, d1)
        | (Inr _, d1) \<Rightarrow> (Inr (Some m), d1\<lparr>cd_len := 0\<rparr>)))"

text \<open>A stream: every chunk in turn, then the end of the file.\<close>

fun decode_stream :: "chunk_decoder \<Rightarrow> byte list list \<Rightarrow> (source_error + encoding_map list) option" where
  "decode_stream d [] = Some (case decoder_finish d of
     (Inl e, _) \<Rightarrow> Inl e | (Inr None, _) \<Rightarrow> Inr [] | (Inr (Some m), _) \<Rightarrow> Inr [m])"
| "decode_stream d (c # cs) = Option.bind (decode_chunk d c) (\<lambda>out. case out of
     (Inl e, _) \<Rightarrow> Some (Inl e)
   | (Inr m, d1) \<Rightarrow> map_option (\<lambda>r. and_then r (\<lambda>ms. Inr (m # ms))) (decode_stream d1 cs))"

section \<open>Where a stream may be cut\<close>

text \<open>The bytes of an encoded character: a lead byte that tells the length, then continuations.\<close>

lemma encode_shape:
  assumes "is_scalar c" and "0x80 \<le> c"
  shows "\<exists>b t. utf8_encode c = b # t \<and> lead_needed b = len_utf8 c \<and> 0xC0 \<le> unat b \<and>
    (\<forall>x\<in>set t. 0x80 \<le> unat x \<and> unat x < 0xC0)"
proof -
  consider x y where "ok2 x y" "c = x * 64 + y" | x y z where "ok3 x y z" "c = x * 4096 + y * 64 + z"
    | v x y z where "ok4 v x y z" "c = v * 262144 + x * 4096 + y * 64 + z"
    using scalar_digits [OF assms] by blast
  then show ?thesis
  proof cases
    case (1 x y)
    with encode_seq(1) [OF 1(1)] length_utf8_encode [of c] show ?thesis
      by (auto simp: seq2_def ok2_def lead_needed_def in_bytes_def simp del: byte_of_eq)
  next
    case (2 x y z)
    with encode_seq(2) [OF 2(1)] length_utf8_encode [of c] show ?thesis
      by (auto simp: seq3_def ok3_def lead_needed_def in_bytes_def simp del: byte_of_eq)
  next
    case (3 v x y z)
    with encode_seq(3) [OF 3(1)] length_utf8_encode [of c] show ?thesis
      by (auto simp: seq4_def ok4_def lead_needed_def in_bytes_def simp del: byte_of_eq)
  qed
qed

text \<open>No encoded character begins in \<open>p\<close> and ends in \<open>q\<close>.\<close>

definition nospan :: "byte list \<Rightarrow> byte list \<Rightarrow> bool" where
  "nospan p q \<longleftrightarrow> (\<forall>p' c r. suffix p' p \<longrightarrow> p' \<noteq> [] \<longrightarrow> is_scalar c \<longrightarrow> 0x80 \<le> c \<longrightarrow>
     p' @ q = utf8_encode c @ r \<longrightarrow> len_utf8 c \<le> length p')"

lemma nospan_suffix: "nospan p q \<Longrightarrow> suffix p' p \<Longrightarrow> nospan p' q"
  unfolding nospan_def by (meson suffix_order.trans)

lemma nospan_decode:
  assumes "nospan p q" and "p \<noteq> []"
  shows "decode_utf8_char (p @ q) = decode_utf8_char p"
proof (cases "decode_utf8_char (p @ q)")
  case (Pair n ch)
  show ?thesis
  proof (cases ch)
    case (Some c)
    note d = decode_sound [OF Pair [unfolded Some]]
    then obtain r where r: "p @ q = utf8_encode c @ r" by blast
    then have "len_utf8 c \<le> length p" using assms d(1,2) by (auto simp: nospan_def)
    moreover have "take (len_utf8 c) (p @ q) = utf8_encode c"
      unfolding r length_utf8_encode [symmetric] by simp
    ultimately have "p = utf8_encode c @ drop (len_utf8 c) p"
      using append_take_drop_id [of "len_utf8 c" p] by simp
    then obtain r' where "p = utf8_encode c @ r'" by blast
    then show ?thesis using decode_complete [OF d(1,2)] Pair Some d(4) by simp
  next
    case None
    have "n = 1" using decode_none [of "p @ q" n] assms(2) Pair None by simp
    moreover have "decode_utf8_char p = (1, None)"
    proof (cases "decode_utf8_char p")
      case p: (Pair m ch')
      show ?thesis
      proof (cases ch')
        case None
        with p decode_none [OF assms(2), of m] show ?thesis by simp
      next
        case (Some c)
        note d = decode_sound [OF p [unfolded Some]]
        then obtain r where "p = utf8_encode c @ r" by blast
        then show ?thesis using decode_complete [OF d(1,2), of "r @ q"] Pair None by simp
      qed
    qed
    ultimately show ?thesis using Pair None by simp
  qed
qed

lemma utf8_units_split: "nospan p q \<Longrightarrow> utf8_units (p @ q) = utf8_units p @ utf8_units q"
proof (induction p rule: utf8_units.induct)
  case (2 b bs)
  have suf: "nospan (drop n (b # bs)) q" for n
    by (rule nospan_suffix [OF "2.prems"]) (rule suffix_drop)
  show ?case
  proof (cases "unat b < 0x80")
    case True
    have "nospan bs q" using suf [of 1] by simp
    with True "2.IH"(1) [OF True] show ?thesis by (simp add: utf8_units.simps(2))
  next
    case False
    obtain n ch where d: "decode_utf8_char (b # bs) = (n, ch)" by fastforce
    then have d': "decode_utf8_char (b # (bs @ q)) = (n, ch)" using nospan_decode [OF "2.prems"] by simp
    have "drop n (b # (bs @ q)) = drop n (b # bs) @ q" using decode_bound [of "b # bs"] d by (simp add: drop_Cons split: nat.split)
    with False d d' "2.IH"(2,3) [OF False d [symmetric]] suf [of n] show ?thesis
      by (cases ch) (simp_all add: utf8_units.simps(2))
  qed
qed simp

text \<open>A byte that is no continuation ends every character before it.\<close>

lemma nospan_lead:
  assumes "\<not> (0x80 \<le> unat b \<and> unat b < 0xC0)"
  shows "nospan p (b # q)"
  unfolding nospan_def
proof (intro allI impI)
  fix p' c r
  assume p': "p' \<noteq> []" and c: "is_scalar c" "0x80 \<le> c" and eq: "p' @ b # q = utf8_encode c @ r"
  obtain b0 t where t: "utf8_encode c = b0 # t" "\<forall>x\<in>set t. 0x80 \<le> unat x \<and> unat x < 0xC0"
    using encode_shape [OF c] by blast
  show "len_utf8 c \<le> length p'"
  proof (rule ccontr)
    assume "\<not> len_utf8 c \<le> length p'"
    then have lt: "length p' < length (b0 # t)" using length_utf8_encode [of c] t(1) by simp
    have "b = (utf8_encode c @ r) ! length p'" unfolding eq [symmetric] by simp
    also have "\<dots> = (b0 # t) ! length p'" using lt t(1) nth_append [of "b0 # t" r "length p'"] by simp
    finally have "b \<in> set t" using lt p' by (cases p') auto
    with t(2) assms show False by blast
  qed
qed

lemma trailing_skip:
  "\<forall>i\<in>set is. 0x80 \<le> unat (bs ! (length bs - i)) \<and> unat (bs ! (length bs - i)) < 0xC0 \<Longrightarrow>
     trailing_loop bs (is @ js) = trailing_loop bs js"
  by (induction "is") (auto simp: Let_def)

lemma trailing_found:
  "trailing_loop bs js = i \<Longrightarrow> 0 < i \<Longrightarrow> i \<in> set js \<and> 0xC0 \<le> unat (bs ! (length bs - i)) \<and>
     i < lead_needed (bs ! (length bs - i))"
  by (induction js) (auto simp: Let_def split: if_splits)

lemma lead_needed_le: "lead_needed b \<le> 4"
  by (simp add: lead_needed_def)

lemma find_trailing_bound: "find_trailing_utf8_split bs < 4" "find_trailing_utf8_split bs \<le> length bs"
proof -
  let ?i = "find_trailing_utf8_split bs"
  have "?i < 4 \<and> ?i \<le> length bs"
  proof (cases "?i = 0 \<or> bs = []")
    case False
    then have "bs \<noteq> []" and i: "0 < ?i" by auto
    then have t: "trailing_loop bs [1..<Suc (min 4 (length bs))] = ?i"
      by (simp add: find_trailing_utf8_split_def del: upt_Suc)
    from trailing_found [OF t i] lead_needed_le [of "bs ! (length bs - ?i)"] show ?thesis
      by (auto simp: less_Suc_eq_le)
  qed (auto simp: find_trailing_utf8_split_def)
  then show "?i < 4" "?i \<le> length bs" by auto
qed

lemma upt_split: "i \<le> k \<Longrightarrow> k < n \<Longrightarrow> [i..<n] = [i..<k] @ k # [Suc k..<n]"
  using upt_add_eq_append [of i k "n - k"] by (simp add: upt_conv_Cons)

text \<open>Nothing held back: no character is open at the end of the buffer.\<close>

lemma nospan_closed:
  assumes "find_trailing_utf8_split p = 0"
  shows "nospan p q"
  unfolding nospan_def
proof (intro allI impI)
  fix p' c r
  assume suf: "suffix p' p" and p': "p' \<noteq> []" and c: "is_scalar c" "0x80 \<le> c" and eq: "p' @ q = utf8_encode c @ r"
  obtain b0 t where t: "utf8_encode c = b0 # t" "lead_needed b0 = len_utf8 c" "0xC0 \<le> unat b0"
    "\<forall>x\<in>set t. 0x80 \<le> unat x \<and> unat x < 0xC0"
    using encode_shape [OF c] by blast
  show "len_utf8 c \<le> length p'"
  proof (rule ccontr)
    let ?k = "length p'"
    assume short: "\<not> len_utf8 c \<le> ?k"
    have len: "?k < 4" using short lead_needed_le [of b0] t(2) by simp
    obtain u where p: "p = u @ p'" using suf by (auto simp: suffix_def)
    have at: "p' ! j = (b0 # t) ! j" if "j < ?k" for j
    proof -
      have "(p' @ q) ! j = (utf8_encode c @ r) ! j" unfolding eq ..
      then show ?thesis
        using that short length_utf8_encode [of c] t(1) nth_append [of "b0 # t" r j] nth_append [of p' q j] by simp
    qed
    have lt: "?k < length (b0 # t)" using short length_utf8_encode [of c] t(1) by simp
    have "1 \<le> ?k" "?k < Suc (min 4 (length p))" using p' p len by (auto simp: Suc_le_eq)
    note list = upt_split [OF this]
    have "trailing_loop p [1..<Suc (min 4 (length p))] = trailing_loop p (?k # [Suc ?k..<Suc (min 4 (length p))])"
      unfolding list
    proof (rule trailing_skip, rule ballI)
      fix i
      assume "i \<in> set [1..<?k]"
      then have i: "1 \<le> i" "i < ?k" by auto
      have "length p - i = length u + (?k - i)" using i(2) by (simp add: p)
      then have "p ! (length p - i) = p' ! (?k - i)" by (simp only: p nth_append_length_plus)
      also have "\<dots> = t ! (?k - i - 1)" using at [of "?k - i"] i by (cases "?k - i") auto
      finally show "0x80 \<le> unat (p ! (length p - i)) \<and> unat (p ! (length p - i)) < 0xC0"
        using t(4) lt i by auto
    qed
    moreover have "p ! (length p - ?k) = b0" using at [of 0] p' by (simp add: p nth_append)
    ultimately have "trailing_loop p [1..<Suc (min 4 (length p))] = ?k"
      using t(2,3) short by (simp add: Let_def)
    with assms p' p show False by (simp add: find_trailing_utf8_split_def del: upt_Suc)
  qed
qed

lemma utf8_cut:
  assumes "i = find_trailing_utf8_split bs" and "bs \<noteq> []"
  shows "nospan (take (length bs - i) bs) (drop (length bs - i) bs @ q)"
proof (cases "i = 0")
  case True
  with assms(1) show ?thesis by (simp add: nospan_closed)
next
  case False
  let ?k = "length bs - i"
  have t: "trailing_loop bs [1..<Suc (min 4 (length bs))] = i" "0 < i"
    using assms False by (simp_all add: find_trailing_utf8_split_def del: upt_Suc)
  have "i \<le> length bs" using assms(1) find_trailing_bound(2) [of bs] by simp
  then have k: "?k < length bs" using t(2) by linarith
  have "0xC0 \<le> unat (bs ! ?k)" using trailing_found [OF t] by simp
  moreover have "drop ?k bs = bs ! ?k # drop (Suc ?k) bs" using k by (rule Cons_nth_drop_Suc [symmetric])
  ultimately show ?thesis using nospan_lead [of "bs ! ?k"] by simp
qed

section \<open>UTF-16\<close>

text \<open>A cut between code units that does not separate a surrogate pair.\<close>

fun cut16 :: "bool \<Rightarrow> byte list \<Rightarrow> byte list \<Rightarrow> bool" where
  "cut16 le [] q = True"
| "cut16 le [x] q = False"
| "cut16 le [x, y] q = (\<not> is_high (u16_unit le x y) \<or>
     (case q of z # w # _ \<Rightarrow> \<not> is_low (u16_unit le z w) | _ \<Rightarrow> False))"
| "cut16 le (x # y # z # bs) q = cut16 le (z # bs) q"

lemma pair_char_head: "pair_char le (x # y # z # w # bs) = pair_char le (x # y # z # w # cs)"
  by simp

lemma utf16_units_split: "cut16 le p q \<Longrightarrow> utf16_units le (p @ q) = utf16_units le p @ utf16_units le q"
proof (induction "length p" arbitrary: p rule: less_induct)
  case less
  consider "p = []" | x where "p = [x]" | x y where "p = [x, y]" | x y z where "p = [x, y, z]"
    | x y z w bs where "p = x # y # z # w # bs"
    by (metis neq_Nil_conv)
  then show ?case
  proof cases
    case (3 x y)
    have "pair_char le (x # y # q) = None" if "is_high (u16_unit le x y)"
      using less.prems that 3 by (auto split: list.splits)
    then show ?thesis unfolding 3
      by (cases "is_high (u16_unit le x y)")
        (auto simp: utf16_units.simps(3) Let_def split: option.split)
  next
    case (5 x y z w bs)
    have c: "cut16 le (z # w # bs) q" using less.prems 5 by simp
    have cbs: "cut16 le bs q" if "bs \<noteq> []" using c that by (cases bs) simp_all
    have IH: "utf16_units le ((z # w # bs) @ q) = utf16_units le (z # w # bs) @ utf16_units le q"
      using c 5 by (intro less.hyps) simp_all
    have IH2: "utf16_units le (bs @ q) = utf16_units le bs @ utf16_units le q"
    proof (cases "bs = []")
      case False
      then show ?thesis using cbs 5 by (intro less.hyps) simp_all
    qed simp
    show ?thesis unfolding 5
      using IH IH2 pair_char_head [of le x y z w "bs @ q" bs]
      by (auto simp: utf16_units.simps(3) [of le x y] Let_def simp del: pair_char.simps split: option.split)
  qed (use less.prems in auto)
qed

lemma cut16_last:
  assumes "even (length p)"
    and "2 \<le> length p \<Longrightarrow> is_high (u16_unit le (p ! (length p - 2)) (p ! (length p - 1))) \<Longrightarrow>
      (case q of z # w # _ \<Rightarrow> \<not> is_low (u16_unit le z w) | _ \<Rightarrow> False)"
  shows "cut16 le p q"
  using assms
proof (induction le p q rule: cut16.induct)
  case (4 le x y z bs q)
  then show ?case by (cases bs) (auto simp: nth_Cons split: nat.splits)
qed (auto simp: nth_Cons)

lemma high_not_low: "is_high v \<Longrightarrow> \<not> is_low v"
  by (simp add: is_high_def is_low_def)

section \<open>Cutting the units of any encoding\<close>

definition clean_cut :: "detected_encoding \<Rightarrow> byte list \<Rightarrow> byte list \<Rightarrow> bool" where
  "clean_cut enc p q = (case enc of
     Utf8 _ \<Rightarrow> nospan p q | Utf16Le \<Rightarrow> cut16 True p q | Utf16Be \<Rightarrow> cut16 False p q | Unsupported \<Rightarrow> True)"

lemma body_units_split: "clean_cut enc p q \<Longrightarrow> body_units enc (p @ q) = body_units enc p @ body_units enc q"
  by (cases enc) (simp_all add: clean_cut_def body_units_def utf8_units_split utf16_units_split escaped_units_def)

lemma cut16_drop: "cut16 le p q \<Longrightarrow> cut16 le (drop 2 p) q"
  by (induction le p q rule: cut16.induct) (simp_all add: numeral_2_eq_2)

lemma clean_cut_drop_bom: "clean_cut enc p q \<Longrightarrow> clean_cut enc (drop (bom_bytes_len enc) p) q"
  by (cases enc) (auto simp: clean_cut_def bom_bytes_len_def intro: nospan_suffix suffix_drop cut16_drop)

lemma bom_is_char: "utf8_encode 0xFEFF = [0xEF, 0xBB, 0xBF]" "len_utf8 0xFEFF = 3" "is_scalar 0xFEFF"
  by (simp_all add: utf8_encode_def byte_of_def len_utf8_def is_scalar_def)

lemma starts_with_append: "length b \<le> length p \<Longrightarrow> starts_with (p @ q) b = starts_with p b"
  by (simp add: starts_with_def)

lemma starts_with_split: "starts_with bs b \<longleftrightarrow> (\<exists>r. bs = b @ r)"
  unfolding starts_with_def by (metis append_eq_conv_conj append_take_drop_id)

lemma cut16_even: "cut16 le p q \<Longrightarrow> even (length p)"
  by (induction le p q rule: cut16.induct) auto

lemma bom_units_split:
  assumes "clean_cut enc p q" and "p \<noteq> []"
  shows "bom_units enc raw (p @ q) = bom_units enc raw p"
proof -
  have two: "starts_with (p @ q) [x, y] = starts_with p [x, y]" if "cut16 le p q" for le x y
  proof -
    have "2 \<le> length p" using cut16_even [OF that] assms(2) by (cases p rule: list.exhaust) (auto simp: Suc_le_eq intro: Nat.gr0I)
    then show ?thesis by (simp add: starts_with_append)
  qed
  have three: "starts_with (p @ q) [0xEF, 0xBB, 0xBF] = starts_with p [0xEF, 0xBB, 0xBF]" if n: "nospan p q"
  proof (cases "3 \<le> length p")
    case True
    then show ?thesis by (simp add: starts_with_append)
  next
    case False
    have "\<not> starts_with (p @ q) [0xEF, 0xBB, 0xBF]"
    proof
      assume "starts_with (p @ q) [0xEF, 0xBB, 0xBF]"
      then obtain r where "p @ q = utf8_encode 0xFEFF @ r" by (auto simp: starts_with_split bom_is_char)
      with n assms(2) bom_is_char have "len_utf8 0xFEFF \<le> length p"
        unfolding nospan_def by (metis suffix_order.refl numeral_le_iff semiring_norm(68,69,71,72))
      with False bom_is_char(2) show False by simp
    qed
    moreover have "\<not> starts_with p [0xEF, 0xBB, 0xBF]" using False by (auto simp: starts_with_split)
    ultimately show ?thesis by simp
  qed
  show ?thesis using assms(1) two three by (cases enc) (simp_all add: bom_units_def clean_cut_def)
qed

lemma units_of_Nil [simp]: "units_of enc raw [] = []"
  by (cases enc) (simp_all add: units_of_def bom_units_def body_units_def starts_with_def escaped_units_def)

lemma units_of_split:
  assumes "clean_cut enc p q"
  shows "units_of enc raw (p @ q) = units_of enc raw p @ units_of enc (raw + length p) q"
proof (cases "p = []")
  case False
  let ?n = "sum_list (map u_raw (bom_units enc raw p))"
  have n: "?n \<le> length p" by (rule bom_units_raw)
  have "?n = (if bom_units enc raw p = [] then 0 else bom_bytes_len enc)" by (simp add: bom_units_def u_raw_def)
  then have "clean_cut enc (drop ?n p) q"
    using assms clean_cut_drop_bom [OF assms] by (cases "bom_units enc raw p = []") (simp_all only: drop_0 if_True if_False simp_thms)
  then have "body_units enc (drop ?n p @ q) = body_units enc (drop ?n p) @ body_units enc q"
    by (rule body_units_split)
  moreover have "units_of enc (raw + length p) q = body_units enc q"
    using False by (simp add: units_of_def bom_units_def)
  ultimately show ?thesis
    using n by (simp add: units_of_def bom_units_split [OF assms False])
qed simp

text \<open>What is held back leaves a clean cut, and fits in the pending bytes.\<close>

lemma retain_cut:
  assumes "bs \<noteq> []"
  shows "retain_len enc bs \<le> length bs" "retain_len enc bs < 4"
    "clean_cut enc (take (length bs - retain_len enc bs) bs) (drop (length bs - retain_len enc bs) bs @ q)"
proof -
  let ?i = "retain_len enc bs"
  let ?p = "take (length bs - ?i) bs" and ?q = "drop (length bs - ?i) bs"
  have u16: "?i \<le> length bs \<and> ?i < 4 \<and> cut16 le ?p (?q @ q)"
    if enc: "enc = (if le then Utf16Le else Utf16Be)" for le
  proof -
    let ?c = "length bs - length bs mod 2"
    let ?high = "2 \<le> ?c \<and> is_high (u16_unit le (bs ! (?c - 2)) (bs ! (?c - 1)))"
    have i: "?i = length bs mod 2 + (if ?high then 2 else 0)"
      using enc by (auto simp: retain_len_def Let_def)
    have c: "even ?c" "?c \<le> length bs" "length bs - ?c = length bs mod 2"
      by (simp_all add: minus_mod_eq_mult_div [symmetric])
    show ?thesis
    proof (cases ?high)
      case True
      then have k: "length bs - ?i = ?c - 2" "?i \<le> length bs" using i c(2,3) by auto
      have "Suc (?c - 2) = ?c - 1" "Suc (?c - 1) = ?c" "?c - 2 < length bs" "?c - 1 < length bs"
        using True c(2) by linarith+
      then have "?q = bs ! (?c - 2) # bs ! (?c - 1) # drop ?c bs"
        unfolding k(1) by (metis Cons_nth_drop_Suc)
      moreover have "even (length ?p)" using c(1) True unfolding k(1) by simp
      ultimately have "cut16 le ?p (?q @ q)"
        using True high_not_low by (intro cut16_last) auto
      then show ?thesis using i k(2) True by simp
    next
      case False
      then have k: "length bs - ?i = ?c" "?i \<le> length bs" "?i < 2" using i c(2,3) by auto
      have len: "length ?p = ?c" using c(2) unfolding k(1) by simp
      have "cut16 le ?p (?q @ q)"
      proof (rule cut16_last)
        show "even (length ?p)" using len c(1) by simp
      next
        assume two: "2 \<le> length ?p" and high: "is_high (u16_unit le (?p ! (length ?p - 2)) (?p ! (length ?p - 1)))"
        then have "is_high (u16_unit le (bs ! (?c - 2)) (bs ! (?c - 1)))" unfolding len unfolding k(1) by simp
        with False two len show "case ?q @ q of z # w # _ \<Rightarrow> \<not> is_low (u16_unit le z w) | _ \<Rightarrow> False" by simp
      qed
      with k show ?thesis by simp
    qed
  qed
  have "?i \<le> length bs \<and> ?i < 4 \<and> clean_cut enc ?p (?q @ q)"
  proof (cases enc)
    case (Utf8 b)
    with utf8_cut [OF refl assms, of q] find_trailing_bound [of bs] show ?thesis
      by (simp add: retain_len_def clean_cut_def)
  next
    case Utf16Le
    with u16 [of True] show ?thesis by (simp add: clean_cut_def)
  next
    case Utf16Be
    with u16 [of False] show ?thesis by (simp add: clean_cut_def)
  next
    case Unsupported
    then show ?thesis by (simp add: retain_len_def clean_cut_def)
  qed
  then show "?i \<le> length bs" "?i < 4" "clean_cut enc ?p (?q @ q)" by auto
qed

section \<open>The stream as a whole\<close>

definition pend :: "chunk_decoder \<Rightarrow> byte list" where
  "pend d = take (cd_len d) (cd_bytes d)"

definition decoder_inv :: "chunk_decoder \<Rightarrow> bool" where
  "decoder_inv d \<longleftrightarrow> length (cd_bytes d) = 4 \<and> cd_len d < 4"

definition start :: "chunk_decoder \<Rightarrow> enc_acc" where
  "start d = acc_new (cd_raw d) (cd_dec d) (cd_u16 d) (cd_sca d)"

text \<open>The maps of a stream, read as one map from the decoder's offsets on.\<close>

definition joined :: "chunk_decoder \<Rightarrow> encoding_map list \<Rightarrow> encoding_map" where
  "joined d ms = \<lparr>em_encoding = cd_encoding d, em_base_raw = cd_raw d, em_base_dec = cd_dec d,
     em_base_u16 = cd_u16 d, em_base_sca = cd_sca d, em_raw = sum_list (map em_raw ms),
     em_dec = sum_list (map em_dec ms), em_u16 = sum_list (map em_u16 ms), em_sca = sum_list (map em_sca ms),
     em_text = concat (map em_text ms), em_spans = concat (map em_spans ms)\<rparr>"

text \<open>The decoder's offsets after a map.\<close>

definition moved :: "chunk_decoder \<Rightarrow> encoding_map \<Rightarrow> chunk_decoder \<Rightarrow> bool" where
  "moved d m d' \<longleftrightarrow> cd_encoding d' = cd_encoding d \<and> cd_raw d' = cd_raw d + em_raw m \<and>
     cd_dec d' = cd_dec d + em_dec m \<and> cd_u16 d' = cd_u16 d + em_u16 m \<and> cd_sca d' = cd_sca d + em_sca m"

definition whole :: "chunk_decoder \<Rightarrow> encoding_map list \<Rightarrow> dunit list \<Rightarrow> bool" where
  "whole d ms us \<longleftrightarrow> map_ok (joined d ms) us \<and> em_text (joined d ms) = concat (map u_chars us)"

lemma whole_Nil: "whole d [] []"
  by (auto simp: whole_def map_ok_def joined_def intro!: exI [of _ "[]"])

lemma whole_Cons:
  assumes m: "map_ok m us" "em_encoding m = cd_encoding d" "em_base_raw m = cd_raw d" "em_base_dec m = cd_dec d"
      "em_base_u16 m = cd_u16 d" "em_base_sca m = cd_sca d" "em_text m = concat (map u_chars us)"
    and d': "moved d m d'" and ms: "whole d' ms us'"
  shows "whole d (m # ms) (us @ us')"
proof -
  obtain ps ps' where p: "concat ps = us" "list_all2 (part_ok (unit_width (cd_encoding d))) (em_spans m) ps"
    "concat ps' = us'" "list_all2 (part_ok (unit_width (cd_encoding d))) (concat (map em_spans ms)) ps'"
    using m(1,2) ms d' by (auto simp: map_ok_def whole_def joined_def moved_def)
  then have "\<exists>ps. concat ps = us @ us' \<and>
      list_all2 (part_ok (unit_width (cd_encoding d))) (concat (map em_spans (m # ms))) ps"
    by (intro exI [of _ "ps @ ps'"]) (simp add: list_all2_appendI)
  moreover have "em_raw m + sum_list (map em_raw ms) = sum_list (map u_raw (us @ us'))"
    "em_dec m + sum_list (map em_dec ms) = sum_list (map u_dec (us @ us'))"
    "em_u16 m + sum_list (map em_u16 ms) = sum_list (map u_u16 (us @ us'))"
    "em_sca m + sum_list (map em_sca ms) = sum_list (map u_sca (us @ us'))"
    "em_text m @ concat (map em_text ms) = concat (map u_chars (us @ us'))"
    using m(1,7) ms by (simp_all add: map_ok_def whole_def joined_def)
  moreover have "contiguous sp_raw sp_raw_len (cd_raw d) (concat (map em_spans (m # ms))) (cd_raw d + (em_raw m + sum_list (map em_raw ms)))"
    "contiguous sp_dec sp_dec_len (cd_dec d) (concat (map em_spans (m # ms))) (cd_dec d + (em_dec m + sum_list (map em_dec ms)))"
    "contiguous sp_u16 sp_u16_len (cd_u16 d) (concat (map em_spans (m # ms))) (cd_u16 d + (em_u16 m + sum_list (map em_u16 ms)))"
    "contiguous sp_sca sp_sca_len (cd_sca d) (concat (map em_spans (m # ms))) (cd_sca d + (em_sca m + sum_list (map em_sca ms)))"
    using m(1,3-6) ms d' by (auto simp: map_ok_def whole_def joined_def moved_def add.assoc [symmetric] intro: contiguous_append)
  ultimately show ?thesis by (simp add: whole_def map_ok_def joined_def)
qed

lemma fits_parts:
  assumes "fits (start d) (us @ us')"
  shows "bases_fit (cd_raw d) (cd_dec d) (cd_u16 d) (cd_sca d)" "fits (start d) us"
  using assms by (auto simp: fits_def start_def acc_new_def bases_fit_def)

lemma advance_ok:
  assumes "map_ok m us" and "fits (start d) (us @ us')" and "advance d m = (res, d1)"
  shows "res = Inr ()" "moved d m d1" "fits (start d1) us'" "cd_bytes d1 = cd_bytes d"
  using assms by (auto simp: map_ok_def fits_def start_def acc_new_def moved_def advance_def checked_add_def)

lemma build_here_ok:
  assumes "fits (start d) (units_of (cd_encoding d) (cd_raw d) bs @ us')"
  shows "\<exists>m. build_here d bs = Inr m \<and> map_ok m (units_of (cd_encoding d) (cd_raw d) bs) \<and>
    em_encoding m = cd_encoding d \<and> em_base_raw m = cd_raw d \<and> em_base_dec m = cd_dec d \<and>
    em_base_u16 m = cd_u16 d \<and> em_base_sca m = cd_sca d \<and>
    em_text m = concat (map u_chars (units_of (cd_encoding d) (cd_raw d) bs)) \<and> em_raw m = length bs"
proof -
  note f = fits_parts [OF assms]
  obtain m where m: "build_here d bs = Inr m"
    using encoding_map_built [OF f(1) f(2) [unfolded start_def]] by (auto simp: build_here_def)
  note ok = build_map_ok [OF m [unfolded build_here_def] f(1)]
  have "em_raw m = length bs" using ok(1) by (simp add: map_ok_def units_of_raw)
  with m ok show ?thesis by auto
qed

text \<open>One chunk: its bytes, with what was pending, up to a clean cut; the rest is pending.\<close>

lemma decode_chunk_step:
  assumes inv: "decoder_inv d"
    and fit: "fits (start d) (units_of (cd_encoding d) (cd_raw d) (pend d @ c @ q))"
  shows "\<exists>m d' bs. decode_chunk d c = Some (Inr m, d') \<and> moved d m d' \<and> decoder_inv d' \<and>
    build_here d bs = Inr m \<and> map_ok m (units_of (cd_encoding d) (cd_raw d) bs) \<and>
    em_text m = concat (map u_chars (units_of (cd_encoding d) (cd_raw d) bs)) \<and>
    units_of (cd_encoding d) (cd_raw d) (pend d @ c @ q) =
      units_of (cd_encoding d) (cd_raw d) bs @ units_of (cd_encoding d') (cd_raw d') (pend d' @ q) \<and>
    fits (start d') (units_of (cd_encoding d') (cd_raw d') (pend d' @ q))"
proof -
  let ?enc = "cd_encoding d" and ?b = "pend d @ c"
  define k where "k = length ?b - retain_len ?enc ?b"
  have pl: "length (pend d) = cd_len d" using inv by (simp add: pend_def decoder_inv_def)
  have "cd_raw d + length (pend d @ c @ q) \<le> u64_max"
    using fit units_of_raw [of ?enc "cd_raw d" "pend d @ c @ q"] by (simp add: fits_def start_def acc_new_def)
  then have cap: "checked_add (cd_len d) (length c) = Some (cd_len d + length c)"
    using pl by (simp add: checked_add_def)
  have split: "units_of ?enc (cd_raw d) (take k ?b @ drop k ?b @ q) =
      units_of ?enc (cd_raw d) (take k ?b) @ units_of ?enc (cd_raw d + length (take k ?b)) (drop k ?b @ q)"
  proof (cases "?b = []")
    case False
    show ?thesis by (rule units_of_split) (use retain_cut(3) [OF False, of ?enc q] in \<open>simp add: k_def\<close>)
  qed simp
  have cat: "take k ?b @ drop k ?b @ q = pend d @ c @ q"
    by (metis append.assoc append_take_drop_id)
  note fit' = fit [folded cat, unfolded split]
  obtain m where m: "build_here d (take k ?b) = Inr m" "map_ok m (units_of ?enc (cd_raw d) (take k ?b))"
    "em_text m = concat (map u_chars (units_of ?enc (cd_raw d) (take k ?b)))" "em_raw m = length (take k ?b)"
    using build_here_ok [OF fit'] by blast
  obtain res d1 where adv: "advance d m = (res, d1)" by fastforce
  note a = advance_ok [OF m(2) fit' adv]
  have r: "cd_raw d1 = cd_raw d + length (take k ?b)" "cd_encoding d1 = ?enc" using a(2) m(4) by (simp_all add: moved_def)
  show ?thesis
  proof (cases "?b = []")
    case True
    then have "moved d m d" "decode_chunk d c = Some (Inr m, d)"
      using m cap by (auto simp: moved_def map_ok_def decode_chunk_def pend_def)
    then show ?thesis using inv m split cat fit' True pl by (intro exI [of _ m] exI [of _ d] exI [of _ "[]"]) simp
  next
    case False
    let ?r = "retain_len ?enc ?b"
    note rl = retain_cut(1,2) [OF False, of ?enc]
    define d' where "d' = d1\<lparr>cd_bytes := drop k ?b @ drop ?r (cd_bytes d), cd_len := ?r\<rparr>"
    have len: "length (drop k ?b) = ?r" using rl(1) by (simp add: k_def)
    have small: "\<not> length (cd_bytes d1) < ?r" using a(4) inv rl(2) by (simp add: decoder_inv_def)
    have dc: "decode_chunk d c = Some (Inr m, d')"
      using adv [unfolded a(1)] small
      unfolding decode_chunk_def pend_def [symmetric] Let_def cap option.case if_not_P [OF False]
        k_def [symmetric] m(1) d'_def
      by (simp add: a(4))
    have d': "moved d m d'" "decoder_inv d'" "pend d' = drop k ?b" "cd_raw d' = cd_raw d1" "cd_encoding d' = ?enc"
      "start d' = start d1"
      using a(2) inv rl(2) len r(2) by (simp_all add: d'_def moved_def decoder_inv_def pend_def start_def)
    have u: "units_of ?enc (cd_raw d) (pend d @ c @ q) =
        units_of ?enc (cd_raw d) (take k ?b) @ units_of (cd_encoding d') (cd_raw d') (pend d' @ q)"
      unfolding d'(3-5) r(1) by (rule split [unfolded cat])
    have f: "fits (start d') (units_of (cd_encoding d') (cd_raw d') (pend d' @ q))"
      unfolding d'(3-6) r(1) by (rule a(3))
    from dc d'(1,2) m(1-3) u f show ?thesis by blast
  qed
qed

lemma finish_step:
  assumes inv: "decoder_inv d"
    and fit: "fits (start d) (units_of (cd_encoding d) (cd_raw d) (pend d))"
  shows "\<exists>ms. decode_stream d [] = Some (Inr ms) \<and> whole d ms (units_of (cd_encoding d) (cd_raw d) (pend d))"
proof (cases "cd_len d = 0")
  case True
  then show ?thesis using whole_Nil by (simp add: decoder_finish_def pend_def)
next
  case False
  let ?us = "units_of (cd_encoding d) (cd_raw d) (pend d)"
  from fit have fit': "fits (start d) (?us @ [])" by simp
  obtain m where m: "build_here d (pend d) = Inr m" "map_ok m ?us" "em_encoding m = cd_encoding d"
    "em_base_raw m = cd_raw d" "em_base_dec m = cd_dec d" "em_base_u16 m = cd_u16 d"
    "em_base_sca m = cd_sca d" "em_text m = concat (map u_chars ?us)"
    using build_here_ok [OF fit'] by blast
  obtain res d1 where adv: "advance d m = (res, d1)" by fastforce
  note a = advance_ok [OF m(2) fit' adv]
  have "whole d1 [] []" by (rule whole_Nil)
  from whole_Cons [OF m(2-8) a(2) this] False m(1) adv a(1) show ?thesis
    by (simp add: decoder_finish_def pend_def [symmetric])
qed

lemma decode_stream_whole:
  "decoder_inv d \<Longrightarrow> fits (start d) (units_of (cd_encoding d) (cd_raw d) (pend d @ concat cs)) \<Longrightarrow>
     \<exists>ms. decode_stream d cs = Some (Inr ms) \<and>
       whole d ms (units_of (cd_encoding d) (cd_raw d) (pend d @ concat cs))"
proof (induction cs arbitrary: d)
  case Nil
  then show ?case using finish_step [of d] by simp
next
  case (Cons c cs)
  let ?us = "\<lambda>d bs. units_of (cd_encoding d) (cd_raw d) bs"
  from Cons.prems(2) have fit: "fits (start d) (?us d (pend d @ c @ concat cs))" by simp
  obtain m d' bs where s: "decode_chunk d c = Some (Inr m, d')" "moved d m d'" "decoder_inv d'"
    "build_here d bs = Inr m" "?us d (pend d @ c @ concat cs) = ?us d bs @ ?us d' (pend d' @ concat cs)"
    "fits (start d') (?us d' (pend d' @ concat cs))"
    using decode_chunk_step [OF Cons.prems(1) fit] by blast
  obtain ms where ms: "decode_stream d' cs = Some (Inr ms)" "whole d' ms (?us d' (pend d' @ concat cs))"
    using Cons.IH [OF s(3,6)] by blast
  have "bases_fit (cd_raw d) (cd_dec d) (cd_u16 d) (cd_sca d)" by (rule fits_parts [OF fit [unfolded s(5)]])
  note ok = build_map_ok [OF s(4) [unfolded build_here_def] this]
  from whole_Cons [OF ok s(2) ms(2)] s(1,5) ms(1) show ?case by simp
qed

section \<open>Properties\<close>

text \<open>
  C3: Decoding in chunks is decoding at once. Whenever the whole byte string can be decoded, every way
  of cutting it into chunks (empty ones and cuts inside a character, a surrogate pair or the byte order
  mark included) streams without panic or error; the texts of the chunks' maps join up to the text of
  the whole, their totals add up, and their spans tile the four domains of the whole without gap.
\<close>

theorem chunked_decode_exact:
  assumes "build_with_base_offset (concat chunks) enc raw 0 0 0 = Inr m" and "raw \<le> u64_max"
  shows "\<exists>ms. decode_stream (with_raw_offset enc raw) chunks = Some (Inr ms) \<and>
    concat (map em_text ms) = em_text m \<and> sum_list (map em_raw ms) = em_raw m \<and>
    sum_list (map em_dec ms) = em_dec m \<and> sum_list (map em_u16 ms) = em_u16 m \<and>
    sum_list (map em_sca ms) = em_sca m \<and>
    contiguous sp_raw sp_raw_len raw (concat (map em_spans ms)) (raw + em_raw m) \<and>
    contiguous sp_dec sp_dec_len 0 (concat (map em_spans ms)) (em_dec m) \<and>
    contiguous sp_u16 sp_u16_len 0 (concat (map em_spans ms)) (em_u16 m) \<and>
    contiguous sp_sca sp_sca_len 0 (concat (map em_spans ms)) (em_sca m)"
proof -
  let ?d = "with_raw_offset enc raw" and ?us = "units_of enc raw (concat chunks)"
  have base: "bases_fit raw 0 0 0" using assms(2) by (simp add: bases_fit_def)
  have fit: "fits (acc_new raw 0 0 0) ?us"
    using build_builds [OF base, of enc "concat chunks"] assms(1) by (auto simp: builds_def split: if_splits)
  note ok = build_map_ok [OF assms(1) base]
  have d: "decoder_inv ?d" "start ?d = acc_new raw 0 0 0" "pend ?d = []" "cd_encoding ?d = enc" "cd_raw ?d = raw"
    by (simp_all add: decoder_inv_def with_raw_offset_def start_def pend_def)
  obtain ms where ms: "decode_stream ?d chunks = Some (Inr ms)" "whole ?d ms ?us"
    using decode_stream_whole [OF d(1), of chunks] fit d by auto
  from ms ok(1,7) show ?thesis
    by (auto simp: whole_def map_ok_def joined_def with_raw_offset_def intro!: exI [of _ ms])
qed

text \<open>A character of two bytes cut in the middle, with an empty chunk between.\<close>

theorem chunked_decode_exact_witness:
  "\<exists>ms. decode_stream (with_raw_offset (Utf8 False) 7) [[65, 0xC3], [], [0xA9]] = Some (Inr ms) \<and>
     concat (map em_text ms) = [65, 0xE9]"
proof -
  let ?cs = "[[65, 0xC3], [], [0xA9]] :: byte list list"
  have units: "units_of (Utf8 False) 7 (concat ?cs) = [(1, [65], AsciiRun), (2, [0xE9], BmpMultiByte)]"
    by (simp add: units_of_def bom_units_def body_units_def utf8_units.simps(2) decode_utf8_char_def in_bytes_def
        unat_masks or_shift [of _ 6, simplified] char_from_u32_def is_scalar_def len_utf16_def)
  have base: "bases_fit 7 0 0 0" by (simp add: bases_fit_def u64_max_val)
  have "fits (acc_new 7 0 0 0) (units_of (Utf8 False) 7 (concat ?cs))"
    unfolding units by (simp add: fits_def acc_new_def unit_simps len_utf8_def len_utf16_def u64_max_val)
  from encoding_map_built [OF base this]
  obtain m where m: "build_with_base_offset (concat ?cs) (Utf8 False) 7 0 0 0 = Inr m" by blast
  have "em_text m = [65, 0xE9]" using build_map_ok(7) [OF m base] unfolding units by (simp add: u_chars_def)
  with chunked_decode_exact [OF m] show ?thesis by (auto simp: u64_max_val)
qed

end
