(* ===== verification/Snapshot_Store.thy ===== *)
theory Snapshot_Store
  imports Chunks
begin

text \<open>
  Observed snapshots of \<open>crates/fcb-source/src/snapshot.rs\<close>: the reader that retries a file which
  changes under it, the store that pins old snapshots, and the anchors that resolve against them.

  The file system is given by one \<open>attempt\<close> per iteration of the retry loop: what opening the path
  returned, the metadata before and after, the read events, and the values the cancel flag showed at
  each test. Modification times are nanoseconds from the epoch. The process-wide pin counter
  \<open>NEXT_PIN_ID\<close> is a state component that other stores advance too.
\<close>

section \<open>Observed snapshots\<close>

datatype consistency = VerifiedMatch | DivergedDuringRead | TruncatedDuringRead

record observation_metadata =
  om_initial_len :: nat
  om_final_len :: nat
  om_initial_micros :: "nat option"
  om_final_micros :: "nat option"
  om_retries :: nat
  om_consistency :: consistency

definition settled :: "observation_metadata \<Rightarrow> bool" where
  "settled m \<longleftrightarrow> om_consistency m = VerifiedMatch"

datatype snapshot_backing = CompleteBacking chunked_capture | ExtentBacking extent_capture

fun backing_request :: "snapshot_backing \<Rightarrow> capture_request" where
  "backing_request (CompleteBacking c) = kc_request c"
| "backing_request (ExtentBacking e) = ec_request e"

fun backing_total :: "snapshot_backing \<Rightarrow> nat option" where
  "backing_total (CompleteBacking c) = Some (kc_total c)"
| "backing_total (ExtentBacking e) = ec_total e"

fun backing_digest :: "snapshot_backing \<Rightarrow> digest" where
  "backing_digest (CompleteBacking c) = kc_digest c"
| "backing_digest (ExtentBacking e) =
     (let h = fold (\<lambda>ob h. (h XOR ob_digest ob) * fnv_prime) (ec_observations e) fnv_offset in
      case ec_total e of None \<Rightarrow> h | Some n \<Rightarrow> fnv_mix n h)"

fun backing_range_read :: "snapshot_backing \<Rightarrow> byte_range \<Rightarrow> (source_error + exact_range) option" where
  "backing_range_read (CompleteBacking c) r = range_read c r"
| "backing_range_read (ExtentBacking e) r = Some (Inl CaptureUnavailable)"

record observed_snapshot =
  os_file :: file_id
  os_revision :: source_revision
  os_backing :: snapshot_backing
  os_metadata :: observation_metadata
  os_digest :: digest

definition observed_snapshot_new ::
  "file_id \<Rightarrow> source_revision \<Rightarrow> snapshot_backing \<Rightarrow> observation_metadata \<Rightarrow>
   source_error + observed_snapshot" where
  "observed_snapshot_new f rv b m =
     (let q = backing_request b in
      if qid_owner f \<noteq> qid_owner rv \<or> qid_owner (req_file q) \<noteq> qid_owner f \<or>
        qid_owner (req_revision q) \<noteq> qid_owner rv then Inl ForeignOwner
      else if req_file q \<noteq> f \<or> req_revision q \<noteq> rv then Inl MetadataMismatch
      else Inr \<lparr>os_file = f, os_revision = rv, os_backing = b, os_metadata = m,
                os_digest = backing_digest b\<rparr>)"

section \<open>Reading with retries\<close>

record file_stat =
  fs_regular :: bool
  fs_len :: nat
  fs_modified :: "int option"

text \<open>\<open>duration_since(UNIX_EPOCH)\<close> fails before the epoch; \<open>as u64\<close> truncates.\<close>

definition micros :: "int option \<Rightarrow> nat option" where
  "micros time = Option.bind time (\<lambda>t. if t < 0 then None else Some (nat (t div 1000) mod 2 ^ 64))"

record attempt =
  at_canceled :: bool
  at_open :: "source_error + unit"
  at_canceled_before :: bool
  at_before :: "file_stat option"
  at_reads :: "read_event list"
  at_polls :: "bool list"
  at_after :: "file_stat option"
  at_canceled_after :: bool

definition unchanged :: "file_stat \<Rightarrow> file_stat \<Rightarrow> bool" where
  "unchanged b a \<longleftrightarrow> \<not> (fs_len b \<noteq> fs_len a \<or> fs_modified b \<noteq> fs_modified a)"

definition observe_open_file ::
  "capture_request \<Rightarrow> nat \<Rightarrow> nat \<Rightarrow> nat \<Rightarrow> attempt \<Rightarrow> (source_error + observed_snapshot) option" where
  "observe_open_file q csize limit retries w =
     (if at_canceled_before w then Some (Inl Canceled)
      else case at_before w of
        None \<Rightarrow> Some (Inl RootUnavailable)
      | Some before \<Rightarrow>
          if \<not> fs_regular before then Some (Inl SpecialObject)
          else if fs_len before > limit then Some (Inl PayloadTooLarge)
          else Option.bind (read_from_reader q csize limit (Some (fs_len before)) (at_reads w) (at_polls w))
            (\<lambda>res. case res of
              Inl e \<Rightarrow> Some (Inl e)
            | Inr capture \<Rightarrow> (case at_after w of
                None \<Rightarrow> Some (Inl RootUnavailable)
              | Some after \<Rightarrow>
                  if at_canceled_after w then Some (Inl Canceled)
                  else Some (observed_snapshot_new (req_file q) (req_revision q) (CompleteBacking capture)
                    \<lparr>om_initial_len = fs_len before, om_final_len = fs_len after,
                     om_initial_micros = micros (fs_modified before),
                     om_final_micros = micros (fs_modified after), om_retries = retries,
                     om_consistency = (if unchanged before after then VerifiedMatch else DivergedDuringRead)\<rparr>))))"

text \<open>The loop; \<open>world n\<close> is what iteration \<open>n\<close> meets. \<open>retries\<close> stays within the policy's \<open>u32\<close>.\<close>

function retry_loop ::
  "capture_request \<Rightarrow> nat \<Rightarrow> nat \<Rightarrow> nat \<Rightarrow> (nat \<Rightarrow> attempt) \<Rightarrow> nat \<Rightarrow> (source_error + observed_snapshot) option" where
  "retry_loop q csize limit max_retries world retries =
     (if at_canceled (world retries) then Some (Inl Canceled)
      else case at_open (world retries) of
        Inl e \<Rightarrow> Some (Inl e)
      | Inr _ \<Rightarrow> Option.bind (observe_open_file q csize limit retries (world retries)) (\<lambda>res. case res of
          Inr snap \<Rightarrow>
            if settled (os_metadata snap) \<or> retries \<ge> max_retries then Some (Inr snap)
            else retry_loop q csize limit max_retries world (retries + 1)
        | Inl e \<Rightarrow>
            if e = ConcurrentModification \<and> retries < max_retries
            then retry_loop q csize limit max_retries world (retries + 1)
            else Some (Inl e)))"
  by pat_completeness auto
termination
  by (relation "measure (\<lambda>(q, csize, limit, max_retries, world, retries). max_retries - retries)") auto

declare retry_loop.simps [simp del]

definition read_file_with_retry ::
  "capture_request \<Rightarrow> nat \<Rightarrow> nat \<Rightarrow> nat \<Rightarrow> (nat \<Rightarrow> attempt) \<Rightarrow> (source_error + observed_snapshot) option" where
  "read_file_with_retry q csize limit max_retries world = retry_loop q csize limit max_retries world 0"

section \<open>The pinned store\<close>

datatype snapshot_pin = SnapshotPin (pin_id: nat) (pin_file: file_id) (pin_revision: source_revision)

record pinned_store =
  ps_owner :: arena_owner_id
  ps_snapshots :: "file_id \<times> source_revision \<rightharpoonup> observed_snapshot"
  ps_pins :: "file_id \<times> source_revision \<rightharpoonup> nat set"

definition pinned_new :: "arena_owner_id \<Rightarrow> pinned_store" where
  "pinned_new ow = \<lparr>ps_owner = ow, ps_snapshots = Map.empty, ps_pins = Map.empty\<rparr>"

text \<open>A clone shares the snapshots but holds no pin.\<close>

definition pinned_clone :: "pinned_store \<Rightarrow> pinned_store" where
  "pinned_clone s = \<lparr>ps_owner = ps_owner s, ps_snapshots = ps_snapshots s, ps_pins = Map.empty\<rparr>"

definition foreign :: "pinned_store \<Rightarrow> file_id \<Rightarrow> source_revision \<Rightarrow> bool" where
  "foreign s f rv \<longleftrightarrow> qid_owner f \<noteq> ps_owner s \<or> qid_owner rv \<noteq> ps_owner s"

definition pinned_insert :: "pinned_store \<Rightarrow> observed_snapshot \<Rightarrow> (source_error + unit) \<times> pinned_store" where
  "pinned_insert s snap =
     (let key = (os_file snap, os_revision snap) in
      if foreign s (os_file snap) (os_revision snap) then (Inl ForeignOwner, s)
      else if ps_snapshots s key \<noteq> None then (Inl CaptureAlreadyPresent, s)
      else (Inr (), s\<lparr>ps_snapshots := (ps_snapshots s)(key \<mapsto> snap)\<rparr>))"

definition pinned_get :: "pinned_store \<Rightarrow> file_id \<Rightarrow> source_revision \<Rightarrow> source_error + observed_snapshot" where
  "pinned_get s f rv =
     (if foreign s f rv then Inl ForeignOwner else ok_or CaptureUnavailable (ps_snapshots s (f, rv)))"

definition pins_of :: "pinned_store \<Rightarrow> file_id \<times> source_revision \<Rightarrow> nat set" where
  "pins_of s key = (case ps_pins s key of None \<Rightarrow> {} | Some pins \<Rightarrow> pins)"

definition pin :: "pinned_store \<Rightarrow> nat \<Rightarrow> file_id \<Rightarrow> source_revision \<Rightarrow>
   (source_error + snapshot_pin) \<times> pinned_store \<times> nat" where
  "pin s next f rv =
     (let key = (f, rv) in
      if foreign s f rv then (Inl ForeignOwner, s, next)
      else if ps_snapshots s key = None then (Inl CaptureUnavailable, s, next)
      else if ps_pins s key \<noteq> None \<and> card (the (ps_pins s key)) \<ge> u32_max then (Inl IdentityExhausted, s, next)
      else case checked_add next 1 of
        None \<Rightarrow> (Inl IdentityExhausted, s, next)
      | Some next' \<Rightarrow>
          (Inr (SnapshotPin next f rv),
           s\<lparr>ps_pins := (ps_pins s)(key \<mapsto> insert next (pins_of s key))\<rparr>, next'))"

definition unpin :: "pinned_store \<Rightarrow> snapshot_pin \<Rightarrow> bool \<times> pinned_store" where
  "unpin s p =
     (let key = (pin_file p, pin_revision p) in
      case ps_pins s key of
        None \<Rightarrow> (False, s)
      | Some pins \<Rightarrow>
          if pin_id p \<notin> pins then (False, s)
          else (let pins' = pins - {pin_id p} in
            (True, s\<lparr>ps_pins := (ps_pins s)(key := if pins' = {} then None else Some pins')\<rparr>)))"

definition pin_count :: "pinned_store \<Rightarrow> file_id \<Rightarrow> source_revision \<Rightarrow> nat" where
  "pin_count s f rv = (case ps_pins s (f, rv) of None \<Rightarrow> 0 | Some pins \<Rightarrow> card pins mod 2 ^ 32)"

definition pinned_evict ::
  "pinned_store \<Rightarrow> file_id \<Rightarrow> source_revision \<Rightarrow> (source_error + bool) \<times> pinned_store" where
  "pinned_evict s f rv =
     (if foreign s f rv then (Inl ForeignOwner, s)
      else if ps_pins s (f, rv) \<noteq> None then (Inl PinActive, s)
      else (Inr (ps_snapshots s (f, rv) \<noteq> None),
            s\<lparr>ps_snapshots := (ps_snapshots s)((f, rv) := None)\<rparr>))"

section \<open>Anchors\<close>

datatype anchor_resolution =
    ExactPinned exact_range
  | VerifiedLiveMatch exact_range
  | StaleOrDiverged source_revision digest "digest option"

definition anchor_resolve ::
  "pinned_store \<Rightarrow> file_id \<Rightarrow> source_revision \<Rightarrow> byte_range \<Rightarrow> digest \<Rightarrow> observed_snapshot option \<Rightarrow>
   (source_error + anchor_resolution) option" where
  "anchor_resolve s f rv r expected live =
     (case pinned_get s f rv of
        Inr kept \<Rightarrow>
          if os_digest kept \<noteq> expected then Some (Inl MetadataMismatch)
          else map_option (\<lambda>res. and_then res (\<lambda>x. Inr (ExactPinned x))) (backing_range_read (os_backing kept) r)
      | Inl e \<Rightarrow>
          if e \<noteq> CaptureUnavailable then Some (Inl e)
          else if live \<noteq> None \<and> foreign s (os_file (the live)) (os_revision (the live)) then Some (Inl ForeignOwner)
          else if live \<noteq> None \<and> os_file (the live) \<noteq> f then Some (Inl MetadataMismatch)
          else Some (Inr (StaleOrDiverged rv expected (map_option os_digest live))))"

section \<open>The store keeps the contract of a keyed store\<close>

definition snapshot_key :: "observed_snapshot \<Rightarrow> file_id \<times> source_revision" where
  "snapshot_key snap = (os_file snap, os_revision snap)"

definition pinned_put :: "pinned_store \<Rightarrow> observed_snapshot \<Rightarrow> bool \<times> pinned_store" where
  "pinned_put s snap = (is_ok (fst (pinned_insert s snap)), snd (pinned_insert s snap))"

interpretation pinned: keyed_store pinned_put "\<lambda>s k. snd (pinned_evict s (fst k) (snd k))"
  ps_snapshots snapshot_key
  by unfold_locales
    (auto simp: pinned_put_def pinned_insert_def pinned_evict_def snapshot_key_def Let_def split: if_splits)

section \<open>The retry loop\<close>

text \<open>What one iteration would return, and when the loop goes on to the next one.\<close>

definition iteration ::
  "capture_request \<Rightarrow> nat \<Rightarrow> nat \<Rightarrow> nat \<Rightarrow> attempt \<Rightarrow> (source_error + observed_snapshot) option" where
  "iteration q csize limit n w =
     (if at_canceled w then Some (Inl Canceled)
      else case at_open w of Inl e \<Rightarrow> Some (Inl e) | Inr _ \<Rightarrow> observe_open_file q csize limit n w)"

definition disturbed :: "capture_request \<Rightarrow> nat \<Rightarrow> nat \<Rightarrow> nat \<Rightarrow> attempt \<Rightarrow> bool" where
  "disturbed q csize limit n w \<longleftrightarrow> \<not> at_canceled w \<and> is_ok (at_open w) \<and>
     (case observe_open_file q csize limit n w of
        Some (Inl e) \<Rightarrow> e = ConcurrentModification
      | Some (Inr snap) \<Rightarrow> \<not> settled (os_metadata snap)
      | None \<Rightarrow> False)"

lemma retry_loop_step:
  "retry_loop q csize limit m world n =
     (if disturbed q csize limit n (world n) \<and> n < m then retry_loop q csize limit m world (n + 1)
      else iteration q csize limit n (world n))"
  by (subst retry_loop.simps)
    (auto simp: disturbed_def iteration_def split: sum.splits option.splits)

lemma retry_loop_exact:
  "n \<le> m \<Longrightarrow> \<exists>k. n \<le> k \<and> k \<le> m \<and> (\<forall>j. n \<le> j \<and> j < k \<longrightarrow> disturbed q csize limit j (world j)) \<and>
     (k < m \<longrightarrow> \<not> disturbed q csize limit k (world k)) \<and>
     retry_loop q csize limit m world n = iteration q csize limit k (world k)"
proof (induction "m - n" arbitrary: n)
  case 0
  then show ?case by (intro exI [of _ n]) (auto simp: retry_loop_step [where n = n])
next
  case (Suc d)
  show ?case
  proof (cases "disturbed q csize limit n (world n)")
    case False
    then show ?thesis using Suc.prems
      by (intro exI [of _ n]) (auto simp: retry_loop_step [of q csize limit m world n])
  next
    case True
    have "n < m" "d = m - (n + 1)" "n + 1 \<le> m" using Suc.hyps(2) by auto
    from Suc.hyps(1) [OF this(2,3)] obtain k where k: "n + 1 \<le> k" "k \<le> m"
      "\<forall>j. n + 1 \<le> j \<and> j < k \<longrightarrow> disturbed q csize limit j (world j)"
      "k < m \<longrightarrow> \<not> disturbed q csize limit k (world k)"
      "retry_loop q csize limit m world (n + 1) = iteration q csize limit k (world k)" by blast
    have "\<forall>j. n \<le> j \<and> j < k \<longrightarrow> disturbed q csize limit j (world j)"
      using k(3) True by (metis Suc_eq_plus1 le_eq_less_or_eq less_eq_Suc_le)
    with k True \<open>n < m\<close> show ?thesis
      by (intro exI [of _ k]) (simp add: retry_loop_step [of q csize limit m world n])
  qed
qed

text \<open>A snapshot of an iteration holds the bytes that arrived in it.\<close>

lemma iteration_ok:
  assumes "0 < csize" and "limit \<le> u32_max"
  shows "\<exists>res. iteration q csize limit n w = Some res \<and>
    (\<forall>snap. res = Inr snap \<longrightarrow> os_file snap = req_file q \<and> os_revision snap = req_revision q \<and>
       om_retries (os_metadata snap) = n \<and>
       (\<exists>c b a. os_backing snap = CompleteBacking c \<and> layout c \<and> content (kc_chunks c) = arrivals (at_reads w) \<and>
          os_digest snap = observe (arrivals (at_reads w)) \<and>
          at_before w = Some b \<and> at_after w = Some a \<and> length (arrivals (at_reads w)) = fs_len b \<and>
          (settled (os_metadata snap) \<longleftrightarrow> fs_len b = fs_len a \<and> fs_modified b = fs_modified a)))"
proof (cases "at_canceled w \<or> \<not> is_ok (at_open w) \<or> at_canceled_before w \<or> at_before w = None \<or>
    \<not> fs_regular (the (at_before w)) \<or> fs_len (the (at_before w)) > limit")
  case True
  then have "\<exists>e. iteration q csize limit n w = Some (Inl e)"
    by (cases "at_before w") (auto simp: iteration_def observe_open_file_def split: sum.splits)
  then show ?thesis by (elim exE) simp
next
  case False
  then obtain b where b: "at_before w = Some b" by auto
  obtain res where read: "read_from_reader q csize limit (Some (fs_len b)) (at_reads w) (at_polls w) = Some res"
    and ok: "\<And>c. res = Inr c \<Longrightarrow> layout c \<and> kc_size c = csize \<and> kc_request c = q \<and>
       content (kc_chunks c) = arrivals (at_reads w) \<and> kc_total c \<le> limit \<and>
       (\<forall>n. Some (fs_len b) = Some n \<longrightarrow> n = kc_total c)"
    using read_from_reader_ok [OF assms] by blast
  show ?thesis
  proof (cases "(\<exists>e. res = Inl e) \<or> at_after w = None \<or> at_canceled_after w")
    case True
    with False b read have "\<exists>e. iteration q csize limit n w = Some (Inl e)"
      by (auto simp: iteration_def observe_open_file_def split: sum.splits option.splits)
    then show ?thesis by (elim exE) simp
  next
    case last: False
    then obtain c a where c: "res = Inr c" "at_after w = Some a" by (cases res) auto
    have eq: "iteration q csize limit n w = Some (observed_snapshot_new (req_file q) (req_revision q)
        (CompleteBacking c) \<lparr>om_initial_len = fs_len b, om_final_len = fs_len a,
          om_initial_micros = micros (fs_modified b), om_final_micros = micros (fs_modified a),
          om_retries = n, om_consistency = (if unchanged b a then VerifiedMatch else DivergedDuringRead)\<rparr>)"
      using False last b c read by (auto simp: iteration_def observe_open_file_def split: sum.splits)
    show ?thesis unfolding eq
      using ok [OF c(1)] b c(2)
      by (auto simp: observed_snapshot_new_def Let_def settled_def unchanged_def layout_def split: if_splits)
  qed
qed

section \<open>Pins\<close>

text \<open>Any history of a store: its operations, and the pins that other stores take meanwhile.\<close>

datatype pin_op =
    OpInsert observed_snapshot
  | OpPin file_id source_revision
  | OpUnpin snapshot_pin
  | OpEvict file_id source_revision
  | OpElsewhere

fun pin_step :: "pin_op \<Rightarrow> pinned_store \<times> nat \<Rightarrow> pinned_store \<times> nat" where
  "pin_step (OpInsert snap) (s, next) = (snd (pinned_insert s snap), next)"
| "pin_step (OpPin f rv) (s, next) = snd (pin s next f rv)"
| "pin_step (OpUnpin p) (s, next) = (snd (unpin s p), next)"
| "pin_step (OpEvict f rv) (s, next) = (snd (pinned_evict s f rv), next)"
| "pin_step OpElsewhere (s, next) = (s, if next < u64_max then next + 1 else next)"

definition pin_run :: "pin_op list \<Rightarrow> pinned_store \<times> nat \<Rightarrow> pinned_store \<times> nat" where
  "pin_run ops st = fold pin_step ops st"

text \<open>A live pin keeps its snapshot.\<close>

definition holds :: "pinned_store \<Rightarrow> snapshot_pin \<Rightarrow> observed_snapshot \<Rightarrow> bool" where
  "holds s p snap \<longleftrightarrow> \<not> foreign s (pin_file p) (pin_revision p) \<and>
     pin_id p \<in> pins_of s (pin_file p, pin_revision p) \<and>
     ps_snapshots s (pin_file p, pin_revision p) = Some snap"

lemma pin_holds:
  assumes "pin s next f rv = (Inr p, s', next')"
  shows "p = SnapshotPin next f rv" "\<exists>snap. pinned_get s f rv = Inr snap \<and> holds s' p snap" "next' = next + 1"
  using assms
  by (auto simp: pin_def Let_def holds_def pinned_get_def foreign_def pins_of_def checked_add_def
      split: if_splits option.splits)

lemma step_holds:
  assumes "holds s p snap" and "op \<noteq> OpUnpin p"
  shows "holds (fst (pin_step op (s, next))) p snap"
proof (cases op)
  case (OpInsert x)
  with assms(1) show ?thesis
    by (auto simp: pinned_insert_def holds_def foreign_def pins_of_def Let_def)
next
  case (OpPin f rv)
  with assms(1) show ?thesis
    by (auto simp: pin_def holds_def foreign_def pins_of_def Let_def split: option.splits)
next
  case (OpUnpin x)
  then have "pin_file x = pin_file p \<and> pin_revision x = pin_revision p \<Longrightarrow> pin_id x \<noteq> pin_id p"
    using assms(2) by (cases x; cases p) auto
  with assms(1) OpUnpin show ?thesis
    by (auto simp: unpin_def holds_def foreign_def pins_of_def Let_def split: option.splits)
next
  case (OpEvict f rv)
  with assms(1) show ?thesis
    by (auto simp: pinned_evict_def holds_def foreign_def pins_of_def split: option.splits)
next
  case OpElsewhere
  with assms(1) show ?thesis by simp
qed

lemma run_holds: "holds s p snap \<Longrightarrow> OpUnpin p \<notin> set ops \<Longrightarrow> holds (fst (pin_run ops (s, next))) p snap"
proof (induction ops arbitrary: s "next")
  case (Cons x ops)
  obtain s1 next1 where step: "pin_step x (s, next) = (s1, next1)" by fastforce
  have "holds s1 p snap" using step_holds [OF Cons.prems(1), of x "next"] Cons.prems(2) step by auto
  from Cons.IH [OF this] Cons.prems(2) step show ?case by (simp add: pin_run_def)
qed (simp add: pin_run_def)

text \<open>Issued identifiers stay below the counter, so no two pins share one.\<close>

definition ids_below :: "pinned_store \<Rightarrow> nat \<Rightarrow> bool" where
  "ids_below s next \<longleftrightarrow> (\<forall>key. \<forall>i\<in>pins_of s key. i < next)"

lemma step_below: "ids_below s next \<Longrightarrow> pin_step op (s, next) = (s', next') \<Longrightarrow> ids_below s' next' \<and> next \<le> next'"
  by (cases op)
    (auto simp: ids_below_def pins_of_def pinned_insert_def pin_def unpin_def pinned_evict_def
      checked_add_def Let_def less_Suc_eq split: if_splits option.splits)

lemma run_below:
  "ids_below s next \<Longrightarrow> pin_run ops (s, next) = (s', next') \<Longrightarrow> ids_below s' next' \<and> next \<le> next'"
proof (induction ops arbitrary: s "next")
  case (Cons x ops)
  obtain s1 next1 where step: "pin_step x (s, next) = (s1, next1)" by fastforce
  with Cons.prems(2) have "pin_run ops (s1, next1) = (s', next')" by (simp add: pin_run_def)
  with Cons.IH step_below [OF Cons.prems(1) step] show ?case by fastforce
qed (simp add: pin_run_def)

text \<open>A retained snapshot was inserted under its own key.\<close>

lemma step_provenance:
  assumes "ps_snapshots (fst (pin_step op (s, next))) key = Some snap"
  shows "ps_snapshots s key = Some snap \<or> (op = OpInsert snap \<and> snapshot_key snap = key)"
proof (cases op)
  case (OpInsert x)
  with assms pinned.put_look [of s x key] show ?thesis by (auto simp: pinned_put_def)
next
  case (OpEvict f rv)
  with assms pinned.evict_other [of key "(f, rv)" s] pinned.evict_same [of s "(f, rv)"] show ?thesis
    by (cases "key = (f, rv)") auto
qed (use assms in \<open>auto simp: pin_def unpin_def Let_def split: option.splits if_splits\<close>)

lemma pin_run_provenance:
  "ps_snapshots (fst (pin_run ops (s, next))) key = Some snap \<Longrightarrow>
     ps_snapshots s key = Some snap \<or> (OpInsert snap \<in> set ops \<and> snapshot_key snap = key)"
proof (induction ops arbitrary: s "next")
  case (Cons x ops)
  obtain s1 next1 where step: "pin_step x (s, next) = (s1, next1)" by fastforce
  with Cons.prems have "ps_snapshots (fst (pin_run ops (s1, next1))) key = Some snap" by (simp add: pin_run_def)
  from Cons.IH [OF this] step_provenance [of x s "next" key snap] step show ?case by auto
qed (simp add: pin_run_def)

section \<open>Properties\<close>

text \<open>
  C27: For a positive chunk size and a payload limit of at most \<open>u32::MAX\<close> bytes (the chunk index is a
  \<open>u32\<close>, and a capture of more chunks panics), the retrying reader always returns, after at most the
  allowed number of retries. It returns
  what its last iteration saw: every earlier iteration was disturbed by a concurrent change, and the
  last one was either undisturbed or the last allowed. A returned snapshot carries exactly the bytes
  that arrived in that iteration, and is marked settled exactly when the metadata before and after
  agree in full.
\<close>

theorem retry_reader_exact:
  assumes "0 < csize" and "limit \<le> u32_max"
  shows "\<exists>n\<le>m. \<exists>res. read_file_with_retry q csize limit m world = Some res \<and>
    (\<forall>j<n. disturbed q csize limit j (world j)) \<and> (n < m \<longrightarrow> \<not> disturbed q csize limit n (world n)) \<and>
    iteration q csize limit n (world n) = Some res \<and>
    (\<forall>snap. res = Inr snap \<longrightarrow> (settled (os_metadata snap) \<or> n = m) \<and> om_retries (os_metadata snap) = n \<and>
       os_digest snap = observe (arrivals (at_reads (world n))) \<and>
       (\<exists>c b a. os_backing snap = CompleteBacking c \<and> content (kc_chunks c) = arrivals (at_reads (world n)) \<and>
          at_before (world n) = Some b \<and> at_after (world n) = Some a \<and> kc_total c = fs_len b \<and>
          (settled (os_metadata snap) \<longleftrightarrow> fs_len b = fs_len a \<and> fs_modified b = fs_modified a)))"
proof -
  obtain n where n: "n \<le> m" "\<forall>j<n. disturbed q csize limit j (world j)"
    "n < m \<longrightarrow> \<not> disturbed q csize limit n (world n)"
    "retry_loop q csize limit m world 0 = iteration q csize limit n (world n)"
    using retry_loop_exact [of 0 m q csize limit world] by auto
  obtain res where res: "iteration q csize limit n (world n) = Some res"
    and ok: "\<And>snap. res = Inr snap \<Longrightarrow> om_retries (os_metadata snap) = n \<and>
       (\<exists>c b a. os_backing snap = CompleteBacking c \<and> layout c \<and> content (kc_chunks c) = arrivals (at_reads (world n)) \<and>
          os_digest snap = observe (arrivals (at_reads (world n))) \<and>
          at_before (world n) = Some b \<and> at_after (world n) = Some a \<and>
          length (arrivals (at_reads (world n))) = fs_len b \<and>
          (settled (os_metadata snap) \<longleftrightarrow> fs_len b = fs_len a \<and> fs_modified b = fs_modified a))"
    using iteration_ok [OF assms, of q n "world n"] by blast
  have "settled (os_metadata snap) \<or> n = m" if "res = Inr snap" for snap
    using n(1,3) res that by (auto simp: disturbed_def iteration_def split: sum.splits if_splits)
  with n res ok show ?thesis
    by (intro exI [of _ n] conjI exI [of _ res]) (fastforce simp: read_file_with_retry_def layout_def)+
qed

text \<open>A file that grows by a byte during every read.\<close>

definition growing :: attempt where
  "growing = \<lparr>at_canceled = False, at_open = Inr (), at_canceled_before = False,
     at_before = Some \<lparr>fs_regular = True, fs_len = 1, fs_modified = None\<rparr>, at_reads = [Deliver [7]],
     at_polls = [], at_after = Some \<lparr>fs_regular = True, fs_len = 2, fs_modified = None\<rparr>,
     at_canceled_after = False\<rparr>"

theorem retry_reader_exact_witness:
  "\<exists>res. read_file_with_retry chunk_sample_request 2 10 3 (\<lambda>_. growing) = Some res \<and>
     (\<forall>snap. res = Inr snap \<longrightarrow> \<not> settled (os_metadata snap) \<and> os_digest snap = observe [7])"
  using retry_reader_exact [of 2 10 3 chunk_sample_request "\<lambda>_. growing"]
  by (fastforce simp: u32_max_def growing_def)

text \<open>
  C9: A pin keeps its snapshot alive and unchanged. From the moment a pin is taken until that pin is
  released, whatever else is inserted, pinned, released or evicted, here or in other stores, the key
  still yields the same snapshot, an eviction of it is refused, and an anchor on it resolves to the
  bytes of exactly that backing, whatever live candidate is offered.
\<close>

theorem pinned_snapshot_kept:
  assumes "pin s next f rv = (Inr p, s', next')" and "OpUnpin p \<notin> set ops"
    and "pin_run ops (s', next') = (t, next'')"
  shows "\<exists>snap. pinned_get s f rv = Inr snap \<and> pinned_get t f rv = Inr snap \<and>
    pinned_evict t f rv = (Inl PinActive, t) \<and>
    (\<forall>r live. anchor_resolve t f rv r (os_digest snap) live =
       map_option (\<lambda>res. and_then res (\<lambda>x. Inr (ExactPinned x))) (backing_range_read (os_backing snap) r))"
proof -
  note p = pin_holds [OF assms(1)]
  obtain snap where snap: "pinned_get s f rv = Inr snap" "holds s' p snap" using p(2) by blast
  have "holds t p snap" using run_holds [OF snap(2) assms(2), of next'] assms(3) by simp
  then have t: "pinned_get t f rv = Inr snap" "\<not> foreign t f rv" "ps_pins t (f, rv) \<noteq> None"
    using p(1) by (auto simp: holds_def pinned_get_def pins_of_def split: option.splits)
  with snap(1) show ?thesis by (auto simp: pinned_evict_def anchor_resolve_def)
qed

definition pin_sample :: observed_snapshot where
  "pin_sample = \<lparr>os_file = QId (ArenaOwnerId 1) 1, os_revision = QId (ArenaOwnerId 1) 2,
     os_backing = CompleteBacking chunk_sample, os_metadata = \<lparr>om_initial_len = 3, om_final_len = 3,
       om_initial_micros = None, om_final_micros = None, om_retries = 0, om_consistency = VerifiedMatch\<rparr>,
     os_digest = kc_digest chunk_sample\<rparr>"

definition pin_sample_store :: pinned_store where
  "pin_sample_store = snd (pinned_insert (pinned_new (ArenaOwnerId 1)) pin_sample)"

theorem pinned_snapshot_kept_witness:
  "pinned_get (fst (pin_run [OpElsewhere, OpEvict (QId (ArenaOwnerId 1) 1) (QId (ArenaOwnerId 1) 2)]
      (snd (pin pin_sample_store 1 (QId (ArenaOwnerId 1) 1) (QId (ArenaOwnerId 1) 2)))))
    (QId (ArenaOwnerId 1) 1) (QId (ArenaOwnerId 1) 2) = Inr pin_sample"
proof -
  let ?f = "QId (ArenaOwnerId 1) 1" and ?rv = "QId (ArenaOwnerId 1) 2"
  let ?ops = "[OpElsewhere, OpEvict ?f ?rv]"
  obtain p s' next' where p: "pin pin_sample_store 1 ?f ?rv = (Inr p, s', next')"
    by (simp add: pin_def pin_sample_store_def pinned_insert_def pinned_new_def pin_sample_def foreign_def
        checked_add_def u64_max_val Let_def)
  obtain t next'' where t: "pin_run ?ops (s', next') = (t, next'')" by fastforce
  have "pinned_get pin_sample_store ?f ?rv = Inr pin_sample"
    by (simp add: pin_sample_store_def pinned_insert_def pinned_new_def pin_sample_def foreign_def
        pinned_get_def Let_def)
  with pinned_snapshot_kept [OF p _ t] p t show ?thesis by auto
qed

text \<open>
  C28: An anchor of the pinned store never resolves to other bytes. After any history of a new store,
  an exact resolution reads a snapshot that was inserted under exactly the anchor's file and revision
  and has the expected digest; a live candidate is never read; and without a retained snapshot the
  answer is the explicit stale one or a refusal.
\<close>

theorem pinned_anchor_never_substituted:
  assumes "anchor_resolve (fst (pin_run ops (pinned_new ow, n))) f rv r expected live = Some (Inr res)"
  shows "(\<exists>snap x. res = ExactPinned x \<and> OpInsert snap \<in> set ops \<and> snapshot_key snap = (f, rv) \<and>
      os_digest snap = expected \<and> backing_range_read (os_backing snap) r = Some (Inr x)) \<or>
    (res = StaleOrDiverged rv expected (map_option os_digest live) \<and>
     ps_snapshots (fst (pin_run ops (pinned_new ow, n))) (f, rv) = None)"
proof (cases "pinned_get (fst (pin_run ops (pinned_new ow, n))) f rv")
  case (Inl e)
  with assms show ?thesis
    by (auto simp: anchor_resolve_def pinned_get_def result_simps split: if_splits)
next
  case (Inr snap)
  then have kept: "ps_snapshots (fst (pin_run ops (pinned_new ow, n))) (f, rv) = Some snap"
    by (auto simp: pinned_get_def result_simps split: if_splits)
  from pin_run_provenance [OF this] have "OpInsert snap \<in> set ops" "snapshot_key snap = (f, rv)"
    by (auto simp: pinned_new_def)
  with Inr assms show ?thesis
    by (auto simp: anchor_resolve_def result_simps split: if_splits)
qed

theorem pinned_anchor_never_substituted_witness:
  "\<not> (\<exists>x. anchor_resolve (fst (pin_run [OpInsert pin_sample, OpEvict (os_file pin_sample) (os_revision pin_sample)]
      (pinned_new (ArenaOwnerId 1), 1))) (os_file pin_sample) (os_revision pin_sample) (OffsetRange 0 1)
      (os_digest pin_sample) (Some pin_sample) = Some (Inr (VerifiedLiveMatch x)))"
proof
  let ?ops = "[OpInsert pin_sample, OpEvict (os_file pin_sample) (os_revision pin_sample)]"
  assume "\<exists>x. anchor_resolve (fst (pin_run ?ops (pinned_new (ArenaOwnerId 1), 1))) (os_file pin_sample)
      (os_revision pin_sample) (OffsetRange 0 1) (os_digest pin_sample) (Some pin_sample) =
      Some (Inr (VerifiedLiveMatch x))"
  then obtain x where "anchor_resolve (fst (pin_run ?ops (pinned_new (ArenaOwnerId 1), 1))) (os_file pin_sample)
      (os_revision pin_sample) (OffsetRange 0 1) (os_digest pin_sample) (Some pin_sample) =
      Some (Inr (VerifiedLiveMatch x))" ..
  from pinned_anchor_never_substituted [OF this] show False by auto
qed

end
