(* ===== verification/Paths.thy ===== *)
theory Paths
  imports Utf8_Codec
begin

text \<open>
  Path identities of \<open>crates/fcb-source/src/path.rs\<close>: raw paths are byte strings, normalized paths
  keep their component boundaries, untrusted bytes are displayed with escapes, and URIs are decoded
  exactly once. The Unix configuration is modelled. A \<open>&str\<close> argument is given by its UTF-8 bytes.
  A failing allocation is not modelled.
\<close>

type_synonym raw_path = "byte list"

record normalized_path =
  np_raw :: raw_path
  np_segments :: "raw_path list"

abbreviation "slash \<equiv> (47 :: byte)"
abbreviation "backslash \<equiv> (92 :: byte)"
abbreviation "dot \<equiv> (46 :: byte)"
abbreviation "percent \<equiv> (37 :: byte)"
abbreviation "colon \<equiv> (58 :: byte)"

section \<open>Normalized paths\<close>

text \<open>\<open>slice::split\<close>: the parts between the separators, at least one, empty ones included.\<close>

fun split_on :: "('a \<Rightarrow> bool) \<Rightarrow> 'a list \<Rightarrow> 'a list list" where
  "split_on P [] = [[]]"
| "split_on P (x # xs) =
     (if P x then [] # split_on P xs
      else (case split_on P xs of [] \<Rightarrow> [[x]] | c # cs \<Rightarrow> (x # c) # cs))"

definition separator :: "byte \<Rightarrow> bool" where
  "separator b \<longleftrightarrow> b = slash \<or> b = backslash"

definition ascii_alphabetic :: "byte \<Rightarrow> bool" where
  "ascii_alphabetic b \<longleftrightarrow> in_bytes b 65 90 \<or> in_bytes b 97 122"

fun collect_segments :: "byte list list \<Rightarrow> raw_path \<Rightarrow> raw_path list \<Rightarrow> source_error + (raw_path \<times> raw_path list)" where
  "collect_segments [] canonical segments = Inr (canonical, segments)"
| "collect_segments (c # cs) canonical segments =
     (if c = [] \<or> c = [dot] \<or> c = [dot, dot] then Inl PathEscape
      else collect_segments cs ((if canonical \<noteq> [] then canonical @ [slash] else canonical) @ c) (segments @ [c]))"

definition path_new :: "raw_path \<Rightarrow> source_error + normalized_path" where
  "path_new bytes =
     (if bytes = [] then Inl PathEscape
      else if 0 \<in> set bytes then Inl EncodingError
      else if starts_with bytes [slash] \<or> starts_with bytes [backslash] then Inl PathEscape
      else if length bytes \<ge> 2 \<and> bytes ! 1 = colon \<and> ascii_alphabetic (bytes ! 0) then Inl PathEscape
      else and_then (collect_segments (split_on separator bytes) [] []) (\<lambda>(canonical, segments).
        if segments = [] then Inl PathEscape
        else Inr \<lparr>np_raw = canonical, np_segments = segments\<rparr>))"

definition validate_dirent_name :: "byte list \<Rightarrow> source_error + unit" where
  "validate_dirent_name seg =
     (if seg = [] \<or> seg = [dot] \<or> seg = [dot, dot] \<or> 0 \<in> set seg \<or> slash \<in> set seg
      then Inl PathEscape else Inr ())"

definition join_segment :: "normalized_path \<Rightarrow> byte list \<Rightarrow> source_error + normalized_path" where
  "join_segment p seg =
     and_then (validate_dirent_name seg) (\<lambda>_.
     and_then (ok_or PayloadTooLarge (Option.bind (checked_add (length (np_raw p)) 1) (\<lambda>n. checked_add n (length seg)))) (\<lambda>_.
     Inr \<lparr>np_raw = np_raw p @ [slash] @ seg, np_segments = np_segments p @ [seg]\<rparr>))"

definition from_dirent_name :: "byte list \<Rightarrow> source_error + normalized_path" where
  "from_dirent_name seg =
     and_then (validate_dirent_name seg) (\<lambda>_. Inr \<lparr>np_raw = seg, np_segments = [seg]\<rparr>)"

section \<open>Decoding URIs\<close>

definition hex_val :: "byte \<Rightarrow> nat option" where
  "hex_val b =
     (if in_bytes b 48 57 then Some (unat b - 48) else if in_bytes b 97 102 then Some (unat b - 97 + 10)
      else if in_bytes b 65 70 then Some (unat b - 65 + 10) else None)"

text \<open>The decoding loop; \<open>(h1 << 4) | h2\<close> on bytes.\<close>

fun percent_loop :: "byte list \<Rightarrow> source_error + byte list" where
  "percent_loop [] = Inr []"
| "percent_loop (b # bs) =
     (if b = percent then
        (case bs of
           x # y # rst \<Rightarrow>
             and_then (ok_or EncodingError (hex_val x)) (\<lambda>h1.
             and_then (ok_or EncodingError (hex_val y)) (\<lambda>h2.
             and_then (percent_loop rst) (\<lambda>out. Inr ((push_bit 4 (byte_of h1) OR byte_of h2) # out))))
         | _ \<Rightarrow> Inl EncodingError)
      else and_then (percent_loop bs) (\<lambda>out. Inr (b # out)))"

definition decode_uri_component_bytes :: "byte list \<Rightarrow> nat \<Rightarrow> source_error + byte list" where
  "decode_uri_component_bytes component max_encoded =
     (if length component > max_encoded then Inl PayloadTooLarge else percent_loop component)"

text \<open>\<open>str::strip_prefix\<close> on the bytes\<close>

definition strip_prefix :: "byte list \<Rightarrow> byte list \<Rightarrow> byte list option" where
  "strip_prefix p s = (if starts_with s p then Some (drop (length p) s) else None)"

definition file_scheme :: "byte list" where "file_scheme = [102, 105, 108, 101, 58]"
definition localhost :: "byte list" where "localhost = [108, 111, 99, 97, 108, 104, 111, 115, 116]"

definition strip_scheme :: "byte list \<Rightarrow> source_error + byte list" where
  "strip_scheme uri = (case strip_prefix (file_scheme @ [slash, slash]) uri of
     Some rst \<Rightarrow>
       if starts_with rst (localhost @ [slash]) then Inr (drop (length localhost) rst)
       else if starts_with rst [slash] then Inr rst
       else Inl PathEscape
   | None \<Rightarrow> (case strip_prefix file_scheme uri of Some rst \<Rightarrow> Inr rst | None \<Rightarrow> Inr uri))"

definition decode_uri_path :: "byte list \<Rightarrow> source_error + normalized_path" where
  "decode_uri_path uri =
     and_then (strip_scheme uri) (\<lambda>s.
     let path = (case strip_prefix [slash] s of Some rst \<Rightarrow> rst | None \<Rightarrow> s) in
     and_then (decode_uri_component_bytes path (length path)) (\<lambda>decoded.
     if 0 \<in> set decoded then Inl EncodingError else path_new decoded))"

section \<open>Escaped display\<close>

text \<open>
  \<open>std::str::from_utf8\<close>: the characters up to \<open>valid_up_to\<close> and the bytes from there on, and
  \<open>error_len\<close> of those bytes, which is absent when the input ends inside a character.
\<close>

function valid_prefix :: "byte list \<Rightarrow> uchar list \<times> byte list" where
  "valid_prefix [] = ([], [])"
| "valid_prefix (b # bs) =
     (if unat b < 0x80 then (case valid_prefix bs of (cs, rst) \<Rightarrow> (unat b # cs, rst))
      else case decode_utf8_char (b # bs) of
        (n, Some c) \<Rightarrow> (case valid_prefix (drop n (b # bs)) of (cs, rst) \<Rightarrow> (c # cs, rst))
      | (n, None) \<Rightarrow> ([], b # bs))"
  by pat_completeness auto
termination
  by (relation "measure length") (auto dest: decode_positive simp: less_Suc_eq_le)

declare valid_prefix.simps(2) [simp del]

definition second_ok :: "byte \<Rightarrow> byte \<Rightarrow> bool" where
  "second_ok b0 b1 =
     (if b0 = 0xE0 then in_bytes b1 0xA0 0xBF else if b0 = 0xED then in_bytes b1 0x80 0x9F
      else if b0 = 0xF0 then in_bytes b1 0x90 0xBF else if b0 = 0xF4 then in_bytes b1 0x80 0x8F
      else in_bytes b1 0x80 0xBF)"

definition error_len :: "byte list \<Rightarrow> nat option" where
  "error_len bs = (case bs of
     [] \<Rightarrow> None
   | b0 # rst \<Rightarrow>
     if in_bytes b0 0xC2 0xDF then (case rst of [] \<Rightarrow> None | _ \<Rightarrow> Some 1)
     else if in_bytes b0 0xE0 0xEF then
       (case rst of
          [] \<Rightarrow> None
        | b1 # rst1 \<Rightarrow> if \<not> second_ok b0 b1 then Some 1 else (case rst1 of [] \<Rightarrow> None | _ \<Rightarrow> Some 2))
     else if in_bytes b0 0xF0 0xF4 then
       (case rst of
          [] \<Rightarrow> None
        | b1 # rst1 \<Rightarrow> if \<not> second_ok b0 b1 then Some 1
          else (case rst1 of
             [] \<Rightarrow> None
           | b2 # rst2 \<Rightarrow> if \<not> in_bytes b2 0x80 0xBF then Some 2
             else (case rst2 of [] \<Rightarrow> None | _ \<Rightarrow> Some 3)))
     else Some 1)"

definition hex_lower :: "nat \<Rightarrow> uchar" where
  "hex_lower n = (if n < 10 then 48 + n else 87 + n)"

text \<open>\<open>{:02x}\<close> of a value below 256 and \<open>{:x}\<close>\<close>

definition hex2 :: "nat \<Rightarrow> uchar list" where
  "hex2 n = [hex_lower (n div 16), hex_lower (n mod 16)]"

fun hex_string :: "nat \<Rightarrow> uchar list" where
  "hex_string n = (if n < 16 then [hex_lower n] else hex_string (n div 16) @ [hex_lower (n mod 16)])"

declare hex_string.simps [simp del]

definition ascii_control :: "uchar \<Rightarrow> bool" where "ascii_control c \<longleftrightarrow> c < 0x20 \<or> c = 0x7F"
definition control :: "uchar \<Rightarrow> bool" where "control c \<longleftrightarrow> c < 0x20 \<or> 0x7F \<le> c \<and> c \<le> 0x9F"

definition bidi_or_formatting_control :: "uchar \<Rightarrow> bool" where
  "bidi_or_formatting_control c \<longleftrightarrow>
     c \<in> {0x200E, 0x200F, 0x061C, 0x202A, 0x202B, 0x202C, 0x202D, 0x202E, 0x2066, 0x2067, 0x2068, 0x2069}"

definition path_char :: "uchar \<Rightarrow> uchar list" where
  "path_char c =
     (if c = 10 then [92, 110] else if c = 13 then [92, 114] else if c = 9 then [92, 116]
      else if c = 0 then [92, 48] else if c = 92 then [92, 92]
      else if ascii_control c then [92, 120] @ hex2 c
      else if control c \<or> bidi_or_formatting_control c then [92, 117, 123] @ hex_string c @ [125]
      else [c])"

definition hex_byte :: "byte \<Rightarrow> uchar list" where
  "hex_byte b = [92, 120] @ hex2 (unat b)"

lemma valid_prefix_length: "valid_prefix bs = (cs, rst) \<Longrightarrow> length rst \<le> length bs"
proof (induction bs arbitrary: cs rule: valid_prefix.induct)
  case (2 b bs)
  then show ?case
    by (fastforce simp: valid_prefix.simps(2) split: prod.splits option.splits if_splits)
qed simp

lemma error_len_pos: "error_len bs \<noteq> Some 0"
  by (auto simp: error_len_def split: list.splits if_splits)

function display_loop :: "byte list \<Rightarrow> uchar list" where
  "display_loop bs =
     (if bs = [] then []
      else case valid_prefix bs of (cs, rst) \<Rightarrow>
        if rst = [] then concat (map path_char cs)
        else (let bad = (case error_len rst of Some n \<Rightarrow> n | None \<Rightarrow> length rst) in
          concat (map path_char cs) @ concat (map hex_byte (take bad rst)) @ display_loop (drop bad rst)))"
  by pat_completeness auto
termination
proof (relation "measure length", goal_cases)
  case (2 bs cs rst bad)
  then have "length rst \<le> length bs" "0 < bad" "rst \<noteq> []"
    using 2 valid_prefix_length [of bs cs rst] error_len_pos [of rst] by (auto split: option.splits intro: Nat.gr0I)
  then show ?case by (cases rst) auto
qed simp

declare display_loop.simps [simp del]

section \<open>What is displayed\<close>

text \<open>The display reads the bytes as characters where they are, and byte by byte where they are not.\<close>

function shown :: "byte list \<Rightarrow> uchar list" where
  "shown [] = []"
| "shown (b # bs) =
     (if unat b < 0x80 then path_char (unat b) @ shown bs
      else case decode_utf8_char (b # bs) of
        (n, Some c) \<Rightarrow> path_char c @ shown (drop n (b # bs))
      | (n, None) \<Rightarrow> hex_byte b @ shown bs)"
  by pat_completeness auto
termination
  by (relation "measure length") (auto dest: decode_positive simp: less_Suc_eq_le)

declare shown.simps(2) [simp del]

definition continuation :: "byte \<Rightarrow> bool" where
  "continuation b \<longleftrightarrow> in_bytes b 0x80 0xBF"

lemma continuation_malformed: "continuation b \<Longrightarrow> decode_utf8_char (b # bs) = (1, None)"
  by (auto simp: continuation_def in_bytes_def decode_utf8_char_def)

lemma shown_continuations:
  "\<forall>x\<in>set t. continuation x \<Longrightarrow> shown (t @ u) = concat (map hex_byte t) @ shown u"
  by (induction t) (auto simp: shown.simps(2) continuation_malformed, simp add: continuation_def in_bytes_def)

lemma second_continuation: "second_ok b0 b1 \<Longrightarrow> continuation b1"
  by (auto simp: second_ok_def continuation_def in_bytes_def split: if_splits)

text \<open>The bytes that \<open>error_len\<close> skips after the first are continuation bytes.\<close>

lemma error_bytes:
  assumes "decode_utf8_char (b # bs) = (n, None)" and "bad = (case error_len (b # bs) of Some n \<Rightarrow> n | None \<Rightarrow> length (b # bs))"
  shows "0 < bad" "\<forall>x\<in>set (take (bad - 1) bs). continuation x"
proof -
  show "0 < bad" using assms(2) error_len_pos [of "b # bs"] by (auto split: option.splits intro: Nat.gr0I)
  consider "bs = []" | b1 where "bs = [b1]" | b1 b2 where "bs = [b1, b2]" | b1 b2 b3 bs' where "bs = b1 # b2 # b3 # bs'"
    by (metis neq_Nil_conv)
  then show "\<forall>x\<in>set (take (bad - 1) bs). continuation x"
    using assms(2)
    by cases (auto simp: error_len_def continuation_def [symmetric] take_Cons' dest!: second_continuation split: if_splits)
qed

lemma valid_prefix_shown:
  "valid_prefix bs = (cs, rst) \<Longrightarrow> shown bs = concat (map path_char cs) @ shown rst \<and>
     (rst \<noteq> [] \<longrightarrow> (\<exists>b r n. rst = b # r \<and> \<not> unat b < 0x80 \<and> decode_utf8_char rst = (n, None)))"
proof (induction bs arbitrary: cs rule: valid_prefix.induct)
  case (2 b bs)
  then show ?case
    by (fastforce simp: valid_prefix.simps(2) shown.simps(2) split: prod.splits option.splits if_splits)
qed simp

lemma display_shown: "display_loop bs = shown bs"
proof (induction bs rule: display_loop.induct)
  case (1 bs)
  obtain cs rst where v: "valid_prefix bs = (cs, rst)" by fastforce
  note s = valid_prefix_shown [OF v]
  let ?bad = "case error_len rst of Some n \<Rightarrow> n | None \<Rightarrow> length rst"
  show ?case
  proof (cases "bs = [] \<or> rst = []")
    case True
    with v s show ?thesis by (auto simp: display_loop.simps [of bs])
  next
    case False
    then obtain b r n where rst: "rst = b # r" "\<not> unat b < 0x80" "decode_utf8_char rst = (n, None)" using s by blast
    have bad: "0 < ?bad" "\<forall>x\<in>set (take (?bad - 1) r). continuation x"
      using error_bytes [OF rst(3) [unfolded rst(1)], of ?bad] unfolding rst(1) by simp_all
    have "shown rst = hex_byte b @ shown r" using rst by (simp add: shown.simps(2))
    also have "shown r = shown (take (?bad - 1) r @ drop (?bad - 1) r)" by simp
    also have "\<dots> = concat (map hex_byte (take (?bad - 1) r)) @ shown (drop (?bad - 1) r)"
      by (rule shown_continuations [OF bad(2)])
    finally have "shown rst = concat (map hex_byte (take ?bad rst)) @ shown (drop ?bad rst)"
      using bad(1) by (simp add: rst(1) take_Cons' drop_Cons')
    moreover have "display_loop (drop ?bad rst) = shown (drop ?bad rst)"
      using "1.IH" [OF _ v [symmetric] _ refl] False by simp
    ultimately show ?thesis
      using False v s by (simp add: display_loop.simps [of bs] Let_def)
  qed
qed

section \<open>The display can be read back\<close>

definition unhex :: "uchar \<Rightarrow> nat" where
  "unhex c = (if c < 58 then c - 48 else c - 87)"

function unescape :: "uchar list \<Rightarrow> byte list" where
  "unescape [] = []"
| "unescape (c # cs) =
     (if c \<noteq> 92 then utf8_encode c @ unescape cs
      else case cs of
        [] \<Rightarrow> []
      | e # rst \<Rightarrow>
          if e = 110 then 10 # unescape rst else if e = 114 then 13 # unescape rst
          else if e = 116 then 9 # unescape rst else if e = 48 then 0 # unescape rst
          else if e = 92 then 92 # unescape rst
          else if e = 120 then byte_of (16 * unhex (rst ! 0) + unhex (rst ! 1)) # unescape (drop 2 rst)
          else utf8_encode (foldl (\<lambda>a d. 16 * a + unhex d) 0 (takeWhile (\<lambda>d. d \<noteq> 125) (drop 1 rst)))
            @ unescape (drop 1 (dropWhile (\<lambda>d. d \<noteq> 125) (drop 1 rst))))"
  by pat_completeness auto
termination
proof (relation "measure length", goal_cases)
  case (9 c cs e rst)
  have "length (dropWhile (\<lambda>d. d \<noteq> 125) (drop 1 rst)) \<le> length (drop 1 rst)" by (rule length_dropWhile_le)
  then show ?case using 9 by auto
qed auto

declare unescape.simps(2) [simp del]

lemma unhex_lower: "n < 16 \<Longrightarrow> unhex (hex_lower n) = n"
  by (simp add: unhex_def hex_lower_def)

lemma unescape_hex2: "n < 256 \<Longrightarrow> unescape ([92, 120] @ hex2 n @ r) = byte_of n # unescape r"
  by (simp add: unescape.simps(2) hex2_def unhex_lower)

lemma unescape_hex_byte: "unescape (hex_byte b @ r) = b # unescape r"
  using unescape_hex2 [of "unat b" r] unat_byte [of b] by (simp add: hex_byte_def byte_of_def)

lemma hex_string_read:
  "foldl (\<lambda>a d. 16 * a + unhex d) 0 (hex_string n) = n \<and> (\<forall>d\<in>set (hex_string n). 48 \<le> d \<and> d \<le> 102)"
proof (induction n rule: hex_string.induct)
  case (1 n)
  have hex: "m < 16 \<Longrightarrow> 48 \<le> hex_lower m \<and> hex_lower m \<le> 102" for m by (simp add: hex_lower_def)
  show ?case
    using 1 hex [of "n mod 16"] hex [of n] by (subst (1 2) hex_string.simps) (auto simp: unhex_lower)
qed

lemma unescape_path_char:
  assumes "is_scalar c"
  shows "unescape (path_char c @ r) = utf8_encode c @ unescape r"
proof -
  have ascii: "x < 0x80 \<Longrightarrow> utf8_encode x = [byte_of x]" for x by (simp add: utf8_encode_def)
  consider "c \<in> {10, 13, 9, 0, 92}" | "c \<notin> {10, 13, 9, 0, 92}" "ascii_control c"
    | "c \<notin> {10, 13, 9, 0, 92}" "\<not> ascii_control c" "control c \<or> bidi_or_formatting_control c"
    | "c \<notin> {10, 13, 9, 0, 92}" "\<not> ascii_control c" "\<not> (control c \<or> bidi_or_formatting_control c)"
    by blast
  then show ?thesis
  proof cases
    case 1
    then show ?thesis by (auto simp: path_char_def unescape.simps(2) ascii byte_of_def simp del: byte_of_eq)
  next
    case 2
    then have "path_char c = [92, 120] @ hex2 c" "c < 0x80" by (auto simp: path_char_def ascii_control_def)
    then show ?thesis using unescape_hex2 [of c r] ascii [of c] by simp
  next
    case 3
    have "takeWhile (\<lambda>d. d \<noteq> 125) (hex_string c @ 125 # r) = hex_string c"
      "dropWhile (\<lambda>d. d \<noteq> 125) (hex_string c @ 125 # r) = 125 # r"
      using hex_string_read [of c] by (auto simp: takeWhile_append dropWhile_append)
    moreover have "path_char c = [92, 117, 123] @ hex_string c @ [125]" using 3 by (auto simp: path_char_def)
    ultimately show ?thesis using hex_string_read [of c] by (simp add: unescape.simps(2))
  next
    case 4
    then show ?thesis by (simp add: path_char_def unescape.simps(2))
  qed
qed

lemma unescape_shown: "unescape (shown bs) = bs"
proof (induction bs rule: shown.induct)
  case (2 b bs)
  show ?case
  proof (cases "unat b < 0x80")
    case True
    then have "is_scalar (unat b)" "utf8_encode (unat b) = [b]"
      by (simp_all add: is_scalar_def utf8_encode_def byte_of_def)
    with True 2 show ?thesis by (simp add: shown.simps(2) unescape_path_char)
  next
    case False
    obtain n ch where d: "decode_utf8_char (b # bs) = (n, ch)" by fastforce
    show ?thesis
    proof (cases ch)
      case None
      with False d 2 show ?thesis by (simp add: shown.simps(2) unescape_hex_byte)
    next
      case (Some c)
      note snd = decode_sound [OF d [unfolded Some]]
      obtain r where r: "b # bs = utf8_encode c @ r" using snd(3) by blast
      then have drop: "drop n (b # bs) = r" using snd(4) length_utf8_encode [of c] by simp
      have "unescape (shown r) = r" using "2.IH"(3) [OF False d [symmetric]] Some drop by simp
      moreover have "shown (b # bs) = path_char c @ shown r" using False d Some drop by (simp add: shown.simps(2))
      ultimately show ?thesis using unescape_path_char [OF snd(1)] r by simp
    qed
  qed
qed simp

text \<open>What is printed is neither a control nor a direction or formatting mark.\<close>

definition printable :: "uchar \<Rightarrow> bool" where
  "printable c \<longleftrightarrow> \<not> control c \<and> \<not> bidi_or_formatting_control c"

lemma printable_ascii: "32 \<le> c \<Longrightarrow> c < 127 \<Longrightarrow> printable c"
  by (simp add: printable_def control_def bidi_or_formatting_control_def)

lemma hex_lower_printable: "n < 16 \<Longrightarrow> printable (hex_lower n)"
  by (rule printable_ascii) (simp_all add: hex_lower_def)

lemma path_char_printable: "d \<in> set (path_char c) \<Longrightarrow> printable d"
proof -
  assume d: "d \<in> set (path_char c)"
  have "\<forall>x\<in>set (hex_string c). printable x"
    using hex_string_read [of c] by (auto intro!: printable_ascii)
  moreover have "\<forall>x\<in>set (hex2 c). printable x" if "ascii_control c"
    using that by (auto simp: hex2_def ascii_control_def intro!: hex_lower_printable)
  moreover have "printable 92" "printable 110" "printable 114" "printable 116" "printable 48" "printable 120"
    "printable 117" "printable 123" "printable 125"
    by (simp_all add: printable_ascii)
  ultimately show "printable d"
    using d by (auto simp: path_char_def printable_def split: if_splits)
qed

lemma hex_byte_printable: "d \<in> set (hex_byte b) \<Longrightarrow> printable d"
  using unat_byte [of b] by (auto simp: hex_byte_def hex2_def printable_ascii intro!: hex_lower_printable)

lemma shown_printable: "d \<in> set (shown bs) \<Longrightarrow> printable d"
proof (induction bs rule: shown.induct)
  case (2 b bs)
  obtain n ch where c: "decode_utf8_char (b # bs) = (n, ch)" by fastforce
  with 2 show ?case
    by (cases "unat b < 0x80"; cases ch)
      (auto simp: shown.simps(2) dest: path_char_printable hex_byte_printable)
qed simp

section \<open>Joined components\<close>

fun join_slash :: "raw_path list \<Rightarrow> raw_path" where
  "join_slash [] = []"
| "join_slash [s] = s"
| "join_slash (s # ss) = s @ [slash] @ join_slash ss"

lemma join_slash_snoc: "ss \<noteq> [] \<Longrightarrow> join_slash (ss @ [s]) = join_slash ss @ [slash] @ s"
  by (induction ss rule: join_slash.induct) simp_all

lemma join_slash_empty: "[] \<notin> set ss \<Longrightarrow> join_slash ss = [] \<longleftrightarrow> ss = []"
  by (cases ss rule: join_slash.cases) auto

lemma split_on_nonempty [simp]: "split_on P xs \<noteq> []"
  by (induction xs) (auto split: list.split)

lemma split_on_piece: "\<forall>x\<in>set s. \<not> P x \<Longrightarrow> split_on P s = [s]"
  by (induction s) auto

lemma split_on_append: "\<forall>x\<in>set s. \<not> P x \<Longrightarrow> P y \<Longrightarrow> split_on P (s @ y # ys) = s # split_on P ys"
  by (induction s) auto

lemma split_on_join:
  "ss \<noteq> [] \<Longrightarrow> \<forall>s\<in>set ss. slash \<notin> set s \<Longrightarrow> split_on (\<lambda>b. b = slash) (join_slash ss) = ss"
proof (induction ss rule: join_slash.induct)
  case (3 s v va)
  then show ?case
    using split_on_append [of s "\<lambda>b. b = slash" slash "join_slash (v # va)"] by auto
qed (auto intro!: split_on_piece)

lemma split_on_elems: "s \<in> set (split_on P xs) \<Longrightarrow> x \<in> set s \<Longrightarrow> x \<in> set xs \<and> \<not> P x"
  by (induction xs arbitrary: s) (fastforce split: list.splits if_splits)+

text \<open>Both separators become slashes.\<close>

definition forward :: "byte \<Rightarrow> byte" where
  "forward b = (if b = backslash then slash else b)"

lemma join_split: "join_slash (split_on separator bs) = map forward bs"
proof (induction bs)
  case (Cons b bs)
  obtain c cs where "split_on separator bs = c # cs" by (cases "split_on separator bs") auto
  moreover have "forward b = (if separator b then slash else b)" by (auto simp: forward_def separator_def)
  ultimately show ?case using Cons by (cases cs) auto
qed simp

definition drive_prefix :: "byte list \<Rightarrow> bool" where
  "drive_prefix bs \<longleftrightarrow> length bs \<ge> 2 \<and> bs ! 1 = colon \<and> ascii_alphabetic (bs ! 0)"

definition plain_segment :: "byte list \<Rightarrow> bool" where
  "plain_segment s \<longleftrightarrow> s \<noteq> [] \<and> s \<noteq> [dot] \<and> s \<noteq> [dot, dot]"

lemma collect_segments_step:
  "collect_segments (c # cs) canonical segments =
     (if plain_segment c
      then collect_segments cs ((if canonical \<noteq> [] then canonical @ [slash] else canonical) @ c) (segments @ [c])
      else Inl PathEscape)"
  by (auto simp: plain_segment_def)

lemma collect_segments_exact:
  "[] \<notin> set segs \<Longrightarrow> collect_segments cs (join_slash segs) segs =
     (if \<forall>c\<in>set cs. plain_segment c then Inr (join_slash (segs @ cs), segs @ cs) else Inl PathEscape)"
proof (induction cs arbitrary: segs)
  case (Cons c cs)
  show ?case
  proof (cases "plain_segment c")
    case True
    have "(if join_slash segs \<noteq> [] then join_slash segs @ [slash] else join_slash segs) @ c = join_slash (segs @ [c])"
      using join_slash_empty [OF Cons.prems] join_slash_snoc [of segs c] by (cases "segs = []") simp_all
    then have "collect_segments (c # cs) (join_slash segs) segs = collect_segments cs (join_slash (segs @ [c])) (segs @ [c])"
      using True by (simp only: collect_segments_step if_True)
    moreover have "[] \<notin> set (segs @ [c])" using Cons.prems True by (auto simp: plain_segment_def)
    ultimately show ?thesis using Cons.IH [of "segs @ [c]"] True by simp
  qed (simp add: collect_segments_step del: collect_segments.simps)
qed simp

lemma path_new_eq:
  "path_new bs =
     (if bs = [] then Inl PathEscape else if 0 \<in> set bs then Inl EncodingError
      else if drive_prefix bs \<or> \<not> (\<forall>s\<in>set (split_on separator bs). plain_segment s) then Inl PathEscape
      else Inr \<lparr>np_raw = map forward bs, np_segments = split_on separator bs\<rparr>)"
proof -
  have "[] \<in> set (split_on separator bs)" if "starts_with bs [slash] \<or> starts_with bs [backslash]"
    using that by (cases bs) (auto simp: starts_with_def separator_def)
  then have lead: "\<not> (\<forall>s\<in>set (split_on separator bs). plain_segment s)"
    if "starts_with bs [slash] \<or> starts_with bs [backslash]"
    using that by (auto simp: plain_segment_def)
  show ?thesis
    using lead collect_segments_exact [of "[]" "split_on separator bs"] join_split [of bs]
    by (auto simp: path_new_def drive_prefix_def)
qed

section \<open>The invariant of a normalized path\<close>

definition path_ok :: "normalized_path \<Rightarrow> bool" where
  "path_ok p \<longleftrightarrow> np_segments p \<noteq> [] \<and> np_raw p = join_slash (np_segments p) \<and>
     (\<forall>s\<in>set (np_segments p). plain_segment s \<and> 0 \<notin> set s \<and> slash \<notin> set s)"

inductive built :: "normalized_path \<Rightarrow> bool" where
  external: "path_new bs = Inr p \<Longrightarrow> built p"
| uri: "decode_uri_path bs = Inr p \<Longrightarrow> built p"
| entry: "from_dirent_name seg = Inr p \<Longrightarrow> built p"
| joined: "built p \<Longrightarrow> join_segment p seg = Inr p' \<Longrightarrow> built p'"

lemma path_new_ok: "path_new bs = Inr p \<Longrightarrow> path_ok p"
  using join_split [of bs] split_on_elems [of _ separator bs slash]
  by (auto simp: path_new_eq path_ok_def separator_def [of slash] dest: split_on_elems split: if_splits)

lemma validate_dirent: "validate_dirent_name seg = Inr u \<longleftrightarrow> plain_segment seg \<and> 0 \<notin> set seg \<and> slash \<notin> set seg"
  by (auto simp: validate_dirent_name_def plain_segment_def)

lemma built_ok: "built p \<Longrightarrow> path_ok p"
proof (induction rule: built.induct)
  case (external bs p)
  then show ?case by (rule path_new_ok)
next
  case (uri bs p)
  then show ?case by (auto simp: decode_uri_path_def result_simps Let_def split: if_splits intro: path_new_ok)
next
  case (entry seg p)
  then show ?case by (auto simp: from_dirent_name_def result_simps validate_dirent path_ok_def)
next
  case (joined p seg p')
  then show ?case
    by (auto simp: join_segment_def result_simps validate_dirent path_ok_def join_slash_snoc)
qed

section \<open>Percent escapes\<close>

text \<open>A component is a sequence of literal bytes and escapes of two hexadecimal digits.\<close>

datatype uri_token = Literal byte | Escaped byte byte

fun token_bytes :: "uri_token \<Rightarrow> byte list" where
  "token_bytes (Literal b) = [b]"
| "token_bytes (Escaped x y) = [percent, x, y]"

fun token_value :: "uri_token \<Rightarrow> byte" where
  "token_value (Literal b) = b"
| "token_value (Escaped x y) = byte_of (16 * the (hex_val x) + the (hex_val y))"

fun token_ok :: "uri_token \<Rightarrow> bool" where
  "token_ok (Literal b) \<longleftrightarrow> b \<noteq> percent"
| "token_ok (Escaped x y) \<longleftrightarrow> hex_val x \<noteq> None \<and> hex_val y \<noteq> None"

lemma hex_val_bound: "hex_val b = Some n \<Longrightarrow> n < 16"
  by (auto simp: hex_val_def in_bytes_def split: if_splits)

lemma nibbles: "m < 16 \<Longrightarrow> n < 16 \<Longrightarrow> push_bit 4 (byte_of m) OR byte_of n = byte_of (16 * m + n)"
proof -
  assume m: "m < 16" and n: "n < 16"
  then have "unat (push_bit 4 (byte_of m)) = push_bit 4 m"
    by (simp add: push_bit_eq_mult unat_word_ariths unat_byte_of del: byte_of_eq)
  then have "unat (push_bit 4 (byte_of m) OR byte_of n) = push_bit 4 m OR n"
    using n by (simp only: unsigned_or_eq) (simp add: unat_byte_of)
  also have "\<dots> = 16 * m + n" using or_shift [of n 4 m] n by simp
  finally show ?thesis using m n by (simp add: word_unat_eq_iff unat_byte_of del: byte_of_eq)
qed

lemma percent_loop_tokens:
  "list_all token_ok ts \<Longrightarrow> percent_loop (concat (map token_bytes ts)) = Inr (map token_value ts)"
proof (induction ts)
  case (Cons t ts)
  then show ?case
  proof (cases t)
    case (Escaped x y)
    with Cons obtain m n where "hex_val x = Some m" "hex_val y = Some n" by auto
    with Escaped Cons nibbles [of m n] hex_val_bound [of x m] hex_val_bound [of y n] show ?thesis by simp
  qed simp
qed simp

lemma percent_loop_sound:
  "percent_loop bs = Inr out \<Longrightarrow> \<exists>ts. list_all token_ok ts \<and> bs = concat (map token_bytes ts)"
proof (induction bs arbitrary: out rule: percent_loop.induct)
  case 1
  then show ?case by (intro exI [of _ "[]"]) simp
next
  case (2 b bs)
  show ?case
  proof (cases "b = percent")
    case True
    then obtain x y rst where bs: "bs = x # y # rst"
      using "2.prems" by (auto split: list.splits)
    with True "2.prems" obtain m n out' where h: "hex_val x = Some m" "hex_val y = Some n" "percent_loop rst = Inr out'"
      by (auto simp: result_simps)
    obtain ts where "list_all token_ok ts" "rst = concat (map token_bytes ts)"
      using "2.IH"(1) [OF True bs refl h(3)] by auto
    with True bs h show ?thesis by (intro exI [of _ "Escaped x y # ts"]) simp
  next
    case False
    then obtain out' where "percent_loop bs = Inr out'" using "2.prems" by (auto simp: result_simps)
    from "2.IH"(2) [OF False this] obtain ts where "list_all token_ok ts" "bs = concat (map token_bytes ts)" by blast
    with False show ?thesis by (intro exI [of _ "Literal b # ts"]) simp
  qed
qed

section \<open>Properties\<close>

text \<open>
  C21: Every normalized path, however it was built - from an external path, from a URI, from directory
  entries - stays below its root: it has at least one component, none is empty, a dot or a double dot,
  none contains a NUL or a slash, and the raw bytes are the components joined by slashes, so the bytes
  determine the components and do not start at the root.
\<close>

theorem normalized_paths_confined:
  assumes "built p"
  shows "np_segments p \<noteq> [] \<and>
    (\<forall>s\<in>set (np_segments p). s \<noteq> [] \<and> s \<noteq> [dot] \<and> s \<noteq> [dot, dot] \<and> 0 \<notin> set s \<and> slash \<notin> set s) \<and>
    np_raw p = join_slash (np_segments p) \<and> np_segments p = split_on (\<lambda>b. b = slash) (np_raw p) \<and>
    np_raw p \<noteq> [] \<and> \<not> starts_with (np_raw p) [slash]"
proof -
  have ok: "path_ok p" by (rule built_ok [OF assms])
  then have segs: "np_segments p \<noteq> []" "np_raw p = join_slash (np_segments p)"
    "\<forall>s\<in>set (np_segments p). s \<noteq> [] \<and> s \<noteq> [dot] \<and> s \<noteq> [dot, dot] \<and> 0 \<notin> set s \<and> slash \<notin> set s"
    by (auto simp: path_ok_def plain_segment_def)
  obtain s ss where s: "np_segments p = s # ss" using segs(1) by (cases "np_segments p") auto
  then obtain b t where "s = b # t" "b \<noteq> slash" using segs(3) by (cases s) auto
  then have "np_raw p \<noteq> []" "\<not> starts_with (np_raw p) [slash]"
    using s segs(2) by (cases ss; simp add: starts_with_def)+
  moreover have "np_segments p = split_on (\<lambda>b. b = slash) (np_raw p)"
    using split_on_join [OF segs(1)] segs(2,3) by simp
  ultimately show ?thesis using segs by blast
qed

theorem normalized_paths_confined_witness:
  "\<exists>p. path_new [97, 47, 98] = Inr p \<and> np_segments p = [[97], [98]] \<and> \<not> starts_with (np_raw p) [slash]"
proof -
  obtain p where p: "path_new [97, 47, 98] = Inr p" "np_segments p = [[97], [98]]"
    by (simp add: path_new_def starts_with_def separator_def)
  from normalized_paths_confined [OF built.external [OF p(1)]] p show ?thesis by blast
qed

text \<open>
  External paths are accepted exactly when they are non-empty, without NUL, without a drive prefix
  and with plain components only; an accepted path has its backslashes turned into slashes and nothing
  else changed, and normalizing it again changes nothing.
\<close>

theorem external_path_exact:
  "(is_ok (path_new bs) \<longleftrightarrow> bs \<noteq> [] \<and> 0 \<notin> set bs \<and> \<not> drive_prefix bs \<and>
      (\<forall>s\<in>set (split_on separator bs). s \<noteq> [] \<and> s \<noteq> [dot] \<and> s \<noteq> [dot, dot])) \<and>
    (\<forall>p. path_new bs = Inr p \<longrightarrow> np_raw p = map forward bs \<and> np_segments p = split_on separator bs \<and>
      path_new (np_raw p) = Inr p)"
proof (intro conjI allI impI)
  show "is_ok (path_new bs) \<longleftrightarrow> bs \<noteq> [] \<and> 0 \<notin> set bs \<and> \<not> drive_prefix bs \<and>
      (\<forall>s\<in>set (split_on separator bs). s \<noteq> [] \<and> s \<noteq> [dot] \<and> s \<noteq> [dot, dot])"
    by (auto simp: path_new_eq plain_segment_def)
next
  fix p
  assume p: "path_new bs = Inr p"
  then have ok: "bs \<noteq> []" "0 \<notin> set bs" "\<not> drive_prefix bs" "\<forall>s\<in>set (split_on separator bs). plain_segment s"
    and res: "np_raw p = map forward bs" "np_segments p = split_on separator bs"
    by (auto simp: path_new_eq split: if_splits)
  have fwd: "forward b = 0 \<longleftrightarrow> b = 0" "forward b = colon \<longleftrightarrow> b = colon"
    "ascii_alphabetic (forward b) \<Longrightarrow> ascii_alphabetic b" for b
    by (auto simp: forward_def ascii_alphabetic_def in_bytes_def split: if_splits)
  have "split_on separator (map forward bs) = split_on separator bs"
    by (induction bs) (auto simp: forward_def separator_def)
  moreover have "map forward (map forward bs) = map forward bs" by (simp add: forward_def)
  moreover have "0 \<notin> set (map forward bs)" using ok(2) fwd(1) by auto
  moreover have "\<not> drive_prefix (map forward bs)"
  proof
    assume d: "drive_prefix (map forward bs)"
    then have "2 \<le> length bs" by (simp add: drive_prefix_def)
    then have "map forward bs ! 1 = forward (bs ! 1)" "map forward bs ! 0 = forward (bs ! 0)"
      by (subst nth_map; force)+
    with d fwd(2) fwd(3) [of "bs ! 0"] ok(3) show False unfolding drive_prefix_def by (metis length_map)
  qed
  ultimately have "path_new (map forward bs) = Inr \<lparr>np_raw = map forward bs, np_segments = split_on separator bs\<rparr>"
    using ok by (simp only: path_new_eq) simp
  then show "np_raw p = map forward bs" "np_segments p = split_on separator bs" "path_new (np_raw p) = Inr p"
    using res by (cases p; simp)+
qed

theorem external_path_exact_witness:
  "is_ok (path_new [97, 92, 98]) \<and> \<not> is_ok (path_new [97, 47, 46, 46])"
  using external_path_exact [of "[97, 92, 98]"] external_path_exact [of "[97, 47, 46, 46]"]
  by (simp add: separator_def drive_prefix_def)

text \<open>
  C29: A URI component is decoded exactly once: it is accepted exactly when it fits the limit and is a
  sequence of literal bytes and well-formed escapes, and the result has one byte for each of them, so
  an escape produced by the decoding is never decoded again.
\<close>

theorem uri_component_exact:
  "decode_uri_component_bytes s limit = Inr out \<longleftrightarrow>
    length s \<le> limit \<and> (\<exists>ts. list_all token_ok ts \<and> s = concat (map token_bytes ts) \<and> out = map token_value ts)"
proof
  assume l: "decode_uri_component_bytes s limit = Inr out"
  then have "length s \<le> limit" "percent_loop s = Inr out"
    by (auto simp: decode_uri_component_bytes_def split: if_splits)
  then show "length s \<le> limit \<and>
      (\<exists>ts. list_all token_ok ts \<and> s = concat (map token_bytes ts) \<and> out = map token_value ts)"
    using percent_loop_sound [of s out] percent_loop_tokens by fastforce
next
  assume "length s \<le> limit \<and>
    (\<exists>ts. list_all token_ok ts \<and> s = concat (map token_bytes ts) \<and> out = map token_value ts)"
  then show "decode_uri_component_bytes s limit = Inr out"
    using percent_loop_tokens by (auto simp: decode_uri_component_bytes_def)
qed

text \<open>
  C17: The escaped display of untrusted path bytes is safe and faithful: it prints no control character
  and no direction or formatting mark, and the bytes can be read back from it, so two different paths
  never look the same.
\<close>

theorem path_display_exact:
  "unescape (display_loop bs) = bs \<and>
   (\<forall>c\<in>set (display_loop bs). \<not> control c \<and> \<not> bidi_or_formatting_control c) \<and>
   (display_loop bs = display_loop bs' \<longleftrightarrow> bs = bs')"
  using shown_printable [of _ bs] by (auto simp: display_shown printable_def) (metis unescape_shown)+

theorem path_display_exact_witness:
  "unescape (display_loop [0xE2, 0x80, 0xAE, 10]) = [0xE2, 0x80, 0xAE, 10] \<and>
   10 \<notin> set (display_loop [0xE2, 0x80, 0xAE, 10])"
  using path_display_exact [of "[0xE2, 0x80, 0xAE, 10]" "[]"] by (auto simp: control_def)

end
