(* ===== verification/Line_Window.thy ===== *)
theory Line_Window
  imports Encoding
begin

text \<open>
  \<open>crates/fcb-source/src/line_index/window.rs\<close>: the constant-space cursor that locates a window of
  lines in a byte stream of any supported encoding.

  A \<open>LineNumber\<close> is the positive number it wraps. The two \<open>expect\<close> calls of \<open>status\<close> are
  \<^const>\<open>None\<close>. A half unit is only held after at least one byte, so the \<open>- 1\<close> on offsets does
  not underflow.
\<close>

datatype line_window_error = InvalidWindow | WindowUnsupportedEncoding | NoncontiguousInput | CounterOverflow

datatype line_window_status = Pending | WindowResolved nat nat byte_range | Missing

record line_window =
  lw_first :: nat
  lw_last :: nat
  lw_encoding :: detected_encoding
  lw_offset :: nat
  lw_line :: nat
  lw_active :: bool
  lw_cr :: bool
  lw_half :: "byte option"
  lw_start :: "nat option"
  lw_end :: "nat option"
  lw_finished :: bool
  lw_eof :: bool

definition line_window_new :: "nat \<Rightarrow> nat \<Rightarrow> detected_encoding \<Rightarrow> line_window_error + line_window" where
  "line_window_new first count enc =
     and_then (ok_or InvalidWindow (Option.bind (checked_sub count 1) (\<lambda>delta. checked_add first delta))) (\<lambda>l.
     if enc = Unsupported then Inl WindowUnsupportedEncoding
     else if l = 0 then Inl InvalidWindow
     else Inr \<lparr>lw_first = first, lw_last = l, lw_encoding = enc, lw_offset = 0, lw_line = 0,
       lw_active = False, lw_cr = False, lw_half = None, lw_start = None, lw_end = None,
       lw_finished = False, lw_eof = False\<rparr>)"

definition line_window_retarget :: "line_window \<Rightarrow> nat \<Rightarrow> nat \<Rightarrow> line_window_error + line_window" where
  "line_window_retarget s first count =
     (if lw_finished s \<or> lw_eof s \<or> first \<le> lw_line s then Inl InvalidWindow
      else and_then (line_window_new first count (lw_encoding s)) (\<lambda>next.
        Inr (next\<lparr>lw_offset := lw_offset s, lw_line := lw_line s, lw_active := lw_active s,
          lw_cr := lw_cr s, lw_half := lw_half s\<rparr>)))"

definition line_window_status :: "line_window \<Rightarrow> line_window_status option" where
  "line_window_status s =
     (if \<not> lw_finished s then Some Pending
      else case (lw_start s, lw_end s) of
        (Some st, Some fin) \<Rightarrow>
          if lw_line s = 0 \<or> st > fin then None
          else Some (WindowResolved (lw_first s) (lw_line s) (OffsetRange st fin))
      | _ \<Rightarrow> Some Missing)"

definition window_resolve :: "line_window \<Rightarrow> nat \<Rightarrow> line_window" where
  "window_resolve s fin = s\<lparr>lw_end := Some fin, lw_finished := True\<rparr>"

definition window_unit ::
  "line_window \<Rightarrow> nat \<Rightarrow> nat \<Rightarrow> nat \<Rightarrow> (line_window_error + unit) \<times> line_window" where
  "window_unit s u st fin =
     (if lw_cr s \<and> u = 10 then
        (let s1 = s\<lparr>lw_cr := False\<rparr> in
         (Inr (), if lw_line s1 = lw_last s1 then window_resolve s1 fin else s1))
      else if lw_cr s \<and> lw_line s = lw_last s then (Inr (), window_resolve (s\<lparr>lw_cr := False\<rparr>) st)
      else
        let s1 = s\<lparr>lw_cr := False\<rparr> in
        case (if lw_active s1 then Some s1
              else map_option (\<lambda>l. s1\<lparr>lw_line := l, lw_active := True,
                lw_start := if l = lw_first s1 then Some st else lw_start s1\<rparr>) (checked_add (lw_line s1) 1)) of
          None \<Rightarrow> (Inl CounterOverflow, s1)
        | Some s2 \<Rightarrow>
            if u = 13 then (Inr (), s2\<lparr>lw_cr := True, lw_active := False\<rparr>)
            else if u = 10 then
              (let s3 = s2\<lparr>lw_active := False\<rparr> in
               (Inr (), if lw_line s3 = lw_last s3 then window_resolve s3 fin else s3))
            else (Inr (), s2))"

text \<open>The loop of \<open>step\<close> over the admitted bytes; it returns how many it consumed.\<close>

fun window_loop :: "line_window \<Rightarrow> byte list \<Rightarrow> (line_window_error + nat) \<times> line_window" where
  "window_loop s [] = (Inr 0, s)"
| "window_loop s (b # bs) =
     (let st = lw_offset s; s1 = s\<lparr>lw_offset := st + 1\<rparr> in
      case (if is_utf16 (lw_encoding s1) then
              (case lw_half s1 of
                 Some x \<Rightarrow> window_unit (s1\<lparr>lw_half := None\<rparr>) (u16_unit (lw_encoding s1 = Utf16Le) x b)
                   (st - 1) (lw_offset s1)
               | None \<Rightarrow> (Inr (), s1\<lparr>lw_half := Some b\<rparr>))
            else window_unit s1 (unat b) st (lw_offset s1)) of
        (Inl e, s2) \<Rightarrow> (Inl e, s2)
      | (Inr _, s2) \<Rightarrow>
          if lw_finished s2 then (Inr 1, s2)
          else (case window_loop s2 bs of (res, s3) \<Rightarrow> (map_sum id Suc res, s3)))"

definition window_step ::
  "line_window \<Rightarrow> nat \<Rightarrow> byte list \<Rightarrow> nat \<Rightarrow> (line_window_error + nat) \<times> line_window" where
  "window_step s offset bytes budget =
     (if offset \<noteq> lw_offset s then (Inl NoncontiguousInput, s)
      else if lw_finished s then (Inr 0, s)
      else let count = min (length bytes) budget in
        case checked_add (lw_offset s) count of
          None \<Rightarrow> (Inl CounterOverflow, s)
        | Some _ \<Rightarrow> window_loop s (take count bytes))"

definition window_finish ::
  "line_window \<Rightarrow> ((line_window_error + line_window_status) \<times> line_window) option" where
  "window_finish s =
     (let s1 = s\<lparr>lw_eof := True\<rparr> in
      case (if lw_finished s1 then (Inr (), s1)
            else case (if lw_half s1 \<noteq> None
                       then window_unit (s1\<lparr>lw_half := None\<rparr>) 0xFFFF (lw_offset s1 - 1) (lw_offset s1)
                       else (Inr (), s1)) of
              (Inl e, s2) \<Rightarrow> (Inl e, s2)
            | (Inr _, s2) \<Rightarrow> (Inr (), if lw_finished s2 then s2 else window_resolve s2 (lw_offset s2))) of
        (Inl e, s2) \<Rightarrow> Some (Inl e, s2)
      | (Inr _, s2) \<Rightarrow> map_option (\<lambda>st. (Inr st, s2)) (line_window_status s2))"

section \<open>The lines of a stream of code units\<close>

fun pair_units :: "bool \<Rightarrow> byte list \<Rightarrow> nat list" where
  "pair_units le (x # y # bs) = u16_unit le x y # pair_units le bs"
| "pair_units le bs = []"

definition code_units :: "detected_encoding \<Rightarrow> byte list \<Rightarrow> nat list" where
  "code_units enc bs = (if is_utf16 enc then pair_units (enc = Utf16Le) bs else map unat bs)"

text \<open>At the end of the input a trailing half unit counts as a unit that is no terminator.\<close>

definition all_units :: "detected_encoding \<Rightarrow> byte list \<Rightarrow> nat list" where
  "all_units enc bs = code_units enc bs @ (if is_utf16 enc \<and> odd (length bs) then [0xFFFF] else [])"

definition ustart :: "nat list \<Rightarrow> nat \<Rightarrow> bool" where
  "ustart us p \<longleftrightarrow> p < length us \<and> (p = 0 \<or> us ! (p - 1) = 10 \<or> (us ! (p - 1) = 13 \<and> us ! p \<noteq> 10))"

definition ustarts :: "nat list \<Rightarrow> nat list" where
  "ustarts us = filter (ustart us) [0..<length us]"

text \<open>The window of lines \<open>first\<close> to \<open>l\<close> of the whole input.\<close>

definition window_end :: "detected_encoding \<Rightarrow> nat \<Rightarrow> byte list \<Rightarrow> nat" where
  "window_end enc l bs = (let ls = ustarts (all_units enc bs) in
     if l < length ls then unit_width enc * ls ! l else length bs)"

definition window_result :: "detected_encoding \<Rightarrow> nat \<Rightarrow> nat \<Rightarrow> byte list \<Rightarrow> line_window_status" where
  "window_result enc first l bs = (let ls = ustarts (all_units enc bs) in
     if length ls < first then Missing
     else WindowResolved first (min l (length ls))
       (OffsetRange (unit_width enc * ls ! (first - 1)) (window_end enc l bs)))"

lemma ustarts_snoc:
  "ustarts (us @ [u]) = ustarts us @ (if us = [] \<or> last us = 10 \<or> (last us = 13 \<and> u \<noteq> 10) then [length us] else [])"
proof -
  have "filter (ustart (us @ [u])) [0..<length us] = filter (ustart us) [0..<length us]"
    by (rule filter_cong) (auto simp: ustart_def nth_append)
  moreover have "ustart (us @ [u]) (length us) \<longleftrightarrow> us = [] \<or> last us = 10 \<or> (last us = 13 \<and> u \<noteq> 10)"
    by (auto simp: ustart_def nth_append last_conv_nth)
  ultimately show ?thesis by (simp add: ustarts_def)
qed

lemma ustarts_prefix: "\<exists>ps. ustarts (us @ vs) = ustarts us @ ps"
proof (induction vs rule: rev_induct)
  case (snoc v vs)
  then show ?case using ustarts_snoc [of "us @ vs" v] by auto
qed simp

lemma ustarts_nth: "i < length (ustarts us) \<Longrightarrow> ustarts (us @ vs) ! i = ustarts us ! i \<and> i < length (ustarts (us @ vs))"
  using ustarts_prefix [of us vs] by (auto simp: nth_append)

lemma length_ustarts: "length (ustarts us) \<le> length us"
  using length_filter_le [of "ustart us" "[0..<length us]"] by (simp add: ustarts_def)

lemma ustarts_bound: "i < length (ustarts us) \<Longrightarrow> ustarts us ! i < length us"
  using nth_mem [of i "ustarts us"] by (auto simp: ustarts_def)

lemma ustarts_Nil [simp]: "ustarts [] = []"
  by (simp add: ustarts_def)

section \<open>One code unit\<close>

text \<open>The cursor after the complete units \<open>us\<close>, as long as its window is open.\<close>

definition open_at :: "nat \<Rightarrow> nat list \<Rightarrow> line_window \<Rightarrow> bool" where
  "open_at w us s \<longleftrightarrow> 1 \<le> lw_first s \<and> lw_first s \<le> lw_last s \<and> \<not> lw_finished s \<and> lw_end s = None \<and>
     lw_line s = length (ustarts us) \<and> lw_active s = (us \<noteq> [] \<and> last us \<noteq> 10 \<and> last us \<noteq> 13) \<and>
     lw_cr s = (us \<noteq> [] \<and> last us = 13) \<and>
     lw_start s = (if lw_first s \<le> lw_line s then Some (w * ustarts us ! (lw_first s - 1)) else None) \<and>
     lw_line s \<le> lw_last s \<and> (lw_line s = lw_last s \<longrightarrow> lw_active s \<or> lw_cr s)"

text \<open>The cursor that resolved its window with the unit \<open>u\<close> after \<open>us\<close>.\<close>

definition closed_at :: "nat \<Rightarrow> nat list \<Rightarrow> nat \<Rightarrow> nat \<Rightarrow> line_window \<Rightarrow> bool" where
  "closed_at w us u fin s \<longleftrightarrow> 1 \<le> lw_first s \<and> lw_first s \<le> lw_last s \<and> lw_finished s \<and>
     lw_line s = lw_last s \<and> lw_last s \<le> length (ustarts (us @ [u])) \<and>
     lw_start s = Some (w * ustarts (us @ [u]) ! (lw_first s - 1)) \<and>
     ((u = 10 \<and> lw_end s = Some fin \<and> length (ustarts (us @ [u])) = lw_last s) \<or>
      (lw_end s = Some (w * length us) \<and> ustarts (us @ [u]) = ustarts us @ [length us] \<and>
       length (ustarts us) = lw_last s))"

definition same_frame :: "line_window \<Rightarrow> line_window \<Rightarrow> bool" where
  "same_frame s s' \<longleftrightarrow> lw_first s' = lw_first s \<and> lw_last s' = lw_last s \<and> lw_encoding s' = lw_encoding s \<and>
     lw_offset s' = lw_offset s \<and> lw_half s' = lw_half s \<and> lw_eof s' = lw_eof s"

text \<open>The part of \<open>unit\<close> after the carry of a carriage return has been settled.\<close>

lemma window_unit_rest:
  assumes "\<not> (lw_cr s \<and> u = 10)" and "\<not> (lw_cr s \<and> lw_line s = lw_last s)"
  shows "window_unit s u st fin =
    (case (if lw_active s then Some (s\<lparr>lw_cr := False\<rparr>)
           else map_option (\<lambda>l. s\<lparr>lw_cr := False, lw_line := l, lw_active := True,
             lw_start := if l = lw_first s then Some st else lw_start s\<rparr>) (checked_add (lw_line s) 1)) of
       None \<Rightarrow> (Inl CounterOverflow, s\<lparr>lw_cr := False\<rparr>)
     | Some s2 \<Rightarrow>
         if u = 13 then (Inr (), s2\<lparr>lw_cr := True, lw_active := False\<rparr>)
         else if u = 10 then
           (Inr (), if lw_line s2 = lw_last s2 then window_resolve (s2\<lparr>lw_active := False\<rparr>) fin
                    else s2\<lparr>lw_active := False\<rparr>)
         else (Inr (), s2))"
  unfolding window_unit_def Let_def if_not_P [OF assms(1)] if_not_P [OF assms(2)]
  by (cases "lw_active s"; cases "checked_add (lw_line s) 1") (simp_all add: window_resolve_def)

lemma window_unit_crlf:
  assumes "open_at w us s" and "lw_cr s" and "u = 10"
  shows "\<exists>s'. window_unit s u (w * length us) fin = (Inr (), s') \<and> same_frame s s' \<and>
    (if lw_finished s' then closed_at w us u fin s' else open_at w (us @ [u]) s')"
proof -
  have us: "us \<noteq> []" "last us = 13" using assms by (simp_all add: open_at_def)
  then have st: "ustarts (us @ [u]) = ustarts us" using assms(3) by (simp add: ustarts_snoc)
  show ?thesis
  proof (cases "lw_line s = lw_last s")
    case True
    with assms st show ?thesis
      by (simp add: window_unit_def Let_def window_resolve_def same_frame_def closed_at_def) (simp add: open_at_def)
  next
    case False
    with assms st show ?thesis
      by (simp add: window_unit_def Let_def same_frame_def open_at_def)
  qed
qed

lemma window_unit_bare_cr:
  assumes "open_at w us s" and "lw_cr s" and "u \<noteq> 10" and "lw_line s = lw_last s"
  shows "\<exists>s'. window_unit s u (w * length us) fin = (Inr (), s') \<and> same_frame s s' \<and>
    (if lw_finished s' then closed_at w us u fin s' else open_at w (us @ [u]) s')"
proof -
  have us: "us \<noteq> []" "last us = 13" using assms by (simp_all add: open_at_def)
  then have st: "ustarts (us @ [u]) = ustarts us @ [length us]" using assms(3) by (simp add: ustarts_snoc)
  have "lw_first s - 1 < length (ustarts us)" using assms(1,4) by (auto simp: open_at_def)
  with assms st show ?thesis
    by (simp add: window_unit_def Let_def window_resolve_def same_frame_def closed_at_def nth_append)
      (simp add: open_at_def)
qed

lemma window_unit_inside:
  assumes "open_at w us s" and "lw_active s"
  shows "\<exists>s'. window_unit s u (w * length us) fin = (Inr (), s') \<and> same_frame s s' \<and>
    (if lw_finished s' then closed_at w us u fin s' else open_at w (us @ [u]) s')"
proof -
  have us: "us \<noteq> []" "last us \<noteq> 13" "last us \<noteq> 10" "\<not> lw_cr s" using assms by (simp_all add: open_at_def)
  then have st: "ustarts (us @ [u]) = ustarts us" by (simp add: ustarts_snoc)
  have eq: "window_unit s u (w * length us) fin =
      (if u = 13 then (Inr (), s\<lparr>lw_cr := True, lw_active := False\<rparr>)
       else if u = 10 then
         (Inr (), if lw_line s = lw_last s then window_resolve (s\<lparr>lw_cr := False, lw_active := False\<rparr>) fin
                  else s\<lparr>lw_cr := False, lw_active := False\<rparr>)
       else (Inr (), s\<lparr>lw_cr := False\<rparr>))"
    using us(4) assms(2) window_unit_rest [of s u "w * length us" fin] by simp
  show ?thesis
    using assms st us unfolding eq
    by (cases "u = 13"; cases "u = 10"; cases "lw_line s = lw_last s")
      (simp_all add: window_resolve_def same_frame_def closed_at_def open_at_def)
qed

lemma window_unit_begins:
  assumes "open_at w us s" and "\<not> lw_active s" and "lw_line s < lw_last s" and "\<not> (lw_cr s \<and> u = 10)"
    and "length us < u64_max"
  shows "\<exists>s'. window_unit s u (w * length us) fin = (Inr (), s') \<and> same_frame s s' \<and>
    (if lw_finished s' then closed_at w us u fin s' else open_at w (us @ [u]) s')"
proof -
  have us: "us = [] \<or> last us = 10 \<or> (last us = 13 \<and> u \<noteq> 10)"
    using assms by (auto simp: open_at_def)
  then have st: "ustarts (us @ [u]) = ustarts us @ [length us]" by (simp add: ustarts_snoc)
  have add: "checked_add (lw_line s) 1 = Some (lw_line s + 1)"
    using assms(1,5) length_ustarts [of us] by (simp add: open_at_def checked_add_def)
  let ?s2 = "s\<lparr>lw_cr := False, lw_line := lw_line s + 1, lw_active := True,
             lw_start := if lw_line s + 1 = lw_first s then Some (w * length us) else lw_start s\<rparr>"
  have eq: "window_unit s u (w * length us) fin =
      (if u = 13 then (Inr (), ?s2\<lparr>lw_cr := True, lw_active := False\<rparr>)
       else if u = 10 then
         (Inr (), if lw_line ?s2 = lw_last ?s2 then window_resolve (?s2\<lparr>lw_active := False\<rparr>) fin
                  else ?s2\<lparr>lw_active := False\<rparr>)
       else (Inr (), ?s2))"
    using assms(2,3,4) add window_unit_rest [of s u "w * length us" fin] by simp
  have start: "lw_start ?s2 = (if lw_first s \<le> lw_line s + 1
      then Some (w * ustarts (us @ [u]) ! (lw_first s - 1)) else None)"
    using assms(1) by (auto simp: open_at_def st nth_append)
  show ?thesis
    using assms(1,3) st start unfolding eq
    by (cases "u = 13"; cases "u = 10"; cases "lw_line s + 1 = lw_last s")
      (auto simp: window_resolve_def same_frame_def closed_at_def open_at_def)
qed

lemma window_unit_ok:
  assumes "open_at w us s" and "length us < u64_max"
  shows "\<exists>s'. window_unit s u (w * length us) fin = (Inr (), s') \<and> same_frame s s' \<and>
    (if lw_finished s' then closed_at w us u fin s' else open_at w (us @ [u]) s')"
proof -
  consider "lw_cr s" "u = 10" | "lw_cr s" "u \<noteq> 10" "lw_line s = lw_last s" | "lw_active s"
    | "\<not> lw_active s" "lw_line s < lw_last s" "\<not> (lw_cr s \<and> u = 10)"
    using assms(1) unfolding open_at_def by (metis le_neq_implies_less)
  then show ?thesis
    using window_unit_crlf window_unit_bare_cr window_unit_inside window_unit_begins assms by cases blast+
qed

section \<open>The stream\<close>

lemma pair_units_length: "length (pair_units le bs) = length bs div 2"
  by (induction le bs rule: pair_units.induct) auto

lemma code_units_length: "length (code_units enc bs) = length bs div unit_width enc"
  by (simp add: code_units_def unit_width_def pair_units_length)

lemma pair_units_append: "even (length p) \<Longrightarrow> pair_units le (p @ q) = pair_units le p @ pair_units le q"
  by (induction le p rule: pair_units.induct) auto

lemma code_units_snoc:
  "\<not> is_utf16 enc \<Longrightarrow> code_units enc (p @ [b]) = code_units enc p @ [unat b]"
  "is_utf16 enc \<Longrightarrow> even (length p) \<Longrightarrow> code_units enc (p @ [b]) = code_units enc p"
  "is_utf16 enc \<Longrightarrow> odd (length p) \<Longrightarrow>
     code_units enc (p @ [b]) = code_units enc p @ [u16_unit (enc = Utf16Le) (last p) b]"
proof -
  show "\<not> is_utf16 enc \<Longrightarrow> code_units enc (p @ [b]) = code_units enc p @ [unat b]"
    "is_utf16 enc \<Longrightarrow> even (length p) \<Longrightarrow> code_units enc (p @ [b]) = code_units enc p"
    by (simp_all add: code_units_def pair_units_append)
  assume enc: "is_utf16 enc" and odd: "odd (length p)"
  then obtain p' x where p: "p = p' @ [x]" by (cases p rule: rev_cases) auto
  with enc odd show "code_units enc (p @ [b]) = code_units enc p @ [u16_unit (enc = Utf16Le) (last p) b]"
    by (simp add: code_units_def pair_units_append)
qed

lemma all_units_split:
  "unit_width enc dvd length p \<Longrightarrow> all_units enc (p @ q) = code_units enc p @ all_units enc q"
  by (auto simp: all_units_def code_units_def unit_width_def pair_units_append)

lemma all_units_Nil: "all_units enc bs = [] \<longleftrightarrow> bs = []"
proof (cases bs)
  case (Cons x xs)
  then show ?thesis by (cases xs) (auto simp: all_units_def code_units_def)
qed (simp add: all_units_def code_units_def)

lemma all_units_bound: "i < length (all_units enc bs) \<Longrightarrow> unit_width enc * i < length bs"
  by (auto simp: all_units_def code_units_length unit_width_def elim!: oddE evenE split: if_splits)

text \<open>The cursor has consumed \<open>p\<close> and its window is open; or it has resolved its window in \<open>bs\<close>.\<close>

definition reading :: "byte list \<Rightarrow> line_window \<Rightarrow> bool" where
  "reading p s \<longleftrightarrow> lw_offset s = length p \<and> \<not> lw_eof s \<and> lw_encoding s \<noteq> Unsupported \<and>
     lw_half s = (if is_utf16 (lw_encoding s) \<and> odd (length p) then Some (last p) else None) \<and>
     open_at (unit_width (lw_encoding s)) (code_units (lw_encoding s) p) s"

definition found :: "byte list \<Rightarrow> line_window \<Rightarrow> bool" where
  "found bs s \<longleftrightarrow> lw_finished s \<and> 1 \<le> lw_first s \<and> lw_first s \<le> lw_last s \<and> lw_line s = lw_last s \<and>
     lw_last s \<le> length (ustarts (all_units (lw_encoding s) bs)) \<and>
     lw_start s = Some (unit_width (lw_encoding s) * ustarts (all_units (lw_encoding s) bs) ! (lw_first s - 1)) \<and>
     lw_end s = Some (window_end (lw_encoding s) (lw_last s) bs)"

lemma closed_found:
  assumes c: "closed_at (unit_width (lw_encoding s)) us u fin s"
    and all: "all_units (lw_encoding s) bs = us @ u # vs"
    and fin: "u = 10 \<Longrightarrow> fin = (if vs = [] then length bs else unit_width (lw_encoding s) * Suc (length us))"
  shows "found bs s"
proof -
  let ?w = "unit_width (lw_encoding s)" and ?ls = "ustarts (all_units (lw_encoding s) bs)"
  have all': "all_units (lw_encoding s) bs = (us @ [u]) @ vs" using all by simp
  have first: "lw_first s - 1 < length (ustarts (us @ [u]))" using c by (auto simp: closed_at_def)
  note nth = ustarts_nth [OF first, of vs, folded all']
  have len: "length (ustarts (us @ [u])) \<le> length ?ls"
    using ustarts_prefix [of "us @ [u]" vs] by (auto simp: all')
  consider "u = 10" "lw_end s = Some fin" "length (ustarts (us @ [u])) = lw_last s"
    | "lw_end s = Some (?w * length us)" "ustarts (us @ [u]) = ustarts us @ [length us]" "length (ustarts us) = lw_last s"
    using c by (auto simp: closed_at_def)
  then have "lw_end s = Some (window_end (lw_encoding s) (lw_last s) bs)"
  proof cases
    case 1
    show ?thesis
    proof (cases vs)
      case Nil
      then have "?ls = ustarts (us @ [u])" using all by simp
      with 1 Nil fin show ?thesis by (simp add: window_end_def)
    next
      case (Cons v vs')
      have "ustarts ((us @ [u]) @ [v]) = ustarts (us @ [u]) @ [Suc (length us)]"
        unfolding ustarts_snoc [of "us @ [u]" v] by (simp add: 1(1))
      moreover from this have "lw_last s < length (ustarts ((us @ [u]) @ [v]))" using 1(3) by simp
      ultimately have "?ls ! lw_last s = Suc (length us) \<and> lw_last s < length ?ls"
        using ustarts_nth [of "lw_last s" "(us @ [u]) @ [v]" vs'] 1(3) all Cons by (auto simp: nth_append)
      with 1 Cons fin show ?thesis by (simp add: window_end_def)
    qed
  next
    case 2
    then have "lw_last s < length (ustarts (us @ [u]))" by simp
    from ustarts_nth [OF this, of vs, folded all'] 2 show ?thesis by (simp add: window_end_def nth_append)
  qed
  then show ?thesis using c nth len by (auto simp: found_def closed_at_def)
qed

lemma width_div: "\<not> is_utf16 enc \<Longrightarrow> unit_width enc = 1" "is_utf16 enc \<Longrightarrow> unit_width enc = 2"
  by (simp_all add: unit_width_def)

text \<open>One byte.\<close>

definition byte_step :: "line_window \<Rightarrow> byte \<Rightarrow> (line_window_error + unit) \<times> line_window" where
  "byte_step s b =
     (let st = lw_offset s; s1 = s\<lparr>lw_offset := st + 1\<rparr> in
      if is_utf16 (lw_encoding s1) then
        (case lw_half s1 of
           Some x \<Rightarrow> window_unit (s1\<lparr>lw_half := None\<rparr>) (u16_unit (lw_encoding s1 = Utf16Le) x b) (st - 1) (lw_offset s1)
         | None \<Rightarrow> (Inr (), s1\<lparr>lw_half := Some b\<rparr>))
      else window_unit s1 (unat b) st (lw_offset s1))"

lemma window_loop_step:
  "window_loop s (b # bs) = (case byte_step s b of
     (Inl e, s2) \<Rightarrow> (Inl e, s2)
   | (Inr _, s2) \<Rightarrow> if lw_finished s2 then (Inr 1, s2)
       else (case window_loop s2 bs of (res, s3) \<Rightarrow> (map_sum id Suc res, s3)))"
  by (simp add: byte_step_def Let_def)

lemma open_frame:
  "open_at w us s \<Longrightarrow> open_at w us (s\<lparr>lw_offset := n\<rparr>)"
  "open_at w us s \<Longrightarrow> open_at w us (s\<lparr>lw_half := h\<rparr>)"
  "open_at w us s \<Longrightarrow> open_at w us (s\<lparr>lw_eof := e\<rparr>)"
  by (auto simp: open_at_def)

lemma byte_step_ok:
  assumes r: "reading p s" and bs: "bs = p @ b # q" and fit: "length bs \<le> u64_max"
  shows "\<exists>s'. byte_step s b = (Inr (), s') \<and> lw_offset s' = Suc (length p) \<and> lw_first s' = lw_first s \<and>
    lw_last s' = lw_last s \<and> lw_encoding s' = lw_encoding s \<and>
    (if lw_finished s' then found bs s' else reading (p @ [b]) s')"
proof -
  let ?e = "lw_encoding s" and ?w = "unit_width (lw_encoding s)" and ?us = "code_units (lw_encoding s) p"
  have off: "lw_offset s = length p" and opn: "open_at ?w ?us s" using r by (simp_all add: reading_def)
  consider "\<not> is_utf16 ?e" | "is_utf16 ?e" "even (length p)" | "is_utf16 ?e" "odd (length p)" by blast
  then show ?thesis
  proof cases
    case 1
    have len: "length ?us = length p" "?w = 1" using 1 by (simp_all add: code_units_def unit_width_def)
    have lim: "length ?us < u64_max" using len fit bs by simp
    obtain s' where s': "window_unit (s\<lparr>lw_offset := Suc (length p)\<rparr>) (unat b) (?w * length ?us) (Suc (length p)) = (Inr (), s')"
      "same_frame (s\<lparr>lw_offset := Suc (length p)\<rparr>) s'"
      "if lw_finished s' then closed_at ?w ?us (unat b) (Suc (length p)) s' else open_at ?w (?us @ [unat b]) s'"
      using window_unit_ok [OF open_frame(1) [OF opn] lim] by blast
    have all: "all_units ?e bs = ?us @ unat b # map unat q" using 1 by (simp add: all_units_def code_units_def bs)
    have "found bs s'" if "lw_finished s'"
      by (rule closed_found [where us = ?us and u = "unat b" and vs = "map unat q" and fin = "Suc (length p)"])
        (use that s'(2,3) all len bs in \<open>auto simp: same_frame_def\<close>)
    then show ?thesis
      using s' off r 1 len
      by (auto simp: byte_step_def Let_def same_frame_def reading_def code_units_snoc(1) [OF 1])
  next
    case 2
    then show ?thesis
      using r off open_frame(1) [OF open_frame(2) [OF opn]]
      by (auto simp: byte_step_def Let_def reading_def code_units_snoc(2) [OF 2] open_at_def)
  next
    case 3
    define x where "x = last p"
    have half: "lw_half s = Some x" using r 3 by (simp add: reading_def x_def)
    obtain p' where p: "p = p' @ [x]" using 3 by (cases p rule: rev_cases) (auto simp: x_def)
    have len: "2 * length ?us = length p'" "?w = 2" "even (length p')"
      using 3 p by (auto simp: code_units_length width_div)
    let ?u = "u16_unit (?e = Utf16Le) x b"
    let ?s1 = "s\<lparr>lw_offset := Suc (length p), lw_half := None\<rparr>"
    have lim: "length ?us < u64_max" using len fit bs p by simp
    obtain s' where s': "window_unit ?s1 ?u (?w * length ?us) (Suc (length p)) = (Inr (), s')"
      "same_frame ?s1 s'"
      "if lw_finished s' then closed_at ?w ?us ?u (Suc (length p)) s' else open_at ?w (?us @ [?u]) s'"
      using window_unit_ok [OF open_frame(2) [OF open_frame(1) [OF opn]] lim] by blast
    have snoc: "code_units ?e (p @ [b]) = ?us @ [?u]" using code_units_snoc(3) [OF 3] by (simp add: x_def)
    have "all_units ?e bs = code_units ?e (p @ [b]) @ all_units ?e q"
      using all_units_split [of ?e "p @ [b]" q] 3 len(2) bs by simp
    then have all: "all_units ?e bs = ?us @ ?u # all_units ?e q" by (simp add: snoc)
    have "found bs s'" if "lw_finished s'"
      by (rule closed_found [where us = ?us and u = ?u and vs = "all_units ?e q" and fin = "Suc (length p)"])
        (use that s'(2,3) all len bs p in \<open>auto simp: same_frame_def all_units_Nil\<close>)
    then show ?thesis
      using s' off r 3 len half p snoc
      by (auto simp: byte_step_def Let_def same_frame_def reading_def)
  qed
qed

lemma window_loop_ok:
  "reading p s \<Longrightarrow> bs = p @ c @ q \<Longrightarrow> length bs \<le> u64_max \<Longrightarrow>
   \<exists>n s'. window_loop s c = (Inr n, s') \<and> n \<le> length c \<and> lw_offset s' = length p + n \<and>
     lw_encoding s' = lw_encoding s \<and> (if lw_finished s' then found bs s' else n = length c \<and> reading (p @ c) s')"
proof (induction c arbitrary: p s)
  case Nil
  then show ?case by (auto simp: reading_def open_at_def)
next
  case (Cons b c)
  obtain s1 where s1: "byte_step s b = (Inr (), s1)" "lw_offset s1 = Suc (length p)" "lw_encoding s1 = lw_encoding s"
    "if lw_finished s1 then found bs s1 else reading (p @ [b]) s1"
    using byte_step_ok [of p s bs b "c @ q"] Cons.prems by auto
  show ?case
  proof (cases "lw_finished s1")
    case True
    with s1 show ?thesis by (simp add: window_loop_step del: window_loop.simps)
  next
    case False
    then have "reading (p @ [b]) s1" using s1(4) by simp
    from Cons.IH [OF this] Cons.prems(2,3) obtain n s2 where s2: "window_loop s1 c = (Inr n, s2)" "n \<le> length c"
      "lw_offset s2 = length (p @ [b]) + n" "lw_encoding s2 = lw_encoding s1"
      "if lw_finished s2 then found bs s2 else n = length c \<and> reading ((p @ [b]) @ c) s2" by auto
    with s1 False show ?thesis by (auto simp: window_loop_step simp del: window_loop.simps)
  qed
qed

text \<open>The status of an open or resolved window.\<close>

lemma sorted_ustarts: "sorted_wrt (<) (ustarts us)"
  by (simp add: ustarts_def sorted_wrt_filter)

lemma found_status:
  assumes "found bs s"
  shows "line_window_status s = Some (window_result (lw_encoding s) (lw_first s) (lw_last s) bs)"
proof -
  let ?ls = "ustarts (all_units (lw_encoding s) bs)" and ?w = "unit_width (lw_encoding s)"
  have f: "1 \<le> lw_first s" "lw_first s \<le> lw_last s" "lw_last s \<le> length ?ls" using assms by (simp_all add: found_def)
  have "?w * ?ls ! (lw_first s - 1) \<le> window_end (lw_encoding s) (lw_last s) bs"
  proof (cases "lw_last s < length ?ls")
    case True
    then have "?ls ! (lw_first s - 1) \<le> ?ls ! lw_last s"
      using f sorted_wrt_nth_less [OF sorted_ustarts, of "lw_first s - 1" "lw_last s" "all_units (lw_encoding s) bs"]
      by (simp add: less_imp_le)
    with True show ?thesis by (simp add: window_end_def)
  next
    case False
    have "lw_first s - 1 < length ?ls" using f by simp
    from all_units_bound [OF ustarts_bound [OF this]] False show ?thesis by (simp add: window_end_def)
  qed
  with assms f show ?thesis
    by (auto simp: found_def line_window_status_def window_result_def min_def)
qed

lemma reading_status: "reading p s \<Longrightarrow> line_window_status s = Some Pending"
  by (simp add: reading_def open_at_def line_window_status_def)

text \<open>At the end of the input an open window ends with the input.\<close>

lemma open_end:
  assumes o: "open_at (unit_width (lw_encoding s)) (all_units (lw_encoding s) bs) s"
  shows "line_window_status (window_resolve s (length bs)) =
    Some (window_result (lw_encoding s) (lw_first s) (lw_last s) bs)"
proof -
  let ?ls = "ustarts (all_units (lw_encoding s) bs)" and ?w = "unit_width (lw_encoding s)"
  have l: "lw_line s = length ?ls" "lw_line s \<le> lw_last s" "1 \<le> lw_first s"
    "lw_start s = (if lw_first s \<le> length ?ls then Some (?w * ?ls ! (lw_first s - 1)) else None)"
    using o by (simp_all add: open_at_def)
  show ?thesis
  proof (cases "lw_first s \<le> length ?ls")
    case True
    then have "lw_first s - 1 < length ?ls" using l(3) by simp
    from all_units_bound [OF ustarts_bound [OF this]] True l show ?thesis
      by (auto simp: line_window_status_def window_resolve_def window_result_def window_end_def Let_def)
  next
    case False
    with l show ?thesis by (simp add: line_window_status_def window_resolve_def window_result_def)
  qed
qed

lemma window_finish_ok:
  assumes r: "reading bs s" and fit: "length bs \<le> u64_max"
  shows "\<exists>s'. window_finish s = Some (Inr (window_result (lw_encoding s) (lw_first s) (lw_last s) bs), s')"
proof -
  let ?e = "lw_encoding s" and ?w = "unit_width (lw_encoding s)" and ?us = "code_units (lw_encoding s) bs"
  have off: "lw_offset s = length bs" and opn: "open_at ?w ?us s" using r by (simp_all add: reading_def)
  then have unfinished: "\<not> lw_finished s" by (simp add: open_at_def)
  show ?thesis
  proof (cases "is_utf16 ?e \<and> odd (length bs)")
    case False
    then have "lw_half s = None" "all_units ?e bs = ?us" using r by (auto simp: reading_def all_units_def)
    then show ?thesis
      using open_end [of "s\<lparr>lw_eof := True\<rparr>" bs] open_frame(3) [OF opn] off unfinished
      by (simp add: window_finish_def Let_def)
  next
    case True
    let ?s1 = "s\<lparr>lw_eof := True, lw_half := None\<rparr>"
    have half: "lw_half s \<noteq> None" "all_units ?e bs = ?us @ [0xFFFF]" "?w = 2"
      using r True by (auto simp: reading_def all_units_def width_div)
    have len: "?w * length ?us = length bs - 1" "0 < length bs"
      using True by (auto simp: code_units_length half(3) elim!: oddE)
    have "2 * length ?us = length bs - 1" using len(1) half(3) by simp
    then have lim: "length ?us < u64_max" using fit len(2) by linarith
    obtain s' where s': "window_unit ?s1 0xFFFF (?w * length ?us) (length bs) = (Inr (), s')" "same_frame ?s1 s'"
      "if lw_finished s' then closed_at ?w ?us 0xFFFF (length bs) s' else open_at ?w (?us @ [0xFFFF]) s'"
      using window_unit_ok [OF open_frame(2) [OF open_frame(3) [OF opn]] lim] by blast
    have enc: "lw_encoding s' = ?e" "lw_first s' = lw_first s" "lw_last s' = lw_last s" "lw_offset s' = length bs"
      using s'(2) off by (simp_all add: same_frame_def)
    have st: "line_window_status (if lw_finished s' then s' else window_resolve s' (length bs)) =
        Some (window_result ?e (lw_first s) (lw_last s) bs)"
    proof (cases "lw_finished s'")
      case True
      have "found bs s'"
        by (rule closed_found [where us = ?us and u = "0xFFFF" and vs = "[]" and fin = "length bs"])
          (use True s'(3) enc half in simp_all)
      from found_status [OF this] True enc show ?thesis by simp
    next
      case False
      with open_end [of s' bs] s'(3) enc half show ?thesis by simp
    qed
    then show ?thesis
      using half(1) s'(1) enc unfinished off len
      by (cases "lw_finished s'") (simp_all add: window_finish_def Let_def)
  qed
qed

section \<open>Operations in any order\<close>

text \<open>The caller supplies the next bytes of the input in pieces of its choice, or retargets the cursor.\<close>

datatype window_op = Supply nat nat | Retarget nat nat

fun window_run :: "byte list \<Rightarrow> window_op list \<Rightarrow> line_window \<Rightarrow> line_window_error + line_window" where
  "window_run bs [] s = Inr s"
| "window_run bs (Supply len budget # ops) s =
     (case window_step s (lw_offset s) (take len (drop (lw_offset s) bs)) budget of
        (Inl e, _) \<Rightarrow> Inl e
      | (Inr _, s1) \<Rightarrow> window_run bs ops s1)"
| "window_run bs (Retarget first count # ops) s =
     (case line_window_retarget s first count of
        Inl _ \<Rightarrow> window_run bs ops s
      | Inr s1 \<Rightarrow> window_run bs ops s1)"

text \<open>The cursor somewhere in the input.\<close>

definition cursor_in :: "byte list \<Rightarrow> line_window \<Rightarrow> bool" where
  "cursor_in bs s \<longleftrightarrow> lw_offset s \<le> length bs \<and>
     (if lw_finished s then found bs s else reading (take (lw_offset s) bs) s)"

lemma new_reading: "line_window_new first count enc = Inr s \<Longrightarrow> 1 \<le> first \<Longrightarrow> reading [] s \<and> lw_encoding s = enc"
  by (auto simp: line_window_new_def result_simps reading_def open_at_def code_units_def checked_add_def
      bind_eq_Some_conv split: if_splits)

lemma retarget_reading:
  assumes r: "reading p s" and t: "line_window_retarget s first count = Inr s'"
  shows "reading p s' \<and> lw_offset s' = lw_offset s"
proof -
  have gt: "lw_line s < first" using t by (auto simp: line_window_retarget_def split: if_splits)
  obtain n where n: "line_window_new first count (lw_encoding s) = Inr n"
    and s': "s' = n\<lparr>lw_offset := lw_offset s, lw_line := lw_line s, lw_active := lw_active s,
          lw_cr := lw_cr s, lw_half := lw_half s\<rparr>"
    using t by (auto simp: line_window_retarget_def result_simps split: if_splits)
  have "lw_first n = first" "first \<le> lw_last n" "lw_encoding n = lw_encoding s" "lw_start n = None" "lw_end n = None"
    "\<not> lw_finished n" "\<not> lw_eof n"
    using n by (auto simp: line_window_new_def result_simps checked_add_def bind_eq_Some_conv split: if_splits)
  with r gt s' show ?thesis by (auto simp: reading_def open_at_def)
qed

lemma window_run_ok:
  "cursor_in bs s \<Longrightarrow> length bs \<le> u64_max \<Longrightarrow> \<exists>s'. window_run bs ops s = Inr s' \<and> cursor_in bs s'"
proof (induction bs ops s rule: window_run.induct)
  case (2 bs len budget ops s)
  have "\<exists>n s1. window_step s (lw_offset s) (take len (drop (lw_offset s) bs)) budget = (Inr n, s1) \<and> cursor_in bs s1"
  proof (cases "lw_finished s")
    case True
    then show ?thesis using "2.prems"(1) by (simp add: window_step_def)
  next
    case False
    let ?p = "take (lw_offset s) bs" and ?d = "take len (drop (lw_offset s) bs)"
    let ?c = "take (min (length ?d) budget) ?d"
    have r: "reading ?p s" "lw_offset s \<le> length bs" using False "2.prems"(1) by (simp_all add: cursor_in_def)
    have pc: "?p @ ?c = take (lw_offset s + length ?c) bs" by (simp add: take_add take_take min.commute)
    then have bs: "bs = ?p @ ?c @ drop (lw_offset s + length ?c) bs"
      using append_take_drop_id [of "lw_offset s + length ?c" bs] by (simp only: append_assoc [symmetric])
    have le: "lw_offset s + length ?c \<le> length bs" using r(2) by simp
    obtain n s1 where s1: "window_loop s ?c = (Inr n, s1)" "n \<le> length ?c" "lw_offset s1 = length ?p + n"
      "if lw_finished s1 then found bs s1 else n = length ?c \<and> reading (?p @ ?c) s1"
      using window_loop_ok [OF r(1) bs "2.prems"(2)] by blast
    have lp: "length ?p = lw_offset s" using r(2) by simp
    have "cursor_in bs s1"
      unfolding cursor_in_def
    proof (intro conjI)
      show "lw_offset s1 \<le> length bs" using s1(2,3) lp le by linarith
      show "if lw_finished s1 then found bs s1 else reading (take (lw_offset s1) bs) s1"
      proof (cases "lw_finished s1")
        case False
        then have "n = length ?c" "reading (?p @ ?c) s1" using s1(4) by simp_all
        moreover have "lw_offset s1 = lw_offset s + length ?c" using s1(3) lp \<open>n = length ?c\<close> by linarith
        ultimately have "reading (take (lw_offset s1) bs) s1" by (simp only: pc)
        with False show ?thesis by simp
      qed (use s1(4) in simp)
    qed
    moreover have "checked_add (lw_offset s) (min (length ?d) budget) = Some (lw_offset s + min (length ?d) budget)"
      using le "2.prems"(2) by simp
    ultimately show ?thesis using False s1(1) by (simp add: window_step_def Let_def)
  qed
  then obtain n s1 where "window_step s (lw_offset s) (take len (drop (lw_offset s) bs)) budget = (Inr n, s1)"
    "cursor_in bs s1" by blast
  with "2.IH" "2.prems"(2) show ?case by auto
next
  case (3 bs first count ops s)
  show ?case
  proof (cases "line_window_retarget s first count")
    case (Inl e)
    with 3 show ?thesis by simp
  next
    case (Inr s1)
    then have "\<not> lw_finished s" by (auto simp: line_window_retarget_def split: if_splits)
    then have "reading (take (lw_offset s) bs) s" "lw_offset s \<le> length bs" using "3.prems"(1) by (simp_all add: cursor_in_def)
    from retarget_reading [OF this(1) Inr] this(2) have "cursor_in bs s1"
      by (auto simp: cursor_in_def reading_def open_at_def)
    with 3 Inr show ?thesis by simp
  qed
qed simp

section \<open>Properties\<close>

text \<open>
  C6: The window cursor answers the line table of the whole input. In every supported encoding, however
  the input is cut into pieces and budgets - between the bytes of a code unit or of a CRLF - and however
  the cursor is retargeted on the way, it never fails or panics, never passes the end of the input, and
  its status is pending or exactly the window's lines and byte range; once all input was supplied, the
  end of the input settles every window.
\<close>

theorem line_window_exact:
  assumes "line_window_new first count enc = Inr s0" and "1 \<le> first" and "length bs \<le> u64_max"
  shows "\<exists>s. window_run bs ops s0 = Inr s \<and> lw_offset s \<le> length bs \<and>
    line_window_status s \<in> {Some Pending, Some (window_result (lw_encoding s) (lw_first s) (lw_last s) bs)} \<and>
    (lw_finished s \<or> lw_offset s = length bs \<longrightarrow>
      (\<exists>s'. window_finish s = Some (Inr (window_result (lw_encoding s) (lw_first s) (lw_last s) bs), s')))"
proof -
  have r0: "reading [] s0" using new_reading [OF assms(1,2)] by simp
  then have "\<not> lw_finished s0" "lw_offset s0 = 0" by (simp_all add: reading_def open_at_def)
  with r0 have "cursor_in bs s0" by (simp add: cursor_in_def)
  then obtain s where s: "window_run bs ops s0 = Inr s" "cursor_in bs s"
    using window_run_ok [OF _ assms(3)] by blast
  have "line_window_status s \<in> {Some Pending, Some (window_result (lw_encoding s) (lw_first s) (lw_last s) bs)}"
    using s(2) found_status [of bs s] reading_status [of _ s] by (auto simp: cursor_in_def split: if_splits)
  moreover have "\<exists>s'. window_finish s = Some (Inr (window_result (lw_encoding s) (lw_first s) (lw_last s) bs), s')"
    if "lw_finished s \<or> lw_offset s = length bs"
  proof (cases "lw_finished s")
    case True
    then have f: "found bs (s\<lparr>lw_eof := True\<rparr>)" using s(2) by (simp add: cursor_in_def found_def)
    from found_status [OF this] True show ?thesis by (simp add: window_finish_def Let_def)
  next
    case False
    with s(2) that have "reading bs s" by (simp add: cursor_in_def)
    from window_finish_ok [OF this assms(3)] show ?thesis .
  qed
  ultimately show ?thesis using s by (auto simp: cursor_in_def)
qed

text \<open>Line 2 of the UTF-16 text \<open>a CR LF b\<close>, with the input cut inside code units.\<close>

theorem line_window_exact_witness:
  "\<exists>s s'. window_run [97, 0, 13, 0, 10, 0, 98, 0] [Supply 3 9, Supply 9 9]
      (projr (line_window_new 2 1 Utf16Le)) = Inr s \<and>
    window_finish s = Some (Inr (WindowResolved 2 2 (OffsetRange 6 8)), s')"
proof -
  let ?bs = "[97, 0, 13, 0, 10, 0, 98, 0] :: byte list"
  let ?s0 = "\<lparr>lw_first = 2, lw_last = 2, lw_encoding = Utf16Le, lw_offset = 0, lw_line = 0, lw_active = False,
    lw_cr = False, lw_half = None, lw_start = None, lw_end = None, lw_finished = False, lw_eof = False\<rparr>"
  have new: "line_window_new 2 1 Utf16Le = Inr ?s0"
    by (simp add: line_window_new_def checked_sub_def checked_add_def u64_max_val)
  have run: "window_run ?bs [Supply 3 9, Supply 9 9] ?s0 = Inr (?s0\<lparr>lw_offset := 8, lw_line := 2,
      lw_active := True, lw_start := Some 6\<rparr>)"
    by (simp add: checked_add_def u64_max_val window_step_def is_utf16_def u16_unit_def window_unit_def)
  have "window_result Utf16Le 2 2 ?bs = WindowResolved 2 2 (OffsetRange 6 8)"
    by (simp add: window_result_def window_end_def all_units_def code_units_def is_utf16_def u16_unit_def
        unit_width_def ustarts_def ustart_def upt_rec)
  with line_window_exact [OF new, of ?bs "[Supply 3 9, Supply 9 9]"] new run show ?thesis
    by (simp add: u64_max_val)
qed

end
