(* ===== verification/Reconciliation.thy ===== *)
theory Reconciliation
  imports Paths Ordered_Map
begin

text \<open>
  \<open>crates/fcb-source/src/reconciliation.rs\<close>: dirty hints and the reconciliation pass that decides
  which known entries are deleted.

  A \<open>NormalizedPath\<close> is given by its raw bytes, which determine its components
  (\<open>normalized_paths_confined\<close>) and by which the maps are ordered and looked up. The directory scan
  \<open>BoundedDiscovery\<close> is file-system traversal: the answers of its \<open>next_batch\<close>, its final status and
  whether it withheld the root are arguments.
\<close>

type_synonym path_key = raw_path
type_synonym scan_epoch = nat

datatype discovery_kind = KindFile | KindDirectory | KindSymlink | KindSpecial | KindUnavailable | KindCycle

section \<open>Dirty hints\<close>

record dirty_hint =
  dh_path :: path_key
  dh_sequence :: nat
  dh_directory :: bool

text \<open>\<open>b\<close> lies strictly beneath \<open>a\<close>.\<close>

definition beneath :: "path_key \<Rightarrow> path_key \<Rightarrow> bool" where
  "beneath a b \<longleftrightarrow> starts_with b a \<and> length a < length b \<and> b ! length a = slash"

definition affects :: "dirty_hint \<Rightarrow> path_key \<Rightarrow> bool" where
  "affects h target =
     (if dh_path h = target then True
      else if dh_directory h \<and> beneath (dh_path h) target then True
      else if \<not> dh_directory h \<and> beneath (dh_path h) target then True
      else if beneath target (dh_path h) then True
      else False)"

record hint_tracker =
  ht_next :: nat
  ht_hints :: "dirty_hint list"

definition tracker_new :: hint_tracker where
  "tracker_new = \<lparr>ht_next = 1, ht_hints = []\<rparr>"

definition record_hint :: "hint_tracker \<Rightarrow> path_key \<Rightarrow> bool \<Rightarrow> nat \<times> hint_tracker" where
  "record_hint t p dir =
     (ht_next t, t\<lparr>ht_next := saturating_add (ht_next t) 1,
                   ht_hints := ht_hints t @ [\<lparr>dh_path = p, dh_sequence = ht_next t, dh_directory = dir\<rparr>]\<rparr>)"

definition is_dirty :: "hint_tracker \<Rightarrow> path_key \<Rightarrow> bool" where
  "is_dirty t p = list_ex (\<lambda>h. affects h p) (ht_hints t)"

definition has_hints_since :: "hint_tracker \<Rightarrow> nat \<Rightarrow> path_key option \<Rightarrow> bool" where
  "has_hints_since t sq dir = list_ex (\<lambda>h.
     if dh_sequence h < sq then False else (case dir of None \<Rightarrow> True | Some d \<Rightarrow> affects h d)) (ht_hints t)"

definition clear_directory_hints :: "hint_tracker \<Rightarrow> path_key option \<Rightarrow> nat \<Rightarrow> hint_tracker" where
  "clear_directory_hints t dir up_to = t\<lparr>ht_hints := filter (\<lambda>h.
     if dh_sequence h > up_to then True else (case dir of None \<Rightarrow> False | Some d \<Rightarrow> \<not> affects h d)) (ht_hints t)\<rparr>"

section \<open>The pass\<close>

datatype incomplete_reason =
    RCanceled | RGrantRevoked | RQueueSaturated | RBudgetExhausted | RPermissionDenied | RRootUnavailable
  | RRulePolicyUnavailable | REnumerationUnavailable | RTraversalLimited

datatype reconciliation_status = InProgress | Completed scan_epoch | Incomplete incomplete_reason

datatype scan_reason = SCanceled | SGrantRevoked | SQueueSaturated | SRootUnavailable
  | SRulePolicyUnavailable | SEnumerationUnavailable | STraversalLimited

datatype scan_status = ScanInProgress | ScanCompleted scan_epoch | ScanIncomplete scan_reason

definition from_scan_reason :: "scan_reason \<Rightarrow> incomplete_reason" where
  "from_scan_reason r = (case r of
     SCanceled \<Rightarrow> RCanceled | SGrantRevoked \<Rightarrow> RGrantRevoked | SQueueSaturated \<Rightarrow> RQueueSaturated
   | SRootUnavailable \<Rightarrow> RRootUnavailable | SRulePolicyUnavailable \<Rightarrow> RRulePolicyUnavailable
   | SEnumerationUnavailable \<Rightarrow> REnumerationUnavailable | STraversalLimited \<Rightarrow> RTraversalLimited)"

definition is_completed :: "reconciliation_status \<Rightarrow> bool" where
  "is_completed st = (case st of Completed _ \<Rightarrow> True | _ \<Rightarrow> False)"

record known_entry =
  kn_file :: file_id
  kn_revision :: source_revision
  kn_kind :: discovery_kind
  kn_len :: "nat option"
  kn_inode :: "nat option"
  kn_digest :: "digest option"

record observed_entry =
  oe_kind :: discovery_kind
  oe_len :: "nat option"
  oe_inode :: "nat option"
  oe_digest :: "digest option"
  oe_excluded :: bool

record discovery_entry =
  de_path :: path_key
  de_kind :: discovery_kind
  de_len :: "nat option"
  de_excluded :: bool

record pass =
  pa_directory :: "path_key option"
  pa_epoch :: scan_epoch
  pa_start :: nat
  pa_known :: "(path_key, known_entry) btree"
  pa_observed :: "(path_key, observed_entry) btree"
  pa_root_excluded :: bool
  pa_status :: reconciliation_status

record report =
  rp_epoch :: scan_epoch
  rp_status :: reconciliation_status
  rp_directory :: "path_key option"
  rp_added :: "path_key list"
  rp_modified :: "path_key list"
  rp_retained :: "path_key list"
  rp_tombstoned :: "path_key list"
  rp_preserved :: "path_key list"
  rp_intervening :: bool

definition is_honest_and_complete :: "report \<Rightarrow> bool" where
  "is_honest_and_complete r =
     (if \<not> is_completed (rp_status r) \<or> rp_intervening r then rp_tombstoned r = [] else True)"

definition pass_new ::
  "path_key option \<Rightarrow> scan_epoch \<Rightarrow> hint_tracker \<Rightarrow> (path_key, known_entry) btree \<Rightarrow> pass" where
  "pass_new dir epoch t known = \<lparr>pa_directory = dir, pa_epoch = epoch, pa_start = ht_next t,
     pa_known = known, pa_observed = [], pa_root_excluded = False, pa_status = InProgress\<rparr>"

definition record_observation ::
  "pass \<Rightarrow> path_key \<Rightarrow> discovery_kind \<Rightarrow> nat option \<Rightarrow> nat option \<Rightarrow> digest option \<Rightarrow> pass" where
  "record_observation p path kind len inode dig = p\<lparr>pa_observed := bt_insert path
     \<lparr>oe_kind = kind, oe_len = len, oe_inode = inode, oe_digest = dig, oe_excluded = False\<rparr> (pa_observed p)\<rparr>"

definition record_discovery_entry :: "pass \<Rightarrow> discovery_entry \<Rightarrow> pass" where
  "record_discovery_entry p e = p\<lparr>pa_observed := bt_insert (de_path e)
     \<lparr>oe_kind = de_kind e, oe_len = de_len e, oe_inode = None, oe_digest = None,
      oe_excluded = (de_excluded e \<and> (de_kind e = KindDirectory \<or> de_kind e = KindSymlink))\<rparr> (pa_observed p)\<rparr>"

definition excluded_at :: "pass \<Rightarrow> path_key \<Rightarrow> bool" where
  "excluded_at p k = (case bt_get (pa_observed p) k of None \<Rightarrow> False | Some e \<Rightarrow> oe_excluded e)"

definition is_excluded_by_observation :: "pass \<Rightarrow> path_key \<Rightarrow> bool" where
  "is_excluded_by_observation p bytes =
     (if pa_root_excluded p then True
      else if excluded_at p bytes then True
      else list_ex (\<lambda>i. bytes ! i = slash \<and> excluded_at p (take i bytes)) [0..<length bytes])"

definition exclusion_affects_hint :: "pass \<Rightarrow> dirty_hint \<Rightarrow> bool" where
  "exclusion_affects_hint p h =
     (let bytes = dh_path h in
      if is_excluded_by_observation p bytes then True
      else if \<not> dh_directory h then False
      else list_ex (\<lambda>(k, e). oe_excluded e \<and> length bytes < length k \<and> k ! length bytes = slash)
        (takeWhile (\<lambda>(k, e). starts_with k bytes) (filter (\<lambda>(k, e). bytes \<le> k) (pa_observed p))))"

definition entry_modified :: "known_entry \<Rightarrow> observed_entry \<Rightarrow> bool" where
  "entry_modified k e \<longleftrightarrow> kn_kind k \<noteq> oe_kind e \<or> kn_len k \<noteq> oe_len e \<or>
     (kn_inode k \<noteq> None \<and> oe_inode e \<noteq> None \<and> kn_inode k \<noteq> oe_inode e) \<or>
     (kn_digest k \<noteq> None \<and> oe_digest e \<noteq> None \<and> kn_digest k \<noteq> oe_digest e)"

fun categorize_observed ::
  "(path_key, known_entry) btree \<Rightarrow> (path_key, observed_entry) btree \<Rightarrow> report \<Rightarrow> report" where
  "categorize_observed known [] r = r"
| "categorize_observed known ((path, e) # es) r =
     categorize_observed known es
       (case bt_get known path of
          Some k \<Rightarrow> if entry_modified k e then r\<lparr>rp_modified := rp_modified r @ [path]\<rparr>
                    else r\<lparr>rp_retained := rp_retained r @ [path]\<rparr>
        | None \<Rightarrow> r\<lparr>rp_added := rp_added r @ [path]\<rparr>)"

fun categorize_unseen :: "pass \<Rightarrow> bool \<Rightarrow> path_key list \<Rightarrow> report \<Rightarrow> report" where
  "categorize_unseen p evidence [] r = r"
| "categorize_unseen p evidence (path # ps) r =
     categorize_unseen p evidence ps
       (if bt_get (pa_observed p) path = None then
          if evidence \<and> \<not> is_excluded_by_observation p path then r\<lparr>rp_tombstoned := rp_tombstoned r @ [path]\<rparr>
          else r\<lparr>rp_preserved := rp_preserved r @ [path]\<rparr>
        else r)"

definition pass_finish :: "pass \<Rightarrow> reconciliation_status \<Rightarrow> hint_tracker \<Rightarrow> report \<times> pass \<times> hint_tracker" where
  "pass_finish p0 status t =
     (let p = p0\<lparr>pa_status := status\<rparr>;
          r0 = \<lparr>rp_epoch = pa_epoch p, rp_status = status, rp_directory = pa_directory p, rp_added = [],
                rp_modified = [], rp_retained = [], rp_tombstoned = [], rp_preserved = [], rp_intervening = False\<rparr>;
          r1 = categorize_observed (pa_known p) (pa_observed p) r0;
          completed = is_completed status;
          intervening = has_hints_since t (pa_start p) (pa_directory p);
          r2 = (if intervening then r1\<lparr>rp_intervening := True\<rparr> else r1);
          r3 = categorize_unseen p (completed \<and> \<not> intervening) (map fst (pa_known p)) r2;
          t' = (if completed \<and> \<not> intervening then
                  t\<lparr>ht_hints := filter (\<lambda>h. dh_sequence h > pa_start p \<or>
                      (case pa_directory p of None \<Rightarrow> False | Some dir \<Rightarrow> \<not> affects h dir) \<or>
                      exclusion_affects_hint p h) (ht_hints t)\<rparr>
                else t) in
      (r3, p, t'))"

section \<open>A pass over a directory scan\<close>

text \<open>
  What the scan answers, batch by batch: an error, the end, or a page and whether more follow. The
  list is what \<open>next_batch\<close> returns in order; when it is used up the scan has ended.
\<close>

type_synonym batch_answer = "source_error + (discovery_entry list \<times> bool) option"

fun scan_batches :: "batch_answer list \<Rightarrow> pass \<Rightarrow> source_error option \<times> pass" where
  "scan_batches [] p = (None, p)"
| "scan_batches (Inl e # bs) p = (Some e, p)"
| "scan_batches (Inr None # bs) p = (None, p)"
| "scan_batches (Inr (Some (es, more_follow)) # bs) p =
     (let p1 = fold (\<lambda>e p. record_discovery_entry p e) es p in
      if \<not> more_follow then (None, p1) else scan_batches bs p1)"

definition terminal_status :: "bool \<Rightarrow> scan_status \<Rightarrow> reconciliation_status" where
  "terminal_status canceled st =
     (if canceled then Incomplete RCanceled
      else case st of
        ScanCompleted epoch \<Rightarrow> Completed epoch
      | ScanIncomplete r \<Rightarrow> Incomplete (from_scan_reason r)
      | ScanInProgress \<Rightarrow> Incomplete RBudgetExhausted)"

definition reconcile_from_discovery ::
  "scan_epoch \<Rightarrow> batch_answer list \<Rightarrow> bool \<Rightarrow> scan_status \<Rightarrow> bool \<Rightarrow> hint_tracker \<Rightarrow>
   (path_key, known_entry) btree \<Rightarrow> (source_error + report) \<times> hint_tracker" where
  "reconcile_from_discovery epoch batches root_excluded st canceled t known =
     (case scan_batches batches (pass_new None epoch t known) of
        (None, p) \<Rightarrow>
          (case pass_finish (p\<lparr>pa_root_excluded := root_excluded\<rparr>) (terminal_status canceled st) t of
             (r, _, t') \<Rightarrow> (Inr r, t'))
      | (Some e, p) \<Rightarrow>
          if e = Canceled then
            (case pass_finish p (Incomplete RCanceled) t of (r, _, t') \<Rightarrow> (Inr r, t'))
          else if e = GrantRevoked then
            (case pass_finish p (Incomplete RGrantRevoked) t of (r, _, t') \<Rightarrow> (Inr r, t'))
          else if e = RootUnavailable then
            (case pass_finish p (Incomplete RRootUnavailable) t of (r, _, t') \<Rightarrow> (Inr r, t'))
          else (Inl e, t))"

section \<open>Ancestors and the order of the keys\<close>

lemma starts_with_prefix: "starts_with b a \<longleftrightarrow> (\<exists>r. b = a @ r)"
  unfolding starts_with_def by (metis append_eq_conv_conj append_take_drop_id)

lemma beneath_iff: "beneath a b \<longleftrightarrow> (\<exists>r. b = a @ slash # r)"
proof
  assume "beneath a b"
  then obtain r where "b = a @ r" "r \<noteq> []" "b ! length a = slash"
    by (auto simp: beneath_def starts_with_prefix)
  then show "\<exists>r. b = a @ slash # r" by (cases r) auto
qed (auto simp: beneath_def starts_with_prefix)

text \<open>A path is withheld when the root, the path or one of its ancestors is an excluded subtree.\<close>

definition withheld :: "pass \<Rightarrow> path_key \<Rightarrow> bool" where
  "withheld p k \<longleftrightarrow> pa_root_excluded p \<or> (\<exists>d. excluded_at p d \<and> (d = k \<or> beneath d k))"

lemma is_excluded_iff: "is_excluded_by_observation p k = withheld p k"
proof -
  have "list_ex (\<lambda>i. k ! i = slash \<and> excluded_at p (take i k)) [0..<length k] \<longleftrightarrow>
      (\<exists>d. excluded_at p d \<and> beneath d k)"
  proof
    assume "list_ex (\<lambda>i. k ! i = slash \<and> excluded_at p (take i k)) [0..<length k]"
    then obtain i where i: "i < length k" "k ! i = slash" "excluded_at p (take i k)" by (auto simp: list_ex_iff)
    then have "k = take i k @ slash # drop (Suc i) k" using id_take_nth_drop [of i k] by simp
    with i show "\<exists>d. excluded_at p d \<and> beneath d k" unfolding beneath_iff by blast
  next
    assume "\<exists>d. excluded_at p d \<and> beneath d k"
    then obtain d r where "excluded_at p d" "k = d @ slash # r" by (auto simp: beneath_iff)
    then show "list_ex (\<lambda>i. k ! i = slash \<and> excluded_at p (take i k)) [0..<length k]"
      by (auto simp: list_ex_iff intro!: bexI [of _ "length d"])
  qed
  then show ?thesis by (auto simp: is_excluded_by_observation_def withheld_def)
qed

text \<open>The keys that begin with a byte string follow it without a gap.\<close>

lemma prefix_between:
  fixes b :: "'a::linorder list"
  shows "b \<le> k \<Longrightarrow> k \<le> b @ r \<Longrightarrow> \<exists>s. k = b @ s"
proof (induction b arbitrary: k)
  case (Cons x b)
  then obtain y ys where k: "k = y # ys" by (cases k) auto
  with Cons.prems have "x = y" "b \<le> ys" "ys \<le> b @ r" by auto
  with Cons.IH [of ys] k show ?case by auto
qed simp

lemma prefix_le: "(b :: 'a::linorder list) \<le> b @ r"
  by (induction b) simp_all

lemma starts_range:
  assumes "sorted_wrt (<) (map fst m)"
  shows "set (takeWhile (\<lambda>(k, e). starts_with k b) (filter (\<lambda>(k, e). b \<le> k) m)) =
    {(k, e). (k, e) \<in> set m \<and> starts_with k b}"
  using assms
proof (induction m)
  case (Cons ke m)
  obtain k e where ke: "ke = (k, e)" by fastforce
  have IH: "set (takeWhile (\<lambda>(k, e). starts_with k b) (filter (\<lambda>(k, e). b \<le> k) m)) =
    {(k, e). (k, e) \<in> set m \<and> starts_with k b}" using Cons by simp
  show ?case
  proof (cases "b \<le> k \<and> \<not> starts_with k b")
    case True
    have "\<not> starts_with k' b" if "(k', e') \<in> set m" for k' e'
    proof
      assume "starts_with k' b"
      then obtain r where "k' = b @ r" by (auto simp: starts_with_prefix)
      moreover have "k < k'" using that Cons.prems ke by (auto simp: image_iff)
      ultimately show False using prefix_between [of b k r] True by (auto simp: starts_with_prefix less_imp_le)
    qed
    with True ke show ?thesis by auto
  next
    case False
    have "starts_with k b \<Longrightarrow> b \<le> k" using prefix_le [of b] by (auto simp: starts_with_prefix)
    with False IH ke show ?thesis by auto
  qed
qed simp

lemma excluded_at_iff:
  assumes "bt_ok (pa_observed p)"
  shows "excluded_at p k \<longleftrightarrow> (\<exists>e. (k, e) \<in> set (pa_observed p) \<and> oe_excluded e)"
proof (cases "bt_get (pa_observed p) k")
  case None
  then show ?thesis using bt_get_None [of "pa_observed p" k] by (force simp: excluded_at_def)
next
  case (Some e)
  then have "(k, e') \<in> set (pa_observed p) \<longleftrightarrow> e' = e" for e'
    using bt_get_iff [OF assms, of k e'] by auto
  with Some show ?thesis by (simp add: excluded_at_def)
qed

lemma exclusion_affects_hint_iff:
  assumes "bt_ok (pa_observed p)"
  shows "exclusion_affects_hint p h \<longleftrightarrow> withheld p (dh_path h) \<or>
    (dh_directory h \<and> (\<exists>k. excluded_at p k \<and> beneath (dh_path h) k))"
proof -
  have "list_ex (\<lambda>(k, e). oe_excluded e \<and> length (dh_path h) < length k \<and> k ! length (dh_path h) = slash)
        (takeWhile (\<lambda>(k, e). starts_with k (dh_path h)) (filter (\<lambda>(k, e). dh_path h \<le> k) (pa_observed p))) \<longleftrightarrow>
      (\<exists>k e. (k, e) \<in> set (pa_observed p) \<and> oe_excluded e \<and> beneath (dh_path h) k)"
    using starts_range [of "pa_observed p" "dh_path h"] assms
    unfolding list_ex_iff bt_ok_def beneath_def by auto
  also have "\<dots> \<longleftrightarrow> (\<exists>k. excluded_at p k \<and> beneath (dh_path h) k)"
    using excluded_at_iff [OF assms] by blast
  finally show ?thesis
    by (auto simp: exclusion_affects_hint_def is_excluded_iff Let_def)
qed

section \<open>The report\<close>

lemma categorize_observed_eq:
  "categorize_observed known es r = r\<lparr>
     rp_added := rp_added r @ filter (\<lambda>k. bt_get known k = None) (map fst es),
     rp_modified := rp_modified r @ map fst (filter (\<lambda>(k, e). \<exists>kn. bt_get known k = Some kn \<and> entry_modified kn e) es),
     rp_retained := rp_retained r @ map fst (filter (\<lambda>(k, e). \<exists>kn. bt_get known k = Some kn \<and> \<not> entry_modified kn e) es)\<rparr>"
  by (induction known es r rule: categorize_observed.induct) (auto split: option.splits)

lemma categorize_unseen_eq:
  "categorize_unseen p evidence ks r = r\<lparr>
     rp_tombstoned := rp_tombstoned r @
       filter (\<lambda>k. bt_get (pa_observed p) k = None \<and> evidence \<and> \<not> withheld p k) ks,
     rp_preserved := rp_preserved r @
       filter (\<lambda>k. bt_get (pa_observed p) k = None \<and> \<not> (evidence \<and> \<not> withheld p k)) ks\<rparr>"
  by (induction p evidence ks r rule: categorize_unseen.induct) (auto simp: is_excluded_iff)

text \<open>A hint that arrived since the pass started and touches its directory.\<close>

definition intervening :: "pass \<Rightarrow> hint_tracker \<Rightarrow> bool" where
  "intervening p t \<longleftrightarrow> (\<exists>h\<in>set (ht_hints t). pa_start p \<le> dh_sequence h \<and>
     (\<forall>d. pa_directory p = Some d \<longrightarrow> dh_path h = d \<or> beneath (dh_path h) d \<or> beneath d (dh_path h)))"

lemma affects_iff: "affects h d \<longleftrightarrow> dh_path h = d \<or> beneath (dh_path h) d \<or> beneath d (dh_path h)"
  by (auto simp: affects_def)

lemma has_hints_iff: "has_hints_since t (pa_start p) (pa_directory p) = intervening p t"
  by (cases "pa_directory p")
    (auto simp: has_hints_since_def intervening_def list_ex_iff affects_iff not_less split: if_splits)

definition evidence :: "pass \<Rightarrow> reconciliation_status \<Rightarrow> hint_tracker \<Rightarrow> bool" where
  "evidence p st t \<longleftrightarrow> is_completed st \<and> \<not> intervening p t"

text \<open>
  The hints that a pass covers: not later than its start, on its directory or a path beneath it, and
  neither excluded nor, for a directory hint, with an exclusion beneath it. The code drops further hints,
  which touch the pass's directory from above: those on an enclosing path, of whose subtree the pass
  has seen a part only.
\<close>

definition pending_work :: "pass \<Rightarrow> dirty_hint \<Rightarrow> bool" where
  "pending_work p h \<longleftrightarrow> dh_sequence h > pa_start p \<or> withheld p (dh_path h) \<or>
     dh_directory h \<and> (\<exists>k. excluded_at p k \<and> beneath (dh_path h) k)"

definition covered :: "pass \<Rightarrow> dirty_hint \<Rightarrow> bool" where
  "covered p h \<longleftrightarrow> \<not> pending_work p h \<and> (\<forall>d. pa_directory p = Some d \<longrightarrow> dh_path h = d \<or> beneath d (dh_path h))"

definition enclosing :: "pass \<Rightarrow> dirty_hint \<Rightarrow> bool" where
  "enclosing p h \<longleftrightarrow> \<not> pending_work p h \<and> (\<exists>d. pa_directory p = Some d \<and> beneath (dh_path h) d)"

lemma withheld_status [simp]: "withheld (p\<lparr>pa_status := st\<rparr>) = withheld p"
  by (simp add: withheld_def excluded_at_def fun_eq_iff)

lemma excluded_at_status [simp]: "excluded_at (p\<lparr>pa_status := st\<rparr>) = excluded_at p"
  by (simp add: excluded_at_def fun_eq_iff)

lemma intervening_status [simp]: "intervening (p\<lparr>pa_status := st\<rparr>) = intervening p"
  by (simp add: intervening_def fun_eq_iff)

lemma remaining_hint_iff:
  assumes "bt_ok (pa_observed p)"
  shows "(dh_sequence h > pa_start p \<or> (case pa_directory p of None \<Rightarrow> False | Some dir \<Rightarrow> \<not> affects h dir) \<or>
    exclusion_affects_hint (p\<lparr>pa_status := st\<rparr>) h) = (\<not> (covered p h \<or> enclosing p h))"
  using exclusion_affects_hint_iff [of "p\<lparr>pa_status := st\<rparr>" h] assms
  by (cases "pa_directory p") (auto simp: covered_def enclosing_def pending_work_def affects_iff not_less)

lemma observed_filter:
  assumes "bt_ok m"
  shows "map fst (filter (\<lambda>(k, e). P k e) m) = filter (\<lambda>k. \<exists>e. bt_get m k = Some e \<and> P k e) (map fst m)"
proof -
  have "P k e \<longleftrightarrow> (\<exists>e. bt_get m k = Some e \<and> P k e)" if "(k, e) \<in> set m" for k e
    using that bt_get_iff [OF assms, of k e] by auto
  then have "filter (\<lambda>(k, e). P k e) m = filter (\<lambda>ke. \<exists>e. bt_get m (fst ke) = Some e \<and> P (fst ke) e) m"
    by (intro filter_cong) auto
  then show ?thesis by (simp add: filter_map o_def)
qed

lemma pass_finish_fields:
  assumes "bt_ok (pa_observed p)" "pass_finish p st t = (r, p', t')"
  shows "r = \<lparr>rp_epoch = pa_epoch p, rp_status = st, rp_directory = pa_directory p,
      rp_added = filter (\<lambda>k. bt_get (pa_known p) k = None) (map fst (pa_observed p)),
      rp_modified = filter (\<lambda>k. \<exists>e. bt_get (pa_observed p) k = Some e \<and>
        (\<exists>kn. bt_get (pa_known p) k = Some kn \<and> entry_modified kn e)) (map fst (pa_observed p)),
      rp_retained = filter (\<lambda>k. \<exists>e. bt_get (pa_observed p) k = Some e \<and>
        (\<exists>kn. bt_get (pa_known p) k = Some kn \<and> \<not> entry_modified kn e)) (map fst (pa_observed p)),
      rp_tombstoned = filter (\<lambda>k. bt_get (pa_observed p) k = None \<and> evidence p st t \<and> \<not> withheld p k)
        (map fst (pa_known p)),
      rp_preserved = filter (\<lambda>k. bt_get (pa_observed p) k = None \<and> \<not> (evidence p st t \<and> \<not> withheld p k))
        (map fst (pa_known p)),
      rp_intervening = intervening p t\<rparr>"
    and "p' = p\<lparr>pa_status := st\<rparr>"
    and "t' = (if evidence p st t then t\<lparr>ht_hints := filter (\<lambda>h. \<not> (covered p h \<or> enclosing p h)) (ht_hints t)\<rparr> else t)"
  using assms has_hints_iff [of t "p\<lparr>pa_status := st\<rparr>"]
  by (auto simp: pass_finish_def Let_def categorize_observed_eq categorize_unseen_eq evidence_def
      observed_filter [OF assms(1)] remaining_hint_iff [OF assms(1)])

section \<open>What a report says\<close>

lemma honest:
  assumes "bt_ok (pa_observed p)" "pass_finish p st t = (r, p', t')"
  shows "is_honest_and_complete r"
  using pass_finish_fields(1) [OF assms] by (auto simp: is_honest_and_complete_def evidence_def)

text \<open>
  C4: A pass classifies every path. Observed paths are added, modified or retained by their known
  entry alone; a known path that was not observed is a tombstone exactly when the pass completed, no
  hint touched its directory meanwhile and no excluded subtree hides the path, and otherwise its
  entry is preserved. The report is honest. Without evidence the tracker keeps every hint. With
  evidence it drops the hints the pass covered and also, although the comment in the code promises to
  clear only covered ones, the hints from before the pass on a path that encloses its directory; it
  keeps all others.
\<close>

theorem reconciliation_exact:
  assumes "bt_ok (pa_known p)" "bt_ok (pa_observed p)" "pass_finish p st t = (r, p', t')"
  shows "(k \<in> set (rp_added r) \<longleftrightarrow> bt_get (pa_observed p) k \<noteq> None \<and> bt_get (pa_known p) k = None) \<and>
    (k \<in> set (rp_modified r) \<longleftrightarrow> (\<exists>kn e. bt_get (pa_known p) k = Some kn \<and>
       bt_get (pa_observed p) k = Some e \<and> entry_modified kn e)) \<and>
    (k \<in> set (rp_retained r) \<longleftrightarrow> (\<exists>kn e. bt_get (pa_known p) k = Some kn \<and>
       bt_get (pa_observed p) k = Some e \<and> \<not> entry_modified kn e)) \<and>
    (k \<in> set (rp_tombstoned r) \<longleftrightarrow> bt_get (pa_known p) k \<noteq> None \<and> bt_get (pa_observed p) k = None \<and>
       is_completed st \<and> \<not> intervening p t \<and> \<not> withheld p k) \<and>
    (k \<in> set (rp_preserved r) \<longleftrightarrow> bt_get (pa_known p) k \<noteq> None \<and> bt_get (pa_observed p) k = None \<and>
       k \<notin> set (rp_tombstoned r)) \<and>
    distinct (rp_added r @ rp_modified r @ rp_retained r @ rp_tombstoned r @ rp_preserved r) \<and>
    is_honest_and_complete r \<and>
    ht_hints t' = (if is_completed st \<and> \<not> intervening p t
      then filter (\<lambda>h. \<not> (covered p h \<or> enclosing p h)) (ht_hints t) else ht_hints t)"
proof -
  note r = pass_finish_fields [OF assms(2,3)]
  have d: "distinct (map fst (pa_known p))" "distinct (map fst (pa_observed p))"
    using assms(1,2) by (auto dest: bt_ok_distinct)
  have mem: "k \<in> fst ` set m \<longleftrightarrow> bt_get m k \<noteq> None" for m :: "(path_key \<times> 'x) list" and k
    by (simp add: bt_get_None)
  have parts: "(k \<in> set (rp_added r) \<longleftrightarrow> bt_get (pa_observed p) k \<noteq> None \<and> bt_get (pa_known p) k = None) \<and>
    (k \<in> set (rp_modified r) \<longleftrightarrow> (\<exists>kn e. bt_get (pa_known p) k = Some kn \<and>
       bt_get (pa_observed p) k = Some e \<and> entry_modified kn e)) \<and>
    (k \<in> set (rp_retained r) \<longleftrightarrow> (\<exists>kn e. bt_get (pa_known p) k = Some kn \<and>
       bt_get (pa_observed p) k = Some e \<and> \<not> entry_modified kn e)) \<and>
    (k \<in> set (rp_tombstoned r) \<longleftrightarrow> bt_get (pa_known p) k \<noteq> None \<and> bt_get (pa_observed p) k = None \<and>
       is_completed st \<and> \<not> intervening p t \<and> \<not> withheld p k) \<and>
    (k \<in> set (rp_preserved r) \<longleftrightarrow> bt_get (pa_known p) k \<noteq> None \<and> bt_get (pa_observed p) k = None \<and>
       k \<notin> set (rp_tombstoned r))" for k
    unfolding r(1) by (simp add: mem evidence_def) auto
  have "distinct (rp_added r)" "distinct (rp_modified r)" "distinct (rp_retained r)"
      "distinct (rp_tombstoned r)" "distinct (rp_preserved r)"
    unfolding r(1) using d by simp_all
  moreover have "set (rp_added r) \<inter> set (rp_modified r) = {}" "set (rp_added r) \<inter> set (rp_retained r) = {}"
      "set (rp_added r) \<inter> set (rp_tombstoned r) = {}" "set (rp_added r) \<inter> set (rp_preserved r) = {}"
      "set (rp_modified r) \<inter> set (rp_retained r) = {}" "set (rp_modified r) \<inter> set (rp_tombstoned r) = {}"
      "set (rp_modified r) \<inter> set (rp_preserved r) = {}" "set (rp_retained r) \<inter> set (rp_tombstoned r) = {}"
      "set (rp_retained r) \<inter> set (rp_preserved r) = {}" "set (rp_tombstoned r) \<inter> set (rp_preserved r) = {}"
    using parts by fastforce+
  ultimately have "distinct (rp_added r @ rp_modified r @ rp_retained r @ rp_tombstoned r @ rp_preserved r)"
    by (simp add: Int_Un_distrib)
  with parts [of k] honest [OF assms(2,3)] show ?thesis
    unfolding r(3) by (simp add: evidence_def)
qed

definition ex_known :: "(path_key, known_entry) btree" where
  "ex_known = (let e = \<lparr>kn_file = QId (ArenaOwnerId 1) 1, kn_revision = QId (ArenaOwnerId 1) 1, kn_kind = KindFile, kn_len = Some 4,
       kn_inode = None, kn_digest = None\<rparr> in [([1], e), ([2], e), ([3, slash, 4], e), ([5], e)])"

definition ex_pass :: pass where
  "ex_pass = record_discovery_entry (record_observation (record_observation
     (pass_new None 7 \<lparr>ht_next = 3, ht_hints = [\<lparr>dh_path = [1], dh_sequence = 2, dh_directory = False\<rparr>]\<rparr> ex_known)
     [1] KindFile (Some 9) None None) [6] KindFile None None None)
     \<lparr>de_path = [3], de_kind = KindDirectory, de_len = None, de_excluded = True\<rparr>"

lemmas ex_pass_defs = ex_pass_def ex_known_def record_discovery_entry_def record_observation_def pass_new_def Let_def

theorem reconciliation_exact_witness:
  "\<exists>r p' t'. pass_finish ex_pass (Completed 7) \<lparr>ht_next = 3, ht_hints = [\<lparr>dh_path = [1], dh_sequence = 2, dh_directory = False\<rparr>]\<rparr>
     = (r, p', t') \<and> [1] \<in> set (rp_modified r)"
proof -
  let ?t = "\<lparr>ht_next = 3, ht_hints = [\<lparr>dh_path = [1], dh_sequence = 2, dh_directory = False\<rparr>]\<rparr>"
  obtain r p' t' where e: "pass_finish ex_pass (Completed 7) ?t = (r, p', t')" by (metis prod_cases3)
  have "bt_ok (pa_known ex_pass)" "bt_ok (pa_observed ex_pass)"
    by (simp_all add: ex_pass_defs bt_ok_def)
  from reconciliation_exact [OF this e, of "[1]"]
  have "[1] \<in> set (rp_modified r)" by (simp add: ex_pass_defs entry_modified_def)
  with e show ?thesis by blast
qed

section \<open>A tombstone needs evidence\<close>

text \<open>The entries the pages of a scan delivered up to its end.\<close>

fun delivered :: "batch_answer list \<Rightarrow> discovery_entry list" where
  "delivered [] = []"
| "delivered (Inl e # bs) = []"
| "delivered (Inr None # bs) = []"
| "delivered (Inr (Some (es, more_follow)) # bs) = es @ (if more_follow then delivered bs else [])"

lemma scan_batches_delivered:
  "snd (scan_batches bs p) = fold (\<lambda>e p. record_discovery_entry p e) (delivered bs) p"
  by (induction bs p rule: scan_batches.induct) (simp_all add: Let_def)

lemma record_entries:
  assumes "bt_ok (pa_observed p)"
  shows "bt_ok (pa_observed (fold (\<lambda>e p. record_discovery_entry p e) es p))"
    and "(bt_get (pa_observed (fold (\<lambda>e p. record_discovery_entry p e) es p)) k = None) =
      (bt_get (pa_observed p) k = None \<and> k \<notin> de_path ` set es)"
    and "excluded_at (fold (\<lambda>e p. record_discovery_entry p e) es p) k =
      (case find (\<lambda>e. de_path e = k) (rev es) of
         Some e \<Rightarrow> de_excluded e \<and> (de_kind e = KindDirectory \<or> de_kind e = KindSymlink)
       | None \<Rightarrow> excluded_at p k)"
    and "pa_known (fold (\<lambda>e p. record_discovery_entry p e) es p) = pa_known p"
    and "pa_start (fold (\<lambda>e p. record_discovery_entry p e) es p) = pa_start p"
    and "pa_directory (fold (\<lambda>e p. record_discovery_entry p e) es p) = pa_directory p"
  using assms
  by (induction es rule: rev_induct) (auto simp: record_discovery_entry_def excluded_at_def)

text \<open>
  C19: A deletion is reported only on evidence. When reconciling with a directory scan yields a report
  with a tombstone, the scan ran to its end uncancelled, the root was not withheld, the path was a
  known one that no delivered page lists, neither the path nor an ancestor was last delivered as an
  excluded directory or link, and no hint arrived since the pass began.
\<close>

theorem tombstone_needs_evidence:
  assumes "bt_ok known" "reconcile_from_discovery epoch bs root_excluded st canceled t known = (Inr r, t')"
    and "k \<in> set (rp_tombstoned r)"
  shows "\<not> canceled \<and> (\<exists>e. st = ScanCompleted e) \<and> \<not> root_excluded \<and> fst (scan_batches bs (pass_new None epoch t known)) = None \<and>
    bt_get known k \<noteq> None \<and> k \<notin> de_path ` set (delivered bs) \<and>
    (\<forall>d e. (d = k \<or> beneath d k) \<longrightarrow> find (\<lambda>e. de_path e = d) (rev (delivered bs)) = Some e \<longrightarrow>
       \<not> (de_excluded e \<and> (de_kind e = KindDirectory \<or> de_kind e = KindSymlink))) \<and>
    (\<forall>h\<in>set (ht_hints t). dh_sequence h < ht_next t)"
proof -
  let ?p0 = "pass_new None epoch t known"
  obtain err p where sb: "scan_batches bs ?p0 = (err, p)" by fastforce
  have p: "p = fold (\<lambda>e p. record_discovery_entry p e) (delivered bs) ?p0"
    using scan_batches_delivered [of bs ?p0] sb by simp
  have ok0: "bt_ok (pa_observed ?p0)" by (simp add: pass_new_def)
  note rec = record_entries [OF ok0, of "delivered bs", folded p]
  have nocomp: "rp_tombstoned r = []" if "pass_finish p (Incomplete c) t = (r, q, t')" for c q
    using pass_finish_fields(1) [OF rec(1) that] by (simp add: evidence_def is_completed_def)
  have err: "err = None"
    using assms(2,3) sb nocomp
    by (auto simp: reconcile_from_discovery_def split: option.splits if_splits prod.splits)
  let ?q = "p\<lparr>pa_root_excluded := root_excluded\<rparr>"
  obtain q where fin: "pass_finish ?q (terminal_status canceled st) t = (r, q, t')"
    using assms(2) sb err by (auto simp: reconcile_from_discovery_def split: prod.splits)
  have okq: "bt_ok (pa_observed ?q)" using rec(1) by simp
  have tomb: "bt_get (pa_known ?q) k \<noteq> None" "bt_get (pa_observed ?q) k = None"
      "is_completed (terminal_status canceled st)" "\<not> intervening ?q t" "\<not> withheld ?q k"
    using assms(3) unfolding pass_finish_fields(1) [OF okq fin] by (auto simp: evidence_def bt_get_None)
  have "\<not> canceled \<and> (\<exists>e. st = ScanCompleted e)"
    using tomb(3) by (auto simp: terminal_status_def is_completed_def split: if_splits scan_status.splits)
  moreover have "\<not> root_excluded \<and> \<not> excluded_at p d" if "d = k \<or> beneath d k" for d
    using tomb(5) that by (auto simp: withheld_def excluded_at_def)
  moreover have "bt_get known k \<noteq> None \<and> k \<notin> de_path ` set (delivered bs)"
    using tomb(1,2) rec(2) [of k] rec(4) by (auto simp: pass_new_def)
  moreover have "\<forall>h\<in>set (ht_hints t). dh_sequence h < ht_next t"
    using tomb(4) rec(5,6) by (auto simp: intervening_def pass_new_def not_le)
  moreover have "\<not> (de_excluded e \<and> (de_kind e = KindDirectory \<or> de_kind e = KindSymlink))"
    if "d = k \<or> beneath d k" "find (\<lambda>e. de_path e = d) (rev (delivered bs)) = Some e" for d e
    using calculation(2) [OF that(1)] rec(3) [of d] that(2) by simp
  ultimately show ?thesis using sb err by auto
qed

theorem tombstone_needs_evidence_witness:
  "\<exists>r t'. reconcile_from_discovery 7 [Inr (Some ([\<lparr>de_path = [1], de_kind = KindFile, de_len = Some 4, de_excluded = False\<rparr>], False))]
      False (ScanCompleted 7) False tracker_new ex_known = (Inr r, t') \<and> [2] \<in> set (rp_tombstoned r) \<and>
    bt_get ex_known [2] \<noteq> None"
proof -
  let ?bs = "[Inr (Some ([\<lparr>de_path = [1], de_kind = KindFile, de_len = Some 4, de_excluded = False\<rparr>], False))]"
  obtain r p' t' where "pass_finish (snd (scan_batches ?bs (pass_new None 7 tracker_new ex_known))
      \<lparr>pa_root_excluded := False\<rparr>) (terminal_status False (ScanCompleted 7)) tracker_new = (r, p', t')"
    by (metis prod_cases3)
  then have e: "reconcile_from_discovery 7 ?bs False (ScanCompleted 7) False tracker_new ex_known = (Inr r, t')"
    by (simp add: reconcile_from_discovery_def Let_def)
  have ok: "bt_ok ex_known" by (simp add: ex_known_def Let_def bt_ok_def)
  have "rp_tombstoned r = [[2], [3, slash, 4], [5]]"
    using e by (auto simp: reconcile_from_discovery_def pass_finish_def Let_def ex_pass_defs terminal_status_def
        is_completed_def has_hints_since_def tracker_new_def is_excluded_iff withheld_def excluded_at_def
        categorize_observed_eq split: prod.splits)
  then have "[2] \<in> set (rp_tombstoned r)" by simp
  with tombstone_needs_evidence [OF ok e, of "[2]"] e show ?thesis by blast
qed

text \<open>
  The hint on a directory is dropped by a pass over one of its subdirectories, and the paths beside
  that subdirectory are no longer dirty although the pass did not visit them.
\<close>

theorem ancestor_hint_lost:
  "let t = snd (record_hint tracker_new [1] True);
       (r, p, t') = pass_finish (pass_new (Some [1, slash, 2]) 1 t []) (Completed 1) t
   in is_dirty t [1, slash, 3] \<and> \<not> is_dirty t' [1, slash, 3]"
  by (simp add: record_hint_def tracker_new_def pass_new_def pass_finish_def Let_def is_dirty_def affects_def
      beneath_def starts_with_def has_hints_since_def is_completed_def exclusion_affects_hint_def
      is_excluded_iff withheld_def excluded_at_def saturating_add_def u64_max_val)

end
