(* ===== verification/Continuity.thy ===== *)
theory Continuity
  imports Reconciliation
begin

text \<open>
  The second half of \<open>crates/fcb-source/src/reconciliation.rs\<close>: the registry that decides which
  logical file a path names across edits, atomic saves, deletions and reuse of the path.
\<close>

datatype continuity_decision = PreserveLogicalIdentity | RecyclePathNewIdentity

datatype continuity_policy = AutomaticAtomicSave | ExplicitPolicy continuity_decision

datatype continuity_result =
    NewFile file_id source_revision
  | InPlaceModified file_id source_revision source_revision
  | PreservedAtomicSave file_id source_revision source_revision "nat option" nat
  | RecycledPath file_id file_id source_revision

record continuity_entry =
  ce_file :: file_id
  ce_revision :: source_revision
  ce_inode :: "nat option"
  ce_digest :: "digest option"
  ce_tombstoned :: bool
  ce_epoch :: "scan_epoch option"

record continuity_registry =
  cr_owner :: arena_owner_id
  cr_next :: nat
  cr_entries :: "(path_key, continuity_entry) btree"

definition registry_new :: "arena_owner_id \<Rightarrow> continuity_registry" where
  "registry_new ow = \<lparr>cr_owner = ow, cr_next = 1, cr_entries = []\<rparr>"

definition set_entry :: "continuity_registry \<Rightarrow> path_key \<Rightarrow> continuity_entry \<Rightarrow> continuity_registry" where
  "set_entry g path e = g\<lparr>cr_entries := bt_insert path e (cr_entries g)\<rparr>"

text \<open>\<open>FileId::new(self.owner, self.next_file_id)?\<close>, the bump, and the first revision.\<close>

definition fresh_identity ::
  "continuity_registry \<Rightarrow> (source_error + (file_id \<times> source_revision)) \<times> continuity_registry" where
  "fresh_identity g =
     (case qid_new (cr_owner g) (cr_next g) of
        Inl e \<Rightarrow> (Inl (from_core_error e), g)
      | Inr f \<Rightarrow>
          let g1 = g\<lparr>cr_next := saturating_add (cr_next g) 1\<rparr> in
          (case qid_new (cr_owner g1) 1 of
             Inl e \<Rightarrow> (Inl (from_core_error e), g1)
           | Inr rv \<Rightarrow> (Inr (f, rv), g1)))"

definition fresh_entry :: "file_id \<Rightarrow> source_revision \<Rightarrow> nat option \<Rightarrow> digest option \<Rightarrow> continuity_entry" where
  "fresh_entry f rv inode dig = \<lparr>ce_file = f, ce_revision = rv, ce_inode = inode, ce_digest = dig,
     ce_tombstoned = False, ce_epoch = None\<rparr>"

definition recycle_path ::
  "continuity_registry \<Rightarrow> path_key \<Rightarrow> continuity_entry \<Rightarrow> nat option \<Rightarrow> digest option \<Rightarrow>
   (source_error + continuity_result) \<times> continuity_registry" where
  "recycle_path g path entry inode dig =
     (case fresh_identity g of
        (Inl e, g1) \<Rightarrow> (Inl e, g1)
      | (Inr (f, rv), g1) \<Rightarrow>
          (Inr (RecycledPath (ce_file entry) f rv), set_entry g1 path (fresh_entry f rv inode dig)))"

definition observe_file ::
  "continuity_registry \<Rightarrow> path_key \<Rightarrow> nat option \<Rightarrow> digest option \<Rightarrow> continuity_policy \<Rightarrow>
   (source_error + continuity_result) \<times> continuity_registry" where
  "observe_file g path inode dig policy =
     (case bt_get (cr_entries g) path of
        Some entry \<Rightarrow>
          if ce_tombstoned entry then recycle_path g path entry inode dig
          else
            let prior = ce_revision entry in
            (case qid_new (cr_owner g) (saturating_add (qid_value prior) 1) of
               Inl e \<Rightarrow> (Inl (from_core_error e), g)
             | Inr new_revision \<Rightarrow>
                 let entry' = entry\<lparr>ce_revision := new_revision, ce_inode := inode, ce_digest := dig\<rparr> in
                 (case (ce_inode entry, inode) of
                    (Some old_in, Some new_in) \<Rightarrow>
                      if old_in \<noteq> new_in then
                        (case (case policy of AutomaticAtomicSave \<Rightarrow> PreserveLogicalIdentity | ExplicitPolicy d \<Rightarrow> d) of
                           PreserveLogicalIdentity \<Rightarrow>
                             (Inr (PreservedAtomicSave (ce_file entry) prior new_revision (ce_inode entry) new_in),
                              set_entry g path entry')
                         | RecyclePathNewIdentity \<Rightarrow> recycle_path g path entry inode dig)
                      else (Inr (InPlaceModified (ce_file entry) prior new_revision), set_entry g path entry')
                  | _ \<Rightarrow> (Inr (InPlaceModified (ce_file entry) prior new_revision), set_entry g path entry')))
      | None \<Rightarrow>
          (case fresh_identity g of
             (Inl e, g1) \<Rightarrow> (Inl e, g1)
           | (Inr (f, rv), g1) \<Rightarrow> (Inr (NewFile f rv), set_entry g1 path (fresh_entry f rv inode dig))))"

definition mark_tombstoned ::
  "continuity_registry \<Rightarrow> path_key \<Rightarrow> scan_epoch \<Rightarrow> file_id option \<times> continuity_registry" where
  "mark_tombstoned g path epoch =
     (case bt_get (cr_entries g) path of
        Some entry \<Rightarrow> (Some (ce_file entry), set_entry g path (entry\<lparr>ce_tombstoned := True, ce_epoch := Some epoch\<rparr>))
      | None \<Rightarrow> (None, g))"

definition active_files_count :: "continuity_registry \<Rightarrow> nat" where
  "active_files_count g = length (filter (\<lambda>(p, e). \<not> ce_tombstoned e) (cr_entries g))"

definition tombstoned_files_count :: "continuity_registry \<Rightarrow> nat" where
  "tombstoned_files_count g = length (filter (\<lambda>(p, e). ce_tombstoned e) (cr_entries g))"

section \<open>Runs\<close>

datatype continuity_op =
    Observe path_key "nat option" "digest option" continuity_policy
  | Tombstone path_key scan_epoch

fun continuity_run ::
  "continuity_op list \<Rightarrow> continuity_registry \<Rightarrow> (source_error + continuity_result) list \<times> continuity_registry" where
  "continuity_run [] g = ([], g)"
| "continuity_run (Observe p i d c # ops) g =
     (case observe_file g p i d c of (r, g1) \<Rightarrow> case continuity_run ops g1 of (rs, g2) \<Rightarrow> (r # rs, g2))"
| "continuity_run (Tombstone p e # ops) g = continuity_run ops (snd (mark_tombstoned g p e))"

text \<open>The file and revision an observation puts at its path, and the fresh ids among them.\<close>

fun assigned :: "continuity_result \<Rightarrow> file_id \<times> source_revision" where
  "assigned (NewFile f rv) = (f, rv)"
| "assigned (InPlaceModified f old rv) = (f, rv)"
| "assigned (PreservedAtomicSave f old rv i j) = (f, rv)"
| "assigned (RecycledPath old f rv) = (f, rv)"

fun minted :: "continuity_result \<Rightarrow> file_id list" where
  "minted (NewFile f rv) = [f]"
| "minted (RecycledPath old f rv) = [f]"
| "minted _ = []"

definition answers :: "(source_error + continuity_result) list \<Rightarrow> continuity_result list" where
  "answers rs = concat (map (\<lambda>r. case r of Inl _ \<Rightarrow> [] | Inr x \<Rightarrow> [x]) rs)"

text \<open>
  The registry after at most \<open>k\<close> operations: identities come from its counter, and no two paths
  share one. The log: nothing handed out for an entry's file has a later revision than the entry.
\<close>

definition registry_ok :: "arena_owner_id \<Rightarrow> nat \<Rightarrow> continuity_registry \<Rightarrow> bool" where
  "registry_ok ow k g \<longleftrightarrow> cr_owner g = ow \<and> 1 \<le> cr_next g \<and> cr_next g \<le> k + 1 \<and> bt_ok (cr_entries g) \<and>
     (\<forall>p e. bt_get (cr_entries g) p = Some e \<longrightarrow>
        (\<exists>v. ce_file e = QId ow v \<and> v < cr_next g) \<and> (\<exists>w. ce_revision e = QId ow w \<and> w \<le> k)) \<and>
     (\<forall>p q e f. bt_get (cr_entries g) p = Some e \<longrightarrow> bt_get (cr_entries g) q = Some f \<longrightarrow> ce_file e = ce_file f \<longrightarrow> p = q)"

definition log_ok :: "arena_owner_id \<Rightarrow> continuity_result list \<Rightarrow> continuity_registry \<Rightarrow> bool" where
  "log_ok ow rs g \<longleftrightarrow>
     (\<forall>p e r. bt_get (cr_entries g) p = Some e \<longrightarrow> r \<in> set rs \<longrightarrow> fst (assigned r) = ce_file e \<longrightarrow>
        qid_value (snd (assigned r)) \<le> qid_value (ce_revision e)) \<and>
     (\<forall>r\<in>set rs. \<exists>v. fst (assigned r) = QId ow v \<and> v < cr_next g) \<and>
     (\<forall>r\<in>set rs. \<forall>f\<in>set (minted r). \<exists>v. f = QId ow v \<and> v < cr_next g) \<and>
     distinct (map assigned rs) \<and> distinct (concat (map minted rs))"

lemma set_entry_simps [simp]:
  "cr_owner (set_entry g p e) = cr_owner g" "cr_next (set_entry g p e) = cr_next g"
  "bt_ok (cr_entries g) \<Longrightarrow> bt_ok (cr_entries (set_entry g p e))"
  "bt_ok (cr_entries g) \<Longrightarrow> bt_get (cr_entries (set_entry g p e)) = (bt_get (cr_entries g))(p \<mapsto> e)"
  by (simp_all add: set_entry_def)

lemma fresh_identity_ok:
  assumes "registry_ok ow k g" "k + 1 < u64_max"
  shows "fresh_identity g = (Inr (QId ow (cr_next g), QId ow 1), g\<lparr>cr_next := cr_next g + 1\<rparr>)"
proof -
  have "cr_owner g = ow" "cr_next g \<noteq> 0" "saturating_add (cr_next g) 1 = cr_next g + 1"
    using assms by (auto simp: registry_ok_def saturating_add_def min_def)
  then show ?thesis by (simp add: fresh_identity_def qid_new_def)
qed

text \<open>A fresh identity at a path.\<close>

lemma fresh_step:
  assumes g: "registry_ok ow k g" and l: "log_ok ow rs g"
    and e: "ce_file e = QId ow (cr_next g)" "ce_revision e = QId ow 1"
    and r: "assigned r = (QId ow (cr_next g), QId ow 1)" "minted r = [QId ow (cr_next g)]"
  shows "registry_ok ow (Suc k) (set_entry (g\<lparr>cr_next := cr_next g + 1\<rparr>) p e) \<and>
    log_ok ow (rs @ [r]) (set_entry (g\<lparr>cr_next := cr_next g + 1\<rparr>) p e)"
proof
  let ?g = "set_entry (g\<lparr>cr_next := cr_next g + 1\<rparr>) p e"
  have ok: "bt_ok (cr_entries g)" using g by (simp add: registry_ok_def)
  have get: "bt_get (cr_entries ?g) = (bt_get (cr_entries g))(p \<mapsto> e)" "bt_ok (cr_entries ?g)" using ok by simp_all
  have ids: "\<exists>v. ce_file e' = QId ow v \<and> v < cr_next g" "\<exists>w. ce_revision e' = QId ow w \<and> w \<le> k"
    if "bt_get (cr_entries g) q = Some e'" for q e'
    using g that by (auto simp: registry_ok_def)
  have inj: "bt_get (cr_entries g) q = Some a \<Longrightarrow> bt_get (cr_entries g) q' = Some b \<Longrightarrow> ce_file a = ce_file b \<Longrightarrow> q = q'"
    for q q' a b using g unfolding registry_ok_def by blast
  have shape: "(\<exists>v. ce_file e' = QId ow v \<and> v < cr_next g + 1) \<and> (\<exists>w. ce_revision e' = QId ow w \<and> w \<le> Suc k)"
    if q: "((bt_get (cr_entries g))(p \<mapsto> e)) q = Some e'" for q e'
  proof (cases "q = p")
    case False
    then show ?thesis using ids [of q e'] q by (auto intro: less_SucI le_SucI)
  qed (use q e in auto)
  have "q = q'"
    if q: "((bt_get (cr_entries g))(p \<mapsto> e)) q = Some a" "((bt_get (cr_entries g))(p \<mapsto> e)) q' = Some b" "ce_file a = ce_file b"
    for q q' a b
  proof (cases "q = p \<or> q' = p")
    case True
    then show ?thesis using q e ids(1) by (fastforce split: if_splits)
  next
    case False
    then show ?thesis using q inj by auto
  qed
  then have apart: "\<forall>p q e f. bt_get (cr_entries ?g) p = Some e \<longrightarrow> bt_get (cr_entries ?g) q = Some f \<longrightarrow>
      ce_file e = ce_file f \<longrightarrow> p = q"
    unfolding get(1) by (intro allI impI)
  have shapes: "\<forall>p e. bt_get (cr_entries ?g) p = Some e \<longrightarrow>
        (\<exists>v. ce_file e = QId ow v \<and> v < cr_next ?g) \<and> (\<exists>w. ce_revision e = QId ow w \<and> w \<le> Suc k)"
    unfolding get(1) using shape by simp
  have "cr_owner ?g = ow" "1 \<le> cr_next ?g" "cr_next ?g \<le> Suc k + 1" using g by (simp_all add: registry_ok_def)
  with get(2) shapes apart show "registry_ok ow (Suc k) ?g"
    unfolding registry_ok_def by (intro conjI)
  have old: "\<exists>v. fst (assigned r') = QId ow v \<and> v < cr_next g" "\<forall>f\<in>set (minted r'). \<exists>v. f = QId ow v \<and> v < cr_next g"
    if "r' \<in> set rs" for r' using l that by (auto simp: log_ok_def)
  have "assigned r \<noteq> assigned r' \<and> QId ow (cr_next g) \<notin> set (minted r')" if "r' \<in> set rs" for r'
  proof
    show "assigned r \<noteq> assigned r'" using old(1) [OF that] r(1) by (metis fst_conv less_irrefl qid.inject)
    show "QId ow (cr_next g) \<notin> set (minted r')" using old(2) [OF that] by auto
  qed
  then have "distinct (map assigned (rs @ [r]))" "distinct (concat (map minted (rs @ [r])))"
    using l r(2) by (auto simp: log_ok_def)
  moreover have "qid_value (snd (assigned r')) \<le> qid_value (ce_revision e')"
    if q: "((bt_get (cr_entries g))(p \<mapsto> e)) q = Some e'" "r' \<in> set (rs @ [r])" "fst (assigned r') = ce_file e'" for q e' r'
  proof (cases "r' = r"; cases "q = p")
    assume "r' = r" "q = p"
    with q r(1) e show ?thesis by simp
  next
    assume "r' = r" "q \<noteq> p"
    with q r(1) ids(1) [of q e'] show ?thesis by auto
  next
    assume "r' \<noteq> r" "q = p"
    with q e old(1) [of r'] show ?thesis by auto
  next
    assume "r' \<noteq> r" "q \<noteq> p"
    with q l show ?thesis by (auto simp: log_ok_def)
  qed
  moreover have "\<forall>r\<in>set (rs @ [r]). \<exists>v. fst (assigned r) = QId ow v \<and> v < cr_next ?g"
    using old(1) r(1) by (fastforce intro: less_SucI)
  moreover have "\<forall>r\<in>set (rs @ [r]). \<forall>f\<in>set (minted r). \<exists>v. f = QId ow v \<and> v < cr_next ?g"
    using old(2) r(2) by (fastforce intro: less_SucI)
  ultimately show "log_ok ow (rs @ [r]) ?g"
    unfolding log_ok_def get(1) by blast
qed

text \<open>The next revision of the identity that is there.\<close>

lemma revise_step:
  assumes g: "registry_ok ow k g" and l: "log_ok ow rs g" and p: "bt_get (cr_entries g) p = Some e0"
    and e: "ce_file e = ce_file e0" "ce_revision e = QId ow (qid_value (ce_revision e0) + 1)"
    and r: "assigned r = (ce_file e0, ce_revision e)" "minted r = []"
  shows "registry_ok ow (Suc k) (set_entry g p e) \<and> log_ok ow (rs @ [r]) (set_entry g p e)"
proof
  let ?g = "set_entry g p e"
  have ok: "bt_ok (cr_entries g)" using g by (simp add: registry_ok_def)
  have get: "bt_get (cr_entries ?g) = (bt_get (cr_entries g))(p \<mapsto> e)" "bt_ok (cr_entries ?g)" using ok by simp_all
  have ids: "\<exists>v. ce_file e' = QId ow v \<and> v < cr_next g" "\<exists>w. ce_revision e' = QId ow w \<and> w \<le> k"
    if "bt_get (cr_entries g) q = Some e'" for q e'
    using g that by (auto simp: registry_ok_def)
  have inj: "bt_get (cr_entries g) q = Some a \<Longrightarrow> bt_get (cr_entries g) q' = Some b \<Longrightarrow> ce_file a = ce_file b \<Longrightarrow> q = q'"
    for q q' a b using g unfolding registry_ok_def by blast
  have low: "qid_value (snd (assigned r')) \<le> qid_value (ce_revision e')"
    if "bt_get (cr_entries g) q = Some e'" "r' \<in> set rs" "fst (assigned r') = ce_file e'" for q e' r'
    using l that by (auto simp: log_ok_def)
  have shape: "(\<exists>v. ce_file e' = QId ow v \<and> v < cr_next g) \<and> (\<exists>w. ce_revision e' = QId ow w \<and> w \<le> Suc k)"
    if q: "((bt_get (cr_entries g))(p \<mapsto> e)) q = Some e'" for q e'
  proof (cases "q = p")
    case True
    then show ?thesis using ids [OF p] q e by auto
  next
    case False
    then show ?thesis using ids [of q e'] q by (auto intro: le_SucI)
  qed
  have "q = q'"
    if q: "((bt_get (cr_entries g))(p \<mapsto> e)) q = Some a" "((bt_get (cr_entries g))(p \<mapsto> e)) q' = Some b" "ce_file a = ce_file b"
    for q q' a b
    using q inj p e(1) by (metis (no_types, lifting) fun_upd_apply option.sel)
  then have apart: "\<forall>p q e f. bt_get (cr_entries ?g) p = Some e \<longrightarrow> bt_get (cr_entries ?g) q = Some f \<longrightarrow>
      ce_file e = ce_file f \<longrightarrow> p = q"
    unfolding get(1) by (intro allI impI)
  have shapes: "\<forall>p e. bt_get (cr_entries ?g) p = Some e \<longrightarrow>
        (\<exists>v. ce_file e = QId ow v \<and> v < cr_next ?g) \<and> (\<exists>w. ce_revision e = QId ow w \<and> w \<le> Suc k)"
    unfolding get(1) using shape by simp
  have "cr_owner ?g = ow" "1 \<le> cr_next ?g" "cr_next ?g \<le> Suc k + 1" using g by (simp_all add: registry_ok_def)
  with get(2) shapes apart show "registry_ok ow (Suc k) ?g"
    unfolding registry_ok_def by (intro conjI)
  have "assigned r \<notin> assigned ` set rs"
  proof
    assume "assigned r \<in> assigned ` set rs"
    then obtain r' where "r' \<in> set rs" "assigned r' = (ce_file e0, ce_revision e)" using r(1) by fastforce
    with low [OF p this(1)] e(2) show False by simp
  qed
  then have "distinct (map assigned (rs @ [r]))" "distinct (concat (map minted (rs @ [r])))"
    using l r(2) by (auto simp: log_ok_def)
  moreover have "qid_value (snd (assigned r')) \<le> qid_value (ce_revision e')"
    if q: "((bt_get (cr_entries g))(p \<mapsto> e)) q = Some e'" "r' \<in> set (rs @ [r])" "fst (assigned r') = ce_file e'" for q e' r'
  proof (cases "r' \<in> set rs"; cases "q = p")
    assume "r' \<in> set rs" "q = p"
    with q low [OF p] e show ?thesis by (fastforce intro: le_SucI)
  next
    assume "r' \<in> set rs" "q \<noteq> p"
    with q low show ?thesis by simp
  next
    assume "r' \<notin> set rs" "q = p"
    with q r(1) show ?thesis by simp
  next
    assume n: "r' \<notin> set rs" "q \<noteq> p"
    then have "ce_file e' = ce_file e0" "bt_get (cr_entries g) q = Some e'" using q r(1) by auto
    with inj p n(2) show ?thesis by metis
  qed
  ultimately show "log_ok ow (rs @ [r]) ?g"
    unfolding log_ok_def get(1) using l ids [OF p] r by (auto simp: log_ok_def)
qed

lemma tombstone_step:
  assumes "registry_ok ow k g" "log_ok ow rs g"
  shows "registry_ok ow k (snd (mark_tombstoned g p e)) \<and> log_ok ow rs (snd (mark_tombstoned g p e))"
proof (cases "bt_get (cr_entries g) p")
  case None
  then show ?thesis using assms by (simp add: mark_tombstoned_def)
next
  case (Some entry)
  let ?g = "snd (mark_tombstoned g p e)"
  have get: "bt_get (cr_entries ?g) = (bt_get (cr_entries g))(p \<mapsto> entry\<lparr>ce_tombstoned := True, ce_epoch := Some e\<rparr>)"
      "bt_ok (cr_entries ?g)" "cr_owner ?g = cr_owner g" "cr_next ?g = cr_next g"
    using Some assms(1) by (simp_all add: mark_tombstoned_def registry_ok_def)
  have same: "\<exists>e0. bt_get (cr_entries g) q = Some e0 \<and> ce_file e0 = ce_file e' \<and> ce_revision e0 = ce_revision e'"
    if "bt_get (cr_entries ?g) q = Some e'" for q e'
    using that Some unfolding get(1) by (cases "q = p") auto
  have "registry_ok ow k ?g"
    using assms(1) same unfolding registry_ok_def get(3,4) by (intro conjI allI impI get(2)) metis+
  moreover have "log_ok ow rs ?g"
    using assms(2) same unfolding log_ok_def get(4) by (intro conjI allI impI) metis+
  ultimately show ?thesis by blast
qed

lemma registry_entry:
  assumes "registry_ok ow k g" "bt_get (cr_entries g) path = Some entry"
  obtains w where "ce_revision entry = QId ow w" "w \<le> k" "cr_owner g = ow"
proof -
  have "cr_owner g = ow" "\<exists>w. ce_revision entry = QId ow w \<and> w \<le> k"
    using assms unfolding registry_ok_def by metis+
  then show ?thesis using that by blast
qed

lemma recycle_path_step:
  assumes "registry_ok ow k g" "log_ok ow rs g" "k + 1 < u64_max"
  shows "\<exists>r g'. recycle_path g path entry inode dig = (Inr r, g') \<and> registry_ok ow (Suc k) g' \<and> log_ok ow (rs @ [r]) g'"
  using fresh_step [OF assms(1,2), of "fresh_entry (QId ow (cr_next g)) (QId ow 1) inode dig"
      "RecycledPath (ce_file entry) (QId ow (cr_next g)) (QId ow 1)" path]
    fresh_identity_ok [OF assms(1,3)]
  by (simp add: recycle_path_def fresh_entry_def)

lemma observe_step:
  assumes g: "registry_ok ow k g" and l: "log_ok ow rs g" and k: "k + 1 < u64_max"
  shows "\<exists>r g'. observe_file g path inode dig policy = (Inr r, g') \<and> registry_ok ow (Suc k) g' \<and> log_ok ow (rs @ [r]) g'"
proof (cases "bt_get (cr_entries g) path")
  case None
  then show ?thesis
    using fresh_step [OF g l, of "fresh_entry (QId ow (cr_next g)) (QId ow 1) inode dig"
        "NewFile (QId ow (cr_next g)) (QId ow 1)" path] fresh_identity_ok [OF g k]
    by (simp add: observe_file_def fresh_entry_def)
next
  case (Some entry)
  note rec = recycle_path_step [OF g l k, of path entry inode dig]
  obtain w where w: "ce_revision entry = QId ow w" "w \<le> k" "cr_owner g = ow"
    using registry_entry [OF g Some] by blast
  then have q: "qid_new (cr_owner g) (saturating_add (qid_value (ce_revision entry)) 1) =
      Inr (QId ow (w + 1) :: source_revision)"
    using k by (simp add: qid_new_def saturating_add_def min_def)
  let ?e = "entry\<lparr>ce_revision := QId ow (w + 1), ce_inode := inode, ce_digest := dig\<rparr>"
  have rev: "registry_ok ow (Suc k) (set_entry g path ?e) \<and> log_ok ow (rs @ [r]) (set_entry g path ?e)"
    if "assigned r = (ce_file entry, QId ow (w + 1))" "minted r = []" for r
    using revise_step [OF g l Some, of ?e r] w that by simp
  show ?thesis
  proof (cases "ce_tombstoned entry")
    case True
    then show ?thesis using rec Some by (simp add: observe_file_def)
  next
    case False
    then have run: "observe_file g path inode dig policy =
        (case (ce_inode entry, inode) of
           (Some old_in, Some new_in) \<Rightarrow>
             if old_in \<noteq> new_in then
               (case (case policy of AutomaticAtomicSave \<Rightarrow> PreserveLogicalIdentity | ExplicitPolicy d \<Rightarrow> d) of
                  PreserveLogicalIdentity \<Rightarrow>
                    (Inr (PreservedAtomicSave (ce_file entry) (ce_revision entry) (QId ow (w + 1)) (ce_inode entry) new_in),
                     set_entry g path ?e)
                | RecyclePathNewIdentity \<Rightarrow> recycle_path g path entry inode dig)
             else (Inr (InPlaceModified (ce_file entry) (ce_revision entry) (QId ow (w + 1))), set_entry g path ?e)
         | _ \<Rightarrow> (Inr (InPlaceModified (ce_file entry) (ce_revision entry) (QId ow (w + 1))), set_entry g path ?e))"
      using Some q by (simp add: observe_file_def Let_def del: One_nat_def)
    have edit: "registry_ok ow (Suc k) (set_entry g path ?e) \<and>
        log_ok ow (rs @ [InPlaceModified (ce_file entry) (ce_revision entry) (QId ow (w + 1))]) (set_entry g path ?e)"
      by (rule rev) simp_all
    have save: "log_ok ow (rs @ [PreservedAtomicSave (ce_file entry) (ce_revision entry) (QId ow (w + 1)) (ce_inode entry) j])
        (set_entry g path ?e)" for j
      using rev [of "PreservedAtomicSave (ce_file entry) (ce_revision entry) (QId ow (w + 1)) (ce_inode entry) j"] by simp
    show ?thesis
      unfolding run using rec edit save
      by (auto simp del: One_nat_def split: option.split continuity_policy.split continuity_decision.split)
  qed
qed

lemma run_step:
  assumes "registry_ok ow k g" "log_ok ow rs g" "k + length ops < u64_max" "continuity_run ops g = (out, g')"
  shows "(\<forall>r\<in>set out. is_ok r) \<and> registry_ok ow (k + length ops) g' \<and> log_ok ow (rs @ answers out) g'"
  using assms
proof (induction ops arbitrary: k g rs out)
  case Nil
  then show ?case by (simp add: answers_def)
next
  case (Cons op ops)
  show ?case
  proof (cases op)
    case (Observe p i d c)
    have "k + 1 < u64_max" using Cons.prems(3) by simp
    from observe_step [OF Cons.prems(1,2) this] obtain r g1 where
      r: "observe_file g p i d c = (Inr r, g1)" "registry_ok ow (Suc k) g1" "log_ok ow (rs @ [r]) g1" by blast
    obtain out2 where o2: "continuity_run ops g1 = (out2, g')" "out = Inr r # out2"
      using Cons.prems(4) r(1) Observe by (auto split: prod.splits)
    from Cons.IH [OF r(2,3) _ o2(1)] Cons.prems(3) o2(2) show ?thesis by (simp add: answers_def)
  next
    case (Tombstone p e)
    have up: "registry_ok ow (Suc k) g1" if "registry_ok ow k g1" for g1
      using that by (fastforce simp: registry_ok_def intro: le_SucI)
    from tombstone_step [OF Cons.prems(1,2), of p e] up
    have "registry_ok ow (Suc k) (snd (mark_tombstoned g p e))" "log_ok ow rs (snd (mark_tombstoned g p e))" by blast+
    from Cons.IH [OF this] Cons.prems(3,4) Tombstone show ?thesis by simp
  qed
qed

lemma registry_new_ok: "registry_ok ow 0 (registry_new ow) \<and> log_ok ow [] (registry_new ow)"
  by (simp add: registry_ok_def log_ok_def registry_new_def)

text \<open>
  C14: Logical identity is never confused. In any run of fewer than \<open>u64::MAX\<close> observations and
  tombstones from a new registry, every observation succeeds, no file id is minted twice, no file
  and revision pair is reported twice, and no two paths share a file id.
\<close>

theorem identities_never_reused:
  assumes "length ops < u64_max" "continuity_run ops (registry_new ow) = (out, g)"
  shows "(\<forall>r\<in>set out. is_ok r) \<and> distinct (concat (map minted (answers out))) \<and>
    distinct (map assigned (answers out)) \<and>
    (\<forall>p q e f. bt_get (cr_entries g) p = Some e \<longrightarrow> bt_get (cr_entries g) q = Some f \<longrightarrow>
       ce_file e = ce_file f \<longrightarrow> p = q)"
  using run_step [of ow 0 "registry_new ow" "[]" ops out g] registry_new_ok [of ow] assms
  by (auto simp: log_ok_def registry_ok_def)

definition ex_ops :: "continuity_op list" where
  "ex_ops = [Observe [1] (Some 5) None AutomaticAtomicSave, Observe [1] (Some 6) None AutomaticAtomicSave,
     Tombstone [1] 1, Observe [1] (Some 6) None AutomaticAtomicSave,
     Observe [2] None None (ExplicitPolicy RecyclePathNewIdentity)]"

theorem identities_never_reused_witness:
  "\<exists>out g. continuity_run ex_ops (registry_new (ArenaOwnerId 1)) = (out, g) \<and>
     distinct (map assigned (answers out))"
proof -
  obtain out g where e: "continuity_run ex_ops (registry_new (ArenaOwnerId 1)) = (out, g)" by fastforce
  have "length ex_ops < u64_max" by (simp add: ex_ops_def u64_max_val)
  from identities_never_reused [OF this e] e show ?thesis by blast
qed

text \<open>
  C31: An observation changes the identity of a path only for a reason. For an active path, a differing
  inode keeps the file id and takes the next revision unless the policy says to recycle; without two
  known, different inodes the policy is not consulted; a tombstoned or unknown path always gets a
  fresh id at revision 1; and no other path is touched.
\<close>

theorem observation_decides_identity:
  assumes "length ops + 1 < u64_max" "continuity_run ops (registry_new ow) = (out, g)"
    and "observe_file g path inode dig policy = (res, g')"
  shows "(\<forall>q. q \<noteq> path \<longrightarrow> bt_get (cr_entries g') q = bt_get (cr_entries g) q) \<and>
    (\<exists>e'. bt_get (cr_entries g') path = Some e' \<and> \<not> ce_tombstoned e' \<and> ce_inode e' = inode \<and> ce_digest e' = dig \<and>
      (case bt_get (cr_entries g) path of
         None \<Rightarrow> res = Inr (NewFile (ce_file e') (ce_revision e')) \<and> ce_file e' = QId ow (cr_next g) \<and> ce_revision e' = QId ow 1
       | Some e \<Rightarrow>
           if ce_tombstoned e \<or> (policy = ExplicitPolicy RecyclePathNewIdentity \<and>
               (\<exists>i j. ce_inode e = Some i \<and> inode = Some j \<and> i \<noteq> j))
           then res = Inr (RecycledPath (ce_file e) (ce_file e') (ce_revision e')) \<and>
             ce_file e' = QId ow (cr_next g) \<and> ce_revision e' = QId ow 1
           else ce_file e' = ce_file e \<and> ce_revision e' = QId ow (qid_value (ce_revision e) + 1) \<and>
             (res = Inr (InPlaceModified (ce_file e) (ce_revision e) (ce_revision e')) \<longleftrightarrow>
              \<not> (\<exists>i j. ce_inode e = Some i \<and> inode = Some j \<and> i \<noteq> j))))"
proof -
  have k: "length ops < u64_max" "length ops + 1 < u64_max" using assms(1) by simp_all
  have g: "registry_ok ow (length ops) g"
    using run_step [of ow 0 "registry_new ow" "[]" ops out g] registry_new_ok [of ow] k assms(2) by auto
  note fresh = fresh_identity_ok [OF g k(2)]
  have ok: "bt_ok (cr_entries g)" using g by (simp add: registry_ok_def)
  show ?thesis
  proof (cases "bt_get (cr_entries g) path")
    case None
    then show ?thesis using assms(3) fresh ok by (auto simp: observe_file_def fresh_entry_def)
  next
    case (Some e)
    obtain w where w: "ce_revision e = QId ow w" "w \<le> length ops" "cr_owner g = ow"
      using registry_entry [OF g Some] by blast
    then have q: "qid_new (cr_owner g) (saturating_add (qid_value (ce_revision e)) 1) =
      Inr (QId ow (w + 1) :: source_revision)"
      using k by (simp add: qid_new_def saturating_add_def min_def)
    have rec: "recycle_path g path e inode dig = (Inr (RecycledPath (ce_file e) (QId ow (cr_next g)) (QId ow 1)),
        set_entry (g\<lparr>cr_next := cr_next g + 1\<rparr>) path (fresh_entry (QId ow (cr_next g)) (QId ow 1) inode dig))"
      using fresh by (simp add: recycle_path_def)
    show ?thesis
    proof (cases "ce_tombstoned e")
      case True
      then show ?thesis using assms(3) Some rec ok by (auto simp: observe_file_def fresh_entry_def)
    next
      case False
      then show ?thesis
        using assms(3) Some rec ok q w
        by (auto simp: observe_file_def Let_def fresh_entry_def
            split: option.splits continuity_policy.splits continuity_decision.splits if_splits)
    qed
  qed
qed

theorem observation_decides_identity_witness:
  "\<exists>out g res g'. continuity_run ex_ops (registry_new (ArenaOwnerId 1)) = (out, g) \<and>
     observe_file g [9] None None AutomaticAtomicSave = (res, g') \<and> bt_get (cr_entries g') [9] \<noteq> None"
proof -
  obtain out g where e: "continuity_run ex_ops (registry_new (ArenaOwnerId 1)) = (out, g)" by fastforce
  obtain res g' where f: "observe_file g [9] None None AutomaticAtomicSave = (res, g')" by fastforce
  have "length ex_ops + 1 < u64_max" by (simp add: ex_ops_def u64_max_val)
  from observation_decides_identity [OF this e f] e f show ?thesis by blast
qed

text \<open>At the end of the id space the counter saturates and the last id is handed out again.\<close>

theorem saturated_registry_reissues:
  "\<exists>f g1 g2. observe_file ((registry_new ow)\<lparr>cr_next := u64_max\<rparr>) [1] None None AutomaticAtomicSave = (Inr (NewFile f (QId ow 1)), g1) \<and>
     observe_file g1 [2] None None AutomaticAtomicSave = (Inr (NewFile f (QId ow 1)), g2)"
  by (simp add: observe_file_def registry_new_def fresh_identity_def qid_new_def saturating_add_def set_entry_def
      u64_max_val)

end
