(* ===== verification/Annotations.thy ===== *)
theory Annotations
  imports Continuity
begin

text \<open>
  \<open>crates/fcb-source/src/old_anchor.rs\<close>, and the annotation registry at the end of
  \<open>crates/fcb-source/src/reconciliation.rs\<close>: notes stay with the revision and bytes they were made
  on, move to a new revision only when the bytes at the anchor still match, and are kept as orphans
  otherwise.
\<close>

section \<open>Old anchors\<close>

record old_anchor =
  oa_offset :: nat
  oa_revision :: nat

datatype old_anchor_resolution = AnchorRetained | AnchorByteVerified | AnchorStale

definition is_usable :: "old_anchor_resolution \<Rightarrow> bool" where
  "is_usable r \<longleftrightarrow> r \<noteq> AnchorStale"

datatype capture_backing = BackingRetained | BackingEvicted

datatype visual_readiness = ExactVisual | ContextPending | LogicalEscaped

record line_context =
  lc_bytes :: nat
  lc_bidi :: bool
  lc_combining :: nat
  lc_budget :: nat

definition assess_readiness :: "line_context \<Rightarrow> visual_readiness" where
  "assess_readiness c =
     (if lc_combining c > 32 then LogicalEscaped
      else if lc_bytes c > lc_budget c then ContextPending else ExactVisual)"

definition resolve_old_anchor :: "old_anchor \<Rightarrow> capture_backing \<Rightarrow> byte list \<Rightarrow> nat \<Rightarrow> old_anchor_resolution" where
  "resolve_old_anchor anchor backing current_bytes recorded =
     (case backing of BackingRetained \<Rightarrow> AnchorRetained | BackingEvicted \<Rightarrow> AnchorStale)"

datatype open_action = OpenCurrent | OpenHistorical | Dismiss

record anchor_result =
  an_resolution :: old_anchor_resolution
  an_action :: open_action
  an_readiness :: visual_readiness

definition with_default_action :: "old_anchor_resolution \<Rightarrow> anchor_result" where
  "with_default_action r =
     (case (case r of
              AnchorRetained \<Rightarrow> (OpenHistorical, ExactVisual)
            | AnchorByteVerified \<Rightarrow> (OpenCurrent, ExactVisual)
            | AnchorStale \<Rightarrow> (Dismiss, ContextPending)) of
        (a, v) \<Rightarrow> \<lparr>an_resolution = r, an_action = a, an_readiness = v\<rparr>)"

definition with_context :: "old_anchor_resolution \<Rightarrow> line_context \<Rightarrow> anchor_result" where
  "with_context r c = \<lparr>an_resolution = r,
     an_action = (case r of AnchorRetained \<Rightarrow> OpenHistorical | AnchorByteVerified \<Rightarrow> OpenCurrent | AnchorStale \<Rightarrow> Dismiss),
     an_readiness = (case r of AnchorStale \<Rightarrow> ContextPending | _ \<Rightarrow> assess_readiness c)\<rparr>"

text \<open>\<open>hash ^= byte; hash = hash.wrapping_mul(prime)\<close>\<close>

definition fnv1a :: "byte list \<Rightarrow> 64 word" where
  "fnv1a bytes = fold (\<lambda>b h. (h XOR ucast b) * 0x100000001B3) bytes 0xCBF29CE484222325"

section \<open>The annotation registry\<close>

record source_annotation =
  sa_id :: nat
  sa_file :: file_id
  sa_revision :: source_revision
  sa_anchor :: old_anchor
  sa_digest :: "64 word"
  sa_text :: "uchar list"

datatype orphan_reason = ContentDiverged | OffsetOutOfBounds | PathRecycledNewIdentity | FileTombstoned | BecameSpecial

record orphaned_annotation =
  oo_annotation :: source_annotation
  oo_reason :: orphan_reason
  oo_revision :: "source_revision option"

datatype reattachment = Reattached nat file_id source_revision old_anchor | Orphaned orphaned_annotation

record annotation_registry =
  ar_active :: "(nat, source_annotation) btree"
  ar_orphaned :: "(nat, orphaned_annotation) btree"

definition annotations_new :: annotation_registry where
  "annotations_new = \<lparr>ar_active = [], ar_orphaned = []\<rparr>"

definition add_annotation :: "annotation_registry \<Rightarrow> source_annotation \<Rightarrow> annotation_registry" where
  "add_annotation g a = g\<lparr>ar_active := bt_insert (sa_id a) a (ar_active g)\<rparr>"

definition target_ids :: "annotation_registry \<Rightarrow> file_id \<Rightarrow> nat list" where
  "target_ids g f = map sa_id (filter (\<lambda>a. sa_file a = f) (map snd (ar_active g)))"

text \<open>\<open>self.active.remove(&id).expect(..)\<close>; \<^const>\<open>None\<close> is the panic.\<close>

definition take_active :: "annotation_registry \<Rightarrow> nat \<Rightarrow> (source_annotation \<times> annotation_registry) option" where
  "take_active g i = map_option (\<lambda>a. (a, g\<lparr>ar_active := bt_remove i (ar_active g)\<rparr>)) (bt_get (ar_active g) i)"

definition orphan :: "annotation_registry \<Rightarrow> nat \<Rightarrow> orphaned_annotation \<Rightarrow> annotation_registry" where
  "orphan g i x = g\<lparr>ar_orphaned := bt_insert i x (ar_orphaned g)\<rparr>"

definition reattach_one ::
  "annotation_registry \<Rightarrow> nat \<Rightarrow> file_id \<Rightarrow> source_revision \<Rightarrow> byte list \<Rightarrow> nat \<Rightarrow>
   (reattachment \<times> annotation_registry) option" where
  "reattach_one g i f rv bytes len =
     map_option (\<lambda>(ann, g1).
       let offset = oa_offset (sa_anchor ann); fin = saturating_add offset len in
       if \<not> (offset \<le> fin \<and> fin \<le> length bytes) then
         let x = \<lparr>oo_annotation = ann, oo_reason = OffsetOutOfBounds, oo_revision = Some rv\<rparr> in
         (Orphaned x, orphan g1 i x)
       else if fnv1a (slice bytes offset fin) = sa_digest ann then
         let anchor = \<lparr>oa_offset = offset, oa_revision = qid_value rv\<rparr>;
             ann' = ann\<lparr>sa_revision := rv, sa_anchor := anchor\<rparr> in
         (Reattached i f rv anchor, g1\<lparr>ar_active := bt_insert i ann' (ar_active g1)\<rparr>)
       else
         let x = \<lparr>oo_annotation = ann, oo_reason = ContentDiverged, oo_revision = Some rv\<rparr> in
         (Orphaned x, orphan g1 i x)) (take_active g i)"

fun reattach_loop ::
  "nat list \<Rightarrow> annotation_registry \<Rightarrow> file_id \<Rightarrow> source_revision \<Rightarrow> byte list \<Rightarrow> nat \<Rightarrow>
   (reattachment list \<times> annotation_registry) option" where
  "reattach_loop [] g f rv bytes len = Some ([], g)"
| "reattach_loop (i # is) g f rv bytes len =
     Option.bind (reattach_one g i f rv bytes len) (\<lambda>(r, g1).
     map_option (\<lambda>(rs, g2). (r # rs, g2)) (reattach_loop is g1 f rv bytes len))"

definition reattach_for_file_modification ::
  "annotation_registry \<Rightarrow> file_id \<Rightarrow> source_revision \<Rightarrow> byte list \<Rightarrow> nat \<Rightarrow>
   (reattachment list \<times> annotation_registry) option" where
  "reattach_for_file_modification g f rv bytes len = reattach_loop (target_ids g f) g f rv bytes len"

fun orphan_loop ::
  "nat list \<Rightarrow> annotation_registry \<Rightarrow> orphan_reason \<Rightarrow> (orphaned_annotation list \<times> annotation_registry) option" where
  "orphan_loop [] g reason = Some ([], g)"
| "orphan_loop (i # is) g reason =
     Option.bind (take_active g i) (\<lambda>(ann, g1).
       let x = \<lparr>oo_annotation = ann, oo_reason = reason, oo_revision = None\<rparr> in
       map_option (\<lambda>(xs, g2). (x # xs, g2)) (orphan_loop is (orphan g1 i x) reason))"

definition handle_path_recycled ::
  "annotation_registry \<Rightarrow> file_id \<Rightarrow> file_id \<Rightarrow> (orphaned_annotation list \<times> annotation_registry) option" where
  "handle_path_recycled g old_file new_file = orphan_loop (target_ids g old_file) g PathRecycledNewIdentity"

definition handle_file_tombstoned ::
  "annotation_registry \<Rightarrow> file_id \<Rightarrow> (orphaned_annotation list \<times> annotation_registry) option" where
  "handle_file_tombstoned g f = orphan_loop (target_ids g f) g FileTombstoned"

definition handle_file_became_special ::
  "annotation_registry \<Rightarrow> file_id \<Rightarrow> (orphaned_annotation list \<times> annotation_registry) option" where
  "handle_file_became_special g f = orphan_loop (target_ids g f) g BecameSpecial"

section \<open>Registries of notes\<close>

definition annotations_ok :: "annotation_registry \<Rightarrow> bool" where
  "annotations_ok g \<longleftrightarrow> bt_ok (ar_active g) \<and> bt_ok (ar_orphaned g) \<and>
     (\<forall>i a. bt_get (ar_active g) i = Some a \<longrightarrow> sa_id a = i) \<and>
     (\<forall>i x. bt_get (ar_orphaned g) i = Some x \<longrightarrow> sa_id (oo_annotation x) = i)"

text \<open>
  The test of a modification: the note's range lies inside the new bytes and has the recorded FNV-1a
  digest. Other bytes may have the same digest; the code does not compare the bytes themselves.
\<close>

definition digest_matches :: "source_annotation \<Rightarrow> byte list \<Rightarrow> nat \<Rightarrow> bool" where
  "digest_matches a bytes len \<longleftrightarrow> oa_offset (sa_anchor a) + len \<le> length bytes \<and>
     fnv1a (slice bytes (oa_offset (sa_anchor a)) (oa_offset (sa_anchor a) + len)) = sa_digest a"

lemma target_ids_ok:
  assumes "annotations_ok g"
  shows "distinct (target_ids g f)" "sorted (target_ids g f)"
    "i \<in> set (target_ids g f) \<longleftrightarrow> (\<exists>a. bt_get (ar_active g) i = Some a \<and> sa_file a = f)"
proof -
  have ok: "bt_ok (ar_active g)" using assms by (simp add: annotations_ok_def)
  have key: "sa_id a = k" if "(k, a) \<in> set (ar_active g)" for k a
    using assms that bt_get_iff [OF ok, of k a] by (auto simp: annotations_ok_def)
  have "target_ids g f = map fst (filter (\<lambda>(k, a). sa_file a = f) (ar_active g))"
    unfolding target_ids_def filter_map map_map o_def
    by (rule map_cong) (use key in \<open>auto simp: split_beta intro!: filter_cong\<close>)
  moreover have "sorted_wrt (<) (map fst (filter (\<lambda>(k, a). sa_file a = f) (ar_active g)))"
    using ok by (simp add: bt_ok_def sorted_wrt_map sorted_wrt_filter)
  ultimately show "distinct (target_ids g f)" "sorted (target_ids g f)"
      "i \<in> set (target_ids g f) \<longleftrightarrow> (\<exists>a. bt_get (ar_active g) i = Some a \<and> sa_file a = f)"
    using bt_get_iff [OF ok] by (auto simp: strict_sorted_iff image_iff)
qed

lemma orphan_loop_ok:
  assumes "annotations_ok g" "distinct is" "\<forall>i\<in>set is. bt_get (ar_active g) i \<noteq> None"
  shows "\<exists>g'. orphan_loop is g reason =
      Some (map (\<lambda>i. \<lparr>oo_annotation = the (bt_get (ar_active g) i), oo_reason = reason, oo_revision = None\<rparr>) is, g') \<and>
    annotations_ok g' \<and>
    bt_get (ar_active g') = (\<lambda>i. if i \<in> set is then None else bt_get (ar_active g) i) \<and>
    bt_get (ar_orphaned g') = (\<lambda>i. if i \<in> set is
      then Some \<lparr>oo_annotation = the (bt_get (ar_active g) i), oo_reason = reason, oo_revision = None\<rparr>
      else bt_get (ar_orphaned g) i)"
  using assms
proof (induction "is" arbitrary: g)
  case Nil
  then show ?case by simp
next
  case (Cons i "is")
  then obtain a where a: "bt_get (ar_active g) i = Some a" by auto
  let ?x = "\<lparr>oo_annotation = a, oo_reason = reason, oo_revision = None\<rparr>"
  let ?g1 = "orphan (g\<lparr>ar_active := bt_remove i (ar_active g)\<rparr>) i ?x"
  have g: "bt_ok (ar_active g)" "bt_ok (ar_orphaned g)" "sa_id a = i"
    using Cons.prems(1) a by (auto simp: annotations_ok_def)
  have get: "bt_get (ar_active ?g1) = (bt_get (ar_active g))(i := None)"
      "bt_get (ar_orphaned ?g1) = (bt_get (ar_orphaned g))(i \<mapsto> ?x)"
    using g by (simp_all add: orphan_def)
  have "annotations_ok ?g1"
    using Cons.prems(1) g unfolding annotations_ok_def get by (auto simp: orphan_def)
  moreover have "\<forall>j\<in>set is. bt_get (ar_active ?g1) j \<noteq> None" unfolding get using Cons.prems(2,3) by auto
  ultimately obtain g' where g':
    "orphan_loop is ?g1 reason = Some (map (\<lambda>j. \<lparr>oo_annotation = the (bt_get (ar_active ?g1) j), oo_reason = reason, oo_revision = None\<rparr>) is, g')"
    "annotations_ok g'" "bt_get (ar_active g') = (\<lambda>j. if j \<in> set is then None else bt_get (ar_active ?g1) j)"
    "bt_get (ar_orphaned g') = (\<lambda>j. if j \<in> set is
      then Some \<lparr>oo_annotation = the (bt_get (ar_active ?g1) j), oo_reason = reason, oo_revision = None\<rparr>
      else bt_get (ar_orphaned ?g1) j)"
    using Cons.IH [of ?g1] Cons.prems(2) by auto
  moreover have "map (\<lambda>j. \<lparr>oo_annotation = the (bt_get (ar_active ?g1) j), oo_reason = reason, oo_revision = None\<rparr>) is =
      map (\<lambda>j. \<lparr>oo_annotation = the (bt_get (ar_active g) j), oo_reason = reason, oo_revision = None\<rparr>) is"
    unfolding get using Cons.prems(2) by auto
  ultimately show ?case
    using a Cons.prems(2) unfolding get by (auto simp: take_active_def Let_def fun_eq_iff)
qed

definition reattached :: "source_annotation \<Rightarrow> source_revision \<Rightarrow> source_annotation" where
  "reattached a rv = a\<lparr>sa_revision := rv, sa_anchor := \<lparr>oa_offset = oa_offset (sa_anchor a), oa_revision = qid_value rv\<rparr>\<rparr>"

definition diverged :: "source_annotation \<Rightarrow> source_revision \<Rightarrow> byte list \<Rightarrow> nat \<Rightarrow> orphaned_annotation" where
  "diverged a rv bytes len = \<lparr>oo_annotation = a,
     oo_reason = (if oa_offset (sa_anchor a) + len \<le> length bytes then ContentDiverged else OffsetOutOfBounds),
     oo_revision = Some rv\<rparr>"

lemma reattach_one_eq:
  assumes a: "bt_get (ar_active g) i = Some a" and g: "annotations_ok g" and "length bytes < u64_max"
  shows "\<exists>g'. reattach_one g i f rv bytes len =
      Some (if digest_matches a bytes len then Reattached i f rv (sa_anchor (reattached a rv))
            else Orphaned (diverged a rv bytes len), g') \<and> annotations_ok g' \<and>
    bt_get (ar_active g') = (bt_get (ar_active g))(i := if digest_matches a bytes len then Some (reattached a rv) else None) \<and>
    bt_get (ar_orphaned g') = (if digest_matches a bytes len then bt_get (ar_orphaned g)
      else (bt_get (ar_orphaned g))(i \<mapsto> diverged a rv bytes len))"
proof -
  let ?o = "oa_offset (sa_anchor a)" and ?fin = "saturating_add (oa_offset (sa_anchor a)) len"
  have ok: "bt_ok (ar_active g)" "bt_ok (ar_orphaned g)" "sa_id a = i"
    using g a by (auto simp: annotations_ok_def)
  have fin: "?fin \<le> length bytes \<longleftrightarrow> ?o + len \<le> length bytes" "?o + len \<le> length bytes \<Longrightarrow> ?fin = ?o + len"
    using assms(3) by (auto simp: saturating_add_def min_def)
  consider "digest_matches a bytes len" | "?o + len \<le> length bytes" "\<not> digest_matches a bytes len" | "\<not> ?o + len \<le> length bytes"
    by blast
  then show ?thesis
  proof cases
    case 1
    then have "reattach_one g i f rv bytes len = Some (Reattached i f rv (sa_anchor (reattached a rv)),
        g\<lparr>ar_active := bt_insert i (reattached a rv) (bt_remove i (ar_active g))\<rparr>)"
      using a fin by (simp add: reattach_one_def take_active_def digest_matches_def reattached_def Let_def)
    with 1 g ok show ?thesis by (auto simp: annotations_ok_def reattached_def)
  next
    case 2
    then have "reattach_one g i f rv bytes len = Some (Orphaned (diverged a rv bytes len),
        orphan (g\<lparr>ar_active := bt_remove i (ar_active g)\<rparr>) i (diverged a rv bytes len))"
      using a fin by (simp add: reattach_one_def take_active_def digest_matches_def diverged_def Let_def)
    with 2 g ok show ?thesis by (auto simp: annotations_ok_def orphan_def diverged_def)
  next
    case 3
    then have "\<not> digest_matches a bytes len" by (simp add: digest_matches_def)
    moreover have "reattach_one g i f rv bytes len = Some (Orphaned (diverged a rv bytes len),
        orphan (g\<lparr>ar_active := bt_remove i (ar_active g)\<rparr>) i (diverged a rv bytes len))"
      using 3 a fin by (simp add: reattach_one_def take_active_def diverged_def Let_def)
    ultimately show ?thesis using g ok by (auto simp: annotations_ok_def orphan_def diverged_def)
  qed
qed

lemma reattach_loop_ok:
  assumes "annotations_ok g" "distinct is" "\<forall>i\<in>set is. bt_get (ar_active g) i \<noteq> None" "length bytes < u64_max"
  shows "\<exists>g'. reattach_loop is g f rv bytes len =
      Some (map (\<lambda>i. let a = the (bt_get (ar_active g) i) in
        if digest_matches a bytes len then Reattached i f rv (sa_anchor (reattached a rv))
        else Orphaned (diverged a rv bytes len)) is, g') \<and> annotations_ok g' \<and>
    bt_get (ar_active g') = (\<lambda>i. if i \<in> set is
      then let a = the (bt_get (ar_active g) i) in if digest_matches a bytes len then Some (reattached a rv) else None
      else bt_get (ar_active g) i) \<and>
    bt_get (ar_orphaned g') = (\<lambda>i. if i \<in> set is \<and> \<not> digest_matches (the (bt_get (ar_active g) i)) bytes len
      then Some (diverged (the (bt_get (ar_active g) i)) rv bytes len) else bt_get (ar_orphaned g) i)"
  using assms
proof (induction "is" arbitrary: g)
  case Nil
  then show ?case by simp
next
  case (Cons i "is")
  then obtain a where a: "bt_get (ar_active g) i = Some a" by auto
  from reattach_one_eq [OF a Cons.prems(1,4), of f rv len] obtain g1 where g1:
    "reattach_one g i f rv bytes len =
      Some (if digest_matches a bytes len then Reattached i f rv (sa_anchor (reattached a rv))
            else Orphaned (diverged a rv bytes len), g1)" "annotations_ok g1"
    "bt_get (ar_active g1) = (bt_get (ar_active g))(i := if digest_matches a bytes len then Some (reattached a rv) else None)"
    "bt_get (ar_orphaned g1) = (if digest_matches a bytes len then bt_get (ar_orphaned g)
      else (bt_get (ar_orphaned g))(i \<mapsto> diverged a rv bytes len))" by blast
  have same: "bt_get (ar_active g1) j = bt_get (ar_active g) j" if "j \<in> set is" for j
    using that Cons.prems(2) g1(3) by auto
  have "\<forall>j\<in>set is. bt_get (ar_active g1) j \<noteq> None" using Cons.prems(3) same by simp
  from Cons.IH [OF g1(2) _ this Cons.prems(4)] Cons.prems(2) obtain g' where g':
    "reattach_loop is g1 f rv bytes len =
      Some (map (\<lambda>i. let a = the (bt_get (ar_active g1) i) in
        if digest_matches a bytes len then Reattached i f rv (sa_anchor (reattached a rv))
        else Orphaned (diverged a rv bytes len)) is, g')" "annotations_ok g'"
    "bt_get (ar_active g') = (\<lambda>i. if i \<in> set is
      then let a = the (bt_get (ar_active g1) i) in if digest_matches a bytes len then Some (reattached a rv) else None
      else bt_get (ar_active g1) i)"
    "bt_get (ar_orphaned g') = (\<lambda>i. if i \<in> set is \<and> \<not> digest_matches (the (bt_get (ar_active g1) i)) bytes len
      then Some (diverged (the (bt_get (ar_active g1) i)) rv bytes len) else bt_get (ar_orphaned g1) i)" by auto
  have "map (\<lambda>i. let a = the (bt_get (ar_active g1) i) in
        if digest_matches a bytes len then Reattached i f rv (sa_anchor (reattached a rv))
        else Orphaned (diverged a rv bytes len)) is =
      map (\<lambda>i. let a = the (bt_get (ar_active g) i) in
        if digest_matches a bytes len then Reattached i f rv (sa_anchor (reattached a rv))
        else Orphaned (diverged a rv bytes len)) is"
    using same by auto
  moreover have "bt_get (ar_active g') = (\<lambda>j. if j \<in> set (i # is)
      then let a = the (bt_get (ar_active g) j) in if digest_matches a bytes len then Some (reattached a rv) else None
      else bt_get (ar_active g) j)"
    unfolding g'(3)
  proof (rule ext)
    fix j
    show "(if j \<in> set is
      then let a = the (bt_get (ar_active g1) j) in if digest_matches a bytes len then Some (reattached a rv) else None
      else bt_get (ar_active g1) j) = (if j \<in> set (i # is)
      then let a = the (bt_get (ar_active g) j) in if digest_matches a bytes len then Some (reattached a rv) else None
      else bt_get (ar_active g) j)"
      using same [of j] g1(3) a Cons.prems(2) by (cases "j \<in> set is"; cases "j = i") (auto simp: Let_def)
  qed
  moreover have "bt_get (ar_orphaned g') = (\<lambda>j. if j \<in> set (i # is) \<and> \<not> digest_matches (the (bt_get (ar_active g) j)) bytes len
      then Some (diverged (the (bt_get (ar_active g) j)) rv bytes len) else bt_get (ar_orphaned g) j)"
    unfolding g'(4)
  proof (rule ext)
    fix j
    show "(if j \<in> set is \<and> \<not> digest_matches (the (bt_get (ar_active g1) j)) bytes len
      then Some (diverged (the (bt_get (ar_active g1) j)) rv bytes len) else bt_get (ar_orphaned g1) j) =
      (if j \<in> set (i # is) \<and> \<not> digest_matches (the (bt_get (ar_active g) j)) bytes len
      then Some (diverged (the (bt_get (ar_active g) j)) rv bytes len) else bt_get (ar_orphaned g) j)"
      using same [of j] g1(4) a Cons.prems(2) by (cases "j \<in> set is"; cases "j = i") auto
  qed
  ultimately show ?case using g1(1) g'(1,2) a by (simp add: Let_def)
qed

section \<open>Runs\<close>

datatype note_op =
    AddNote source_annotation
  | FileModified file_id source_revision "byte list" nat
  | PathRecycled file_id file_id
  | TombstonedFile file_id
  | SpecialFile file_id

fun note_step :: "annotation_registry \<Rightarrow> note_op \<Rightarrow> annotation_registry option" where
  "note_step g (AddNote a) = Some (add_annotation g a)"
| "note_step g (FileModified f rv bytes len) = map_option snd (reattach_for_file_modification g f rv bytes len)"
| "note_step g (PathRecycled old new) = map_option snd (handle_path_recycled g old new)"
| "note_step g (TombstonedFile f) = map_option snd (handle_file_tombstoned g f)"
| "note_step g (SpecialFile f) = map_option snd (handle_file_became_special g f)"

fun note_run :: "note_op list \<Rightarrow> annotation_registry \<Rightarrow> annotation_registry option" where
  "note_run [] g = Some g"
| "note_run (op # ops) g = Option.bind (note_step g op) (note_run ops)"

text \<open>No byte slice is as long as \<open>u64::MAX\<close>.\<close>

fun op_ok :: "note_op \<Rightarrow> bool" where
  "op_ok (FileModified f rv bytes len) = (length bytes < u64_max)"
| "op_ok _ = True"

text \<open>The evidence of a note: everything but the revision it is attached to.\<close>

definition evidence_of :: "source_annotation \<Rightarrow> nat \<times> file_id \<times> nat \<times> 64 word \<times> uchar list" where
  "evidence_of a = (sa_id a, sa_file a, oa_offset (sa_anchor a), sa_digest a, sa_text a)"

definition kept :: "source_annotation set \<Rightarrow> annotation_registry \<Rightarrow> bool" where
  "kept added g \<longleftrightarrow> annotations_ok g \<and>
     (\<forall>a\<in>added. bt_get (ar_active g) (sa_id a) \<noteq> None \<or> bt_get (ar_orphaned g) (sa_id a) \<noteq> None) \<and>
     (\<forall>i a. bt_get (ar_active g) i = Some a \<longrightarrow> evidence_of a \<in> evidence_of ` added) \<and>
     (\<forall>i x. bt_get (ar_orphaned g) i = Some x \<longrightarrow> evidence_of (oo_annotation x) \<in> evidence_of ` added)"

lemma orphan_target_ok:
  assumes "annotations_ok g"
  shows "\<exists>xs g'. orphan_loop (target_ids g f) g reason = Some (xs, g') \<and> annotations_ok g' \<and>
    bt_get (ar_active g') = (\<lambda>i. if \<exists>a. bt_get (ar_active g) i = Some a \<and> sa_file a = f then None else bt_get (ar_active g) i) \<and>
    bt_get (ar_orphaned g') = (\<lambda>i. case bt_get (ar_active g) i of
      Some a \<Rightarrow> if sa_file a = f then Some \<lparr>oo_annotation = a, oo_reason = reason, oo_revision = None\<rparr>
        else bt_get (ar_orphaned g) i
    | None \<Rightarrow> bt_get (ar_orphaned g) i)"
proof -
  note t = target_ids_ok [OF assms, where f = f]
  have "\<forall>i\<in>set (target_ids g f). bt_get (ar_active g) i \<noteq> None" using t(3) by auto
  from orphan_loop_ok [OF assms t(1) this, of reason] show ?thesis
    by (fastforce simp: t(3) fun_eq_iff split: option.split)
qed

lemma kept_orphan:
  assumes "kept added g"
  shows "\<exists>xs g'. orphan_loop (target_ids g f) g reason = Some (xs, g') \<and> kept added g'"
proof -
  obtain xs g' where g': "orphan_loop (target_ids g f) g reason = Some (xs, g')" "annotations_ok g'"
    "bt_get (ar_active g') = (\<lambda>i. if \<exists>a. bt_get (ar_active g) i = Some a \<and> sa_file a = f then None else bt_get (ar_active g) i)"
    "bt_get (ar_orphaned g') = (\<lambda>i. case bt_get (ar_active g) i of
      Some a \<Rightarrow> if sa_file a = f then Some \<lparr>oo_annotation = a, oo_reason = reason, oo_revision = None\<rparr>
        else bt_get (ar_orphaned g) i
    | None \<Rightarrow> bt_get (ar_orphaned g) i)"
    using orphan_target_ok [of g f reason] assms by (auto simp: kept_def)
  have "kept added g'"
    using assms g'(2) unfolding kept_def g'(3,4) by (auto split: option.splits if_splits)
  with g'(1) show ?thesis by blast
qed

lemma reattach_target_ok:
  assumes "annotations_ok g" "length bytes < u64_max"
  shows "\<exists>rs g'. reattach_for_file_modification g f rv bytes len = Some (rs, g') \<and> annotations_ok g' \<and>
    rs = map (\<lambda>i. let a = the (bt_get (ar_active g) i) in
        if digest_matches a bytes len then Reattached i f rv (sa_anchor (reattached a rv))
        else Orphaned (diverged a rv bytes len)) (target_ids g f) \<and>
    (\<forall>i. bt_get (ar_active g') i = (case bt_get (ar_active g) i of
      Some a \<Rightarrow> if sa_file a \<noteq> f then Some a else if digest_matches a bytes len then Some (reattached a rv) else None
    | None \<Rightarrow> None)) \<and>
    (\<forall>i. bt_get (ar_orphaned g') i = (case bt_get (ar_active g) i of
      Some a \<Rightarrow> if sa_file a = f \<and> \<not> digest_matches a bytes len then Some (diverged a rv bytes len) else bt_get (ar_orphaned g) i
    | None \<Rightarrow> bt_get (ar_orphaned g) i))"
proof -
  note t = target_ids_ok [OF assms(1), where f = f]
  have "\<forall>i\<in>set (target_ids g f). bt_get (ar_active g) i \<noteq> None" using t(3) by auto
  from reattach_loop_ok [OF assms(1) t(1) this assms(2), of f rv len] obtain g' where
    g': "reattach_for_file_modification g f rv bytes len =
      Some (map (\<lambda>i. let a = the (bt_get (ar_active g) i) in
        if digest_matches a bytes len then Reattached i f rv (sa_anchor (reattached a rv))
        else Orphaned (diverged a rv bytes len)) (target_ids g f), g')" "annotations_ok g'"
    "bt_get (ar_active g') = (\<lambda>i. if i \<in> set (target_ids g f)
      then let a = the (bt_get (ar_active g) i) in if digest_matches a bytes len then Some (reattached a rv) else None
      else bt_get (ar_active g) i)"
    "bt_get (ar_orphaned g') = (\<lambda>i. if i \<in> set (target_ids g f) \<and> \<not> digest_matches (the (bt_get (ar_active g) i)) bytes len
      then Some (diverged (the (bt_get (ar_active g) i)) rv bytes len) else bt_get (ar_orphaned g) i)"
    unfolding reattach_for_file_modification_def by blast
  have "\<forall>i. bt_get (ar_active g') i = (case bt_get (ar_active g) i of
      Some a \<Rightarrow> if sa_file a \<noteq> f then Some a else if digest_matches a bytes len then Some (reattached a rv) else None
    | None \<Rightarrow> None)"
    unfolding g'(3) by (auto simp: t(3) Let_def split: option.split)
  moreover have "\<forall>i. bt_get (ar_orphaned g') i = (case bt_get (ar_active g) i of
      Some a \<Rightarrow> if sa_file a = f \<and> \<not> digest_matches a bytes len then Some (diverged a rv bytes len) else bt_get (ar_orphaned g) i
    | None \<Rightarrow> bt_get (ar_orphaned g) i)"
    unfolding g'(4) by (auto simp: t(3) split: option.split)
  ultimately show ?thesis using g'(1,2) by blast
qed

lemma kept_step:
  assumes "kept added g" "op_ok op"
  shows "\<exists>g'. note_step g op = Some g' \<and> kept (case op of AddNote a \<Rightarrow> insert a added | _ \<Rightarrow> added) g'"
proof (cases op)
  case (AddNote a)
  have g: "annotations_ok g" "bt_ok (ar_active g)" using assms(1) by (auto simp: kept_def annotations_ok_def)
  then have get: "bt_get (ar_active (add_annotation g a)) = (bt_get (ar_active g))(sa_id a \<mapsto> a)"
      "ar_orphaned (add_annotation g a) = ar_orphaned g" "annotations_ok (add_annotation g a)"
    by (auto simp: add_annotation_def annotations_ok_def)
  have "kept (insert a added) (add_annotation g a)"
    using assms(1) get(3) unfolding kept_def get(1,2) by (auto split: if_splits)
  then show ?thesis using AddNote by simp
next
  case (FileModified f rv bytes len)
  have g: "annotations_ok g" "length bytes < u64_max" using assms FileModified by (auto simp: kept_def)
  from reattach_target_ok [OF g, of f rv len] obtain rs g' where
    g': "reattach_for_file_modification g f rv bytes len = Some (rs, g')" "annotations_ok g'"
      "\<forall>i. bt_get (ar_active g') i = (case bt_get (ar_active g) i of
        Some a \<Rightarrow> if sa_file a \<noteq> f then Some a else if digest_matches a bytes len then Some (reattached a rv) else None
      | None \<Rightarrow> None)"
      "\<forall>i. bt_get (ar_orphaned g') i = (case bt_get (ar_active g) i of
        Some a \<Rightarrow> if sa_file a = f \<and> \<not> digest_matches a bytes len then Some (diverged a rv bytes len) else bt_get (ar_orphaned g) i
      | None \<Rightarrow> bt_get (ar_orphaned g) i)" by blast
  have "evidence_of (reattached a rv) = evidence_of a" "oo_annotation (diverged a rv bytes len) = a" for a
    by (simp_all add: evidence_of_def reattached_def diverged_def)
  then have "kept added g'"
    using assms(1) g'(2) unfolding kept_def by (auto simp: g'(3,4) split: option.splits if_splits)
  then show ?thesis using FileModified g'(1) by simp
next
  case (PathRecycled old new)
  then show ?thesis using kept_orphan [OF assms(1), of old PathRecycledNewIdentity] by (auto simp: handle_path_recycled_def)
next
  case (TombstonedFile f)
  then show ?thesis using kept_orphan [OF assms(1), of f FileTombstoned] by (auto simp: handle_file_tombstoned_def)
next
  case (SpecialFile f)
  then show ?thesis using kept_orphan [OF assms(1), of f BecameSpecial] by (auto simp: handle_file_became_special_def)
qed

lemma kept_run:
  assumes "kept added g" "\<forall>op\<in>set ops. op_ok op"
  shows "\<exists>g'. note_run ops g = Some g' \<and> kept (added \<union> {a. AddNote a \<in> set ops}) g'"
  using assms
proof (induction ops arbitrary: added g)
  case (Cons op ops)
  from kept_step [OF Cons.prems(1), of op] Cons.prems(2) obtain g1 where
    g1: "note_step g op = Some g1" "kept (case op of AddNote a \<Rightarrow> insert a added | _ \<Rightarrow> added) g1" by auto
  have "(case op of AddNote a \<Rightarrow> insert a added | _ \<Rightarrow> added) \<union> {a. AddNote a \<in> set ops} =
      added \<union> {a. AddNote a \<in> set (op # ops)}" by (cases op) auto
  with Cons.IH [OF g1(2)] Cons.prems(2) g1(1) show ?case by auto
qed simp

lemma kept_new: "kept {} annotations_new"
  by (simp add: kept_def annotations_new_def annotations_ok_def)

text \<open>
  Notes whose identifiers the caller keeps distinct: no identifier is active and orphaned at once, so each
  note added is the one found under its identifier.
\<close>

fun added_ids :: "note_op list \<Rightarrow> nat list" where
  "added_ids [] = []"
| "added_ids (AddNote a # ops) = sa_id a # added_ids ops"
| "added_ids (_ # ops) = added_ids ops"

definition single :: "source_annotation set \<Rightarrow> annotation_registry \<Rightarrow> bool" where
  "single added g \<longleftrightarrow> kept added g \<and> inj_on sa_id added \<and>
     (\<forall>i. bt_get (ar_active g) i = None \<or> bt_get (ar_orphaned g) i = None)"

lemma orphan_moves:
  assumes "annotations_ok g" "\<forall>i. bt_get (ar_active g) i = None \<or> bt_get (ar_orphaned g) i = None"
    and "orphan_loop (target_ids g f) g reason = Some (xs, g')"
  shows "\<forall>i. bt_get (ar_active g') i = None \<or> bt_get (ar_orphaned g') i = None"
proof
  fix i
  from orphan_target_ok [OF assms(1), of f reason] assms(3) have
    "bt_get (ar_active g') i = (if \<exists>a. bt_get (ar_active g) i = Some a \<and> sa_file a = f then None else bt_get (ar_active g) i)"
    "bt_get (ar_orphaned g') i = (case bt_get (ar_active g) i of
      Some a \<Rightarrow> if sa_file a = f then Some \<lparr>oo_annotation = a, oo_reason = reason, oo_revision = None\<rparr>
        else bt_get (ar_orphaned g) i
    | None \<Rightarrow> bt_get (ar_orphaned g) i)" by auto
  with spec [OF assms(2), of i] show "bt_get (ar_active g') i = None \<or> bt_get (ar_orphaned g') i = None"
    by (cases "bt_get (ar_active g) i") auto
qed

lemma single_step:
  assumes "single added g" "op_ok op" "note_step g op = Some g'"
    and fresh: "\<And>a. op = AddNote a \<Longrightarrow> sa_id a \<notin> sa_id ` added"
  shows "single (case op of AddNote a \<Rightarrow> insert a added | _ \<Rightarrow> added) g'"
proof -
  have g: "kept added g" "annotations_ok g" "\<forall>i. bt_get (ar_active g) i = None \<or> bt_get (ar_orphaned g) i = None"
    "inj_on sa_id added"
    using assms(1) by (auto simp: single_def kept_def)
  have kept: "kept (case op of AddNote a \<Rightarrow> insert a added | _ \<Rightarrow> added) g'"
    using kept_step [OF g(1) assms(2)] assms(3) by simp
  have "\<forall>i. bt_get (ar_active g') i = None \<or> bt_get (ar_orphaned g') i = None"
  proof (cases op)
    case (AddNote a)
    have "bt_get (ar_orphaned g) (sa_id a) = None"
    proof (rule ccontr)
      assume "bt_get (ar_orphaned g) (sa_id a) \<noteq> None"
      then obtain x where x: "bt_get (ar_orphaned g) (sa_id a) = Some x" by auto
      then have "sa_id (oo_annotation x) = sa_id a" "evidence_of (oo_annotation x) \<in> evidence_of ` added"
        using g(1,2) by (auto simp: kept_def annotations_ok_def)
      then have "sa_id a \<in> sa_id ` added" by (auto simp: evidence_of_def)
      with fresh [OF AddNote] show False by simp
    qed
    moreover have "bt_get (ar_active g') = (bt_get (ar_active g))(sa_id a \<mapsto> a)" "ar_orphaned g' = ar_orphaned g"
      using AddNote assms(3) g(2) by (auto simp: add_annotation_def annotations_ok_def)
    ultimately show ?thesis using g(3) by auto
  next
    case (FileModified f rv bytes len)
    with assms(2) have "length bytes < u64_max" by simp
    note r = reattach_target_ok [OF g(2) this, of f rv len]
    show ?thesis
    proof
      fix i
      from r FileModified assms(3) have
        "bt_get (ar_active g') i = (case bt_get (ar_active g) i of
          Some a \<Rightarrow> if sa_file a \<noteq> f then Some a else if digest_matches a bytes len then Some (reattached a rv) else None
        | None \<Rightarrow> None)"
        "bt_get (ar_orphaned g') i = (case bt_get (ar_active g) i of
          Some a \<Rightarrow> if sa_file a = f \<and> \<not> digest_matches a bytes len then Some (diverged a rv bytes len) else bt_get (ar_orphaned g) i
        | None \<Rightarrow> bt_get (ar_orphaned g) i)" by auto
      with spec [OF g(3), of i] show "bt_get (ar_active g') i = None \<or> bt_get (ar_orphaned g') i = None"
        by (cases "bt_get (ar_active g) i") auto
    qed
  next
    case (PathRecycled old new)
    with assms(3) obtain xs where "orphan_loop (target_ids g old) g PathRecycledNewIdentity = Some (xs, g')"
      by (auto simp: handle_path_recycled_def)
    then show ?thesis by (rule orphan_moves [OF g(2,3)])
  next
    case (TombstonedFile f)
    with assms(3) obtain xs where "orphan_loop (target_ids g f) g FileTombstoned = Some (xs, g')"
      by (auto simp: handle_file_tombstoned_def)
    then show ?thesis by (rule orphan_moves [OF g(2,3)])
  next
    case (SpecialFile f)
    with assms(3) obtain xs where "orphan_loop (target_ids g f) g BecameSpecial = Some (xs, g')"
      by (auto simp: handle_file_became_special_def)
    then show ?thesis by (rule orphan_moves [OF g(2,3)])
  qed
  with kept g(4) fresh show ?thesis by (auto simp: single_def inj_on_insert split: note_op.split)
qed

lemma single_run:
  assumes "single added g" "\<forall>op\<in>set ops. op_ok op" "distinct (added_ids ops)" "set (added_ids ops) \<inter> sa_id ` added = {}"
    and "note_run ops g = Some g'"
  shows "single (added \<union> {a. AddNote a \<in> set ops}) g'"
  using assms
proof (induction ops arbitrary: added g)
  case (Cons op ops)
  obtain g1 where g1: "note_step g op = Some g1" "note_run ops g1 = Some g'"
    using Cons.prems(5) by (auto simp: bind_eq_Some_conv)
  let ?added = "case op of AddNote a \<Rightarrow> insert a added | _ \<Rightarrow> added"
  have "single ?added g1"
    using Cons.prems by (intro single_step [OF Cons.prems(1) _ g1(1)]) auto
  moreover have "distinct (added_ids ops)" "set (added_ids ops) \<inter> sa_id ` ?added = {}"
    using Cons.prems(3,4) by (cases op; auto)+
  moreover have "?added \<union> {a. AddNote a \<in> set ops} = added \<union> {a. AddNote a \<in> set (op # ops)}" by (cases op) auto
  ultimately show ?case using Cons.IH [of ?added g1] Cons.prems(2) g1(2) by simp
qed simp

text \<open>
  C20: No note is lost and none changes, as long as the caller gives each note an identifier of its own
  (a second note under an identifier in use takes its place). Whatever notes are added and whatever
  happens to their files, no operation panics; afterwards each note added is active, or else kept as an
  orphan, under its identifier, never both, with its file, byte offset, recorded digest and text as they
  were added; and the registry holds nothing else.
\<close>

theorem notes_never_lost:
  assumes "\<forall>op\<in>set ops. op_ok op" and "distinct (added_ids ops)"
  shows "\<exists>g. note_run ops annotations_new = Some g \<and>
    (\<forall>a. AddNote a \<in> set ops \<longrightarrow> (case bt_get (ar_active g) (sa_id a) of
       Some b \<Rightarrow> evidence_of b = evidence_of a \<and> bt_get (ar_orphaned g) (sa_id a) = None
     | None \<Rightarrow> \<exists>x. bt_get (ar_orphaned g) (sa_id a) = Some x \<and> evidence_of (oo_annotation x) = evidence_of a)) \<and>
    (\<forall>i. bt_get (ar_active g) i \<noteq> None \<or> bt_get (ar_orphaned g) i \<noteq> None \<longleftrightarrow> (\<exists>a. AddNote a \<in> set ops \<and> sa_id a = i))"
proof -
  obtain g where g: "note_run ops annotations_new = Some g" using kept_run [OF kept_new assms(1)] by auto
  have "single {} annotations_new" using kept_new by (simp add: single_def annotations_new_def)
  from single_run [OF this assms _ g] have s: "single {a. AddNote a \<in> set ops} g" by simp
  let ?added = "{a. AddNote a \<in> set ops}"
  have uniq: "evidence_of b = evidence_of a"
    if b: "evidence_of b \<in> evidence_of ` ?added" and a: "AddNote a \<in> set ops" "sa_id b = sa_id a" for a b
  proof -
    obtain c where c: "AddNote c \<in> set ops" "evidence_of b = evidence_of c" using b by auto
    then have "sa_id c = sa_id a" using a(2) by (simp add: evidence_of_def)
    then have "c = a" using s c(1) a(1) by (auto simp: single_def dest: inj_onD)
    with c(2) show ?thesis by simp
  qed
  have k: "annotations_ok g" "\<And>a. AddNote a \<in> set ops \<Longrightarrow> bt_get (ar_active g) (sa_id a) \<noteq> None \<or> bt_get (ar_orphaned g) (sa_id a) \<noteq> None"
    "\<And>i a. bt_get (ar_active g) i = Some a \<Longrightarrow> sa_id a = i \<and> evidence_of a \<in> evidence_of ` ?added"
    "\<And>i x. bt_get (ar_orphaned g) i = Some x \<Longrightarrow> sa_id (oo_annotation x) = i \<and> evidence_of (oo_annotation x) \<in> evidence_of ` ?added"
    "\<And>i. bt_get (ar_active g) i = None \<or> bt_get (ar_orphaned g) i = None"
    using s by (auto simp: single_def kept_def annotations_ok_def)
  have each: "case bt_get (ar_active g) (sa_id a) of
       Some b \<Rightarrow> evidence_of b = evidence_of a \<and> bt_get (ar_orphaned g) (sa_id a) = None
     | None \<Rightarrow> \<exists>x. bt_get (ar_orphaned g) (sa_id a) = Some x \<and> evidence_of (oo_annotation x) = evidence_of a"
    if a: "AddNote a \<in> set ops" for a
  proof (cases "bt_get (ar_active g) (sa_id a)")
    case None
    then obtain x where x: "bt_get (ar_orphaned g) (sa_id a) = Some x" using k(2) [OF a] by auto
    with None uniq [OF _ a, of "oo_annotation x"] k(4) [OF x] show ?thesis by simp
  next
    case (Some b)
    with uniq [OF _ a, of b] k(3) [OF Some] k(5) [of "sa_id a"] show ?thesis by simp
  qed
  have "\<exists>a. AddNote a \<in> set ops \<and> sa_id a = i" if "sa_id b = i" "evidence_of b \<in> evidence_of ` ?added" for b i
    using that by (auto simp: evidence_of_def)
  then have "bt_get (ar_active g) i \<noteq> None \<or> bt_get (ar_orphaned g) i \<noteq> None \<longleftrightarrow> (\<exists>a. AddNote a \<in> set ops \<and> sa_id a = i)" for i
    using k(2-4) by blast
  with each g show ?thesis by blast
qed

definition ex_note :: source_annotation where
  "ex_note = \<lparr>sa_id = 7, sa_file = QId (ArenaOwnerId 1) 1, sa_revision = QId (ArenaOwnerId 1) 1,
     sa_anchor = \<lparr>oa_offset = 1, oa_revision = 1\<rparr>, sa_digest = fnv1a [98, 99], sa_text = [104]\<rparr>"

theorem notes_never_lost_witness:
  "\<exists>g. note_run [AddNote ex_note, FileModified (QId (ArenaOwnerId 1) 1) (QId (ArenaOwnerId 1) 2) [97, 98, 99] 2,
       TombstonedFile (QId (ArenaOwnerId 1) 1)] annotations_new = Some g \<and>
     (bt_get (ar_active g) 7 \<noteq> None \<or> bt_get (ar_orphaned g) 7 \<noteq> None)"
proof -
  have id: "sa_id ex_note = 7" by (simp add: ex_note_def)
  have "\<forall>op\<in>set [AddNote ex_note, FileModified (QId (ArenaOwnerId 1) 1) (QId (ArenaOwnerId 1) 2) [97, 98, 99] 2,
       TombstonedFile (QId (ArenaOwnerId 1) 1)]. op_ok op" by (simp add: u64_max_val)
  moreover have "distinct (added_ids [AddNote ex_note, FileModified (QId (ArenaOwnerId 1) 1) (QId (ArenaOwnerId 1) 2) [97, 98, 99] 2,
       TombstonedFile (QId (ArenaOwnerId 1) 1)])" by simp
  ultimately obtain g where g:
    "note_run [AddNote ex_note, FileModified (QId (ArenaOwnerId 1) 1) (QId (ArenaOwnerId 1) 2) [97, 98, 99] 2,
       TombstonedFile (QId (ArenaOwnerId 1) 1)] annotations_new = Some g"
    "\<forall>i. bt_get (ar_active g) i \<noteq> None \<or> bt_get (ar_orphaned g) i \<noteq> None \<longleftrightarrow>
      (\<exists>a. AddNote a \<in> set [AddNote ex_note, FileModified (QId (ArenaOwnerId 1) 1) (QId (ArenaOwnerId 1) 2) [97, 98, 99] 2,
       TombstonedFile (QId (ArenaOwnerId 1) 1)] \<and> sa_id a = i)" using notes_never_lost by blast
  from spec [OF g(2), of 7] id have "bt_get (ar_active g) 7 \<noteq> None \<or> bt_get (ar_orphaned g) 7 \<noteq> None" by auto
  with g(1) show ?thesis by blast
qed

text \<open>
  C13: A modification decides each active note of its file by the recorded digest. In any reachable
  registry it answers for these notes in identifier order: one whose range lies inside the new bytes and
  has the recorded FNV-1a digest moves to the new revision at the same offset; any other becomes an orphan
  with its note unchanged and the reason, out of bounds or diverged, in place of any orphan that was kept
  under the same identifier. Active notes of other files are not touched, and neither are the orphans
  under all other identifiers.
\<close>

theorem reattachment_exact:
  assumes "\<forall>op\<in>set ops. op_ok op" "note_run ops annotations_new = Some g" "length bytes < u64_max"
  shows "\<exists>rs g'. reattach_for_file_modification g f rv bytes len = Some (rs, g') \<and>
    rs = map (\<lambda>i. let a = the (bt_get (ar_active g) i) in
        if digest_matches a bytes len then Reattached i f rv (sa_anchor (reattached a rv))
        else Orphaned (diverged a rv bytes len)) (target_ids g f) \<and>
    sorted (target_ids g f) \<and> distinct (target_ids g f) \<and>
    set (target_ids g f) = {i. \<exists>a. bt_get (ar_active g) i = Some a \<and> sa_file a = f} \<and>
    (\<forall>i. bt_get (ar_active g') i = (case bt_get (ar_active g) i of
      Some a \<Rightarrow> if sa_file a \<noteq> f then Some a else if digest_matches a bytes len then Some (reattached a rv) else None
    | None \<Rightarrow> None)) \<and>
    (\<forall>i. bt_get (ar_orphaned g') i = (case bt_get (ar_active g) i of
      Some a \<Rightarrow> if sa_file a = f \<and> \<not> digest_matches a bytes len then Some (diverged a rv bytes len) else bt_get (ar_orphaned g) i
    | None \<Rightarrow> bt_get (ar_orphaned g) i))"
proof -
  have "annotations_ok g" using kept_run [OF kept_new assms(1)] assms(2) by (auto simp: kept_def)
  from reattach_target_ok [OF this assms(3), of f rv len] target_ids_ok [OF this, where f = f] show ?thesis by blast
qed

theorem reattachment_exact_witness:
  "\<exists>g rs g'. note_run [AddNote ex_note] annotations_new = Some g \<and>
     reattach_for_file_modification g (QId (ArenaOwnerId 1) 1) (QId (ArenaOwnerId 1) 2) [97, 98, 99] 2 = Some (rs, g') \<and>
     bt_get (ar_active g') 7 = Some (reattached ex_note (QId (ArenaOwnerId 1) 2))"
proof -
  let ?f = "QId (ArenaOwnerId 1) 1" and ?rv = "QId (ArenaOwnerId 1) 2 :: source_revision"
  have ops: "\<forall>op\<in>set [AddNote ex_note]. op_ok op" by simp
  have run: "note_run [AddNote ex_note] annotations_new = Some \<lparr>ar_active = [(7, ex_note)], ar_orphaned = []\<rparr>"
    by (simp add: annotations_new_def add_annotation_def ex_note_def)
  have len: "length [97, 98, 99 :: byte] < u64_max" by (simp add: u64_max_val)
  have m: "digest_matches ex_note [97, 98, 99] 2" by (simp add: digest_matches_def ex_note_def slice_def)
  have own: "sa_file ex_note = ?f" by (simp add: ex_note_def)
  from reattachment_exact [OF ops run len, of ?f ?rv 2] obtain rs g' where
    r: "reattach_for_file_modification \<lparr>ar_active = [(7, ex_note)], ar_orphaned = []\<rparr> ?f ?rv [97, 98, 99] 2 = Some (rs, g')"
      "\<forall>i. bt_get (ar_active g') i = (case bt_get [(7, ex_note)] i of
        Some a \<Rightarrow> if sa_file a \<noteq> ?f then Some a else if digest_matches a [97, 98, 99] 2 then Some (reattached a ?rv) else None
      | None \<Rightarrow> None)" by auto
  from r(2) [rule_format, of 7] have "bt_get (ar_active g') 7 = Some (reattached ex_note ?rv)" using m own by simp
  with run r(1) show ?thesis by blast
qed

end
