(* ===== verification/Byte_Search.thy ===== *)
theory Byte_Search
  imports Prelude "HOL-Library.Sublist"
begin

text \<open>
  \<open>crates/fcb-search/src/stream.rs\<close>: the resumable literal matcher \<open>ByteSearchCursor\<close>.

  An indexing expression that could panic is \<open>index_at\<close>, with \<^const>\<open>None\<close> as the panic, and the
  fall-back loop is a partial function, with \<^const>\<open>None\<close> also as not returning. The failure table
  is generic in the letter: the normalized matcher uses the same loop. Allocation failure is not
  modelled.
\<close>

definition index_at :: "'a list \<Rightarrow> nat \<Rightarrow> 'a option" where
  "index_at xs i = (if i < length xs then Some (xs ! i) else None)"

section \<open>The failure table\<close>

text \<open>\<open>while matched > 0 && byte != needle[matched] { matched = failure[matched - 1] }\<close>\<close>

partial_function (option) fall_back :: "'a list \<Rightarrow> nat list \<Rightarrow> 'a \<Rightarrow> nat \<Rightarrow> nat option" where
  "fall_back needle failure b matched =
     (if matched = 0 then Some 0
      else Option.bind (index_at needle matched) (\<lambda>c.
        if b = c then Some matched
        else Option.bind (index_at failure (matched - 1)) (\<lambda>m. fall_back needle failure b m)))"

definition advance_match :: "'a list \<Rightarrow> nat list \<Rightarrow> 'a \<Rightarrow> nat \<Rightarrow> nat option" where
  "advance_match needle failure b matched =
     Option.bind (fall_back needle failure b matched) (\<lambda>m.
     Option.bind (index_at needle m) (\<lambda>c. Some (if b = c then m + 1 else m)))"

text \<open>The loop of \<open>new\<close> over the remaining indices; the table is filled in place.\<close>

fun failure_loop :: "'a list \<Rightarrow> nat list \<Rightarrow> nat \<Rightarrow> nat list \<Rightarrow> nat list option" where
  "failure_loop needle [] pre failure = Some failure"
| "failure_loop needle (i # is) pre failure =
     Option.bind (index_at needle i) (\<lambda>b.
     Option.bind (advance_match needle failure b pre) (\<lambda>p.
     if i < length failure then failure_loop needle is p (failure[i := p]) else None))"

definition failure_table :: "'a list \<Rightarrow> nat list option" where
  "failure_table needle = failure_loop needle [1..<length needle] 0 (replicate (length needle) 0)"

section \<open>The cursor\<close>

definition max_stream_needle_bytes :: nat where "max_stream_needle_bytes = 65536"
definition max_stream_step_bytes :: nat where "max_stream_step_bytes = 65536"
definition max_stream_batch_hits :: nat where "max_stream_batch_hits = 4096"

datatype stream_error = SEmptyNeedle | SNeedleTooLong | SOffsetOverflow

record byte_match =
  bm_id :: nat
  bm_start :: nat
  bm_end :: nat

datatype stream_stop = InputConsumed | ByteBudget | HitBudget | StreamCanceled

record search_batch =
  sb_hits :: "byte_match list"
  sb_consumed :: nat
  sb_stop :: stream_stop

record search_cursor =
  bc_needle :: "byte list"
  bc_failure :: "nat list"
  bc_matched :: nat
  bc_scanned :: nat
  bc_occurrences :: nat
  bc_canceled :: bool

definition cursor_new :: "byte list \<Rightarrow> (stream_error + search_cursor) option" where
  "cursor_new needle =
     (if needle = [] then Some (Inl SEmptyNeedle)
      else if length needle > max_stream_needle_bytes then Some (Inl SNeedleTooLong)
      else map_option (\<lambda>failure. Inr \<lparr>bc_needle = needle, bc_failure = failure, bc_matched = 0,
        bc_scanned = 0, bc_occurrences = 0, bc_canceled = False\<rparr>) (failure_table needle))"

definition cursor_cancel :: "search_cursor \<Rightarrow> search_cursor" where
  "cursor_cancel c = c\<lparr>bc_canceled := True, bc_matched := 0\<rparr>"

definition break_match_continuity :: "search_cursor \<Rightarrow> search_cursor" where
  "break_match_continuity c = c\<lparr>bc_matched := 0\<rparr>"

text \<open>The loop of \<open>step\<close> over the admitted bytes; it returns the hits and how many bytes it consumed.\<close>

fun search_loop :: "nat \<Rightarrow> byte list \<Rightarrow> search_cursor \<Rightarrow> byte_match list \<Rightarrow> nat \<Rightarrow>
    (byte_match list \<times> nat \<times> search_cursor) option" where
  "search_loop hit_limit [] c hits consumed = Some (hits, consumed, c)"
| "search_loop hit_limit (b # bs) c hits consumed =
     Option.bind (advance_match (bc_needle c) (bc_failure c) b (bc_matched c)) (\<lambda>m.
       let c1 = c\<lparr>bc_matched := m, bc_scanned := bc_scanned c + 1\<rparr>; consumed = consumed + 1 in
       if m = length (bc_needle c) then
         Option.bind (checked_sub (bc_scanned c1) (length (bc_needle c))) (\<lambda>start.
         Option.bind (checked_sub m 1) (\<lambda>last.
         Option.bind (index_at (bc_failure c) last) (\<lambda>f.
           let c2 = c1\<lparr>bc_occurrences := bc_occurrences c1 + 1, bc_matched := f\<rparr>;
               hits = hits @ [\<lparr>bm_id = bc_occurrences c2, bm_start = start, bm_end = bc_scanned c2\<rparr>] in
           if length hits = hit_limit then Some (hits, consumed, c2)
           else search_loop hit_limit bs c2 hits consumed)))
       else search_loop hit_limit bs c1 hits consumed)"

definition cursor_step :: "search_cursor \<Rightarrow> byte list \<Rightarrow> nat \<Rightarrow> nat \<Rightarrow>
    ((stream_error + search_batch) \<times> search_cursor) option" where
  "cursor_step c input byte_budget hit_budget =
     (let work = min (min (length input) byte_budget) max_stream_step_bytes;
          hit_limit = min hit_budget max_stream_batch_hits in
      if bc_canceled c then Some (Inr \<lparr>sb_hits = [], sb_consumed = 0, sb_stop = StreamCanceled\<rparr>, c)
      else if input = [] then Some (Inr \<lparr>sb_hits = [], sb_consumed = 0, sb_stop = InputConsumed\<rparr>, c)
      else if hit_limit = 0 then Some (Inr \<lparr>sb_hits = [], sb_consumed = 0, sb_stop = HitBudget\<rparr>, c)
      else if work = 0 then Some (Inr \<lparr>sb_hits = [], sb_consumed = 0, sb_stop = ByteBudget\<rparr>, c)
      else if checked_add (bc_scanned c) work = None then Some (Inl SOffsetOverflow, c)
      else map_option (\<lambda>(hits, consumed, c').
        (Inr \<lparr>sb_hits = hits, sb_consumed = consumed,
              sb_stop = (if consumed = length input then InputConsumed
                         else if length hits = hit_limit then HitBudget else ByteBudget)\<rparr>, c'))
        (search_loop hit_limit (take work input) c [] 0))"

section \<open>Borders\<close>

text \<open>\<open>k\<close> letters of the needle are matched at the end of \<open>xs\<close>.\<close>

definition ends_with :: "'a list \<Rightarrow> 'a list \<Rightarrow> nat \<Rightarrow> bool" where
  "ends_with needle xs k \<longleftrightarrow> k \<le> length needle \<and> suffix (take k needle) xs"

definition longest :: "'a list \<Rightarrow> 'a list \<Rightarrow> nat \<Rightarrow> bool" where
  "longest needle xs k \<longleftrightarrow> ends_with needle xs k \<and> k < length needle \<and>
     (\<forall>j. ends_with needle xs j \<longrightarrow> j < length needle \<longrightarrow> j \<le> k)"

text \<open>The first \<open>n\<close> entries of the table are the longest proper borders of the prefixes.\<close>

definition table_upto :: "'a list \<Rightarrow> nat list \<Rightarrow> nat \<Rightarrow> bool" where
  "table_upto needle failure n \<longleftrightarrow> n \<le> length failure \<and> n \<le> length needle \<and>
     (\<forall>i<n. longest needle (tl (take (Suc i) needle)) (failure ! i))"

lemma ends_with_0 [simp]: "ends_with needle xs 0"
  by (simp add: ends_with_def)

lemma longest_Nil: "needle \<noteq> [] \<Longrightarrow> longest needle [] 0"
  by (auto simp: longest_def ends_with_def)

lemma ends_with_le: "ends_with needle xs k \<Longrightarrow> k \<le> length xs"
  by (auto simp: ends_with_def dest: suffix_length_le)

lemma ends_with_snoc:
  "ends_with needle (xs @ [b]) (Suc k) \<longleftrightarrow> ends_with needle xs k \<and> k < length needle \<and> needle ! k = b"
  by (auto simp: ends_with_def take_Suc_conv_app_nth Suc_le_eq)

text \<open>What is matched below \<open>m\<close> is what is matched inside the first \<open>m\<close> letters without the first one.\<close>

lemma ends_with_border:
  assumes "ends_with needle xs m" "0 < m"
  shows "ends_with needle (tl (take m needle)) j \<longleftrightarrow> ends_with needle xs j \<and> j < m"
proof
  assume j: "ends_with needle (tl (take m needle)) j"
  then have "j < m" using ends_with_le [OF j] assms by (auto simp: ends_with_def)
  moreover have "suffix (tl (take m needle)) (take m needle)" by (simp add: suffix_tl)
  ultimately show "ends_with needle xs j \<and> j < m"
    using j assms unfolding ends_with_def by (meson suffix_order.trans)
next
  assume j: "ends_with needle xs j \<and> j < m"
  then have "suffix (take j needle) (take m needle)"
    using assms suffix_length_suffix [of "take j needle" xs "take m needle"] by (auto simp: ends_with_def)
  then obtain ys where ys: "take m needle = ys @ take j needle" by (auto simp: suffix_def)
  have "ys \<noteq> []" using ys j assms by (auto simp: ends_with_def dest: arg_cong [where f = length])
  then have "tl (take m needle) = tl ys @ take j needle" using ys by (cases ys) auto
  then show "ends_with needle (tl (take m needle)) j" using j by (auto simp: ends_with_def suffix_def)
qed

lemma table_entry:
  assumes "table_upto needle failure m" "0 < m" "ends_with needle xs m"
  shows "index_at failure (m - 1) = Some (failure ! (m - 1))"
    and "failure ! (m - 1) < m" and "ends_with needle xs (failure ! (m - 1))"
    and "\<And>j. ends_with needle xs j \<Longrightarrow> j < m \<Longrightarrow> j \<le> failure ! (m - 1)"
proof -
  obtain n where m: "m = Suc n" using assms(2) by (cases m) auto
  have l: "longest needle (tl (take m needle)) (failure ! n)" "m \<le> length needle" "n < length failure"
    using assms(1) m by (auto simp: table_upto_def)
  show "index_at failure (m - 1) = Some (failure ! (m - 1))" using l(3) m by (simp add: index_at_def)
  note b = ends_with_border [OF assms(3,2)]
  show "failure ! (m - 1) < m" "ends_with needle xs (failure ! (m - 1))"
    using l(1) m b by (auto simp: longest_def)
  show "\<And>j. ends_with needle xs j \<Longrightarrow> j < m \<Longrightarrow> j \<le> failure ! (m - 1)"
    using l(1,2) m b by (auto simp: longest_def)
qed

lemma table_mono: "table_upto needle failure n \<Longrightarrow> m \<le> n \<Longrightarrow> table_upto needle failure m"
  by (auto simp: table_upto_def)

text \<open>The loop ends at the longest match that the byte extends.\<close>

lemma fall_back_ok:
  assumes "table_upto needle failure m" "ends_with needle xs m" "m < length needle"
  shows "\<exists>k\<le>m. fall_back needle failure b m = Some k \<and> ends_with needle xs k \<and>
    (\<forall>j\<le>m. ends_with needle xs j \<and> needle ! j = b \<longrightarrow> j \<le> k) \<and> (k \<noteq> 0 \<longrightarrow> needle ! k = b)"
  using assms
proof (induction m rule: less_induct)
  case (less m)
  show ?case
  proof (cases "m = 0 \<or> needle ! m = b")
    case True
    then have "fall_back needle failure b m = Some m"
      using less.prems(3) fall_back.simps [of needle failure b m] by (cases "m = 0") (simp_all add: index_at_def)
    with True less.prems(2) show ?thesis by (intro exI [of _ m] conjI impI allI) auto
  next
    case False
    let ?f = "failure ! (m - 1)"
    have "0 < m" using False by simp
    note t = table_entry [OF less.prems(1) this less.prems(2)]
    have f: "?f < m" "ends_with needle xs ?f" by (fact t)+
    have "table_upto needle failure ?f" by (rule table_mono [OF less.prems(1)]) (use f(1) in simp)
    moreover have "?f < length needle" using f(1) less.prems(3) by linarith
    ultimately have g: "table_upto needle failure ?f" "?f < length needle" .
    from less.IH [OF f(1) g(1) f(2) g(2)] obtain k where
      k: "k \<le> ?f" "fall_back needle failure b ?f = Some k" "ends_with needle xs k"
        "\<forall>j\<le>?f. ends_with needle xs j \<and> needle ! j = b \<longrightarrow> j \<le> k" "k \<noteq> 0 \<longrightarrow> needle ! k = b" by blast
    have "fall_back needle failure b m = Some k"
      using False less.prems(3) t(1) k(2) by (subst fall_back.simps) (auto simp: index_at_def)
    moreover have "j \<le> k" if "j \<le> m" "ends_with needle xs j" "needle ! j = b" for j
    proof -
      have "j < m" using that False by (cases "j = m") auto
      with t(4) [of j] False that have "j \<le> ?f" by simp
      with k(4) that show ?thesis by blast
    qed
    ultimately show ?thesis using k f by (intro exI [of _ k]) auto
  qed
qed

lemma advance_match_ok:
  assumes "longest needle xs m" "table_upto needle failure m"
  shows "\<exists>k. advance_match needle failure b m = Some k \<and> ends_with needle (xs @ [b]) k \<and>
    (\<forall>j. ends_with needle (xs @ [b]) j \<longrightarrow> j \<le> k)"
proof -
  have m: "ends_with needle xs m" "m < length needle" using assms(1) by (auto simp: longest_def)
  from fall_back_ok [OF assms(2) this, of b] obtain k where
    k: "k \<le> m" "fall_back needle failure b m = Some k" "ends_with needle xs k"
      "\<forall>j\<le>m. ends_with needle xs j \<and> needle ! j = b \<longrightarrow> j \<le> k" "k \<noteq> 0 \<longrightarrow> needle ! k = b" by blast
  have kl: "k < length needle" using k(1) m(2) by simp
  let ?r = "if b = needle ! k then k + 1 else k"
  have "advance_match needle failure b m = Some ?r"
    using k(2) kl by (simp add: advance_match_def index_at_def)
  moreover have "ends_with needle (xs @ [b]) ?r" using k(3,5) kl by (auto simp: ends_with_snoc)
  moreover have "j \<le> ?r" if j: "ends_with needle (xs @ [b]) j" for j
  proof (cases j)
    case (Suc i)
    then have i: "ends_with needle xs i" "i < length needle" "needle ! i = b" using j by (auto simp: ends_with_snoc)
    then have "i \<le> m" using assms(1) by (auto simp: longest_def)
    with k(4) i have "i \<le> k" by blast
    moreover have "needle ! k = b" using k(5) i(3) \<open>i \<le> k\<close> by (cases "k = 0") auto
    ultimately show ?thesis using Suc by auto
  qed simp
  ultimately show ?thesis by blast
qed

section \<open>The table is built\<close>

lemma failure_loop_ok:
  assumes "is = [n..<length needle]" "1 \<le> n" "n \<le> length needle" "table_upto needle failure n"
    and "length failure = length needle" "longest needle (tl (take n needle)) pre"
  shows "\<exists>t. failure_loop needle is pre failure = Some t \<and> table_upto needle t (length needle) \<and>
    length t = length needle"
  using assms
proof (induction "is" arbitrary: n pre failure)
  case Nil
  then have "n = length needle" by (metis le_antisym upt_eq_Nil_conv not_less_eq_eq le_Suc_eq le_0_eq)
  with Nil.prems show ?case by simp
next
  case (Cons i "is")
  then have n: "n < length needle" "i = n" "is = [Suc n..<length needle]"
    using upt_eq_Cons_conv [of n "length needle" i "is"] by auto
  let ?b = "needle ! n"
  have tl: "tl (take (Suc n) needle) = tl (take n needle) @ [?b]"
  proof -
    obtain m where "n = Suc m" using Cons.prems(2) by (cases n) auto
    then show ?thesis using n(1) by (cases needle) (auto simp: take_Suc_conv_app_nth)
  qed
  have "pre \<le> n" using Cons.prems(6) ends_with_le [of needle "tl (take n needle)" pre] by (simp add: longest_def)
  then have "table_upto needle failure pre" using Cons.prems(4) table_mono by blast
  from advance_match_ok [OF Cons.prems(6) this, of ?b] obtain k where
    k: "advance_match needle failure ?b pre = Some k" "ends_with needle (tl (take (Suc n) needle)) k"
      "\<forall>j. ends_with needle (tl (take (Suc n) needle)) j \<longrightarrow> j \<le> k" unfolding tl by blast
  have l: "longest needle (tl (take (Suc n) needle)) k"
    using k(2,3) ends_with_le [OF k(2)] n by (auto simp: longest_def)
  have "table_upto needle (failure[n := k]) (Suc n)"
    using Cons.prems(4,5) n l by (auto simp: table_upto_def nth_list_update less_Suc_eq)
  from Cons.IH [OF n(3) _ _ this _ l] n Cons.prems(5)
  show ?case by (simp add: k(1) index_at_def)
qed

lemma failure_table_ok:
  assumes "needle \<noteq> []"
  shows "\<exists>t. failure_table needle = Some t \<and> table_upto needle t (length needle) \<and> length t = length needle"
proof -
  have l: "longest needle (tl (take (Suc 0) needle)) 0"
    using assms longest_Nil by (cases needle) auto
  then have "table_upto needle (replicate (length needle) 0) 1"
    using assms by (auto simp: table_upto_def Suc_le_eq)
  from failure_loop_ok [OF refl _ _ this _ ] l assms show ?thesis
    by (auto simp: failure_table_def Suc_le_eq)
qed

section \<open>Occurrences\<close>

text \<open>The reference: every window of the text that equals the needle, overlaps included.\<close>

definition occurrences :: "'a list \<Rightarrow> 'a list \<Rightarrow> nat list" where
  "occurrences needle xs = filter (\<lambda>s. take (length needle) (drop s xs) = needle) [0..<length xs]"

lemma suffix_window:
  assumes "length needle \<le> length xs"
  shows "suffix needle xs \<longleftrightarrow> drop (length xs - length needle) xs = needle"
proof
  assume "suffix needle xs"
  then show "drop (length xs - length needle) xs = needle" by (auto simp: suffix_def)
next
  assume "drop (length xs - length needle) xs = needle"
  then show "suffix needle xs" by (metis suffix_drop)
qed

lemma occurrences_snoc:
  assumes "needle \<noteq> []"
  shows "occurrences needle (xs @ [b]) = occurrences needle xs @
    (if suffix needle (xs @ [b]) then [length xs + 1 - length needle] else [])"
proof -
  let ?L = "length needle" and ?n = "length xs" and ?q = "length xs + 1 - length needle"
  let ?P = "\<lambda>s. take (length needle) (drop s (xs @ [b])) = needle"
  have L: "0 < ?L" using assms by simp
  have old: "?P s \<longleftrightarrow> take ?L (drop s xs) = needle" if "s + ?L \<le> ?n" for s
    using that by simp
  have none: "\<not> take ?L (drop s xs) = needle" if "?n < s + ?L" for s
    using that L by (auto dest: arg_cong [where f = length])
  have none': "\<not> ?P s" if "?n + 1 < s + ?L" for s
    using that L by (auto dest!: arg_cong [where f = length])
  show ?thesis
  proof (cases "?L \<le> ?n + 1")
    case False
    then have "\<not> suffix needle (xs @ [b])" by (auto dest: suffix_length_le)
    moreover have "occurrences needle xs = []" "occurrences needle (xs @ [b]) = []"
      using False none none' by (auto simp: occurrences_def filter_empty_conv)
    ultimately show ?thesis by simp
  next
    case True
    then have q: "?q + ?L = ?n + 1" "?q \<le> ?n" using L by linarith+
    have hit: "?P ?q \<longleftrightarrow> suffix needle (xs @ [b])"
      using suffix_window [of needle "xs @ [b]"] True by simp
    have up: "[0..<Suc ?n] = [0..<?q] @ ?q # [Suc ?q..<Suc ?n]"
      using q upt_add_eq_append [of 0 ?q "Suc ?n - ?q"] by (simp add: upt_conv_Cons del: upt_Suc)
    have up': "[0..<?n] = [0..<?q] @ [?q..<?n]"
      using q upt_add_eq_append [of 0 ?q "?n - ?q"] by simp
    have "filter ?P [0..<?q] = filter (\<lambda>s. take ?L (drop s xs) = needle) [0..<?q]"
      using old q by (intro filter_cong) auto
    moreover have "filter ?P [Suc ?q..<Suc ?n] = []" using none' q by (auto simp: filter_empty_conv)
    moreover have "filter (\<lambda>s. take ?L (drop s xs) = needle) [?q..<?n] = []"
      using none q by (auto simp: filter_empty_conv)
    ultimately show ?thesis using hit
      by (simp add: occurrences_def up up' del: upt_Suc)
  qed
qed

lemma occurrences_end: "s \<in> set (occurrences needle xs) \<Longrightarrow> needle \<noteq> [] \<Longrightarrow> s + length needle \<le> length xs"
  by (auto simp: occurrences_def dest!: arg_cong [where f = length])

lemma length_occurrences: "length (occurrences needle xs) \<le> length xs"
  unfolding occurrences_def by (rule order.trans [OF length_filter_le]) simp

lemma occurrences_append:
  assumes "needle \<noteq> []"
  shows "\<exists>new. occurrences needle (xs @ ys) = occurrences needle xs @ new \<and>
    (\<forall>s\<in>set new. length xs < s + length needle)"
proof (induction ys rule: rev_induct)
  case (snoc b ys)
  then obtain new where new: "occurrences needle (xs @ ys) = occurrences needle xs @ new"
      "\<forall>s\<in>set new. length xs < s + length needle" by blast
  have "length xs < length (xs @ ys) + 1 - length needle + length needle" if "suffix needle ((xs @ ys) @ [b])"
    using suffix_length_le [OF that] by simp
  with new occurrences_snoc [OF assms, of "xs @ ys" b] show ?case
    by (intro exI [of _ "new @ (if suffix needle ((xs @ ys) @ [b]) then [length (xs @ ys) + 1 - length needle] else [])"])
      auto
qed simp

text \<open>The hits for a list of starts, numbered from the first free number.\<close>

definition hit_list :: "'a list \<Rightarrow> nat \<Rightarrow> nat \<Rightarrow> nat list \<Rightarrow> byte_match list" where
  "hit_list needle base n ss =
     map (\<lambda>(i, s). \<lparr>bm_id = n + i + 1, bm_start = base + s, bm_end = base + s + length needle\<rparr>) (enumerate 0 ss)"

lemma hit_list_Nil [simp]: "hit_list needle base n [] = []"
  by (simp add: hit_list_def)

lemma hit_list_append: "hit_list needle base n (ss @ ts) = hit_list needle base n ss @ hit_list needle base (n + length ss) ts"
proof -
  have "enumerate (length ss) ts = map (\<lambda>(i, s). (length ss + i, s)) (enumerate 0 ts)"
    by (intro nth_equalityI) (simp_all add: nth_enumerate_eq)
  then show ?thesis
    by (simp add: hit_list_def enumerate_append_eq split_beta add.assoc)
qed

lemma length_hit_list [simp]: "length (hit_list needle base n ss) = length ss"
  by (simp add: hit_list_def)

lemma hit_list_ends: "h \<in> set (hit_list needle base n ss) \<Longrightarrow> \<exists>s\<in>set ss. bm_start h = base + s \<and> bm_end h = base + s + length needle"
  by (auto simp: hit_list_def in_set_enumerate_eq)

section \<open>The cursor follows the stream\<close>

text \<open>
  \<open>xs\<close> is what was consumed since the last break, \<open>base\<close> and \<open>n\<close> count the bytes and hits before it.
\<close>

definition follows :: "byte list \<Rightarrow> nat \<Rightarrow> nat \<Rightarrow> byte list \<Rightarrow> search_cursor \<Rightarrow> bool" where
  "follows needle base n xs c \<longleftrightarrow> needle \<noteq> [] \<and> bc_needle c = needle \<and>
     table_upto needle (bc_failure c) (length needle) \<and> longest needle xs (bc_matched c) \<and>
     bc_scanned c = base + length xs \<and> bc_occurrences c = n + length (occurrences needle xs)"

abbreviation hits_in :: "byte list \<Rightarrow> nat \<Rightarrow> nat \<Rightarrow> byte list \<Rightarrow> byte_match list" where
  "hits_in needle base n xs \<equiv> hit_list needle base n (occurrences needle xs)"

lemma search_loop_ok:
  assumes "follows needle base n xs c" "length hits < lim"
  shows "\<exists>new k c'. search_loop lim bs c hits consumed = Some (hits @ new, consumed + k, c') \<and>
    k \<le> length bs \<and> (bs \<noteq> [] \<longrightarrow> 0 < k) \<and> follows needle base n (xs @ take k bs) c' \<and>
    hits_in needle base n (xs @ take k bs) = hits_in needle base n xs @ new \<and> length (hits @ new) \<le> lim \<and>
    (k = length bs \<or> length (hits @ new) = lim) \<and> bc_canceled c' = bc_canceled c"
  using assms
proof (induction bs arbitrary: xs c hits consumed)
  case Nil
  then show ?case by simp
next
  case (Cons b bs)
  let ?L = "length needle" and ?m = "bc_matched c"
  have f: "needle \<noteq> []" "bc_needle c = needle" "table_upto needle (bc_failure c) ?L" "longest needle xs ?m"
      "bc_scanned c = base + length xs" "bc_occurrences c = n + length (occurrences needle xs)"
    using Cons.prems(1) by (auto simp: follows_def)
  have "table_upto needle (bc_failure c) ?m"
    by (rule table_mono [OF f(3)]) (use f(4) in \<open>simp add: longest_def\<close>)
  from advance_match_ok [OF f(4) this, of b] obtain m where
    m: "advance_match needle (bc_failure c) b ?m = Some m" "ends_with needle (xs @ [b]) m"
      "\<forall>j. ends_with needle (xs @ [b]) j \<longrightarrow> j \<le> m" by blast
  have full: "m = ?L \<longleftrightarrow> suffix needle (xs @ [b])"
  proof
    assume "m = ?L"
    then show "suffix needle (xs @ [b])" using m(2) by (simp add: ends_with_def)
  next
    assume "suffix needle (xs @ [b])"
    then have "?L \<le> m" using m(3) by (simp add: ends_with_def)
    then show "m = ?L" using m(2) by (simp add: ends_with_def)
  qed
  let ?c1 = "c\<lparr>bc_matched := m, bc_scanned := bc_scanned c + 1\<rparr>"
  show ?case
  proof (cases "m = ?L")
    case False
    have "m < ?L" using m(2) False by (simp add: ends_with_def)
    then have "longest needle (xs @ [b]) m" using m(2,3) by (simp add: longest_def)
    moreover have same: "occurrences needle (xs @ [b]) = occurrences needle xs"
      using occurrences_snoc [OF f(1), of xs b] False full by simp
    ultimately have "follows needle base n (xs @ [b]) ?c1" using f by (simp add: follows_def)
    from Cons.IH [OF this Cons.prems(2), of "consumed + 1"] obtain new k c' where
      k: "search_loop lim bs ?c1 hits (consumed + 1) = Some (hits @ new, consumed + 1 + k, c')"
        "k \<le> length bs" "follows needle base n ((xs @ [b]) @ take k bs) c'"
        "hits_in needle base n ((xs @ [b]) @ take k bs) = hits_in needle base n (xs @ [b]) @ new"
        "length (hits @ new) \<le> lim" "k = length bs \<or> length (hits @ new) = lim"
        "bc_canceled c' = bc_canceled ?c1" by blast
    have "hits_in needle base n (xs @ [b]) = hits_in needle base n xs"
      by (simp only: same)
    with k m(1) False f(2) show ?thesis
      by (intro exI [of _ new] exI [of _ "Suc k"] exI [of _ c']) (simp add: Let_def)
  next
    case True
    have e: "ends_with needle (xs @ [b]) ?L" "0 < ?L" using m(2) True f(1) by auto
    note t = table_entry [OF f(3) e(2,1)]
    have L: "?L \<le> length xs + 1" using ends_with_le [OF e(1)] by simp
    let ?h = "\<lparr>bm_id = bc_occurrences c + 1, bm_start = bc_scanned c + 1 - ?L, bm_end = bc_scanned c + 1\<rparr>"
    let ?c2 = "?c1\<lparr>bc_occurrences := bc_occurrences c + 1, bc_matched := bc_failure c ! (?L - 1)\<rparr>"
    have occ: "occurrences needle (xs @ [b]) = occurrences needle xs @ [length xs + 1 - ?L]"
      using occurrences_snoc [OF f(1), of xs b] True full by simp
    have hs: "hits_in needle base n (xs @ [b]) = hits_in needle base n xs @ [?h]"
      using L f(5,6) by (simp add: occ hit_list_append) (simp add: hit_list_def)
    have ok: "follows needle base n (xs @ [b]) ?c2"
      using f t by (simp add: follows_def longest_def occ)
    have run: "search_loop lim (b # bs) c hits consumed =
        (if length (hits @ [?h]) = lim then Some (hits @ [?h], consumed + 1, ?c2)
         else search_loop lim bs ?c2 (hits @ [?h]) (consumed + 1))"
      using m(1) True f(2,5) L t(1) f(1) by (simp add: Let_def Suc_le_eq)
    show ?thesis
    proof (cases "length (hits @ [?h]) = lim")
      case True
      with run hs ok show ?thesis
        by (intro exI [of _ "[?h]"] exI [of _ 1] exI [of _ ?c2]) simp
    next
      case False
      then have "length (hits @ [?h]) < lim" using Cons.prems(2) by simp
      from Cons.IH [OF ok this, of "consumed + 1"] obtain new k c' where
        k: "search_loop lim bs ?c2 (hits @ [?h]) (consumed + 1) = Some ((hits @ [?h]) @ new, consumed + 1 + k, c')"
          "k \<le> length bs" "follows needle base n ((xs @ [b]) @ take k bs) c'"
          "hits_in needle base n ((xs @ [b]) @ take k bs) = hits_in needle base n (xs @ [b]) @ new"
          "length ((hits @ [?h]) @ new) \<le> lim" "k = length bs \<or> length ((hits @ [?h]) @ new) = lim"
          "bc_canceled c' = bc_canceled ?c2" by blast
      with run hs False show ?thesis
        by (intro exI [of _ "?h # new"] exI [of _ "Suc k"] exI [of _ c']) simp
    qed
  qed
qed

section \<open>One step and whole runs\<close>

lemma cursor_step_ok:
  assumes "follows needle base n xs c" "\<not> bc_canceled c"
  shows "(u64_max < bc_scanned c + min (min (length input) byte_budget) max_stream_step_bytes \<and>
      cursor_step c input byte_budget hit_budget = Some (Inl SOffsetOverflow, c)) \<or>
    (\<exists>batch c'. cursor_step c input byte_budget hit_budget = Some (Inr batch, c') \<and>
      follows needle base n (xs @ take (sb_consumed batch) input) c' \<and> \<not> bc_canceled c' \<and>
      hits_in needle base n (xs @ take (sb_consumed batch) input) = hits_in needle base n xs @ sb_hits batch \<and>
      sb_consumed batch \<le> min (min (length input) byte_budget) max_stream_step_bytes \<and>
      length (sb_hits batch) \<le> min hit_budget max_stream_batch_hits \<and>
      (input \<noteq> [] \<longrightarrow> 0 < byte_budget \<longrightarrow> 0 < hit_budget \<longrightarrow> 0 < sb_consumed batch) \<and>
      sb_stop batch = (if sb_consumed batch = length input then InputConsumed
        else if length (sb_hits batch) = min hit_budget max_stream_batch_hits then HitBudget else ByteBudget) \<and>
      (sb_stop batch = ByteBudget \<longrightarrow> sb_consumed batch = min byte_budget max_stream_step_bytes))"
proof -
  let ?work = "min (min (length input) byte_budget) max_stream_step_bytes"
  let ?lim = "min hit_budget max_stream_batch_hits"
  have pos: "0 < max_stream_step_bytes" "0 < max_stream_batch_hits"
    by (simp_all add: max_stream_batch_hits_def max_stream_step_bytes_def)
  consider "input = []" | "input \<noteq> []" "hit_budget = 0" | "input \<noteq> []" "0 < hit_budget" "byte_budget = 0"
    | "input \<noteq> []" "0 < hit_budget" "0 < byte_budget" by blast
  then show ?thesis
  proof cases
    case 1
    then show ?thesis using assms by (simp add: cursor_step_def)
  next
    case 2
    then show ?thesis using assms by (simp add: cursor_step_def)
  next
    case 3
    then have "cursor_step c input byte_budget hit_budget =
        Some (Inr \<lparr>sb_hits = [], sb_consumed = 0, sb_stop = ByteBudget\<rparr>, c)"
      using assms(2) pos by (simp add: cursor_step_def Let_def)
    then show ?thesis using assms 3 pos by simp
  next
    case 4
    then have 2: "input \<noteq> []" "0 < ?lim" "0 < ?work" using pos by simp_all
    from search_loop_ok [OF assms(1), of "[]" ?lim "take ?work input" 0] 2(2) obtain new k c' where
      k: "search_loop ?lim (take ?work input) c [] 0 = Some (new, k, c')" "k \<le> ?work" "0 < k"
        "follows needle base n (xs @ take k input) c'"
        "hits_in needle base n (xs @ take k input) = hits_in needle base n xs @ new" "length new \<le> ?lim"
        "k = ?work \<or> length new = ?lim" "bc_canceled c' = bc_canceled c"
      using 2 by (auto simp: min_absorb1)
    show ?thesis
    proof (cases "checked_add (bc_scanned c) ?work")
      case None
      then show ?thesis using 2 assms(2) by (auto simp: cursor_step_def Let_def arith64)
    next
      case (Some s)
      let ?b = "\<lparr>sb_hits = new, sb_consumed = k, sb_stop = (if k = length input then InputConsumed
                         else if length new = ?lim then HitBudget else ByteBudget)\<rparr>"
      have "cursor_step c input byte_budget hit_budget = Some (Inr ?b, c')"
      proof -
        define W H where "W = ?work" and "H = ?lim"
        with 2 have "W \<noteq> 0" "H \<noteq> 0" by auto
        then show ?thesis using 2(1) Some k(1) assms(2)
          unfolding cursor_step_def Let_def W_def [symmetric] H_def [symmetric] by simp
      qed
      moreover have "sb_stop ?b = ByteBudget \<Longrightarrow> k = min byte_budget max_stream_step_bytes"
        using k(2,7) by (auto simp: min_def split: if_splits)
      ultimately show ?thesis using k assms(2) by (intro disjI2 exI [of _ ?b] exI [of _ c']) auto
    qed
  qed
qed

datatype search_op = OpStep "byte list" nat nat | OpBreak | OpCancel

text \<open>
  A run collects the hits and the bytes consumed, cut where continuity was broken; no value is a panic.
\<close>

fun search_run :: "search_op list \<Rightarrow> search_cursor \<times> byte_match list \<times> byte list list \<Rightarrow>
    (search_cursor \<times> byte_match list \<times> byte list list) option" where
  "search_run [] st = Some st"
| "search_run (OpStep input bb hb # ops) (c, hits, segs) =
     (case cursor_step c input bb hb of
        None \<Rightarrow> None
      | Some (Inl e, c') \<Rightarrow> search_run ops (c', hits, segs)
      | Some (Inr batch, c') \<Rightarrow> search_run ops (c', hits @ sb_hits batch,
          butlast segs @ [last segs @ take (sb_consumed batch) input]))"
| "search_run (OpBreak # ops) (c, hits, segs) = search_run ops (break_match_continuity c, hits, segs @ [[]])"
| "search_run (OpCancel # ops) (c, hits, segs) = search_run ops (cursor_cancel c, hits, segs)"

text \<open>The reference: the occurrences of each segment, placed and numbered over the whole stream.\<close>

fun hits_of :: "byte list \<Rightarrow> nat \<Rightarrow> nat \<Rightarrow> byte list list \<Rightarrow> byte_match list" where
  "hits_of needle base n [] = []"
| "hits_of needle base n (xs # segs) =
     hits_in needle base n xs @ hits_of needle (base + length xs) (n + length (occurrences needle xs)) segs"

lemma hits_of_append:
  "hits_of needle base n (xs @ ys) = hits_of needle base n xs @
     hits_of needle (base + length (concat xs)) (n + length (hits_of needle base n xs)) ys"
  by (induction xs arbitrary: base n) (simp_all add: add.assoc)

lemma hits_of_after:
  assumes "needle \<noteq> []" "h \<in> set (hits_of needle base n segs)"
  shows "base < bm_end h \<and> bm_end h \<le> base + length (concat segs) \<and> bm_start h \<le> bm_end h"
  using assms(2)
proof (induction segs arbitrary: base n)
  case (Cons xs segs)
  have "0 < length needle" using assms(1) by simp
  with Cons.prems occurrences_end [OF _ assms(1), of _ xs]
  show ?case by (fastforce dest: hit_list_ends Cons.IH)
qed simp

lemma length_hits_of: "length (hits_of needle base n segs) \<le> length (concat segs)"
  by (induction segs arbitrary: base n) (simp_all add: add_mono length_occurrences)

definition run_ok :: "byte list \<Rightarrow> search_cursor \<times> byte_match list \<times> byte list list \<Rightarrow> bool" where
  "run_ok needle st = (case st of (c, hits, segs) \<Rightarrow>
     (\<exists>segs0 xs. segs = segs0 @ [xs] \<and> hits = hits_of needle 0 0 segs \<and> bc_scanned c = length (concat segs) \<and>
       bc_occurrences c = length hits \<and>
       (bc_canceled c \<or> follows needle (length (concat segs0)) (length (hits_of needle 0 0 segs0)) xs c)))"

lemma run_ok_step:
  assumes "run_ok needle (c, hits, segs)"
  shows "(\<exists>e. cursor_step c input bb hb = Some (Inl e, c)) \<or>
    (\<exists>batch c'. cursor_step c input bb hb = Some (Inr batch, c') \<and>
      run_ok needle (c', hits @ sb_hits batch, butlast segs @ [last segs @ take (sb_consumed batch) input]))"
proof (cases "bc_canceled c")
  case True
  then show ?thesis using assms by (auto simp: cursor_step_def Let_def run_ok_def)
next
  case False
  obtain segs0 xs where s: "segs = segs0 @ [xs]" "hits = hits_of needle 0 0 segs"
      "bc_scanned c = length (concat segs)" "bc_occurrences c = length hits"
      and f: "follows needle (length (concat segs0)) (length (hits_of needle 0 0 segs0)) xs c"
    using assms False by (auto simp: run_ok_def)
  from cursor_step_ok [OF f False, of input bb hb] show ?thesis
  proof (elim disjE exE conjE)
    fix batch c'
    assume b: "cursor_step c input bb hb = Some (Inr batch, c')"
      "follows needle (length (concat segs0)) (length (hits_of needle 0 0 segs0)) (xs @ take (sb_consumed batch) input) c'"
      "hits_in needle (length (concat segs0)) (length (hits_of needle 0 0 segs0)) (xs @ take (sb_consumed batch) input) =
       hits_in needle (length (concat segs0)) (length (hits_of needle 0 0 segs0)) xs @ sb_hits batch"
    then have "length (occurrences needle (xs @ take (sb_consumed batch) input)) =
        length (occurrences needle xs) + length (sb_hits batch)"
      by (metis length_append length_hit_list)
    with b s have "run_ok needle (c', hits @ sb_hits batch, butlast segs @ [last segs @ take (sb_consumed batch) input])"
      by (simp add: run_ok_def hits_of_append follows_def)
    with b(1) show ?thesis by blast
  qed auto
qed

lemma run_ok_run:
  "run_ok needle st \<Longrightarrow> \<exists>st'. search_run ops st = Some st' \<and> run_ok needle st'"
proof (induction ops st rule: search_run.induct)
  case (2 input bb hb ops c hits segs)
  from run_ok_step [OF 2(3), of input bb hb] 2 show ?case by auto
next
  case (3 ops c hits segs)
  have "run_ok needle (break_match_continuity c, hits, segs @ [[]])"
    using 3(2) longest_Nil by (auto simp: run_ok_def break_match_continuity_def follows_def hits_of_append occurrences_def)
  with 3 show ?case by simp
next
  case (4 ops c hits segs)
  have "run_ok needle (cursor_cancel c, hits, segs)" using 4(2) by (auto simp: run_ok_def cursor_cancel_def)
  with 4 show ?case by simp
qed simp

lemma cursor_new_ok:
  "cursor_new needle \<noteq> None"
  "cursor_new needle = Some (Inr c) \<Longrightarrow> run_ok needle (c, [], [[]]) \<and> \<not> bc_canceled c"
proof -
  show "cursor_new needle \<noteq> None"
    using failure_table_ok [of needle] by (auto simp: cursor_new_def)
  assume c: "cursor_new needle = Some (Inr c)"
  then have "needle \<noteq> []" by (auto simp: cursor_new_def)
  from failure_table_ok [OF this] longest_Nil [OF this] c
  show "run_ok needle (c, [], [[]]) \<and> \<not> bc_canceled c"
    by (auto simp: cursor_new_def run_ok_def follows_def occurrences_def split: if_splits)
qed

lemma cursor_step_refuses:
  assumes "\<not> bc_canceled c" and "cursor_step c input byte_budget hit_budget = Some (res, c')"
  shows "res = Inl SOffsetOverflow \<longleftrightarrow> input \<noteq> [] \<and> 0 < byte_budget \<and> 0 < hit_budget \<and>
    u64_max < bc_scanned c + min (min (length input) byte_budget) max_stream_step_bytes"
proof -
  have "min (min (length input) byte_budget) 65536 = 0 \<longleftrightarrow> input = [] \<or> byte_budget = 0"
    by (auto simp: min_def)
  then show ?thesis using assms
    by (auto simp: cursor_step_def Let_def checked_add_def max_stream_step_bytes_def max_stream_batch_hits_def
        split: if_splits option.splits prod.splits)
qed

section \<open>Properties\<close>

text \<open>
  C10: The matcher is exact however its input is cut. Building it never panics and its table loop
  returns; a cursor exists exactly for needles of 1 to 65,536 bytes. Whatever slices, budgets,
  continuity breaks and cancellations follow, no step panics or runs forever, and the hits are
  exactly the windows of the consumed bytes that equal the needle, overlaps and matches across
  slices included and matches across breaks excluded, numbered consecutively at their offsets in the
  whole stream.
\<close>

theorem stream_search_exact:
  "cursor_new needle \<noteq> None \<and>
   ((\<exists>c. cursor_new needle = Some (Inr c)) \<longleftrightarrow> needle \<noteq> [] \<and> length needle \<le> 65536) \<and>
   (\<forall>c. cursor_new needle = Some (Inr c) \<longrightarrow>
     (\<exists>c' hits segs. search_run ops (c, [], [[]]) = Some (c', hits, segs) \<and>
        hits = hits_of needle 0 0 segs \<and> bc_scanned c' = length (concat segs) \<and>
        bc_occurrences c' = length hits))"
proof -
  have "\<exists>c' hits segs. search_run ops (c, [], [[]]) = Some (c', hits, segs) \<and>
      hits = hits_of needle 0 0 segs \<and> bc_scanned c' = length (concat segs) \<and> bc_occurrences c' = length hits"
    if "cursor_new needle = Some (Inr c)" for c
    using run_ok_run [of needle "(c, [], [[]])" ops] cursor_new_ok(2) [OF that] by (auto simp: run_ok_def)
  moreover have "(\<exists>c. cursor_new needle = Some (Inr c)) \<longleftrightarrow> needle \<noteq> [] \<and> length needle \<le> 65536"
    using failure_table_ok [of needle] by (auto simp: cursor_new_def max_stream_needle_bytes_def)
  ultimately show ?thesis using cursor_new_ok(1) by blast
qed

definition ex_cursor :: search_cursor where
  "ex_cursor = \<lparr>bc_needle = [1, 2, 1], bc_failure = [0, 0, 1], bc_matched = 0, bc_scanned = 0,
     bc_occurrences = 0, bc_canceled = False\<rparr>"

lemma fall_back_0 [simp]: "fall_back needle failure b 0 = Some 0"
  by (subst fall_back.simps) simp

lemma ex_cursor_new: "cursor_new [1, 2, 1] = Some (Inr ex_cursor)"
proof -
  have "[1..<length [1, 2, 1 :: byte]] = [1, 2]" by (simp add: upt_rec)
  then have "failure_table [1, 2, 1 :: byte] = Some [0, 0, 1]"
    unfolding failure_table_def by (simp add: advance_match_def index_at_def)
  then show ?thesis
    unfolding cursor_new_def max_stream_needle_bytes_def ex_cursor_def by simp
qed

theorem stream_search_exact_witness:
  "\<exists>c' hits segs. search_run [OpStep [1, 2] 9 9, OpStep [1, 2, 1] 9 1, OpBreak, OpStep [2, 1] 1 1] (ex_cursor, [], [[]]) =
     Some (c', hits, segs) \<and> hits = hits_of [1, 2, 1] 0 0 segs"
  using stream_search_exact [of "[1, 2, 1]" "[OpStep [1, 2] 9 9, OpStep [1, 2, 1] 9 1, OpBreak, OpStep [2, 1] 1 1]"]
    ex_cursor_new by blast

text \<open>
  C30: One step of a cursor in any reachable state stays within its budgets and says why it stopped. It
  refuses with \<open>OffsetOverflow\<close> exactly when work was admitted (not cancelled, input and both budgets
  not empty) and the admitted work would pass \<open>u64::MAX\<close>, and then changes nothing. Otherwise it
  consumes no more bytes and reports no more hits than admitted, makes progress whenever work was
  admitted, and its stop reason is exact and in the order of the code: cancelled (nothing consumed,
  nothing changed), then all input consumed, then the hit budget, then the byte budget.
\<close>

theorem search_step_bounded:
  assumes "cursor_new needle = Some (Inr c)" "search_run ops (c, [], [[]]) = Some (c1, hits, segs)"
    and "cursor_step c1 input bb hb = Some (res, c2)"
  shows "(res = Inl SOffsetOverflow \<longleftrightarrow> \<not> bc_canceled c1 \<and> input \<noteq> [] \<and> 0 < bb \<and> 0 < hb \<and>
      u64_max < bc_scanned c1 + min (min (length input) bb) 65536) \<and>
    (case res of
      Inl e \<Rightarrow> e = SOffsetOverflow \<and> c2 = c1
    | Inr batch \<Rightarrow>
        sb_consumed batch \<le> min (min (length input) bb) 65536 \<and> length (sb_hits batch) \<le> min hb 4096 \<and>
        sb_stop batch = (if bc_canceled c1 then StreamCanceled
          else if sb_consumed batch = length input then InputConsumed
          else if length (sb_hits batch) = min hb 4096 then HitBudget else ByteBudget) \<and>
        (bc_canceled c1 \<longrightarrow> c2 = c1 \<and> sb_consumed batch = 0 \<and> sb_hits batch = []) \<and>
        (sb_stop batch = ByteBudget \<longrightarrow> sb_consumed batch = min bb 65536) \<and>
        (\<not> bc_canceled c1 \<and> input \<noteq> [] \<and> 0 < bb \<and> 0 < hb \<longrightarrow> 0 < sb_consumed batch))"
proof (cases "bc_canceled c1")
  case True
  then show ?thesis using assms(3) by (auto simp: cursor_step_def Let_def)
next
  case False
  have "run_ok needle (c1, hits, segs)"
    using run_ok_run [of needle "(c, [], [[]])" ops] cursor_new_ok(2) [OF assms(1)] assms(2) by auto
  with False obtain base n xs where f: "follows needle base n xs c1" by (auto simp: run_ok_def)
  have budgets: "65536 = max_stream_step_bytes" "4096 = max_stream_batch_hits"
    by (simp_all add: max_stream_step_bytes_def max_stream_batch_hits_def)
  note refusal = cursor_step_refuses [OF False assms(3)]
  from cursor_step_ok [OF f False, of input bb hb] show ?thesis
  proof (elim disjE exE conjE)
    fix batch c'
    assume "cursor_step c1 input bb hb = Some (Inr batch, c')"
    then have r: "res = Inr batch" using assms(3) by simp
    assume b: "sb_consumed batch \<le> min (min (length input) bb) max_stream_step_bytes"
      "length (sb_hits batch) \<le> min hb max_stream_batch_hits"
      "input \<noteq> [] \<longrightarrow> 0 < bb \<longrightarrow> 0 < hb \<longrightarrow> 0 < sb_consumed batch"
      "sb_stop batch = (if sb_consumed batch = length input then InputConsumed
        else if length (sb_hits batch) = min hb max_stream_batch_hits then HitBudget else ByteBudget)"
      "sb_stop batch = ByteBudget \<longrightarrow> sb_consumed batch = min bb max_stream_step_bytes"
    have st: "sb_stop batch = (if bc_canceled c1 then StreamCanceled
        else if sb_consumed batch = length input then InputConsumed
        else if length (sb_hits batch) = min hb max_stream_batch_hits then HitBudget else ByteBudget)"
      unfolding b(4) using False by (simp only: if_False)
    show ?thesis
      using refusal unfolding r sum.case budgets using False st b(1,2,3,5) by (intro conjI) blast+
  next
    assume "cursor_step c1 input bb hb = Some (Inl SOffsetOverflow, c1)"
    then have "res = Inl SOffsetOverflow \<and> c2 = c1" using assms(3) by simp
    with refusal False show ?thesis unfolding budgets by (simp only: sum.case simp_thms)
  qed
qed

theorem search_step_bounded_witness:
  "\<exists>batch c2. cursor_step ex_cursor [1, 2, 1] 2 1 = Some (Inr batch, c2) \<and> sb_consumed batch \<le> 2"
proof -
  have r: "search_run [] (ex_cursor, [], [[]]) = Some (ex_cursor, [], [[]])" by simp
  have "follows [1, 2, 1] 0 0 [] ex_cursor" "\<not> bc_canceled ex_cursor"
    using cursor_new_ok(2) [OF ex_cursor_new] by (auto simp: run_ok_def)
  from cursor_step_ok [OF this, of "[1, 2, 1]" 2 1] obtain batch c2 where
    s: "cursor_step ex_cursor [1, 2, 1] 2 1 = Some (Inr batch, c2)"
    by (auto simp: ex_cursor_def u64_max_val max_stream_step_bytes_def)
  from search_step_bounded [OF ex_cursor_new r s] s show ?thesis by auto
qed

end
