(* ===== verification/Raw_Scan.thy ===== *)
theory Raw_Scan
  imports Byte_Search Paths
begin

text \<open>
  \<open>crates/fcb-search/src/lib.rs\<close>: the query options and results, and \<open>crates/fcb-search/src/capture.rs\<close>:
  the scan of a chunked capture for raw bytes.

  The cancellation callback is a function from the number of the poll to its answer. A scan that
  panics or does not return is \<^const>\<open>None\<close>. Chunks arrive as results, since the caller's iterator may
  fail.
\<close>

section \<open>Queries and results\<close>

datatype query_error =
    QEmptyNeedle | QNeedleTooLong | QLimitExceeded | QCanceled | QUnsupportedEncoding | QInvalidRange
  | QRegexUnqualified | QSyntaxError

datatype unicode_normalization = NormExact | NormCaseFold | NormCanonical

datatype search_mode = DecodedText bool unicode_normalization | RawBytes

record query_options =
  qo_generation :: query_generation
  qo_mode :: search_mode
  qo_max_matches :: nat
  qo_max_bytes :: "nat option"
  qo_short_allowed :: bool
  qo_cross_chunk :: bool
  qo_encoding :: "detected_encoding option"

definition query_options_new :: "query_generation \<Rightarrow> query_options" where
  "query_options_new g = \<lparr>qo_generation = g, qo_mode = DecodedText True NormExact, qo_max_matches = 10000,
     qo_max_bytes = None, qo_short_allowed = True, qo_cross_chunk = True, qo_encoding = None\<rparr>"

datatype search_coverage = Exhaustive | TruncatedAtLimit nat | BudgetExhausted nat | CanceledEarly

record search_match =
  sm_id :: nat
  sm_file :: file_id
  sm_revision :: source_revision
  sm_decoded :: "nat offset_range option"
  sm_range :: byte_range
  sm_text :: "uchar list"
  sm_multiplicity :: nat

record search_result =
  sr_matches :: "search_match list"
  sr_counted :: nat
  sr_coverage :: search_coverage
  sr_scanned :: nat
  sr_unsupported :: "file_id list"

definition result_empty :: "search_coverage \<Rightarrow> search_result" where
  "result_empty cov = \<lparr>sr_matches = [], sr_counted = 0, sr_coverage = cov, sr_scanned = 0, sr_unsupported = []\<rparr>"

definition result_is_complete :: "search_result \<Rightarrow> bool" where
  "result_is_complete r \<longleftrightarrow> (case sr_coverage r of Exhaustive \<Rightarrow> True | _ \<Rightarrow> False) \<and> sr_unsupported r = []"

definition query_of_stream :: "stream_error \<Rightarrow> query_error" where
  "query_of_stream e = (case e of
     SEmptyNeedle \<Rightarrow> QEmptyNeedle | SNeedleTooLong \<Rightarrow> QNeedleTooLong | SOffsetOverflow \<Rightarrow> QInvalidRange)"

definition validate_needle :: "byte list \<Rightarrow> query_error + unit" where
  "validate_needle needle =
     (if needle = [] then Inl QEmptyNeedle
      else if length needle > max_stream_needle_bytes then Inl QNeedleTooLong else Inr ())"

text \<open>\<open>String::from_utf8_lossy\<close>: the maximal valid parts, each bad part replaced by U+FFFD.\<close>

function utf8_lossy :: "byte list \<Rightarrow> uchar list" where
  "utf8_lossy bs =
     (case valid_prefix bs of (cs, rst) \<Rightarrow>
        if rst = [] then cs
        else (let bad = (case error_len rst of Some n \<Rightarrow> n | None \<Rightarrow> length rst) in
          cs @ 0xFFFD # utf8_lossy (drop bad rst)))"
  by pat_completeness auto
termination
proof (relation "measure length")
  fix bs cs rst bad
  assume a: "(cs, rst) = valid_prefix bs" "rst \<noteq> []" "bad = (case error_len rst of Some n \<Rightarrow> n | None \<Rightarrow> length rst)"
  have "length rst \<le> length bs" using valid_prefix_length [of bs cs rst] a(1) by simp
  moreover have "0 < bad" using error_len_pos [of rst] a(2,3) by (cases "error_len rst") (auto intro: Nat.gr0I)
  moreover have "0 < length rst" using a(2) by simp
  ultimately have "length rst - bad < length bs" by linarith
  then show "(drop bad rst, bs) \<in> measure length" by simp
qed simp

declare utf8_lossy.simps [simp del]

section \<open>The raw scan\<close>

record raw_query =
  rq_file :: file_id
  rq_revision :: source_revision
  rq_needle :: "byte list"
  rq_options :: query_options

text \<open>The loop over the hits of a batch: \<^const>\<open>Inl\<close> leaves the scan with its result.\<close>

fun push_hits :: "raw_query \<Rightarrow> byte_match list \<Rightarrow> search_result \<Rightarrow> (query_error + search_result) + search_result" where
  "push_hits q [] r = Inr r"
| "push_hits q (hit # hits) r =
     (case checked_add (sr_counted r) 1 of
        None \<Rightarrow> Inl (Inl QLimitExceeded)
      | Some counted \<Rightarrow>
          let r1 = r\<lparr>sr_counted := counted\<rparr>; max_matches = qo_max_matches (rq_options q) in
          if length (sr_matches r1) = max_matches
          then Inl (Inr (r1\<lparr>sr_coverage := TruncatedAtLimit max_matches\<rparr>))
          else case range_new (bm_start hit) (bm_end hit) of
            Inl _ \<Rightarrow> Inl (Inl QInvalidRange)
          | Inr br \<Rightarrow> push_hits q hits (r1\<lparr>sr_matches := sr_matches r1 @
              [\<lparr>sm_id = bm_id hit, sm_file = rq_file q, sm_revision = rq_revision q, sm_decoded = None,
                sm_range = br, sm_text = utf8_lossy (rq_needle q), sm_multiplicity = 1\<rparr>]\<rparr>))"

text \<open>The loop over one chunk; it goes on with the cursor, the result and the number of polls made.\<close>

partial_function (option) scan_slice ::
  "(nat \<Rightarrow> bool) \<Rightarrow> raw_query \<Rightarrow> byte list \<Rightarrow> search_cursor \<Rightarrow> search_result \<Rightarrow> nat \<Rightarrow>
   ((query_error + search_result) + (search_cursor \<times> search_result \<times> nat)) option" where
  "scan_slice canceled q remaining c r polls =
     (if remaining = [] then Some (Inr (c, r, polls))
      else if canceled polls then Some (Inl (Inr (r\<lparr>sr_coverage := CanceledEarly\<rparr>)))
      else
        let byte_limit = (case qo_max_bytes (rq_options q) of Some n \<Rightarrow> n | None \<Rightarrow> u64_max);
            max_matches = qo_max_matches (rq_options q);
            remaining_bytes = saturating_sub byte_limit (bc_scanned c) in
        if remaining_bytes = 0 then Some (Inl (Inr (r\<lparr>sr_coverage := BudgetExhausted (bc_scanned c)\<rparr>)))
        else
          let work = min remaining_bytes max_stream_step_bytes;
              hit_budget = min (saturating_add (saturating_sub max_matches (length (sr_matches r))) 1)
                max_stream_batch_hits in
          Option.bind (cursor_step c remaining work hit_budget) (\<lambda>(res, c1). case res of
            Inl e \<Rightarrow> Some (Inl (Inl (query_of_stream e)))
          | Inr batch \<Rightarrow>
              let r1 = r\<lparr>sr_scanned := bc_scanned c1\<rparr> in
              Option.bind (checked_sub max_matches (length (sr_matches r1))) (\<lambda>_.
                case push_hits q (sb_hits batch) r1 of
                  Inl final \<Rightarrow> Some (Inl final)
                | Inr r2 \<Rightarrow> scan_slice canceled q (drop (sb_consumed batch) remaining) c1 r2 (polls + 1))))"

fun scan_raw_loop ::
  "(nat \<Rightarrow> bool) \<Rightarrow> raw_query \<Rightarrow> nat \<Rightarrow> (query_error + byte list) list \<Rightarrow> nat \<Rightarrow> search_cursor \<Rightarrow>
   search_result \<Rightarrow> nat \<Rightarrow> (query_error + search_result) option" where
  "scan_raw_loop canceled q len [] declared c r polls =
     Some (if declared \<noteq> len then Inl QInvalidRange else Inr r)"
| "scan_raw_loop canceled q len (Inl e # chunks) declared c r polls = Some (Inl e)"
| "scan_raw_loop canceled q len (Inr chunk # chunks) declared c r polls =
     (case checked_add declared (length chunk) of
        None \<Rightarrow> Some (Inl QInvalidRange)
      | Some d \<Rightarrow>
          if d > len then Some (Inl QInvalidRange)
          else
            let c1 = (if qo_cross_chunk (rq_options q) then c else break_match_continuity c) in
            Option.bind (scan_slice canceled q chunk c1 r polls) (\<lambda>out. case out of
              Inl final \<Rightarrow> Some final
            | Inr (c2, r2, polls2) \<Rightarrow> scan_raw_loop canceled q len chunks d c2 r2 polls2))"

definition scan_raw_chunks ::
  "(nat \<Rightarrow> bool) \<Rightarrow> (query_error + byte list) list \<Rightarrow> nat \<Rightarrow> raw_query \<Rightarrow> (query_error + search_result) option" where
  "scan_raw_chunks canceled chunks len q =
     Option.bind (cursor_new (rq_needle q)) (\<lambda>res. case res of
       Inl e \<Rightarrow> Some (Inl (query_of_stream e))
     | Inr c \<Rightarrow>
         let r = result_empty Exhaustive; max_matches = qo_max_matches (rq_options q) in
         if canceled 0 then Some (Inr (r\<lparr>sr_coverage := CanceledEarly\<rparr>))
         else if max_matches = 0 \<and> len > 0 then Some (Inr (r\<lparr>sr_coverage := TruncatedAtLimit 0\<rparr>))
         else scan_raw_loop canceled q len chunks 0 c r 1)"

section \<open>The reference\<close>

text \<open>All occurrences in a sequence of chunks; across them, or inside each.\<close>

definition expected :: "bool \<Rightarrow> byte list \<Rightarrow> byte list list \<Rightarrow> byte_match list" where
  "expected cross needle css = hits_of needle 0 0 (if cross then [concat css] else css)"

text \<open>What is found when the chunks \<open>ds\<close> and the part \<open>p\<close> of the next one are consumed.\<close>

definition so_far :: "bool \<Rightarrow> byte list \<Rightarrow> byte list list \<Rightarrow> byte list \<Rightarrow> byte_match list" where
  "so_far cross needle ds p = hits_of needle 0 0 (if cross then [concat ds @ p] else ds @ [p])"

lemma hits_in_split:
  assumes "needle \<noteq> []"
  shows "\<exists>new. hits_in needle base n (xs @ ys) = hits_in needle base n xs @ new \<and>
    (\<forall>h\<in>set new. base + length xs < bm_end h)"
proof -
  obtain new where new: "occurrences needle (xs @ ys) = occurrences needle xs @ new"
      "\<forall>s\<in>set new. length xs < s + length needle"
    using occurrences_append [OF assms] by blast
  let ?new = "hit_list needle base (n + length (occurrences needle xs)) new"
  have "base + length xs < bm_end h" if "h \<in> set ?new" for h
    using hit_list_ends [OF that] new(2) by fastforce
  then show ?thesis using new(1) by (intro exI [of _ ?new]) (simp add: hit_list_append)
qed

lemma expected_split:
  assumes "needle \<noteq> []"
  shows "\<exists>new. expected cross needle (ds @ (p @ q) # rest) = so_far cross needle ds p @ new \<and>
    (\<forall>h\<in>set new. length (concat ds) + length p < bm_end h)"
proof (cases cross)
  case True
  then show ?thesis
    using hits_in_split [OF assms, of 0 0 "concat ds @ p" "q @ concat rest"]
    by (auto simp: expected_def so_far_def)
next
  case False
  let ?b = "length (concat ds)" and ?n = "length (hits_of needle 0 0 ds)"
  obtain new where new: "hits_in needle ?b ?n (p @ q) = hits_in needle ?b ?n p @ new"
      "\<forall>h\<in>set new. ?b + length p < bm_end h"
    using hits_in_split [OF assms] by blast
  let ?rest = "hits_of needle (?b + length (p @ q)) (?n + length (occurrences needle (p @ q))) rest"
  have "?b + length p < bm_end h" if "h \<in> set ?rest" for h
    using hits_of_after [OF assms that] by simp
  with new False show ?thesis
    by (intro exI [of _ "new @ ?rest"]) (auto simp: expected_def so_far_def hits_of_append)
qed

lemma so_far_ends:
  assumes "needle \<noteq> []" "h \<in> set (so_far cross needle ds p)"
  shows "bm_end h \<le> length (concat ds) + length p \<and> bm_start h \<le> bm_end h"
  using hits_of_after [OF assms(1) assms(2) [unfolded so_far_def]] by (cases cross) simp_all

lemma expected_filter:
  assumes "needle \<noteq> []"
  shows "filter (\<lambda>h. bm_end h \<le> length (concat ds) + length p) (expected cross needle (ds @ (p @ q) # rest)) =
    so_far cross needle ds p"
proof -
  obtain new where new: "expected cross needle (ds @ (p @ q) # rest) = so_far cross needle ds p @ new"
      "\<forall>h\<in>set new. length (concat ds) + length p < bm_end h"
    using expected_split [OF assms] by blast
  have "filter (\<lambda>h. bm_end h \<le> length (concat ds) + length p) new = []"
    using new(2) by (auto simp: filter_empty_conv not_le)
  with new(1) so_far_ends [OF assms, of _ cross ds p] show ?thesis by (auto intro: filter_True)
qed

definition raw_match :: "raw_query \<Rightarrow> byte_match \<Rightarrow> search_match" where
  "raw_match q h = \<lparr>sm_id = bm_id h, sm_file = rq_file q, sm_revision = rq_revision q, sm_decoded = None,
     sm_range = OffsetRange (bm_start h) (bm_end h), sm_text = utf8_lossy (rq_needle q), sm_multiplicity = 1\<rparr>"

lemma push_hits_eq:
  assumes "\<forall>h\<in>set hits. bm_start h \<le> bm_end h" "sr_counted r = length (sr_matches r)"
    and "length (sr_matches r) \<le> qo_max_matches (rq_options q)" "length (sr_matches r) + length hits \<le> u64_max"
  shows "push_hits q hits r =
    (let m = qo_max_matches (rq_options q); k = length (sr_matches r) in
     if k + length hits \<le> m
     then Inr (r\<lparr>sr_matches := sr_matches r @ map (raw_match q) hits, sr_counted := k + length hits\<rparr>)
     else Inl (Inr (r\<lparr>sr_matches := sr_matches r @ map (raw_match q) (take (m - k) hits), sr_counted := m + 1,
       sr_coverage := TruncatedAtLimit m\<rparr>)))"
  using assms
proof (induction q hits r rule: push_hits.induct)
  case (2 q hit hits r)
  let ?m = "qo_max_matches (rq_options q)" and ?k = "length (sr_matches r)"
  have ca: "checked_add (sr_counted r) 1 = Some (?k + 1)" using "2.prems" by simp
  have rn: "range_new (bm_start hit) (bm_end hit) = Inr (OffsetRange (bm_start hit) (bm_end hit))"
    using "2.prems"(1) by (simp add: range_new_def)
  show ?case
  proof (cases "?k = ?m")
    case True
    then show ?thesis using ca by (simp add: Let_def)
  next
    case False
    then have "?k < ?m" using "2.prems"(3) by simp
    moreover from this have "take (?m - ?k) (hit # hits) = hit # take (?m - Suc ?k) hits"
      by (simp add: take_Cons')
    ultimately show ?thesis using "2.IH" [OF ca refl _ _ rn] "2.prems" ca rn False
      by (simp add: Let_def raw_match_def)
  qed
qed (simp add: Let_def)

section \<open>The scan follows the chunks\<close>

definition scanning :: "raw_query \<Rightarrow> byte list list \<Rightarrow> byte list \<Rightarrow> search_cursor \<Rightarrow> search_result \<Rightarrow> bool" where
  "scanning q ds p c r \<longleftrightarrow>
     (let needle = rq_needle q; cross = qo_cross_chunk (rq_options q); found = so_far cross needle ds p in
      (if cross then follows needle 0 0 (concat ds @ p) c
       else follows needle (length (concat ds)) (length (hits_of needle 0 0 ds)) p c) \<and>
      \<not> bc_canceled c \<and> sr_matches r = map (raw_match q) found \<and> sr_counted r = length found \<and>
      length found \<le> qo_max_matches (rq_options q) \<and> sr_scanned r = length (concat ds) + length p \<and>
      sr_unsupported r = [] \<and> sr_coverage r = Exhaustive \<and>
      (\<forall>lim. qo_max_bytes (rq_options q) = Some lim \<longrightarrow> length (concat ds) + length p \<le> lim))"

text \<open>The result of a scan: the first hits that end within the scanned bytes, and an exact coverage.\<close>

definition reported :: "raw_query \<Rightarrow> byte list list \<Rightarrow> (nat \<Rightarrow> bool) \<Rightarrow> search_result \<Rightarrow> bool" where
  "reported q css canceled r \<longleftrightarrow>
     (let all = expected (qo_cross_chunk (rq_options q)) (rq_needle q) css;
          seen = filter (\<lambda>h. bm_end h \<le> sr_scanned r) all;
          max_matches = qo_max_matches (rq_options q) in
      sr_matches r = map (raw_match q) (take max_matches seen) \<and>
      sr_counted r = min (max_matches + 1) (length seen) \<and> sr_unsupported r = [] \<and>
      sr_scanned r \<le> length (concat css) \<and>
      (\<forall>lim. qo_max_bytes (rq_options q) = Some lim \<longrightarrow> sr_scanned r \<le> lim) \<and>
      (case sr_coverage r of
         Exhaustive \<Rightarrow> sr_scanned r = length (concat css) \<and> seen = all \<and> length all \<le> max_matches
       | TruncatedAtLimit m \<Rightarrow> m = max_matches \<and>
           (max_matches < length all \<or> max_matches = 0 \<and> css \<noteq> [] \<and> sr_scanned r = 0)
       | BudgetExhausted n \<Rightarrow> n = sr_scanned r \<and> n < length (concat css) \<and> length seen \<le> max_matches \<and>
           qo_max_bytes (rq_options q) = Some n
       | CanceledEarly \<Rightarrow> (\<exists>k. canceled k) \<and> length seen \<le> max_matches))"

lemma scanning_seen:
  assumes "scanning q ds p c r" "css = ds @ (p @ rest) # tail"
  shows "filter (\<lambda>h. bm_end h \<le> sr_scanned r) (expected (qo_cross_chunk (rq_options q)) (rq_needle q) css) =
      so_far (qo_cross_chunk (rq_options q)) (rq_needle q) ds p"
    and "rq_needle q \<noteq> []" and "sr_scanned r = length (concat ds @ p)" and "bc_scanned c = length (concat ds @ p)"
proof -
  show n: "rq_needle q \<noteq> []" using assms(1) by (auto simp: scanning_def follows_def Let_def split: if_splits)
  have "sr_scanned r = length (concat ds) + length p" using assms(1) by (simp add: scanning_def Let_def)
  with expected_filter [OF n] assms(2) show "filter (\<lambda>h. bm_end h \<le> sr_scanned r) (expected (qo_cross_chunk (rq_options q)) (rq_needle q) css) =
      so_far (qo_cross_chunk (rq_options q)) (rq_needle q) ds p" "sr_scanned r = length (concat ds @ p)" by simp_all
  show "bc_scanned c = length (concat ds @ p)"
    using assms(1) by (auto simp: scanning_def follows_def Let_def split: if_splits)
qed

text \<open>One step of the cursor inside the scan.\<close>

lemma scanning_step:
  assumes s: "scanning q ds p c r" and rest: "rest \<noteq> []" "0 < work" "0 < hb"
    and fits: "length (concat ds @ p @ rest) \<le> u64_max"
  shows "\<exists>batch c'. cursor_step c rest work hb = Some (Inr batch, c') \<and> 0 < sb_consumed batch \<and>
    sb_consumed batch \<le> length rest \<and> sb_consumed batch \<le> work \<and> length (sb_hits batch) \<le> hb \<and> \<not> bc_canceled c' \<and>
    (let p' = p @ take (sb_consumed batch) rest; cross = qo_cross_chunk (rq_options q); needle = rq_needle q in
     so_far cross needle ds p' = so_far cross needle ds p @ sb_hits batch \<and>
     (if cross then follows needle 0 0 (concat ds @ p') c'
      else follows needle (length (concat ds)) (length (hits_of needle 0 0 ds)) p' c') \<and>
     bc_scanned c' = length (concat ds @ p'))"
proof -
  let ?cross = "qo_cross_chunk (rq_options q)" and ?needle = "rq_needle q"
  let ?b = "if ?cross then 0 else length (concat ds)" and ?n = "if ?cross then 0 else length (hits_of ?needle 0 0 ds)"
  let ?xs = "if ?cross then concat ds @ p else p"
  have f: "follows ?needle ?b ?n ?xs c" "\<not> bc_canceled c"
    using s by (auto simp: scanning_def Let_def split: if_splits)
  have sc: "bc_scanned c = length (concat ds @ p)" using f(1) by (auto simp: follows_def split: if_splits)
  have "\<not> u64_max < bc_scanned c + min (min (length rest) work) max_stream_step_bytes"
    using fits sc by (simp add: not_less min_def)
  with cursor_step_ok [OF f, of rest work hb] rest obtain batch c' where
    b: "cursor_step c rest work hb = Some (Inr batch, c')"
      "follows ?needle ?b ?n (?xs @ take (sb_consumed batch) rest) c'" "\<not> bc_canceled c'"
      "hits_in ?needle ?b ?n (?xs @ take (sb_consumed batch) rest) = hits_in ?needle ?b ?n ?xs @ sb_hits batch"
      "sb_consumed batch \<le> min (min (length rest) work) max_stream_step_bytes"
      "length (sb_hits batch) \<le> min hb max_stream_batch_hits" "0 < sb_consumed batch" by blast
  have "bc_scanned c' = length (concat ds @ p @ take (sb_consumed batch) rest)"
    using b(2) by (auto simp: follows_def split: if_splits)
  with b show ?thesis
    by (intro exI [of _ batch] exI [of _ c'] conjI) (auto simp: Let_def so_far_def hits_of_append)
qed

text \<open>Leaving the scan at a checkpoint, and at the hit past the limit.\<close>

lemma scanning_reported:
  assumes s: "scanning q ds p c r" and css: "css = ds @ (p @ rest) # tail" and r': "r' = r\<lparr>sr_coverage := cov\<rparr>"
    and cov: "(cov = CanceledEarly \<and> (\<exists>k. canceled k)) \<or>
      (cov = BudgetExhausted (sr_scanned r) \<and> rest \<noteq> [] \<and> qo_max_bytes (rq_options q) = Some (sr_scanned r))"
  shows "reported q css canceled r'"
proof -
  note seen = scanning_seen [OF s css]
  have f: "sr_matches r = map (raw_match q) (so_far (qo_cross_chunk (rq_options q)) (rq_needle q) ds p)"
      "sr_counted r = length (so_far (qo_cross_chunk (rq_options q)) (rq_needle q) ds p)"
      "length (so_far (qo_cross_chunk (rq_options q)) (rq_needle q) ds p) \<le> qo_max_matches (rq_options q)"
      "sr_unsupported r = []" "\<forall>lim. qo_max_bytes (rq_options q) = Some lim \<longrightarrow> sr_scanned r \<le> lim"
    using s by (simp_all add: scanning_def Let_def)
  have "sr_scanned r \<le> length (concat css)" "rest \<noteq> [] \<Longrightarrow> sr_scanned r < length (concat css)"
    using seen(3) css by simp_all
  with f seen(1) cov r' show ?thesis by (elim disjE) (auto simp: reported_def Let_def)
qed

lemma truncated_reported:
  assumes needle: "rq_needle q \<noteq> []" and css: "css = ds @ (p @ rest) # tail"
    and found: "so_far (qo_cross_chunk (rq_options q)) (rq_needle q) ds p = old @ hits"
    and len: "length old \<le> qo_max_matches (rq_options q)" "length (old @ hits) = qo_max_matches (rq_options q) + 1"
    and lim: "\<forall>lim. qo_max_bytes (rq_options q) = Some lim \<longrightarrow> length (concat ds @ p) \<le> lim"
    and r': "sr_matches r' = map (raw_match q) old @ map (raw_match q) (take (qo_max_matches (rq_options q) - length old) hits)"
      "sr_counted r' = qo_max_matches (rq_options q) + 1" "sr_coverage r' = TruncatedAtLimit (qo_max_matches (rq_options q))"
      "sr_scanned r' = length (concat ds @ p)" "sr_unsupported r' = []"
  shows "reported q css canceled r'"
proof -
  obtain new where new: "expected (qo_cross_chunk (rq_options q)) (rq_needle q) css = (old @ hits) @ new"
    using expected_split [OF needle, of "qo_cross_chunk (rq_options q)" ds p rest tail] found css by auto
  have "filter (\<lambda>h. bm_end h \<le> sr_scanned r') (expected (qo_cross_chunk (rq_options q)) (rq_needle q) css) = old @ hits"
    using expected_filter [OF needle, of ds p "qo_cross_chunk (rq_options q)" rest tail] found css r'(4) by simp
  moreover have "sr_scanned r' \<le> length (concat css)" using r'(4) css by simp
  moreover have "qo_max_matches (rq_options q) < length (expected (qo_cross_chunk (rq_options q)) (rq_needle q) css)"
    using new len(2) by simp
  moreover have "map (raw_match q) (take (qo_max_matches (rq_options q)) (old @ hits)) = sr_matches r'"
    using len(1) r'(1) by (simp add: take_map)
  ultimately show ?thesis using lim r' len(2) by (simp add: reported_def Let_def)
qed

lemma scan_slice_ok:
  assumes "scanning q ds p c r" "css = ds @ (p @ rest) # tail" "length (concat css) \<le> u64_max"
  shows "\<exists>out. scan_slice canceled q rest c r polls = Some out \<and>
    (case out of Inl final \<Rightarrow> \<exists>r'. final = Inr r' \<and> reported q css canceled r'
     | Inr (c', r', polls') \<Rightarrow> scanning q ds (p @ rest) c' r')"
  using assms
proof (induction "length rest" arbitrary: rest p c r polls rule: less_induct)
  case less
  let ?opts = "rq_options q" and ?needle = "rq_needle q"
  let ?cross = "qo_cross_chunk ?opts" and ?max = "qo_max_matches ?opts"
  let ?lim = "case qo_max_bytes ?opts of Some n \<Rightarrow> n | None \<Rightarrow> u64_max"
  let ?found = "so_far ?cross ?needle ds p"
  let ?work = "min (?lim - bc_scanned c) max_stream_step_bytes"
  let ?hb = "min (saturating_add (?max - length (sr_matches r)) 1) max_stream_batch_hits"
  note seen = scanning_seen [OF less.prems(1,2)]
  have f: "sr_matches r = map (raw_match q) ?found" "sr_counted r = length ?found" "length ?found \<le> ?max"
      "sr_unsupported r = []" "sr_coverage r = Exhaustive" "\<forall>lim. qo_max_bytes ?opts = Some lim \<longrightarrow> sr_scanned r \<le> lim"
    using less.prems(1) by (simp_all add: scanning_def Let_def)
  have fits: "length (concat ds @ p @ rest) \<le> u64_max" using less.prems(2,3) by simp
  consider "rest = []" | "rest \<noteq> []" "canceled polls" | "rest \<noteq> []" "\<not> canceled polls" "?lim \<le> bc_scanned c"
    | "rest \<noteq> []" "\<not> canceled polls" "bc_scanned c < ?lim" by fastforce
  then show ?case
  proof cases
    case 1
    then show ?thesis using less.prems(1) by (subst scan_slice.simps) simp
  next
    case 2
    have "reported q css canceled (r\<lparr>sr_coverage := CanceledEarly\<rparr>)"
      using scanning_reported [OF less.prems(1,2) refl] 2 by blast
    with 2 show ?thesis by (subst scan_slice.simps) simp
  next
    case 3
    have "bc_scanned c < u64_max" using fits seen(4) 3(1) by (cases rest) auto
    then obtain lim where lim: "qo_max_bytes ?opts = Some lim" "lim \<le> bc_scanned c"
      using 3(3) by (cases "qo_max_bytes ?opts") auto
    moreover have "sr_scanned r = bc_scanned c" using seen(3,4) by simp
    ultimately have "qo_max_bytes ?opts = Some (sr_scanned r)" using f(6) by auto
    then have "reported q css canceled (r\<lparr>sr_coverage := BudgetExhausted (bc_scanned c)\<rparr>)"
      using scanning_reported [OF less.prems(1,2) refl] 3(1) \<open>sr_scanned r = bc_scanned c\<close> by simp
    moreover have "?lim - bc_scanned c = 0" using 3(3) by simp
    ultimately show ?thesis using 3(1,2) by (subst scan_slice.simps) (simp add: Let_def)
  next
    case 4
    have pos: "0 < ?work" "0 < ?hb"
      using 4(3) by (auto simp: max_stream_step_bytes_def max_stream_batch_hits_def saturating_add_def)
    from scanning_step [OF less.prems(1) 4(1) pos fits] obtain batch c' where
      b: "cursor_step c rest ?work ?hb = Some (Inr batch, c')" "0 < sb_consumed batch" "sb_consumed batch \<le> length rest"
        "sb_consumed batch \<le> ?work" "length (sb_hits batch) \<le> ?hb" "\<not> bc_canceled c'"
        and step: "so_far ?cross ?needle ds (p @ take (sb_consumed batch) rest) = ?found @ sb_hits batch"
          "if ?cross then follows ?needle 0 0 (concat ds @ p @ take (sb_consumed batch) rest) c'
           else follows ?needle (length (concat ds)) (length (hits_of ?needle 0 0 ds)) (p @ take (sb_consumed batch) rest) c'"
          "bc_scanned c' = length (concat ds @ p @ take (sb_consumed batch) rest)"
      unfolding Let_def by blast
    let ?p = "p @ take (sb_consumed batch) rest" and ?rest = "drop (sb_consumed batch) rest"
    let ?r1 = "r\<lparr>sr_scanned := bc_scanned c'\<rparr>"
    have css: "css = ds @ (?p @ ?rest) # tail" using less.prems(2) by simp
    have lim: "\<forall>lim. qo_max_bytes ?opts = Some lim \<longrightarrow> bc_scanned c' \<le> lim"
      using b(3,4) step(3) seen(4) 4(3) by auto
    have few: "length ?found + length (sb_hits batch) \<le> ?max + 1"
    proof -
      have "length (sb_hits batch) \<le> Suc (?max - length ?found)" using b(5) f(1) by (simp add: saturating_add_def)
      with f(3) show ?thesis by linarith
    qed
    have "length (so_far ?cross ?needle ds ?p) \<le> length (concat ds @ ?p)"
      using length_hits_of [of ?needle 0 0 "if ?cross then [concat ds @ ?p] else ds @ [?p]"]
      by (simp add: so_far_def split: if_splits)
    also have "\<dots> \<le> u64_max" using fits b(3) by simp
    finally have few64: "length ?found + length (sb_hits batch) \<le> u64_max" using step(1) by simp
    have ordered: "\<forall>h\<in>set (sb_hits batch). bm_start h \<le> bm_end h"
      using so_far_ends [OF seen(2), of _ ?cross ds ?p] step(1) by auto
    have push: "push_hits q (sb_hits batch) ?r1 =
      (if length ?found + length (sb_hits batch) \<le> ?max
       then Inr (?r1\<lparr>sr_matches := map (raw_match q) (?found @ sb_hits batch), sr_counted := length ?found + length (sb_hits batch)\<rparr>)
       else Inl (Inr (?r1\<lparr>sr_matches := sr_matches r @ map (raw_match q) (take (?max - length ?found) (sb_hits batch)),
         sr_counted := ?max + 1, sr_coverage := TruncatedAtLimit ?max\<rparr>)))"
      using push_hits_eq [OF ordered, of ?r1 q] f(1,2,3) few64 by (simp add: Let_def)
    have run: "scan_slice canceled q rest c r polls =
      (case push_hits q (sb_hits batch) ?r1 of Inl final \<Rightarrow> Some (Inl final)
       | Inr r2 \<Rightarrow> scan_slice canceled q ?rest c' r2 (polls + 1))"
      using 4 b(1) f(1,3) by (subst scan_slice.simps) (simp add: Let_def)
    show ?thesis
    proof (cases "length ?found + length (sb_hits batch) \<le> ?max")
      case True
      let ?r2 = "?r1\<lparr>sr_matches := map (raw_match q) (?found @ sb_hits batch), sr_counted := length ?found + length (sb_hits batch)\<rparr>"
      have "scanning q ds ?p c' ?r2"
        using True step lim f(4,5) b(6) by (simp add: scanning_def Let_def)
      moreover have "length ?rest < length rest" using b(2) 4(1) by (cases rest) auto
      ultimately have ih: "\<exists>out. scan_slice canceled q ?rest c' ?r2 (polls + 1) = Some out \<and>
          (case out of Inl final \<Rightarrow> \<exists>r'. final = Inr r' \<and> reported q css canceled r'
           | Inr (c', r', polls') \<Rightarrow> scanning q ds (?p @ ?rest) c' r')"
        using less.hyps [of ?rest ?p c' ?r2 "polls + 1"] css less.prems(3) by blast
      have whole: "?p @ ?rest = p @ rest" by simp
      have "scan_slice canceled q rest c r polls = scan_slice canceled q ?rest c' ?r2 (polls + 1)"
        using run push True by simp
      then show ?thesis using ih unfolding whole by (simp only:)
    next
      case False
      have "reported q css canceled (?r1\<lparr>sr_matches := sr_matches r @ map (raw_match q) (take (?max - length ?found) (sb_hits batch)),
         sr_counted := ?max + 1, sr_coverage := TruncatedAtLimit ?max\<rparr>)"
        by (rule truncated_reported [OF seen(2) css step(1) f(3)]) (use few False lim step(3) f(1,4) in auto)
      with run push False show ?thesis by simp
    qed
  qed
qed

lemma next_chunk:
  assumes "scanning q ds p c r"
  shows "scanning q (ds @ [p]) [] (if qo_cross_chunk (rq_options q) then c else break_match_continuity c) r"
proof (cases "qo_cross_chunk (rq_options q)")
  case True
  then show ?thesis using assms unfolding scanning_def Let_def so_far_def by auto
next
  case False
  have f: "follows (rq_needle q) (length (concat ds)) (length (hits_of (rq_needle q) 0 0 ds)) p c"
    using assms False by (simp add: scanning_def Let_def)
  then have "follows (rq_needle q) (length (concat (ds @ [p]))) (length (hits_of (rq_needle q) 0 0 (ds @ [p]))) []
      (break_match_continuity c)"
    using longest_Nil by (auto simp: follows_def break_match_continuity_def hits_of_append occurrences_def)
  moreover have "so_far False (rq_needle q) (ds @ [p]) [] = so_far False (rq_needle q) ds p"
    by (simp add: so_far_def hits_of_append occurrences_def)
  ultimately show ?thesis
    using assms False by (simp add: scanning_def Let_def break_match_continuity_def)
qed

lemma scan_raw_loop_ok:
  assumes "scanning q ds [] (if qo_cross_chunk (rq_options q) then c else break_match_continuity c) r"
    and "length (concat (ds @ rest)) \<le> u64_max"
  shows "\<exists>r'. scan_raw_loop canceled q (length (concat (ds @ rest))) (map Inr rest) (length (concat ds)) c r polls =
    Some (Inr r') \<and> reported q (ds @ rest) canceled r'"
  using assms
proof (induction rest arbitrary: ds c r polls)
  case Nil
  let ?c = "if qo_cross_chunk (rq_options q) then c else break_match_continuity c"
  note f = Nil.prems(1) [unfolded scanning_def Let_def]
  have "so_far (qo_cross_chunk (rq_options q)) (rq_needle q) ds [] = expected (qo_cross_chunk (rq_options q)) (rq_needle q) ds"
    by (simp add: so_far_def expected_def hits_of_append occurrences_def)
  moreover have "rq_needle q \<noteq> []" using f by (auto simp: follows_def split: if_splits)
  then have "filter (\<lambda>h. bm_end h \<le> length (concat ds)) (so_far (qo_cross_chunk (rq_options q)) (rq_needle q) ds []) =
      so_far (qo_cross_chunk (rq_options q)) (rq_needle q) ds []"
    using so_far_ends [of "rq_needle q" _ "qo_cross_chunk (rq_options q)" ds "[]"] by (intro filter_True) auto
  ultimately have "reported q ds canceled r"
    using f by (simp add: reported_def Let_def)
  then show ?case by simp
next
  case (Cons chunk rest)
  let ?c = "if qo_cross_chunk (rq_options q) then c else break_match_continuity c"
  have css: "ds @ chunk # rest = ds @ ([] @ chunk) # rest" by simp
  from scan_slice_ok [OF Cons.prems(1) css Cons.prems(2), of canceled polls] obtain out where
    out: "scan_slice canceled q chunk ?c r polls = Some out"
      "case out of Inl final \<Rightarrow> \<exists>r'. final = Inr r' \<and> reported q (ds @ chunk # rest) canceled r'
       | Inr (c', r', polls') \<Rightarrow> scanning q ds ([] @ chunk) c' r'" by blast
  have add: "checked_add (length (concat ds)) (length chunk) = Some (length (concat (ds @ [chunk])))"
    using Cons.prems(2) by simp
  show ?case
  proof (cases out)
    case (Inl final)
    then show ?thesis using out add by auto
  next
    case (Inr cr)
    obtain c' r' polls' where cr: "cr = (c', r', polls')" by (cases cr)
    have "scanning q (ds @ [chunk]) [] (if qo_cross_chunk (rq_options q) then c' else break_match_continuity c') r'"
      using next_chunk out(2) Inr cr by simp
    from Cons.IH [OF this, of polls'] Cons.prems(2) out(1) Inr cr add show ?thesis by simp
  qed
qed

text \<open>
  C5: The raw scan answers exactly, however the capture is chunked. For an admissible needle and the
  chunks of a capture with its true total, a scan with any cancellation behaviour never panics or
  hangs and never fails; it reports, in order, exactly the first hits, up to the limit, that end
  within the scanned bytes; and its coverage is honest: \<open>Exhaustive\<close> only when everything was scanned
  and every occurrence is reported, \<open>TruncatedAtLimit\<close> only when more occurrences exist (or none were
  asked for), \<open>BudgetExhausted\<close> only at the byte budget with bytes left, \<open>CanceledEarly\<close> only when the
  callback said so.
\<close>

theorem raw_scan_exact:
  assumes "validate_needle (rq_needle q) = Inr ()" "length (concat css) \<le> u64_max"
  shows "\<exists>r. scan_raw_chunks canceled (map Inr css) (length (concat css)) q = Some (Inr r) \<and>
    reported q css canceled r"
proof -
  have needle: "rq_needle q \<noteq> []" "length (rq_needle q) \<le> 65536"
    using assms(1) by (auto simp: validate_needle_def max_stream_needle_bytes_def split: if_splits)
  then obtain c where c: "cursor_new (rq_needle q) = Some (Inr c)"
    using failure_table_ok [OF needle(1)] by (auto simp: cursor_new_def max_stream_needle_bytes_def)
  have r0: "filter (\<lambda>h. bm_end h \<le> 0) (expected (qo_cross_chunk (rq_options q)) (rq_needle q) css) = []"
    using hits_of_after [OF needle(1)] by (fastforce simp: expected_def filter_empty_conv)
  consider "canceled 0" | "\<not> canceled 0" "qo_max_matches (rq_options q) = 0" "0 < length (concat css)"
    | "\<not> canceled 0" "\<not> (qo_max_matches (rq_options q) = 0 \<and> 0 < length (concat css))"
    by (cases "canceled 0"; cases "qo_max_matches (rq_options q) = 0 \<and> 0 < length (concat css)") auto
  then show ?thesis
  proof cases
    case 1
    then show ?thesis using c r0 by (auto simp: scan_raw_chunks_def Let_def reported_def result_empty_def)
  next
    case 2
    then have "css \<noteq> []" by auto
    with 2 c r0 show ?thesis by (auto simp: scan_raw_chunks_def Let_def reported_def result_empty_def)
  next
    case 3
    have "follows (rq_needle q) 0 0 [] c" "\<not> bc_canceled c"
      using cursor_new_ok(2) [OF c] by (auto simp: run_ok_def)
    moreover have "so_far (qo_cross_chunk (rq_options q)) (rq_needle q) [] [] = []"
      by (simp add: so_far_def occurrences_def)
    moreover have "follows (rq_needle q) 0 0 [] (break_match_continuity c)"
      using calculation(1) longest_Nil by (auto simp: follows_def break_match_continuity_def)
    ultimately have "scanning q [] [] (if qo_cross_chunk (rq_options q) then c else break_match_continuity c) (result_empty Exhaustive)"
      by (simp add: scanning_def Let_def result_empty_def break_match_continuity_def)
    from scan_raw_loop_ok [OF this, of css canceled 1] assms(2) 3 c show ?thesis
      by (auto simp: scan_raw_chunks_def Let_def)
  qed
qed

definition ex_query :: raw_query where
  "ex_query = \<lparr>rq_file = QId (ArenaOwnerId 1) 1, rq_revision = QId (ArenaOwnerId 1) 1, rq_needle = [97, 98],
     rq_options = (query_options_new (QId (ArenaOwnerId 1) 1))\<lparr>qo_mode := RawBytes, qo_max_matches := 1\<rparr>\<rparr>"

theorem raw_scan_exact_witness:
  "\<exists>r. scan_raw_chunks (\<lambda>_. False) (map Inr [[97], [98, 97, 98]]) (length (concat [[97], [98, 97, 98 :: byte]])) ex_query =
     Some (Inr r) \<and> reported ex_query [[97], [98, 97, 98]] (\<lambda>_. False) r"
proof (rule raw_scan_exact)
  show "validate_needle (rq_needle ex_query) = Inr ()"
    by (simp add: ex_query_def validate_needle_def max_stream_needle_bytes_def)
  show "length (concat [[97], [98, 97, 98 :: byte]]) \<le> u64_max" by (simp add: u64_max_val)
qed

end
