(* ===== verification/Wildcard.thy ===== *)
theory Wildcard
  imports Prelude
begin

text \<open>
  Matching of a sequence against a pattern with wildcards, as the ignore rules use it twice: for the
  bytes of one path segment and for the segments of a path. A pattern item either is a star, which
  takes any number of elements, or takes a number of elements that depends on the item only. The
  code keeps one saved star and resumes from the last one; \<open>tracks\<close> is the invariant of that loop,
  and the locale proves, once for both uses, that forgetting the earlier stars loses no match.
\<close>

fun wild :: "('p \<Rightarrow> bool) \<Rightarrow> ('p \<Rightarrow> 'c list \<Rightarrow> nat option) \<Rightarrow> 'p list \<Rightarrow> 'c list \<Rightarrow> bool" where
  "wild star takes [] xs = (xs = [])"
| "wild star takes (p # ps) xs =
     (if star p then (\<exists>k\<le>length xs. wild star takes ps (drop k xs))
      else (case takes p xs of None \<Rightarrow> False | Some w \<Rightarrow> wild star takes ps (drop w xs)))"

text \<open>The matches that begin after the position the saved star resumes from.\<close>

fun later :: "('p \<Rightarrow> bool) \<Rightarrow> ('p \<Rightarrow> 'c list \<Rightarrow> nat option) \<Rightarrow> 'p list \<Rightarrow> 'c list \<Rightarrow> (nat \<times> nat) option \<Rightarrow> bool" where
  "later star takes ps xs None = False"
| "later star takes ps xs (Some (r, c)) =
     (\<exists>k. c < k \<and> k \<le> length xs \<and> wild star takes (drop r ps) (drop k xs))"

text \<open>The items between the saved star and the cursor took exactly the elements between them.\<close>

fun saved_ok :: "('p \<Rightarrow> bool) \<Rightarrow> ('p \<Rightarrow> nat) \<Rightarrow> 'p list \<Rightarrow> nat \<Rightarrow> nat \<Rightarrow> (nat \<times> nat) option \<Rightarrow> bool" where
  "saved_ok star width ps p s None = True"
| "saved_ok star width ps p s (Some (r, c)) =
     (r \<le> p \<and> c \<le> s \<and> (\<forall>q\<in>set (take (p - r) (drop r ps)). \<not> star q) \<and>
      s = c + sum_list (map width (take (p - r) (drop r ps))))"

definition tracks ::
  "('p \<Rightarrow> bool) \<Rightarrow> ('p \<Rightarrow> 'c list \<Rightarrow> nat option) \<Rightarrow> ('p \<Rightarrow> nat) \<Rightarrow> 'p list \<Rightarrow> 'c list \<Rightarrow>
   nat \<Rightarrow> nat \<Rightarrow> (nat \<times> nat) option \<Rightarrow> bool" where
  "tracks star takes width ps xs p s saved \<longleftrightarrow>
     p \<le> length ps \<and> s \<le> length xs \<and> saved_ok star width ps p s saved \<and>
     (wild star takes ps xs \<longleftrightarrow>
      wild star takes (drop p ps) (drop s xs) \<or> later star takes ps xs saved)"

lemma tracks_start: "tracks star takes width ps xs 0 0 None"
  by (simp add: tracks_def)

lemma tracks_done:
  "tracks star takes width ps xs (length ps) (length xs) saved \<Longrightarrow> wild star takes ps xs"
  by (simp add: tracks_def)

lemma tracks_fail:
  "tracks star takes width ps xs p s saved \<Longrightarrow> \<not> wild star takes (drop p ps) (drop s xs) \<Longrightarrow>
   \<not> later star takes ps xs saved \<Longrightarrow> \<not> wild star takes ps xs"
  by (simp add: tracks_def)

lemma tracks_resume:
  assumes t: "tracks star takes width ps xs p s (Some (r, c))"
    and stuck: "\<not> wild star takes (drop p ps) (drop s xs)" and c: "c < length xs"
  shows "tracks star takes width ps xs r (c + 1) (Some (r, c + 1))"
proof -
  have "later star takes ps xs (Some (r, c)) \<longleftrightarrow>
      wild star takes (drop r ps) (drop (c + 1) xs) \<or> later star takes ps xs (Some (r, c + 1))"
  proof
    assume "later star takes ps xs (Some (r, c))"
    then obtain k where k: "c < k" "k \<le> length xs" "wild star takes (drop r ps) (drop k xs)" by auto
    show "wild star takes (drop r ps) (drop (c + 1) xs) \<or> later star takes ps xs (Some (r, c + 1))"
      using k by (cases "k = c + 1") auto
  next
    assume "wild star takes (drop r ps) (drop (c + 1) xs) \<or> later star takes ps xs (Some (r, c + 1))"
    then show "later star takes ps xs (Some (r, c))"
    proof
      assume "wild star takes (drop r ps) (drop (c + 1) xs)"
      then show ?thesis using c unfolding later.simps by (intro exI [of _ "c + 1"]) simp
    next
      assume "later star takes ps xs (Some (r, c + 1))"
      then obtain k where "c + 1 < k" "k \<le> length xs" "wild star takes (drop r ps) (drop k xs)" by auto
      then show ?thesis unfolding later.simps by (intro exI [of _ k]) simp
    qed
  qed
  then show ?thesis using t stuck c by (auto simp: tracks_def simp del: later.simps)
qed

locale fixed_width_items =
  fixes star :: "'p \<Rightarrow> bool" and takes :: "'p \<Rightarrow> 'c list \<Rightarrow> nat option" and width :: "'p \<Rightarrow> nat"
  assumes takes_width: "takes p xs = Some w \<Longrightarrow> w = width p \<and> w \<le> length xs"
begin

lemma through_star:
  assumes "wild star takes (seg @ p # ps) xs" "star p" "\<forall>q\<in>set seg. \<not> star q"
  shows "\<exists>k\<ge>sum_list (map width seg). k \<le> length xs \<and> wild star takes ps (drop k xs)"
  using assms
proof (induction seg arbitrary: xs)
  case Nil
  then show ?case by auto
next
  case (Cons q seg)
  then obtain w where w: "takes q xs = Some w" and tl: "wild star takes (seg @ p # ps) (drop w xs)"
    by (auto split: option.splits)
  from Cons.IH [OF tl] Cons.prems obtain k where k: "sum_list (map width seg) \<le> k"
    "k \<le> length (drop w xs)" "wild star takes ps (drop k (drop w xs))" by auto
  have "w = width q" "w \<le> length xs" using takes_width [OF w] by simp_all
  then show ?case using k by (intro exI [of _ "w + k"]) (simp add: add.commute)
qed

lemma tracks_star:
  assumes t: "tracks star takes width ps xs p s saved" and p: "p < length ps" "star (ps ! p)"
  shows "tracks star takes width ps xs (p + 1) s (Some (p + 1, s))"
proof -
  have cons: "drop p ps = ps ! p # drop (p + 1) ps" using p by (simp add: Cons_nth_drop_Suc)
  have here: "wild star takes (drop p ps) (drop s xs) \<longleftrightarrow>
      (\<exists>k\<ge>s. k \<le> length xs \<and> wild star takes (drop (p + 1) ps) (drop k xs))" (is "?l \<longleftrightarrow> ?r")
  proof
    assume ?l
    then obtain k where "k \<le> length xs - s" "wild star takes (drop (p + 1) ps) (drop k (drop s xs))"
      using p by (auto simp: cons)
    moreover have "s \<le> length xs" using t by (simp add: tracks_def)
    ultimately show ?r by (intro exI [of _ "s + k"]) (simp add: add.commute)
  next
    assume ?r
    then obtain k where k: "s \<le> k" "k \<le> length xs" "wild star takes (drop (p + 1) ps) (drop k xs)" by blast
    then have "wild star takes (drop (p + 1) ps) (drop (k - s) (drop s xs))" by simp
    moreover have "k - s \<le> length (drop s xs)" using k by simp
    ultimately show ?l using p unfolding cons wild.simps by auto
  qed
  have "wild star takes (drop p ps) (drop s xs)" if alt: "later star takes ps xs saved"
  proof (cases saved)
    case (Some rc)
    obtain r c where rc: "rc = (r, c)" by fastforce
    let ?seg = "take (p - r) (drop r ps)"
    obtain k where k: "c < k" "k \<le> length xs" "wild star takes (drop r ps) (drop k xs)"
      using alt unfolding Some rc later.simps by blast
    have s: "saved_ok star width ps p s (Some (r, c))" using t Some rc by (simp add: tracks_def)
    have "drop r ps = ?seg @ drop (p - r) (drop r ps)" by (simp only: append_take_drop_id)
    then have "drop r ps = ?seg @ drop p ps" using s by simp
    then have "wild star takes (?seg @ ps ! p # drop (p + 1) ps) (drop k xs)" using k(3) cons by simp
    from through_star [OF this p(2)] s obtain j where
      "sum_list (map width ?seg) \<le> j" "j \<le> length (drop k xs)"
      "wild star takes (drop (p + 1) ps) (drop j (drop k xs))" by auto
    then have "s \<le> k + j" "k + j \<le> length xs" "wild star takes (drop (p + 1) ps) (drop (k + j) xs)"
      using s k by (simp_all add: add.commute)
    then show ?thesis using here by blast
  qed (use alt in simp)
  then have "wild star takes ps xs \<longleftrightarrow> (\<exists>k\<ge>s. k \<le> length xs \<and> wild star takes (drop (p + 1) ps) (drop k xs))"
    using t here by (auto simp: tracks_def)
  also have "\<dots> \<longleftrightarrow> wild star takes (drop (p + 1) ps) (drop s xs) \<or> later star takes ps xs (Some (p + 1, s))"
    using t by (auto simp: tracks_def le_less)
  finally show ?thesis using t p by (simp add: tracks_def del: later.simps)
qed

lemma tracks_take:
  assumes t: "tracks star takes width ps xs p s saved" and p: "p < length ps" "\<not> star (ps ! p)"
    and w: "takes (ps ! p) (drop s xs) = Some w"
  shows "tracks star takes width ps xs (p + 1) (s + w) saved"
proof -
  have cons: "drop p ps = ps ! p # drop (p + 1) ps" using p by (simp add: Cons_nth_drop_Suc)
  have ww: "w = width (ps ! p)" "w \<le> length xs - s" using takes_width [OF w] by simp_all
  have "wild star takes (drop p ps) (drop s xs) = wild star takes (drop (p + 1) ps) (drop (s + w) xs)"
    using p w by (simp add: cons add.commute)
  moreover have "saved_ok star width ps (p + 1) (s + w) saved"
  proof (cases saved)
    case (Some rc)
    obtain r c where rc: "rc = (r, c)" by fastforce
    have s: "saved_ok star width ps p s (Some (r, c))" using t Some rc by (simp add: tracks_def)
    have r: "r \<le> p" using s by simp
    have "take (Suc (p - r)) (drop r ps) = take (p - r) (drop r ps) @ [drop r ps ! (p - r)]"
      using r p(1) by (intro take_Suc_conv_app_nth) simp
    then have "take (p + 1 - r) (drop r ps) = take (p - r) (drop r ps) @ [ps ! p]"
      using r p(1) by (simp add: Suc_diff_le)
    then show ?thesis using s p ww Some rc by auto
  qed simp
  ultimately show ?thesis using t p ww by (auto simp: tracks_def)
qed

lemma not_taken:
  assumes "p < length ps \<Longrightarrow> \<not> star (ps ! p) \<and> takes (ps ! p) (drop s xs) = None"
    and "p = length ps \<Longrightarrow> s < length xs"
    and "p \<le> length ps"
  shows "\<not> wild star takes (drop p ps) (drop s xs)"
proof (cases "p < length ps")
  case True
  then have "drop p ps = ps ! p # drop (p + 1) ps" by (simp add: Cons_nth_drop_Suc)
  then show ?thesis using assms(1) True by simp
qed (use assms in auto)

end

text \<open>
  A bound on the iterations left of the loop over a sequence of \<open>n\<close> elements and a pattern of \<open>m\<close>
  items: the saved position only moves forward, and between two resumptions the cursor does.
\<close>

fun moves_left :: "nat \<Rightarrow> nat \<Rightarrow> nat \<Rightarrow> (nat \<times> nat) option \<Rightarrow> nat" where
  "moves_left n m p None = (n + 1) * (m + 1) + (m - p) + 1"
| "moves_left n m p (Some (r, c)) = (n - c) * (m + 1) + (m - p) + 1"

lemma moves_left_pos: "0 < moves_left n m p saved"
  by (cases "(n, m, p, saved)" rule: moves_left.cases) simp_all

lemma moves_left_take: "p < m \<Longrightarrow> moves_left n m (p + 1) saved + 1 \<le> moves_left n m p saved"
  by (cases saved) auto

lemma moves_left_star:
  assumes "p < m" "\<And>r c. saved = Some (r, c) \<Longrightarrow> c \<le> s"
  shows "moves_left n m (p + 1) (Some (p + 1, s)) + 1 \<le> moves_left n m p saved"
proof (cases saved)
  case None
  have "(n - s) * (m + 1) \<le> (n + 1) * (m + 1)" by (rule mult_le_mono1) simp
  then show ?thesis using None assms(1) by simp
next
  case (Some rc)
  obtain r c where rc: "rc = (r, c)" by fastforce
  have "(n - s) * (m + 1) \<le> (n - c) * (m + 1)" using assms(2) Some rc by (intro mult_le_mono1) auto
  moreover have "m - (p + 1) + 1 \<le> m - p" using assms(1) by simp
  ultimately show ?thesis unfolding Some rc moves_left.simps by linarith
qed

lemma moves_left_resume:
  assumes "c < n"
  shows "moves_left n m r (Some (r, c + 1)) + 1 \<le> moves_left n m p (Some (r, c))"
proof -
  obtain d where "n = c + 1 + d" using assms by (metis less_natE add.commute add.left_commute plus_1_eq_Suc)
  then have "(n - c) * (m + 1) = (n - (c + 1)) * (m + 1) + (m + 1)" by simp
  then show ?thesis unfolding moves_left.simps by linarith
qed

section \<open>Work allowances\<close>

datatype ignore_work_error = PathLimit | WorkLimit

text \<open>\<open>spend\<close> on \<open>&mut remaining\<close>: a refusal empties the allowance.\<close>

definition spend :: "nat \<Rightarrow> nat \<Rightarrow> (ignore_work_error + unit) \<times> nat" where
  "spend remaining amount =
     (if remaining < amount then (Inl WorkLimit, 0) else (Inr (), remaining - amount))"

text \<open>
  A computation under a work allowance either is refused, and then the allowance was below the cost,
  or it returns the given answer and spends at most the cost.
\<close>

definition within :: "'v \<Rightarrow> nat \<Rightarrow> nat \<Rightarrow> (ignore_work_error + 'v) \<times> nat \<Rightarrow> bool" where
  "within v cost allowance res =
     (case res of
        (Inl e, r) \<Rightarrow> e = WorkLimit \<and> allowance < cost
      | (Inr w, r) \<Rightarrow> w = v \<and> r \<le> allowance \<and> allowance \<le> r + cost)"

lemma within_mono: "within v cost a res \<Longrightarrow> cost \<le> cost' \<Longrightarrow> within v cost' a res"
  by (auto simp: within_def split: prod.splits sum.splits)

lemma within_after:
  "within v cost r res \<Longrightarrow> r \<le> a \<Longrightarrow> a \<le> r + step \<Longrightarrow> step + cost \<le> total_cost \<Longrightarrow> within v total_cost a res"
  by (auto simp: within_def split: prod.splits sum.splits)

lemma within_Inr [simp]: "within v cost a (Inr w, r) \<longleftrightarrow> w = v \<and> r \<le> a \<and> a \<le> r + cost"
  by (simp add: within_def)

lemma within_Inl [simp]: "within v cost a (Inl e, r) \<longleftrightarrow> e = WorkLimit \<and> a < cost"
  by (simp add: within_def)

text \<open>
  The loop of the code over a fixed pattern and sequence: every turn spends one unit, an item is
  tried at a bounded cost, and a failed item resumes from the saved star.
\<close>

locale backtracking = fixed_width_items star takes width
  for star :: "'p \<Rightarrow> bool" and takes :: "'p \<Rightarrow> 'c list \<Rightarrow> nat option" and width :: "'p \<Rightarrow> nat" +
  fixes ps :: "'p list" and xs :: "'c list" and cost :: nat
    and attempt :: "nat \<Rightarrow> nat \<Rightarrow> nat \<Rightarrow> (ignore_work_error + nat option) \<times> nat"
    and loop :: "nat \<Rightarrow> nat \<Rightarrow> (nat \<times> nat) option \<Rightarrow> nat \<Rightarrow> (ignore_work_error + bool) \<times> nat"
  assumes attempt_within: "\<lbrakk>p < length ps; \<not> star (ps ! p); s \<le> length xs\<rbrakk> \<Longrightarrow>
      within (takes (ps ! p) (drop s xs)) cost a (attempt p s a)"
    and loop_0: "\<exists>r. loop p s saved 0 = (Inl WorkLimit, r)"
    and loop_Suc: "loop p s saved (Suc a) =
      (if p = length ps \<and> s = length xs then (Inr True, a)
       else if p < length ps \<and> star (ps ! p) then loop (p + 1) s (Some (p + 1, s)) a
       else (case (if p < length ps then attempt p s a else (Inr None, a)) of
          (Inl e, r) \<Rightarrow> (Inl e, r)
        | (Inr (Some w), r) \<Rightarrow> loop (p + 1) (s + w) saved r
        | (Inr None, r) \<Rightarrow>
            (case saved of
               Some (resume, consumed) \<Rightarrow>
                 if consumed < length xs then loop resume (consumed + 1) (Some (resume, consumed + 1)) r
                 else (Inr False, r)
             | None \<Rightarrow> (Inr False, r))))"
begin

lemma cost_dec:
  "moves_left n m p' saved' + 1 \<le> moves_left n m p saved \<Longrightarrow>
   cost + 1 + (cost + 1) * moves_left n m p' saved' \<le> (cost + 1) * moves_left n m p saved"
  by (metis add.commute mult.right_neutral distrib_left mult_le_mono2)

lemma cost_step: "cost + 1 \<le> (cost + 1) * moves_left n m p saved"
  using moves_left_pos [of n m p saved] mult_le_mono2 [of 1 "moves_left n m p saved" "cost + 1"] by simp

lemma loop_within:
  assumes "tracks star takes width ps xs p s saved"
  shows "within (wild star takes ps xs) ((cost + 1) * moves_left (length xs) (length ps) p saved) a
    (loop p s saved a)"
  using assms
proof (induction a arbitrary: p s saved rule: less_induct)
  case (less a)
  note t = less.prems
  have le: "p \<le> length ps" "s \<le> length xs" using t by (simp_all add: tracks_def)
  let ?cost = "\<lambda>p saved. (cost + 1) * moves_left (length xs) (length ps) p saved"
  have step: "cost + 1 \<le> ?cost p saved" by (rule cost_step)
  show ?case
  proof (cases a)
    case 0
    obtain r where "loop p s saved 0 = (Inl WorkLimit, r)" using loop_0 by blast
    moreover have "0 < ?cost p saved" using step by linarith
    ultimately show ?thesis using 0 by (simp only: within_Inl simp_thms)
  next
    case (Suc b)
    have ba: "b \<le> a" "a \<le> b + (cost + 1)" using Suc by simp_all
    have resume: "within (wild star takes ps xs) (?cost p saved) a
        (case saved of
           Some (resume, consumed) \<Rightarrow>
             if consumed < length xs then loop resume (consumed + 1) (Some (resume, consumed + 1)) r
             else (Inr False, r)
         | None \<Rightarrow> (Inr False, r))"
      if r: "r < a" "a \<le> r + (cost + 1)" and stuck: "\<not> wild star takes (drop p ps) (drop s xs)" for r
    proof (cases "\<exists>i c. saved = Some (i, c) \<and> c < length xs")
      case True
      then obtain i c where sv: "saved = Some (i, c)" "c < length xs" by blast
      have "within (wild star takes ps xs) (?cost i (Some (i, c + 1))) r
          (loop i (c + 1) (Some (i, c + 1)) r)"
        using r t stuck sv by (intro less.IH tracks_resume) auto
      moreover have "cost + 1 + ?cost i (Some (i, c + 1)) \<le> ?cost p saved"
        unfolding sv(1) by (intro cost_dec moves_left_resume sv)
      ultimately have "within (wild star takes ps xs) (?cost p saved) a (loop i (c + 1) (Some (i, c + 1)) r)"
        by (rule within_after [OF _ less_imp_le [OF r(1)] r(2)])
      then show ?thesis using sv by simp
    next
      case False
      then have "\<not> later star takes ps xs saved"
        by (cases "(star, takes, ps, xs, saved)" rule: later.cases) auto
      then have "\<not> wild star takes ps xs" using t stuck tracks_fail by blast
      moreover have "a \<le> r + ?cost p saved" using r(2) step order_trans add_left_mono by blast
      ultimately show ?thesis using False r by (auto split: option.splits)
    qed
    consider (finished) "p = length ps \<and> s = length xs"
      | (star) "p < length ps" "star (ps ! p)"
      | (item) "p < length ps" "\<not> star (ps ! p)"
      | (spare) "p = length ps" "s < length xs" using le by linarith
    then show ?thesis
    proof cases
      case finished
      then have "wild star takes ps xs" using t tracks_done by blast
      then show ?thesis using finished Suc step by (simp add: loop_Suc)
    next
      case star
      have "within (wild star takes ps xs) (?cost (p + 1) (Some (p + 1, s))) b
          (loop (p + 1) s (Some (p + 1, s)) b)"
        using Suc star t by (intro less.IH tracks_star) auto
      moreover have "cost + 1 + ?cost (p + 1) (Some (p + 1, s)) \<le> ?cost p saved"
        using star t by (intro cost_dec moves_left_star) (auto simp: tracks_def)
      ultimately have "within (wild star takes ps xs) (?cost p saved) a (loop (p + 1) s (Some (p + 1, s)) b)"
        by (rule within_after [OF _ ba])
      then show ?thesis using Suc star by (simp add: loop_Suc)
    next
      case item
      obtain v r where attempt: "attempt p s b = (v, r)" by fastforce
      have v: "within (takes (ps ! p) (drop s xs)) cost b (v, r)"
        using attempt_within [OF item le(2)] attempt by metis
      show ?thesis
      proof (cases v)
        case (Inl e)
        then have "e = WorkLimit" "a < ?cost p saved" using v step Suc by simp_all
        then show ?thesis using Suc item attempt Inl by (simp add: loop_Suc)
      next
        case (Inr taken)
        have taken: "taken = takes (ps ! p) (drop s xs)" "r < a" "a \<le> r + (cost + 1)"
          using v Suc Inr by auto
        show ?thesis
        proof (cases taken)
          case None
          have "\<not> wild star takes (drop p ps) (drop s xs)"
            using item taken None le by (intro not_taken) auto
          then show ?thesis using resume [OF taken(2,3)] Suc item attempt Inr None by (simp add: loop_Suc)
        next
          case (Some w)
          have "within (wild star takes ps xs) (?cost (p + 1) saved) r (loop (p + 1) (s + w) saved r)"
            using taken item t Some by (intro less.IH tracks_take) auto
          moreover have "cost + 1 + ?cost (p + 1) saved \<le> ?cost p saved"
            using item by (intro cost_dec moves_left_take)
          ultimately have "within (wild star takes ps xs) (?cost p saved) a (loop (p + 1) (s + w) saved r)"
            by (rule within_after [OF _ less_imp_le [OF taken(2)] taken(3)])
          then show ?thesis using Suc item attempt Inr Some by (simp add: loop_Suc)
        qed
      qed
    next
      case spare
      have "\<not> wild star takes (drop p ps) (drop s xs)"
        using spare by (intro not_taken) auto
      then show ?thesis using resume [of b] Suc spare by (simp add: loop_Suc)
    qed
  qed
qed

lemma from_start:
  "within (wild star takes ps xs) ((cost + 1) * moves_left (length xs) (length ps) 0 None) a (loop 0 0 None a)"
  by (rule loop_within [OF tracks_start])

end

end
