(* ===== verification/Ignore_Rules.thy ===== *)
theory Ignore_Rules
  imports Paths Wildcard
begin

text \<open>
  The ignore rules of \<open>crates/fcb-source/src/ignore.rs\<close> and the work-accounted matcher of
  \<open>ignore/budget.rs\<close>: rule lines are compiled to atoms, a path is classified by the last rule that
  matches it, and deliberate browse overrides set default and scope rules aside. A \<open>&str\<close> is given
  by its bytes; every operation on it in the code looks at ASCII bytes only. The work allowance is a
  counter that every loop of the matcher spends from, so the loops end with it.
\<close>

section \<open>Rules\<close>

datatype unsupported_reason = UnclosedClass | DanglingEscape | EmptyPattern

datatype ignore_layer = LayerDefaultPolicy | LayerRuleFile | LayerScope

datatype exclusion_cause = CauseDefaultPolicy | CauseRuleFile | CauseScope

datatype ignore_decision = Include | Exclude exclusion_cause

datatype seg_atom = Lit "byte list" | Star | Ques | ByteClass bool "byte list"

datatype seg_pat = GlobStar | Atoms "seg_atom list"

record compiled_pattern =
  cp_raw :: "byte list"
  cp_layer :: ignore_layer
  cp_negated :: bool
  cp_directory_only :: bool
  cp_basename_only :: bool
  cp_prefix :: "byte list list"
  cp_segs :: "seg_pat list"

record unsupported_pattern =
  up_raw :: "byte list"
  up_layer :: ignore_layer
  up_reason :: unsupported_reason

record ignore_matcher =
  im_patterns :: "compiled_pattern list"
  im_unsupported :: "unsupported_pattern list"
  im_overrides :: "byte list list list"
  im_excluded :: nat

definition is_excluded :: "ignore_decision \<Rightarrow> bool" where
  "is_excluded d = (case d of Exclude _ \<Rightarrow> True | Include \<Rightarrow> False)"

section \<open>Compiling a rule line\<close>

text \<open>\<open>is_escaped\<close>: an odd number of backslashes stands right before the index.\<close>

fun slashes_before :: "byte list \<Rightarrow> nat \<Rightarrow> nat" where
  "slashes_before bytes 0 = 0"
| "slashes_before bytes (Suc i) = (if bytes ! i = backslash then Suc (slashes_before bytes i) else 0)"

definition is_escaped :: "byte list \<Rightarrow> nat \<Rightarrow> bool" where
  "is_escaped bytes i \<longleftrightarrow> odd (slashes_before bytes i)"

text \<open>The loop on \<open>end\<close>; \<open>Suc n\<close> is a positive \<open>end\<close>.\<close>

fun trimmed_end :: "byte list \<Rightarrow> nat \<Rightarrow> nat" where
  "trimmed_end bytes 0 = 0"
| "trimmed_end bytes (Suc n) =
     (if bytes ! n = 32 then
        (if Suc n \<ge> 2 \<and> bytes ! (Suc n - 2) = backslash \<and> \<not> is_escaped bytes (Suc n - 2) then Suc n
         else trimmed_end bytes n)
      else Suc n)"

definition strip_unescaped_trailing_spaces :: "byte list \<Rightarrow> byte list" where
  "strip_unescaped_trailing_spaces line = take (trimmed_end line (length line)) line"

text \<open>\<open>for b in start_b..=end_b\<close>, the bounds in either order.\<close>

definition byte_span :: "byte \<Rightarrow> byte \<Rightarrow> byte list" where
  "byte_span lo hi = map of_nat [min (unat lo) (unat hi)..<max (unat lo) (unat hi) + 1]"

function class_loop :: "byte list \<Rightarrow> nat \<Rightarrow> byte list \<Rightarrow> unsupported_reason + (byte list \<times> nat)" where
  "class_loop bytes i acc =
     (if i < length bytes \<and> bytes ! i \<noteq> slash then
        (if bytes ! i = backslash then
           (if i + 1 \<ge> length bytes then Inl DanglingEscape
            else class_loop bytes (i + 2) (acc @ [bytes ! (i + 1)]))
         else if bytes ! i = 93 \<and> acc \<noteq> [] then Inr (acc, i + 1)
         else if i + 2 < length bytes \<and> bytes ! (i + 1) = 45 \<and> bytes ! (i + 2) \<noteq> 93 then
           class_loop bytes (i + 3) (acc @ byte_span (bytes ! i) (bytes ! (i + 2)))
         else class_loop bytes (i + 1) (acc @ [bytes ! i]))
      else Inl UnclosedClass)"
  by pat_completeness auto
termination by (relation "measure (\<lambda>(bytes, i, acc). length bytes - i)") auto

declare class_loop.simps [simp del]

definition compile_class :: "byte list \<Rightarrow> nat \<Rightarrow> unsupported_reason + (seg_atom \<times> nat)" where
  "compile_class bytes start =
     (let i = start + 1 in
      if i \<ge> length bytes then Inl UnclosedClass
      else
        let negated = bytes ! i = 33 \<or> bytes ! i = 94;
            i1 = (if negated then i + 1 else i) in
        map_sum id (\<lambda>(cls, next). (ByteClass negated cls, next)) (class_loop bytes i1 []))"

text \<open>\<open>while i < bytes.len() && bytes[i] == b'*'\<close>\<close>

definition skip_stars :: "byte list \<Rightarrow> nat \<Rightarrow> nat" where
  "skip_stars bytes i = i + length (takeWhile (\<lambda>b. b = 42) (drop i bytes))"

definition flush_lit :: "byte list \<Rightarrow> seg_atom list \<Rightarrow> seg_atom list" where
  "flush_lit lit atoms = (if lit \<noteq> [] then atoms @ [Lit lit] else atoms)"

lemma class_loop_next: "class_loop bytes i acc = Inr (cls, next) \<Longrightarrow> i < next \<and> next \<le> length bytes"
proof (induction "length bytes - i" arbitrary: i acc rule: less_induct)
  case less
  from less.prems [unfolded class_loop.simps [of bytes i acc]] show ?case
    by (simp split: if_splits) (drule less.hyps [rotated], linarith, linarith)+
qed

lemma compile_class_next: "compile_class bytes i = Inr (c, next) \<Longrightarrow> i < next \<and> next \<le> length bytes"
  by (cases "class_loop bytes (if bytes ! (i + 1) = 33 \<or> bytes ! (i + 1) = 94 then i + 2 else i + 1) []")
    (auto simp: compile_class_def Let_def split: if_splits dest!: class_loop_next)

lemma skip_stars_next: "i < length bytes \<Longrightarrow> bytes ! i = 42 \<Longrightarrow> i < skip_stars bytes i"
  by (simp add: skip_stars_def Cons_nth_drop_Suc [symmetric])

lemma skip_stars_le: "i \<le> length bytes \<Longrightarrow> skip_stars bytes i \<le> length bytes"
  using length_takeWhile_le [of "\<lambda>b. b = 42" "drop i bytes"] by (simp add: skip_stars_def)

function atoms_loop ::
  "byte list \<Rightarrow> nat \<Rightarrow> byte list \<Rightarrow> seg_atom list \<Rightarrow> unsupported_reason + (seg_atom list \<times> nat)" where
  "atoms_loop bytes i lit atoms =
     (if i < length bytes \<and> bytes ! i \<noteq> slash then
        (if bytes ! i = backslash then
           (if i + 1 \<ge> length bytes then Inl DanglingEscape
            else atoms_loop bytes (i + 2) (lit @ [bytes ! (i + 1)]) atoms)
         else if bytes ! i = 42 then atoms_loop bytes (skip_stars bytes i) [] (flush_lit lit atoms @ [Star])
         else if bytes ! i = 63 then atoms_loop bytes (i + 1) [] (flush_lit lit atoms @ [Ques])
         else if bytes ! i = 91 then
           (case compile_class bytes i of
              Inl e \<Rightarrow> Inl e
            | Inr (cls, next) \<Rightarrow> atoms_loop bytes next [] (flush_lit lit atoms @ [cls]))
         else atoms_loop bytes (i + 1) (lit @ [bytes ! i]) atoms)
      else Inr (flush_lit lit atoms, i))"
  by pat_completeness auto
termination
  by (relation "measure (\<lambda>(bytes, i, lit, atoms). length bytes - i)")
    (auto dest: compile_class_next intro: diff_less_mono2 skip_stars_next)

declare atoms_loop.simps [simp del]

definition compile_segment_atoms :: "byte list \<Rightarrow> nat \<Rightarrow> unsupported_reason + (seg_atom list \<times> nat)" where
  "compile_segment_atoms bytes start = atoms_loop bytes start [] []"

lemma atoms_loop_next:
  "atoms_loop bytes i lit atoms = Inr (as, next) \<Longrightarrow> i \<le> next \<and>
     (i < length bytes \<longrightarrow> bytes ! i \<noteq> slash \<longrightarrow> i < next)"
proof (induction "length bytes - i" arbitrary: i lit atoms rule: less_induct)
  case less
  show ?case
  proof (cases "i < length bytes \<and> bytes ! i \<noteq> slash")
    case in_seg: True
    have later: "i < next" if "atoms_loop bytes k l a = Inr (as, next)" "i < k" for k l a
      using less.hyps [OF _ that(1)] that(2) in_seg by fastforce
    show ?thesis
      using less.prems [unfolded atoms_loop.simps [of bytes i lit atoms]] in_seg later
        skip_stars_next [of i bytes] compile_class_next [of bytes i]
      by (auto split: if_splits sum.splits) (meson lessI less_SucI nat_less_le later)+
  next
    case False
    then show ?thesis using less.prems by (auto simp: atoms_loop.simps [of bytes i])
  qed
qed

function segments_loop :: "byte list \<Rightarrow> nat \<Rightarrow> seg_pat list \<Rightarrow> unsupported_reason + seg_pat list" where
  "segments_loop bytes i segs =
     (if i < length bytes then
        (if bytes ! i = slash then segments_loop bytes (i + 1) segs
         else if bytes ! i = 42 \<and> i + 1 < length bytes \<and> bytes ! (i + 1) = 42 \<and>
             (i = 0 \<or> bytes ! (i - 1) = slash) \<and> (i + 2 = length bytes \<or> bytes ! (i + 2) = slash) then
           segments_loop bytes (i + 2) (segs @ [GlobStar])
         else
           (case compile_segment_atoms bytes i of
              Inl e \<Rightarrow> Inl e
            | Inr (atoms, next) \<Rightarrow> segments_loop bytes next (segs @ [Atoms atoms])))
      else if segs = [] then Inl EmptyPattern else Inr segs)"
  by pat_completeness auto
termination
  by (relation "measure (\<lambda>(bytes, i, segs). length bytes - i)")
    (auto simp: compile_segment_atoms_def dest: atoms_loop_next)

declare segments_loop.simps [simp del]

definition compile_segments :: "byte list \<Rightarrow> unsupported_reason + seg_pat list" where
  "compile_segments bytes = segments_loop bytes 0 []"

definition compile_pattern ::
  "ignore_layer \<Rightarrow> byte list list \<Rightarrow> byte list \<Rightarrow> unsupported_reason + compiled_pattern" where
  "compile_pattern layer prefix raw =
     (let negated = starts_with raw [33];
          rest = (if negated then drop 1 raw else raw);
          directory_only = rest \<noteq> [] \<and> last rest = slash;
          rest1 = (if directory_only then butlast rest else rest) in
      if rest1 = [] then Inl EmptyPattern
      else
        let rooted = starts_with rest1 [slash];
            rest2 = (if rooted then drop 1 rest1 else rest1) in
        if rest2 = [] then Inl EmptyPattern
        else
          let basename_only = \<not> rooted \<and> slash \<notin> set rest2 in
          map_sum id (\<lambda>segs. \<lparr>cp_raw = raw, cp_layer = layer, cp_negated = negated,
            cp_directory_only = directory_only, cp_basename_only = basename_only,
            cp_prefix = prefix, cp_segs = segs\<rparr>) (compile_segments rest2))"

section \<open>Building the matcher\<close>

definition include_all :: ignore_matcher where
  "include_all = \<lparr>im_patterns = [], im_unsupported = [], im_overrides = [], im_excluded = 0\<rparr>"

definition add_raw :: "ignore_matcher \<Rightarrow> ignore_layer \<Rightarrow> byte list list \<Rightarrow> byte list \<Rightarrow> ignore_matcher" where
  "add_raw m layer prefix raw_line =
     (let trimmed = strip_unescaped_trailing_spaces raw_line in
      if trimmed = [] \<or> starts_with trimmed [35] then m
      else
        (case compile_pattern layer prefix trimmed of
           Inr pattern \<Rightarrow> m\<lparr>im_patterns := im_patterns m @ [pattern]\<rparr>
         | Inl reason \<Rightarrow> m\<lparr>im_unsupported := im_unsupported m @
             [\<lparr>up_raw = trimmed, up_layer = layer, up_reason = reason\<rparr>]\<rparr>))"

definition ascii_text :: "string \<Rightarrow> byte list" where
  "ascii_text s = map of_char s"

definition default_rules :: "byte list list" where
  "default_rules = map ascii_text
     [''.git/'', ''.hg/'', ''.svn/'', ''node_modules/'', ''target/'', ''dist/'', ''build/'',
      ''.venv/'', ''__pycache__/'', ''*.pyc'', ''*.o'', ''*.a'', ''*.so'', ''*.dylib'', ''*.dll'',
      ''*.exe'', ''*.class'']"

definition push_defaults :: "ignore_matcher \<Rightarrow> ignore_matcher" where
  "push_defaults m = foldl (\<lambda>m raw. add_raw m LayerDefaultPolicy [] raw) m default_rules"

definition product_defaults :: ignore_matcher where
  "product_defaults = push_defaults include_all"

definition strip_cr :: "byte list \<Rightarrow> byte list" where
  "strip_cr line = (if line \<noteq> [] \<and> last line = 13 then butlast line else line)"

definition add_rule_file :: "ignore_matcher \<Rightarrow> normalized_path option \<Rightarrow> byte list \<Rightarrow> ignore_matcher" where
  "add_rule_file m dir_prefix content =
     (let prefix = (case dir_prefix of None \<Rightarrow> [] | Some p \<Rightarrow> np_segments p) in
      foldl (\<lambda>m line. add_raw m LayerRuleFile prefix (strip_cr line)) m (split_on (\<lambda>b. b = 10) content))"

definition add_scope_rule :: "ignore_matcher \<Rightarrow> byte list \<Rightarrow> ignore_matcher" where
  "add_scope_rule m raw = add_raw m LayerScope [] raw"

definition override_browse :: "ignore_matcher \<Rightarrow> normalized_path \<Rightarrow> ignore_matcher" where
  "override_browse m path =
     (if np_segments path \<in> set (im_overrides m) then m
      else m\<lparr>im_overrides := im_overrides m @ [np_segments path]\<rparr>)"

section \<open>Work-accounted matching\<close>

text \<open>What one atom takes of the tail of the segment, with what the comparison spends.\<close>

definition try_atom :: "seg_atom \<Rightarrow> byte list \<Rightarrow> nat \<Rightarrow> nat \<Rightarrow> (ignore_work_error + nat option) \<times> nat" where
  "try_atom atom bytes s remaining =
     (case atom of
        Ques \<Rightarrow> (Inr (if s < length bytes then Some 1 else None), remaining)
      | Lit literal \<Rightarrow>
          (case spend remaining (min (length literal) (length bytes - s) + 1) of
             (Inl e, r) \<Rightarrow> (Inl e, r)
           | (Inr _, r) \<Rightarrow>
               (Inr (if starts_with (drop s bytes) literal then Some (length literal) else None), r))
      | ByteClass negated cls \<Rightarrow>
          if s < length bytes then
            (case spend remaining (length cls + 1) of
               (Inl e, r) \<Rightarrow> (Inl e, r)
             | (Inr _, r) \<Rightarrow>
                 (Inr (if (bytes ! s \<in> set cls) \<noteq> negated then Some 1 else None), r))
          else (Inr None, remaining)
      | Star \<Rightarrow> (Inr None, remaining))"

lemma spend_less: "spend remaining 1 = (Inr u, r) \<Longrightarrow> r < remaining"
  by (auto simp: spend_def split: if_splits)

lemma try_atom_le: "try_atom atom bytes s remaining = (v, r) \<Longrightarrow> r \<le> remaining"
  by (auto simp: try_atom_def spend_def split: seg_atom.splits if_splits)

lemmas spent = spend_less [simplified, OF sym] try_atom_le [OF sym]

function match_atoms_loop ::
  "seg_atom list \<Rightarrow> byte list \<Rightarrow> nat \<Rightarrow> nat \<Rightarrow> (nat \<times> nat) option \<Rightarrow> nat \<Rightarrow>
   (ignore_work_error + bool) \<times> nat" where
  "match_atoms_loop atoms bytes a s star remaining =
     (case spend remaining 1 of
        (Inl e, r) \<Rightarrow> (Inl e, r)
      | (Inr _, r) \<Rightarrow>
          if a = length atoms \<and> s = length bytes then (Inr True, r)
          else if a < length atoms \<and> atoms ! a = Star then
            match_atoms_loop atoms bytes (a + 1) s (Some (a + 1, s)) r
          else
            (case (if a < length atoms then try_atom (atoms ! a) bytes s r else (Inr None, r)) of
               (Inl e, r1) \<Rightarrow> (Inl e, r1)
             | (Inr (Some w), r1) \<Rightarrow> match_atoms_loop atoms bytes (a + 1) (s + w) star r1
             | (Inr None, r1) \<Rightarrow>
                 (case star of
                    Some (resume, consumed) \<Rightarrow>
                      if consumed < length bytes
                      then match_atoms_loop atoms bytes resume (consumed + 1) (Some (resume, consumed + 1)) r1
                      else (Inr False, r1)
                  | None \<Rightarrow> (Inr False, r1))))"
  by pat_completeness auto
termination
  by (relation "measure (\<lambda>(atoms, bytes, a, s, star, remaining). remaining)")
    (auto dest!: spent split: if_splits)

declare match_atoms_loop.simps [simp del]

definition match_atoms :: "seg_atom list \<Rightarrow> byte list \<Rightarrow> nat \<Rightarrow> (ignore_work_error + bool) \<times> nat" where
  "match_atoms atoms bytes remaining = match_atoms_loop atoms bytes 0 0 None remaining"

text \<open>The two prefix comparisons of the code: element by element over the zip of both paths.\<close>

fun zip_equal :: "byte list list \<Rightarrow> byte list list \<Rightarrow> nat \<Rightarrow> (ignore_work_error + bool) \<times> nat" where
  "zip_equal (l # ls) (r # rs) remaining =
     (case spend remaining (min (length l) (length r) + 1) of
        (Inl e, n) \<Rightarrow> (Inl e, n)
      | (Inr _, n) \<Rightarrow> if l \<noteq> r then (Inr False, n) else zip_equal ls rs n)"
| "zip_equal [] rs remaining = (Inr True, remaining)"
| "zip_equal (l # ls) [] remaining = (Inr True, remaining)"

text \<open>What one pattern segment takes at the cursor: a matching path segment.\<close>

definition try_segment :: "seg_pat list \<Rightarrow> byte list list \<Rightarrow> nat \<Rightarrow> nat \<Rightarrow> nat \<Rightarrow> (ignore_work_error + bool) \<times> nat" where
  "try_segment pattern path p s remaining =
     (if p < length pattern \<and> s < length path then
        (case pattern ! p of
           Atoms atoms \<Rightarrow> match_atoms atoms (path ! s) remaining
         | GlobStar \<Rightarrow> (Inr False, remaining))
      else (Inr False, remaining))"

lemma match_atoms_loop_le: "match_atoms_loop atoms bytes a s star remaining = (v, r) \<Longrightarrow> r \<le> remaining"
proof (induction remaining arbitrary: a s star v r rule: less_induct)
  case (less remaining)
  show ?case
  proof (cases "spend remaining 1")
    case (Pair w r0)
    show ?thesis
    proof (cases w)
      case (Inl e)
      then show ?thesis using less.prems Pair
        by (auto simp: match_atoms_loop.simps [of atoms bytes a s star remaining] spend_def split: if_splits)
    next
      case (Inr u)
      have r0: "r0 < remaining" using Pair Inr spend_less by auto
      obtain t r1 where t: "(if a < length atoms then try_atom (atoms ! a) bytes s r0 else (Inr None, r0)) = (t, r1)"
        by fastforce
      have r1: "r1 \<le> r0" using t try_atom_le by (auto split: if_splits)
      show ?thesis
        using less.prems less.IH [of r0] less.IH [of r1] r0 r1 Pair Inr
        unfolding match_atoms_loop.simps [of atoms bytes a s star remaining]
        by (fastforce simp: t simp del: One_nat_def split: if_splits sum.splits option.splits)
    qed
  qed
qed

lemma try_segment_le: "try_segment pattern path p s remaining = (v, r) \<Longrightarrow> r \<le> remaining"
  by (auto simp: try_segment_def match_atoms_def split: if_splits seg_pat.splits dest: match_atoms_loop_le)

function match_segments_loop ::
  "seg_pat list \<Rightarrow> byte list list \<Rightarrow> nat \<Rightarrow> nat \<Rightarrow> (nat \<times> nat) option \<Rightarrow> nat \<Rightarrow>
   (ignore_work_error + bool) \<times> nat" where
  "match_segments_loop pattern path p s star remaining =
     (case spend remaining 1 of
        (Inl e, r) \<Rightarrow> (Inl e, r)
      | (Inr _, r) \<Rightarrow>
          if p = length pattern \<and> s = length path then (Inr True, r)
          else if p < length pattern \<and> pattern ! p = GlobStar then
            match_segments_loop pattern path (p + 1) s (Some (p + 1, s)) r
          else
            (case try_segment pattern path p s r of
               (Inl e, r1) \<Rightarrow> (Inl e, r1)
             | (Inr True, r1) \<Rightarrow> match_segments_loop pattern path (p + 1) (s + 1) star r1
             | (Inr False, r1) \<Rightarrow>
                 (case star of
                    Some (resume, consumed) \<Rightarrow>
                      if consumed < length path
                      then match_segments_loop pattern path resume (consumed + 1) (Some (resume, consumed + 1)) r1
                      else (Inr False, r1)
                  | None \<Rightarrow> (Inr False, r1))))"
  by pat_completeness auto
termination
  by (relation "measure (\<lambda>(pattern, path, p, s, star, remaining). remaining)")
    (auto dest!: spent try_segment_le [OF sym])

declare match_segments_loop.simps [simp del]

definition match_segments :: "seg_pat list \<Rightarrow> byte list list \<Rightarrow> nat \<Rightarrow> (ignore_work_error + bool) \<times> nat" where
  "match_segments pattern path remaining = match_segments_loop pattern path 0 0 None remaining"

definition pattern_matches ::
  "compiled_pattern \<Rightarrow> byte list list \<Rightarrow> bool \<Rightarrow> nat \<Rightarrow> (ignore_work_error + bool) \<times> nat" where
  "pattern_matches pattern path is_dir remaining =
     (case spend remaining 1 of
        (Inl e, r) \<Rightarrow> (Inl e, r)
      | (Inr _, r) \<Rightarrow>
          if cp_directory_only pattern \<and> \<not> is_dir then (Inr False, r)
          else if length path < length (cp_prefix pattern) then (Inr False, r)
          else
            (case zip_equal path (cp_prefix pattern) r of
               (Inr True, r1) \<Rightarrow>
                 let relative = drop (length (cp_prefix pattern)) path in
                 if relative = [] then (Inr False, r1)
                 else if cp_basename_only pattern then
                   (case cp_segs pattern of
                      [Atoms atoms] \<Rightarrow> match_atoms atoms (relative ! (length relative - 1)) r1
                    | [GlobStar] \<Rightarrow> (Inr True, r1)
                    | _ \<Rightarrow> (Inr False, r1))
                 else match_segments (cp_segs pattern) relative r1
             | other \<Rightarrow> other))"

text \<open>\<open>CompiledPattern::matches\<close>: an allowance of \<open>u64::MAX\<close>, and no match when it runs out.\<close>

definition compiled_matches :: "compiled_pattern \<Rightarrow> byte list list \<Rightarrow> bool \<Rightarrow> bool" where
  "compiled_matches pattern path is_dir =
     (case fst (pattern_matches pattern path is_dir u64_max) of Inr b \<Rightarrow> b | Inl _ \<Rightarrow> False)"

section \<open>Decisions\<close>

definition decision_of :: "(bool \<times> ignore_layer) option \<Rightarrow> ignore_decision" where
  "decision_of decided =
     (case decided of
        Some (False, layer) \<Rightarrow> Exclude (case layer of
            LayerDefaultPolicy \<Rightarrow> CauseDefaultPolicy
          | LayerRuleFile \<Rightarrow> CauseRuleFile
          | LayerScope \<Rightarrow> CauseScope)
      | _ \<Rightarrow> Include)"

definition set_aside :: "bool \<Rightarrow> compiled_pattern \<Rightarrow> bool" where
  "set_aside overridden pattern \<longleftrightarrow>
     overridden \<and> (cp_layer pattern = LayerDefaultPolicy \<or> cp_layer pattern = LayerScope)"

definition is_overridden :: "ignore_matcher \<Rightarrow> byte list list \<Rightarrow> bool" where
  "is_overridden m segs =
     list_ex (\<lambda>prefix. length segs \<ge> length prefix \<and> list_all (\<lambda>(a, b). a = b) (zip segs prefix)) (im_overrides m)"

fun peek_loop :: "compiled_pattern list \<Rightarrow> byte list list \<Rightarrow> bool \<Rightarrow> bool \<Rightarrow> (bool \<times> ignore_layer) option \<Rightarrow>
    (bool \<times> ignore_layer) option" where
  "peek_loop [] segs is_dir overridden decided = decided"
| "peek_loop (p # ps) segs is_dir overridden decided =
     (if set_aside overridden p then peek_loop ps segs is_dir overridden decided
      else if compiled_matches p segs is_dir
        then peek_loop ps segs is_dir overridden (Some (cp_negated p, cp_layer p))
      else peek_loop ps segs is_dir overridden decided)"

definition peek :: "ignore_matcher \<Rightarrow> normalized_path \<Rightarrow> bool \<Rightarrow> ignore_decision" where
  "peek m path is_dir =
     decision_of (peek_loop (im_patterns m) (np_segments path) is_dir
       (is_overridden m (np_segments path)) None)"

definition count_excluded :: "ignore_decision \<Rightarrow> ignore_matcher \<Rightarrow> ignore_matcher" where
  "count_excluded d m = (if is_excluded d then m\<lparr>im_excluded := saturating_add (im_excluded m) 1\<rparr> else m)"

definition decide :: "ignore_matcher \<Rightarrow> normalized_path \<Rightarrow> bool \<Rightarrow> ignore_decision \<times> ignore_matcher" where
  "decide m path is_dir = (let decision = peek m path is_dir in (decision, count_excluded decision m))"

fun override_loop :: "byte list list list \<Rightarrow> byte list list \<Rightarrow> nat \<Rightarrow> (ignore_work_error + bool) \<times> nat" where
  "override_loop [] segments remaining = (Inr False, remaining)"
| "override_loop (prefix # more_prefixes) segments remaining =
     (case spend remaining 1 of
        (Inl e, r) \<Rightarrow> (Inl e, r)
      | (Inr _, r) \<Rightarrow>
          if length prefix > length segments then override_loop more_prefixes segments r
          else
            (case zip_equal segments prefix r of
               (Inl e, r1) \<Rightarrow> (Inl e, r1)
             | (Inr equal, r1) \<Rightarrow> if equal then (Inr True, r1) else override_loop more_prefixes segments r1))"

fun bounded_loop ::
  "compiled_pattern list \<Rightarrow> byte list list \<Rightarrow> bool \<Rightarrow> bool \<Rightarrow> (bool \<times> ignore_layer) option \<Rightarrow> nat \<Rightarrow>
   (ignore_work_error + (bool \<times> ignore_layer) option) \<times> nat" where
  "bounded_loop [] segs is_dir overridden decided remaining = (Inr decided, remaining)"
| "bounded_loop (p # ps) segs is_dir overridden decided remaining =
     (case spend remaining 1 of
        (Inl e, r) \<Rightarrow> (Inl e, r)
      | (Inr _, r) \<Rightarrow>
          if set_aside overridden p then bounded_loop ps segs is_dir overridden decided r
          else
            (case pattern_matches p segs is_dir r of
               (Inl e, r1) \<Rightarrow> (Inl e, r1)
             | (Inr matched, r1) \<Rightarrow>
                 bounded_loop ps segs is_dir overridden
                   (if matched then Some (cp_negated p, cp_layer p) else decided) r1))"

definition decide_bounded ::
  "ignore_matcher \<Rightarrow> normalized_path \<Rightarrow> bool \<Rightarrow> nat \<Rightarrow>
   (ignore_work_error + ignore_decision) \<times> nat \<times> ignore_matcher" where
  "decide_bounded m path is_dir remaining =
     (if length (np_raw path) > 4096 \<or> length (np_segments path) > 256 then (Inl PathLimit, remaining, m)
      else
        (case spend remaining (length (np_segments path) + 1) of
           (Inl e, r) \<Rightarrow> (Inl e, r, m)
         | (Inr _, r) \<Rightarrow>
             (case override_loop (im_overrides m) (np_segments path) r of
                (Inl e, r1) \<Rightarrow> (Inl e, r1, m)
              | (Inr overridden, r1) \<Rightarrow>
                  (case bounded_loop (im_patterns m) (np_segments path) is_dir overridden None r1 of
                     (Inl e, r2) \<Rightarrow> (Inl e, r2, m)
                   | (Inr decided, r2) \<Rightarrow>
                       let d = decision_of decided in (Inr d, r2, count_excluded d m)))))"

section \<open>What a rule means\<close>

fun is_star :: "seg_atom \<Rightarrow> bool" where
  "is_star Star = True"
| "is_star _ = False"

fun atom_takes :: "seg_atom \<Rightarrow> byte list \<Rightarrow> nat option" where
  "atom_takes Star bs = None"
| "atom_takes Ques bs = (if bs = [] then None else Some 1)"
| "atom_takes (Lit l) bs = (if starts_with bs l then Some (length l) else None)"
| "atom_takes (ByteClass negated cls) bs =
     (case bs of [] \<Rightarrow> None | b # _ \<Rightarrow> if (b \<in> set cls) \<noteq> negated then Some 1 else None)"

fun atom_width :: "seg_atom \<Rightarrow> nat" where
  "atom_width (Lit l) = length l"
| "atom_width _ = 1"

definition glob :: "seg_atom list \<Rightarrow> byte list \<Rightarrow> bool" where
  "glob = wild is_star atom_takes"

fun is_globstar :: "seg_pat \<Rightarrow> bool" where
  "is_globstar GlobStar = True"
| "is_globstar _ = False"

fun segment_takes :: "seg_pat \<Rightarrow> byte list list \<Rightarrow> nat option" where
  "segment_takes (Atoms atoms) (s # ss) = (if glob atoms s then Some 1 else None)"
| "segment_takes _ _ = None"

definition path_glob :: "seg_pat list \<Rightarrow> byte list list \<Rightarrow> bool" where
  "path_glob = wild is_globstar segment_takes"

interpretation atoms: fixed_width_items is_star atom_takes atom_width
proof
  fix p xs w
  show "atom_takes p xs = Some w \<Longrightarrow> w = atom_width p \<and> w \<le> length xs"
    by (cases p) (auto simp: starts_with_def Suc_le_eq split: if_splits list.splits
        dest!: arg_cong [where f = length])
qed

interpretation segments: fixed_width_items is_globstar segment_takes "\<lambda>_. 1"
proof
  fix p xs w
  show "segment_takes p xs = Some w \<Longrightarrow> w = 1 \<and> w \<le> length xs"
    by (cases "(p, xs)" rule: segment_takes.cases) (auto split: if_splits)
qed

text \<open>A rule applies below its own directory, to directories only when it says so.\<close>

definition rule_matches :: "compiled_pattern \<Rightarrow> byte list list \<Rightarrow> bool \<Rightarrow> bool" where
  "rule_matches p path is_dir \<longleftrightarrow>
     (cp_directory_only p \<longrightarrow> is_dir) \<and>
     (\<exists>relative. path = cp_prefix p @ relative \<and> relative \<noteq> [] \<and>
        (if cp_basename_only p then
           (case cp_segs p of [Atoms atoms] \<Rightarrow> glob atoms (last relative) | [GlobStar] \<Rightarrow> True | _ \<Rightarrow> False)
         else path_glob (cp_segs p) relative))"

definition overridden :: "ignore_matcher \<Rightarrow> byte list list \<Rightarrow> bool" where
  "overridden m path \<longleftrightarrow> (\<exists>prefix\<in>set (im_overrides m). \<exists>below. path = prefix @ below)"

text \<open>The last rule that applies decides.\<close>

definition decision_spec :: "ignore_matcher \<Rightarrow> byte list list \<Rightarrow> bool \<Rightarrow> ignore_decision" where
  "decision_spec m path is_dir =
     (let rules = filter (\<lambda>p. \<not> set_aside (overridden m path) p \<and> rule_matches p path is_dir) (im_patterns m) in
      if rules = [] then Include
      else decision_of (Some (cp_negated (last rules), cp_layer (last rules))))"

section \<open>The matcher is exact\<close>

fun atom_cost :: "seg_atom \<Rightarrow> nat" where
  "atom_cost (Lit l) = length l + 1"
| "atom_cost (ByteClass _ cls) = length cls + 1"
| "atom_cost _ = 0"

lemma try_atom_within:
  assumes "s \<le> length bytes"
  shows "within (atom_takes atom (drop s bytes)) (atom_cost atom) a (try_atom atom bytes s a)"
proof (cases atom)
  case (Lit l)
  obtain k where k: "min (length l) (length bytes - s) = k" "k \<le> length l" by simp
  show ?thesis unfolding Lit try_atom_def spend_def by (simp add: k(1)) (use k(2) in arith)
next
  case (ByteClass n cls)
  show ?thesis
  proof (cases "s < length bytes")
    case True
    then have "drop s bytes = bytes ! s # drop (Suc s) bytes" by (simp add: Cons_nth_drop_Suc)
    then show ?thesis using True by (simp add: ByteClass try_atom_def spend_def)
  qed (simp add: ByteClass try_atom_def)
qed (use assms in \<open>auto simp: try_atom_def\<close>)

lemma is_star_iff [simp]: "is_star x \<longleftrightarrow> x = Star"
  by (cases x) auto

lemma is_globstar_iff [simp]: "is_globstar x \<longleftrightarrow> x = GlobStar"
  by (cases x) auto

definition atoms_cost :: "seg_atom list \<Rightarrow> nat" where
  "atoms_cost atoms = sum_list (map atom_cost atoms)"

lemma atom_cost_le: "a < length atoms \<Longrightarrow> atom_cost (atoms ! a) \<le> atoms_cost atoms"
  using member_le_sum_list [of "atom_cost (atoms ! a)" "map atom_cost atoms"] by (simp add: atoms_cost_def)

interpretation atom_loop: backtracking is_star atom_takes atom_width atoms bytes "atoms_cost atoms"
  "\<lambda>p s. try_atom (atoms ! p) bytes s" "match_atoms_loop atoms bytes" for atoms bytes
proof
  show "within (atom_takes (atoms ! p) (drop s bytes)) (atoms_cost atoms) a (try_atom (atoms ! p) bytes s a)"
    if "p < length atoms" "s \<le> length bytes" for p s a
    using within_mono [OF try_atom_within atom_cost_le] that by blast
  show "\<exists>r. match_atoms_loop atoms bytes p s saved 0 = (Inl WorkLimit, r)" for p s saved
    by (simp add: match_atoms_loop.simps [of atoms bytes p s saved 0] spend_def)
  show "match_atoms_loop atoms bytes p s saved (Suc a) =
      (if p = length atoms \<and> s = length bytes then (Inr True, a)
       else if p < length atoms \<and> is_star (atoms ! p) then match_atoms_loop atoms bytes (p + 1) s (Some (p + 1, s)) a
       else (case (if p < length atoms then try_atom (atoms ! p) bytes s a else (Inr None, a)) of
          (Inl e, r) \<Rightarrow> (Inl e, r)
        | (Inr (Some w), r) \<Rightarrow> match_atoms_loop atoms bytes (p + 1) (s + w) saved r
        | (Inr None, r) \<Rightarrow>
            (case saved of
               Some (resume, consumed) \<Rightarrow>
                 if consumed < length bytes
                 then match_atoms_loop atoms bytes resume (consumed + 1) (Some (resume, consumed + 1)) r
                 else (Inr False, r)
             | None \<Rightarrow> (Inr False, r))))" for p s saved a
    by (simp add: match_atoms_loop.simps [of atoms bytes p s saved "Suc a"] spend_def
        cong: sum.case_cong option.case_cong)
qed

text \<open>What the match of one segment may spend.\<close>

definition glob_cost :: "seg_atom list \<Rightarrow> byte list \<Rightarrow> nat" where
  "glob_cost atoms bytes = (atoms_cost atoms + 1) * moves_left (length bytes) (length atoms) 0 None"

lemma match_atoms_within: "within (glob atoms bytes) (glob_cost atoms bytes) a (match_atoms atoms bytes a)"
  unfolding glob_def glob_cost_def match_atoms_def by (rule atom_loop.from_start)

fun pattern_atoms :: "seg_pat \<Rightarrow> seg_atom list" where
  "pattern_atoms (Atoms atoms) = atoms"
| "pattern_atoms GlobStar = []"

definition segments_cost :: "seg_pat list \<Rightarrow> byte list list \<Rightarrow> nat" where
  "segments_cost pattern path = (\<Sum>p\<leftarrow>pattern. \<Sum>s\<leftarrow>path. glob_cost (pattern_atoms p) s)"

lemma glob_cost_le:
  assumes "p < length pattern" "s < length path"
  shows "glob_cost (pattern_atoms (pattern ! p)) (path ! s) \<le> segments_cost pattern path"
proof -
  have "glob_cost (pattern_atoms (pattern ! p)) (path ! s) \<le> (\<Sum>s\<leftarrow>path. glob_cost (pattern_atoms (pattern ! p)) s)"
    using assms(2) by (intro member_le_sum_list) auto
  also have "\<dots> \<le> segments_cost pattern path"
    unfolding segments_cost_def using assms(1) by (intro member_le_sum_list) auto
  finally show ?thesis .
qed

definition attempt_segment :: "seg_pat list \<Rightarrow> byte list list \<Rightarrow> nat \<Rightarrow> nat \<Rightarrow> nat \<Rightarrow> (ignore_work_error + nat option) \<times> nat" where
  "attempt_segment pattern path p s a =
     map_prod (map_sum id (\<lambda>b. if b then Some 1 else None)) id (try_segment pattern path p s a)"

interpretation segment_loop: backtracking is_globstar segment_takes "\<lambda>_. 1" pattern path
  "segments_cost pattern path" "attempt_segment pattern path" "match_segments_loop pattern path" for pattern path
proof
  show "within (segment_takes (pattern ! p) (drop s path)) (segments_cost pattern path) a
      (attempt_segment pattern path p s a)"
    if p: "p < length pattern" "\<not> is_globstar (pattern ! p)" "s \<le> length path" for p s a
  proof (cases "s < length path")
    case True
    obtain atoms where at: "pattern ! p = Atoms atoms" using p(2) by (cases "pattern ! p") auto
    have "within (glob atoms (path ! s)) (segments_cost pattern path) a (match_atoms atoms (path ! s) a)"
      using within_mono [OF match_atoms_within glob_cost_le [OF p(1) True]] at by (simp add: within_mono)
    moreover have "drop s path = path ! s # drop (Suc s) path" using True by (simp add: Cons_nth_drop_Suc)
    ultimately show ?thesis using p True at
      by (auto simp: attempt_segment_def try_segment_def within_def split: prod.splits sum.splits)
  next
    case False
    then show ?thesis using p
      by (cases "pattern ! p") (auto simp: attempt_segment_def try_segment_def)
  qed
  show "\<exists>r. match_segments_loop pattern path p s saved 0 = (Inl WorkLimit, r)" for p s saved
    by (simp add: match_segments_loop.simps [of pattern path p s saved 0] spend_def)
  show "match_segments_loop pattern path p s saved (Suc a) =
      (if p = length pattern \<and> s = length path then (Inr True, a)
       else if p < length pattern \<and> is_globstar (pattern ! p) then match_segments_loop pattern path (p + 1) s (Some (p + 1, s)) a
       else (case (if p < length pattern then attempt_segment pattern path p s a else (Inr None, a)) of
          (Inl e, r) \<Rightarrow> (Inl e, r)
        | (Inr (Some w), r) \<Rightarrow> match_segments_loop pattern path (p + 1) (s + w) saved r
        | (Inr None, r) \<Rightarrow>
            (case saved of
               Some (resume, consumed) \<Rightarrow>
                 if consumed < length path
                 then match_segments_loop pattern path resume (consumed + 1) (Some (resume, consumed + 1)) r
                 else (Inr False, r)
             | None \<Rightarrow> (Inr False, r))))" for p s saved a
  proof (cases "p < length pattern")
    case True
    obtain v r where "try_segment pattern path p s a = (v, r)" by fastforce
    then show ?thesis using True
      by (cases v) (auto simp: match_segments_loop.simps [of pattern path p s saved "Suc a"] spend_def attempt_segment_def
          split: bool.splits)
  next
    case False
    then show ?thesis
      by (simp add: match_segments_loop.simps [of pattern path p s saved "Suc a"] spend_def try_segment_def
          split: bool.splits)
  qed
qed

definition path_cost :: "seg_pat list \<Rightarrow> byte list list \<Rightarrow> nat" where
  "path_cost pattern path =
     (segments_cost pattern path + 1) * moves_left (length path) (length pattern) 0 None"

lemma match_segments_within:
  "within (path_glob pattern path) (path_cost pattern path) a (match_segments pattern path a)"
  unfolding path_glob_def path_cost_def match_segments_def by (rule segment_loop.from_start)

definition same_prefix :: "byte list list \<Rightarrow> byte list list \<Rightarrow> bool" where
  "same_prefix ls rs \<longleftrightarrow> list_all (\<lambda>(l, r). l = r) (zip ls rs)"

definition zip_cost :: "byte list list \<Rightarrow> byte list list \<Rightarrow> nat" where
  "zip_cost ls rs = (\<Sum>(l, r)\<leftarrow>zip ls rs. length r + 1)"

lemma same_prefix_iff:
  "length prefix \<le> length path \<Longrightarrow> same_prefix path prefix \<longleftrightarrow> (\<exists>below. path = prefix @ below)"
proof (induction prefix arbitrary: path)
  case (Cons x prefix)
  then show ?case by (cases path) (auto simp: same_prefix_def)
qed (simp add: same_prefix_def)

lemma zip_equal_within: "within (same_prefix ls rs) (zip_cost ls rs) a (zip_equal ls rs a)"
proof (induction ls rs a rule: zip_equal.induct)
  case (1 l ls r rs a)
  let ?m = "min (length l) (length r) + 1"
  have m: "?m \<le> length r + 1" by simp
  have cost: "zip_cost (l # ls) (r # rs) = length r + 1 + zip_cost ls rs" by (simp add: zip_cost_def)
  show ?case
  proof (cases "a < ?m")
    case True
    then have "zip_equal (l # ls) (r # rs) a = (Inl WorkLimit, 0)" by (simp add: spend_def)
    then show ?thesis using True m unfolding cost by (simp only: within_Inl simp_thms)
  next
    case False
    note step = spend_def [of a ?m, simplified False if_False]
    show ?thesis
    proof (cases "l = r")
      case True
      have "within (same_prefix ls rs) (zip_cost ls rs) (a - ?m) (zip_equal ls rs (a - ?m))"
        using "1.IH" [OF step [symmetric] refl] True by simp
      then have "within (same_prefix ls rs) (zip_cost (l # ls) (r # rs)) a (zip_equal ls rs (a - ?m))"
        by (rule within_after [OF _ diff_le_self, where step = ?m]) (use False m cost in simp_all)
      then show ?thesis using True step by (simp add: same_prefix_def)
    next
      case neq: False
      then have "zip_equal (l # ls) (r # rs) a = (Inr False, a - ?m)" using step by simp
      moreover have "\<not> same_prefix (l # ls) (r # rs)" using neq by (simp add: same_prefix_def)
      moreover have "a \<le> a - ?m + (length r + 1 + zip_cost ls rs)" using False m by linarith
      ultimately show ?thesis unfolding cost by simp
    qed
  qed
qed (simp_all add: same_prefix_def zip_cost_def)

text \<open>What one rule may spend on a path.\<close>

definition rule_cost :: "compiled_pattern \<Rightarrow> byte list list \<Rightarrow> nat" where
  "rule_cost p path =
     (let relative = drop (length (cp_prefix p)) path in
      1 + zip_cost path (cp_prefix p) +
      (if cp_basename_only p then
         (case cp_segs p of [Atoms atoms] \<Rightarrow> glob_cost atoms (last relative) | _ \<Rightarrow> 0)
       else path_cost (cp_segs p) relative))"

lemma case_neither:
  "(\<And>atoms. l \<noteq> [Atoms atoms]) \<Longrightarrow> l \<noteq> [GlobStar] \<Longrightarrow>
   (case l of [Atoms atoms] \<Rightarrow> x atoms | [GlobStar] \<Rightarrow> y | _ \<Rightarrow> z) = z"
  by (auto split: list.split seg_pat.split)

lemma case_no_atoms:
  "(\<And>atoms. l \<noteq> [Atoms atoms]) \<Longrightarrow> (case l of [Atoms atoms] \<Rightarrow> x atoms | _ \<Rightarrow> z) = z"
  by (auto split: list.split seg_pat.split)

lemma pattern_matches_within:
  "within (rule_matches p path is_dir) (rule_cost p path) a (pattern_matches p path is_dir a)"
proof -
  let ?pre = "cp_prefix p" and ?rel = "drop (length (cp_prefix p)) path"
  let ?tail = "if cp_basename_only p then
         (case cp_segs p of [Atoms atoms] \<Rightarrow> glob_cost atoms (last ?rel) | _ \<Rightarrow> 0)
       else path_cost (cp_segs p) ?rel"
  have cost: "rule_cost p path = 1 + zip_cost path ?pre + ?tail"
    unfolding rule_cost_def Let_def ..
  show ?thesis
  proof (cases "a = 0")
    case True
    then show ?thesis by (simp add: pattern_matches_def spend_def cost)
  next
    case a: False
    show ?thesis
    proof (cases "(cp_directory_only p \<and> \<not> is_dir) \<or> length path < length ?pre")
      case True
      then have "\<not> rule_matches p path is_dir" by (auto simp: rule_matches_def)
      then show ?thesis using True a by (auto simp: pattern_matches_def spend_def cost)
    next
      case on: False
      obtain v r where z: "zip_equal path ?pre (a - 1) = (v, r)" by fastforce
      have zw: "within (same_prefix path ?pre) (zip_cost path ?pre) (a - 1) (v, r)"
        using zip_equal_within [of path ?pre "a - 1"] z by simp
      have pm: "pattern_matches p path is_dir a =
          (case (v, r) of
             (Inr True, r1) \<Rightarrow>
                 if ?rel = [] then (Inr False, r1)
                 else if cp_basename_only p then
                   (case cp_segs p of
                      [Atoms atoms] \<Rightarrow> match_atoms atoms (?rel ! (length ?rel - 1)) r1
                    | [GlobStar] \<Rightarrow> (Inr True, r1)
                    | _ \<Rightarrow> (Inr False, r1))
                 else match_segments (cp_segs p) ?rel r1
           | other \<Rightarrow> other)"
      proof -
        have c: "(cp_directory_only p \<and> \<not> is_dir) = False" "(length path < length ?pre) = False"
          "(a < 1) = False" using on a by auto
        show ?thesis
          unfolding pattern_matches_def spend_def Let_def c if_False prod.case sum.case z ..
      qed
      show ?thesis
      proof (cases v)
        case (Inl e)
        then show ?thesis using zw a by (auto simp add: pm cost)
      next
        case (Inr same)
        then have same: "same = same_prefix path ?pre" "r \<le> a" "a \<le> r + (1 + zip_cost path ?pre)"
          using zw a by auto
        show ?thesis
        proof (cases same)
          case False
          then have "\<not> rule_matches p path is_dir"
            using same same_prefix_iff [of ?pre path] on by (auto simp: rule_matches_def)
          then show ?thesis using Inr False same by (simp add: pm cost)
        next
          case True
          then have path: "path = ?pre @ ?rel"
            using same(1) same_prefix_iff [of ?pre path] on by auto
          then have meaning: "rule_matches p path is_dir \<longleftrightarrow> ?rel \<noteq> [] \<and>
              (if cp_basename_only p then
                 (case cp_segs p of [Atoms atoms] \<Rightarrow> glob atoms (last ?rel) | [GlobStar] \<Rightarrow> True | _ \<Rightarrow> False)
               else path_glob (cp_segs p) ?rel)"
          proof -
            have only: "path = ?pre @ x \<longleftrightarrow> x = ?rel" for x
              using path by (metis append_same_eq same_append_eq)
            have dir: "(cp_directory_only p \<longrightarrow> is_dir) = True" using on by simp
            show ?thesis unfolding rule_matches_def only dir by simp
          qed
          have "within (rule_matches p path is_dir) ?tail r (pattern_matches p path is_dir a)"
          proof (cases "?rel = []")
            case True
            have "pattern_matches p path is_dir a = (Inr False, r)"
              unfolding pm Inr True by (simp add: \<open>same\<close>)
            moreover have "rule_matches p path is_dir = False" unfolding meaning True by simp
            ultimately show ?thesis by (simp only: within_Inr le_add1 order_refl simp_thms)
          next
            case rel: False
            have pm': "pattern_matches p path is_dir a =
                (if cp_basename_only p then
                   (case cp_segs p of
                      [Atoms atoms] \<Rightarrow> match_atoms atoms (last ?rel) r
                    | [GlobStar] \<Rightarrow> (Inr True, r)
                    | _ \<Rightarrow> (Inr False, r))
                 else match_segments (cp_segs p) ?rel r)"
              unfolding pm Inr last_conv_nth [OF rel] using rel by (simp add: \<open>same\<close>)
            show ?thesis
            proof (cases "cp_basename_only p")
              case base: True
              consider (glob) atoms where "cp_segs p = [Atoms atoms]" | (all) "cp_segs p = [GlobStar]"
                | (none) "\<And>atoms. cp_segs p \<noteq> [Atoms atoms]" "cp_segs p \<noteq> [GlobStar]" by blast
              then show ?thesis
              proof cases
                case glob
                then show ?thesis unfolding meaning pm' using base rel match_atoms_within by simp
              next
                case all
                then show ?thesis unfolding meaning pm' using base rel by simp
              next
                case none
                then show ?thesis unfolding meaning pm' case_neither [OF none] case_no_atoms [OF none(1)]
                  using base rel by simp
              qed
            next
              case False
              then show ?thesis unfolding meaning pm' using rel match_segments_within by simp
            qed
          qed
          then show ?thesis by (rule within_after [OF _ same(2,3)]) (simp add: cost)
        qed
      qed
    qed
  qed
qed

section \<open>Decisions are exact\<close>

lemma is_overridden_iff: "is_overridden m path \<longleftrightarrow> overridden m path"
proof -
  have "length path \<ge> length prefix \<and> same_prefix path prefix \<longleftrightarrow> (\<exists>below. path = prefix @ below)" for prefix
    using same_prefix_iff [of prefix path] by auto
  then show ?thesis
    unfolding is_overridden_def overridden_def list_ex_iff same_prefix_def [symmetric] by blast
qed

definition last_rule :: "compiled_pattern list \<Rightarrow> (bool \<times> ignore_layer) option \<Rightarrow> (bool \<times> ignore_layer) option" where
  "last_rule ps decided = (if ps = [] then decided else Some (cp_negated (last ps), cp_layer (last ps)))"

lemma last_rule_Cons: "last_rule (p # ps) decided = last_rule ps (Some (cp_negated p, cp_layer p))"
  by (simp add: last_rule_def)

lemma decision_spec_eq:
  "decision_spec m path is_dir =
     decision_of (last_rule (filter (\<lambda>p. \<not> set_aside (overridden m path) p \<and> rule_matches p path is_dir)
       (im_patterns m)) None)"
  by (simp add: decision_spec_def last_rule_def Let_def decision_of_def)

lemma compiled_matches_exact:
  assumes "rule_cost p path \<le> u64_max"
  shows "compiled_matches p path is_dir \<longleftrightarrow> rule_matches p path is_dir"
  using pattern_matches_within [of p path is_dir u64_max] assms
  by (auto simp: compiled_matches_def within_def split: prod.splits sum.splits)

lemma peek_loop_exact:
  assumes "\<forall>p\<in>set ps. rule_cost p path \<le> u64_max"
  shows "peek_loop ps path is_dir over decided =
    last_rule (filter (\<lambda>p. \<not> set_aside over p \<and> rule_matches p path is_dir) ps) decided"
  using assms
  by (induction ps arbitrary: decided) (simp_all add: last_rule_Cons compiled_matches_exact, simp add: last_rule_def)

lemma override_loop_within:
  "within (\<exists>prefix\<in>set prefixes. \<exists>below. path = prefix @ below)
     (\<Sum>prefix\<leftarrow>prefixes. 1 + zip_cost path prefix) a (override_loop prefixes path a)"
proof (induction prefixes arbitrary: a)
  case (Cons prefix prefixes)
  let ?rest = "\<Sum>prefix\<leftarrow>prefixes. 1 + zip_cost path prefix"
  show ?case
  proof (cases "a = 0 \<or> length prefix > length path")
    case True
    have ih: "within (\<exists>p\<in>set prefixes. \<exists>below. path = p @ below) (1 + zip_cost path prefix + ?rest) a
        (override_loop prefixes path (a - 1))" if "a \<noteq> 0"
      by (rule within_after [OF Cons.IH, where step = 1]) (use that in auto)
    show ?thesis
    proof (cases "a = 0")
      case zero: True
      then show ?thesis by (simp add: spend_def)
    next
      case False
      then have "length prefix > length path" using True by simp
      then have "(\<exists>p\<in>set (prefix # prefixes). \<exists>below. path = p @ below) \<longleftrightarrow> (\<exists>p\<in>set prefixes. \<exists>below. path = p @ below)"
        by auto
      then show ?thesis using ih [OF False] False \<open>length prefix > length path\<close> by (simp add: spend_def)
    qed
  next
    case False
    obtain v r where z: "zip_equal path prefix (a - 1) = (v, r)" by fastforce
    have zw: "within (same_prefix path prefix) (zip_cost path prefix) (a - 1) (v, r)"
      using zip_equal_within [of path prefix "a - 1"] z by simp
    have loop: "override_loop (prefix # prefixes) path a =
        (case (v, r) of (Inl e, r1) \<Rightarrow> (Inl e, r1)
         | (Inr equal, r1) \<Rightarrow> if equal then (Inr True, r1) else override_loop prefixes path r1)"
      using False z by (simp add: spend_def)
    have pre: "same_prefix path prefix \<longleftrightarrow> (\<exists>below. path = prefix @ below)"
      using same_prefix_iff [of prefix path] False by auto
    show ?thesis
    proof (cases v)
      case (Inl e)
      then show ?thesis using zw False unfolding loop by auto
    next
      case (Inr equal)
      then have eq: "equal = same_prefix path prefix" "r \<le> a" "a \<le> r + (1 + zip_cost path prefix)"
        using zw False by auto
      show ?thesis
      proof (cases equal)
        case True
        then show ?thesis using Inr eq pre unfolding loop by simp
      next
        case differs: False
        have "within (\<exists>p\<in>set prefixes. \<exists>below. path = p @ below) (1 + zip_cost path prefix + ?rest) a
            (override_loop prefixes path r)"
          by (rule within_after [OF Cons.IH eq(2,3)]) simp
        then show ?thesis using Inr eq pre differs unfolding loop by simp
      qed
    qed
  qed
qed simp

lemma bounded_loop_within:
  "within (last_rule (filter (\<lambda>p. \<not> set_aside over p \<and> rule_matches p path is_dir) ps) decided)
     (\<Sum>p\<leftarrow>ps. 1 + rule_cost p path) a (bounded_loop ps path is_dir over decided a)"
proof (induction ps arbitrary: decided a)
  case (Cons p ps)
  let ?found = "\<lambda>ps decided. last_rule (filter (\<lambda>p. \<not> set_aside over p \<and> rule_matches p path is_dir) ps) decided"
  show ?case
  proof (cases "a = 0")
    case True
    then show ?thesis by (simp add: spend_def)
  next
    case a: False
    show ?thesis
    proof (cases "set_aside over p")
      case True
      have "within (?found ps decided) (\<Sum>p\<leftarrow>p # ps. 1 + rule_cost p path) a
          (bounded_loop ps path is_dir over decided (a - 1))"
        by (rule within_after [OF Cons.IH, where step = 1]) (use a in auto)
      then show ?thesis using a True by (simp add: spend_def)
    next
      case active: False
      obtain v r where z: "pattern_matches p path is_dir (a - 1) = (v, r)" by fastforce
      have zw: "within (rule_matches p path is_dir) (rule_cost p path) (a - 1) (v, r)"
        using pattern_matches_within [of p path is_dir "a - 1"] z by simp
      show ?thesis
      proof (cases v)
        case (Inl e)
        then show ?thesis using zw a z active by (auto simp add: spend_def)
      next
        case (Inr matched)
        then have eq: "matched = rule_matches p path is_dir" "r \<le> a" "a \<le> r + (1 + rule_cost p path)"
          using zw a by auto
        let ?next = "if matched then Some (cp_negated p, cp_layer p) else decided"
        have "within (?found ps ?next) (\<Sum>p\<leftarrow>p # ps. 1 + rule_cost p path) a
            (bounded_loop ps path is_dir over ?next r)"
          by (rule within_after [OF Cons.IH eq(2,3)]) simp
        then show ?thesis using a z active Inr eq(1)
          by (cases matched) (simp_all add: spend_def last_rule_Cons)
      qed
    qed
  qed
qed (simp add: last_rule_def)

definition too_long :: "normalized_path \<Rightarrow> bool" where
  "too_long path \<longleftrightarrow> length (np_raw path) > 4096 \<or> length (np_segments path) > 256"

definition decision_cost :: "ignore_matcher \<Rightarrow> byte list list \<Rightarrow> nat" where
  "decision_cost m path = length path + 1 + (\<Sum>prefix\<leftarrow>im_overrides m. 1 + zip_cost path prefix) +
     (\<Sum>p\<leftarrow>im_patterns m. 1 + rule_cost p path)"

lemma decide_bounded_within:
  assumes "\<not> too_long path"
  shows "(case decide_bounded m path is_dir a of
      (Inl e, r, m') \<Rightarrow> e = WorkLimit \<and> a < decision_cost m (np_segments path) \<and> m' = m
    | (Inr d, r, m') \<Rightarrow> d = decision_spec m (np_segments path) is_dir \<and> r \<le> a \<and>
        a \<le> r + decision_cost m (np_segments path) \<and> m' = count_excluded d m)"
proof -
  let ?segs = "np_segments path" and ?n = "length (np_segments path) + 1"
  show ?thesis
  proof (cases "a < ?n")
    case True
    then have "decide_bounded m path is_dir a = (Inl WorkLimit, 0, m)"
      using assms by (simp add: decide_bounded_def too_long_def spend_def)
    then show ?thesis using True by (simp add: decision_cost_def)
  next
    case False
    obtain v r where o1: "override_loop (im_overrides m) ?segs (a - ?n) = (v, r)" by fastforce
    have vw: "within (overridden m ?segs) (\<Sum>prefix\<leftarrow>im_overrides m. 1 + zip_cost ?segs prefix) (a - ?n) (v, r)"
      using override_loop_within [of "im_overrides m" ?segs "a - ?n"] o1 by (simp add: overridden_def)
    show ?thesis
    proof (cases v)
      case (Inl e)
      then have "decide_bounded m path is_dir a = (Inl e, r, m)"
        using assms False o1 by (simp add: decide_bounded_def too_long_def spend_def)
      then show ?thesis using vw Inl False by (auto simp add: decision_cost_def)
    next
      case (Inr over)
      obtain w r2 where o2: "bounded_loop (im_patterns m) ?segs is_dir over None r = (w, r2)" by fastforce
      have over: "over = overridden m ?segs" using vw Inr by simp
      have ww: "within (last_rule (filter (\<lambda>p. \<not> set_aside over p \<and> rule_matches p ?segs is_dir) (im_patterns m)) None)
          (\<Sum>p\<leftarrow>im_patterns m. 1 + rule_cost p ?segs) r (w, r2)"
        using bounded_loop_within o2 by metis
      show ?thesis
      proof (cases w)
        case (Inl e)
        then have "decide_bounded m path is_dir a = (Inl e, r2, m)"
          using assms False o1 o2 Inr by (simp add: decide_bounded_def too_long_def spend_def)
        then show ?thesis using vw ww Inl Inr False by (auto simp add: decision_cost_def)
      next
        case (Inr decided)
        then have "decide_bounded m path is_dir a = (Inr (decision_of decided), r2, count_excluded (decision_of decided) m)"
          using assms False o1 o2 \<open>v = Inr over\<close> by (simp add: decide_bounded_def too_long_def spend_def Let_def)
        moreover have "decision_of decided = decision_spec m ?segs is_dir"
          using ww Inr over by (simp add: decision_spec_eq)
        ultimately show ?thesis using vw ww \<open>v = Inr over\<close> Inr False
          by (auto simp: decision_cost_def)
      qed
    qed
  qed
qed

section \<open>Literal rules\<close>

text \<open>A rule that names one path: every byte escaped, anchored at the scan root.\<close>

definition escape_segment :: "byte list \<Rightarrow> byte list" where
  "escape_segment s = concat (map (\<lambda>b. [backslash, b]) s)"

definition literal_rule :: "byte list list \<Rightarrow> byte list" where
  "literal_rule segs = slash # join_slash (map escape_segment segs)"

lemma escape_simps [simp]:
  "escape_segment [] = []" "escape_segment (b # s) = backslash # b # escape_segment s"
  "escape_segment (s @ t) = escape_segment s @ escape_segment t"
  by (simp_all add: escape_segment_def)

lemma slashes_before_even:
  "even (slashes_before (x @ slash # escape_segment w @ y) (length x + 1 + length (escape_segment w)))"
proof (induction w arbitrary: y rule: rev_induct)
  case Nil
  then show ?case by (simp add: nth_append)
next
  case (snoc b w)
  let ?bytes = "x @ slash # escape_segment w @ [backslash, b] @ y"
  let ?n = "length x + 1 + length (escape_segment w)"
  have at: "?bytes ! ?n = backslash" "?bytes ! Suc ?n = b"
    by (simp_all add: nth_append)
  have "slashes_before ?bytes (Suc (Suc ?n)) = (if b = backslash then Suc (Suc (slashes_before ?bytes ?n)) else 0)"
    unfolding slashes_before.simps at by simp
  then show ?case using snoc.IH [of "[backslash, b] @ y"] by (simp split: if_splits)
qed

lemma literal_tail:
  assumes "segs \<noteq> []" "\<forall>s\<in>set segs. s \<noteq> [] \<and> slash \<notin> set s"
  obtains x w b where "literal_rule segs = x @ slash # escape_segment w @ [backslash, b]" "b \<noteq> slash"
proof -
  obtain front s where segs: "segs = front @ [s]" using assms(1) by (cases segs rule: rev_cases) auto
  obtain w b where s: "s = w @ [b]" using assms(2) segs by (cases s rule: rev_cases) auto
  have b: "b \<noteq> slash" using assms(2) segs s by simp
  show ?thesis
  proof (cases "front = []")
    case True
    then show ?thesis using that [of "[]" w b] segs s b by (simp add: literal_rule_def)
  next
    case False
    then show ?thesis using that [of "slash # join_slash (map escape_segment front)" w b] segs s b
      by (simp add: literal_rule_def join_slash_snoc)
  qed
qed

lemma trimmed_literal:
  assumes "bytes = x @ slash # escape_segment w @ [backslash, b]"
  shows "strip_unescaped_trailing_spaces bytes = bytes"
proof -
  let ?n = "length x + 1 + length (escape_segment w)"
  have len: "length bytes = Suc (Suc ?n)" using assms by simp
  have at: "bytes ! ?n = backslash" using assms by (simp add: nth_append)
  have "even (slashes_before bytes ?n)" using slashes_before_even [of x w "[backslash, b]"] assms by simp
  then have "trimmed_end bytes (Suc (Suc ?n)) = Suc (Suc ?n)" using at by (simp add: is_escaped_def)
  then show ?thesis using len by (simp add: strip_unescaped_trailing_spaces_def)
qed

lemma atoms_loop_literal:
  assumes "post = [] \<or> hd post = slash"
  shows "atoms_loop (pre @ escape_segment s @ post) (length pre) lit atoms =
    Inr (flush_lit (lit @ s) atoms, length pre + length (escape_segment s))"
proof (induction s arbitrary: pre lit)
  case Nil
  then show ?case using assms
    by (cases post) (simp_all add: atoms_loop.simps [of _ "length pre"] nth_append)
next
  case (Cons b s)
  have "atoms_loop (pre @ escape_segment (b # s) @ post) (length pre) lit atoms =
      atoms_loop (pre @ escape_segment (b # s) @ post) (length pre + 2) (lit @ [b]) atoms"
    by (subst atoms_loop.simps) (simp add: nth_append)
  also have "\<dots> = atoms_loop ((pre @ [backslash, b]) @ escape_segment s @ post) (length (pre @ [backslash, b])) (lit @ [b]) atoms"
    by simp
  finally show ?case using Cons.IH [of "pre @ [backslash, b]" "lit @ [b]"] by simp
qed

lemma segments_loop_literal:
  assumes "ss \<noteq> []" "\<forall>s\<in>set ss. s \<noteq> [] \<and> slash \<notin> set s"
  shows "segments_loop (pre @ join_slash (map escape_segment ss)) (length pre) acc =
    Inr (acc @ map (\<lambda>s. Atoms [Lit s]) ss)"
  using assms
proof (induction ss arbitrary: pre acc)
  case (Cons s ss)
  let ?post = "if ss = [] then [] else slash # join_slash (map escape_segment ss)"
  have bytes: "join_slash (map escape_segment (s # ss)) = escape_segment s @ ?post"
    by (cases ss) simp_all
  obtain b s' where s: "s = b # s'" using Cons.prems(2) by (cases s) auto
  let ?bytes = "pre @ escape_segment s @ ?post"
  have here: "?bytes ! length pre = backslash" "length pre < length ?bytes"
    using s by (simp_all add: nth_append)
  have atoms: "compile_segment_atoms ?bytes (length pre) = Inr ([Lit s], length pre + length (escape_segment s))"
    unfolding compile_segment_atoms_def
    by (subst atoms_loop_literal) (simp_all add: flush_lit_def s)
  have step: "segments_loop ?bytes (length pre) acc =
      segments_loop ?bytes (length pre + length (escape_segment s)) (acc @ [Atoms [Lit s]])"
    using here atoms segments_loop.simps [of ?bytes "length pre" acc]
    by (simp del: append_assoc escape_simps nth_append nth_append_length)
  show ?case
  proof (cases "ss = []")
    case True
    then show ?thesis unfolding bytes step by (subst segments_loop.simps) simp
  next
    case False
    let ?pre = "pre @ escape_segment s @ [slash]"
    have "segments_loop ?bytes (length pre + length (escape_segment s)) (acc @ [Atoms [Lit s]]) =
        segments_loop ?bytes (length pre + length (escape_segment s) + 1) (acc @ [Atoms [Lit s]])"
      using False by (subst segments_loop.simps) (simp add: nth_append)
    also have "\<dots> = segments_loop (?pre @ join_slash (map escape_segment ss)) (length ?pre) (acc @ [Atoms [Lit s]])"
      using False by simp
    also have "\<dots> = Inr (acc @ map (\<lambda>s. Atoms [Lit s]) (s # ss))"
      using Cons.IH [of ?pre "acc @ [Atoms [Lit s]]"] Cons.prems(2) False by simp
    finally show ?thesis unfolding bytes step .
  qed
qed simp

lemma glob_literal: "glob [Lit s] t \<longleftrightarrow> t = s"
  by (auto simp: glob_def starts_with_def)

lemma path_glob_literal: "path_glob (map (\<lambda>s. Atoms [Lit s]) ss) path \<longleftrightarrow> path = ss"
proof (induction ss arbitrary: path)
  case (Cons s ss)
  then show ?case by (cases path) (auto simp: path_glob_def glob_literal)
qed (simp add: path_glob_def)

lemma compile_literal:
  assumes "segs \<noteq> []" "\<forall>s\<in>set segs. s \<noteq> [] \<and> slash \<notin> set s"
  shows "compile_pattern layer [] (literal_rule segs) =
    Inr \<lparr>cp_raw = literal_rule segs, cp_layer = layer, cp_negated = False, cp_directory_only = False,
      cp_basename_only = False, cp_prefix = [], cp_segs = map (\<lambda>s. Atoms [Lit s]) segs\<rparr>"
proof -
  obtain x w b where tl: "literal_rule segs = x @ slash # escape_segment w @ [backslash, b]" "b \<noteq> slash"
    using literal_tail [OF assms] .
  have "last (literal_rule segs) \<noteq> slash" using tl by simp
  moreover have "join_slash (map escape_segment segs) \<noteq> []"
  proof
    assume "join_slash (map escape_segment segs) = []"
    then show False using tl by (cases x) (auto simp: literal_rule_def)
  qed
  ultimately show ?thesis
    using segments_loop_literal [OF assms, of "[]" "[]"]
    by (simp add: compile_pattern_def literal_rule_def starts_with_def compile_segments_def Let_def)
qed

section \<open>Properties\<close>

text \<open>
  C32: The work-accounted decision. Whatever the rules, the path and the allowance, the matcher
  returns, and one of three things holds: the path exceeds the admitted size and nothing is spent;
  the allowance was below the bound \<open>decision_cost\<close> and the answer is unknown; or the answer is the
  declared meaning of the rules, the last applying rule deciding, the overrides setting default and
  scope rules aside, at most that bound being spent. The loops keep one saved wildcard position only,
  so the equality says that forgetting the earlier ones loses no match.
\<close>

theorem bounded_decision_exact:
  "case decide_bounded m path is_dir a of
     (Inl PathLimit, r, m') \<Rightarrow> too_long path \<and> r = a \<and> m' = m
   | (Inl WorkLimit, r, m') \<Rightarrow>
       \<not> too_long path \<and> a < decision_cost m (np_segments path) \<and> m' = m
   | (Inr d, r, m') \<Rightarrow>
       \<not> too_long path \<and> d = decision_spec m (np_segments path) is_dir \<and> r \<le> a \<and>
       a \<le> r + decision_cost m (np_segments path) \<and> m' = count_excluded d m"
proof (cases "too_long path")
  case True
  then have "decide_bounded m path is_dir a = (Inl PathLimit, a, m)"
    by (simp add: decide_bounded_def too_long_def)
  then show ?thesis using True by simp
next
  case False
  then show ?thesis using decide_bounded_within [OF False, where m = m and is_dir = is_dir and a = a]
    by (auto split: prod.splits sum.splits ignore_work_error.splits)
qed

text \<open>
  The compatibility interface, which has no unknown answer: as long as no rule can spend more than
  \<open>u64::MAX\<close> on the path, it gives the declared meaning of the rules and counts the exclusions.
\<close>

theorem unbounded_decision_exact:
  assumes "\<forall>p\<in>set (im_patterns m). rule_cost p (np_segments path) \<le> u64_max"
  shows "decide m path is_dir =
    (decision_spec m (np_segments path) is_dir,
     count_excluded (decision_spec m (np_segments path) is_dir) m)"
  using assms
  by (simp add: decide_def peek_def Let_def peek_loop_exact decision_spec_eq is_overridden_iff)

definition ex_rule :: "bool \<Rightarrow> seg_atom list \<Rightarrow> compiled_pattern" where
  "ex_rule negated atoms = \<lparr>cp_raw = [], cp_layer = LayerRuleFile, cp_negated = negated,
     cp_directory_only = False, cp_basename_only = True, cp_prefix = [], cp_segs = [Atoms atoms]\<rparr>"

text \<open>The rules \<open>*.o\<close> and \<open>!a*.o\<close>.\<close>

definition ex_matcher :: ignore_matcher where
  "ex_matcher = include_all\<lparr>im_patterns :=
     [ex_rule False [Star, Lit [46, 111]], ex_rule True [Lit [97], Star, Lit [46, 111]]]\<rparr>"

definition ex_path :: "byte list \<Rightarrow> normalized_path" where
  "ex_path name = \<lparr>np_raw = name, np_segments = [name]\<rparr>"

lemma ex_rule_costs:
  "length name \<le> 5 \<Longrightarrow> \<forall>p\<in>set (im_patterns ex_matcher). rule_cost p (np_segments (ex_path name)) \<le> u64_max"
  by (simp add: ex_matcher_def ex_rule_def ex_path_def rule_cost_def glob_cost_def atoms_cost_def zip_cost_def
      u64_max_val)

theorem unbounded_decision_exact_witness:
  "fst (decide ex_matcher (ex_path [98, 46, 111]) False) = Exclude CauseRuleFile \<and>
   fst (decide ex_matcher (ex_path [97, 98, 46, 111]) False) = Include"
proof -
  have "decision_spec ex_matcher [[98, 46, 111]] False = Exclude CauseRuleFile"
    "decision_spec ex_matcher [[97, 98, 46, 111]] False = Include"
    by (simp_all add: decision_spec_def ex_matcher_def include_all_def ex_rule_def overridden_def set_aside_def
        rule_matches_def glob_def starts_with_def decision_of_def Let_def numeral_eq_Suc ex_le_Suc_iff)
  then show ?thesis
    using unbounded_decision_exact [OF ex_rule_costs, of "[98, 46, 111]" False]
      unbounded_decision_exact [OF ex_rule_costs, of "[97, 98, 46, 111]" False]
    by (simp add: ex_path_def)
qed

text \<open>
  C33: A scope rule can name one path exactly: the rule made of the path's components with every byte
  escaped, anchored at the root, is compiled, and it matches this path and no other. Trailing spaces,
  wildcards, brackets, a leading hash or exclamation mark lose their meaning.
\<close>

theorem literal_rule_exact:
  assumes "segs \<noteq> []" "\<forall>s\<in>set segs. s \<noteq> [] \<and> slash \<notin> set s"
  shows "\<exists>p. add_scope_rule m (literal_rule segs) = m\<lparr>im_patterns := im_patterns m @ [p]\<rparr> \<and>
    cp_layer p = LayerScope \<and> \<not> cp_negated p \<and>
    (\<forall>path is_dir. rule_matches p path is_dir \<longleftrightarrow> path = segs)"
proof -
  obtain x w b where tl: "literal_rule segs = x @ slash # escape_segment w @ [backslash, b]" "b \<noteq> slash"
    using literal_tail [OF assms] .
  let ?p = "\<lparr>cp_raw = literal_rule segs, cp_layer = LayerScope, cp_negated = False, cp_directory_only = False,
      cp_basename_only = False, cp_prefix = [], cp_segs = map (\<lambda>s. Atoms [Lit s]) segs\<rparr>"
  have "add_scope_rule m (literal_rule segs) = m\<lparr>im_patterns := im_patterns m @ [?p]\<rparr>"
    using compile_literal [OF assms]
    by (simp add: add_scope_rule_def add_raw_def trimmed_literal [OF tl(1)] Let_def)
      (simp add: literal_rule_def starts_with_def)
  moreover have "rule_matches ?p path is_dir \<longleftrightarrow> path = segs" for path is_dir
    using assms(1) by (auto simp: rule_matches_def path_glob_literal)
  ultimately show ?thesis by (intro exI [of _ ?p]) simp
qed

theorem literal_rule_exact_witness:
  "\<exists>p. add_scope_rule include_all (literal_rule [[42], [33, 32]]) = include_all\<lparr>im_patterns := [p]\<rparr> \<and>
     rule_matches p [[42], [33, 32]] False \<and> \<not> rule_matches p [[97], [33, 32]] False"
  using literal_rule_exact [of "[[42], [33, 32]]" include_all] by (auto simp: include_all_def)

end
