(* ===== verification/Query_Syntax.thy ===== *)
theory Query_Syntax
  imports Raw_Scan
begin

text \<open>
  The query language of \<open>crates/fcb-search/src/query.rs\<close>: a query is split at white space outside
  quotes, tokens become search terms, exclusions and field filters, and only unquoted syntax is an
  operator. Strings are lists of scalar values; \<open>String::len\<close> is the length of their UTF-8 form.
  \<open>str::to_lowercase\<close> is the parameter \<open>lower\<close>: its tables are the standard library's and nothing is
  assumed about it.
\<close>

section \<open>Parsed queries\<close>

datatype path_filter_kind = PathInclude "uchar list" | PathExclude "uchar list"

datatype lang_filter_kind = LangInclude "uchar list" | LangExclude "uchar list"

record parsed_query =
  pq_primary :: "uchar list"
  pq_is_phrase :: bool
  pq_conjunctions :: "uchar list list"
  pq_exclusions :: "uchar list list"
  pq_path_filters :: "path_filter_kind list"
  pq_lang_filters :: "lang_filter_kind list"
  pq_raw :: "uchar list"

definition max_query_len :: nat where
  "max_query_len = 1024"

definition max_query_tokens :: nat where
  "max_query_tokens = 64"

text \<open>\<open>String::len\<close> and \<open>char::is_whitespace\<close>.\<close>

definition str_len :: "uchar list \<Rightarrow> nat" where
  "str_len s = length (concat (map utf8_encode s))"

definition whitespace :: "uchar \<Rightarrow> bool" where
  "whitespace c \<longleftrightarrow> 9 \<le> c \<and> c \<le> 13 \<or> c = 32 \<or> c = 0x85 \<or> c = 0xA0 \<or> c = 0x1680 \<or>
     0x2000 \<le> c \<and> c \<le> 0x200A \<or> c = 0x2028 \<or> c = 0x2029 \<or> c = 0x202F \<or> c = 0x205F \<or> c = 0x3000"

section \<open>Tokens\<close>

record query_token =
  tk_value :: "uchar list"
  tk_unquoted_prefix :: nat
  tk_quoted :: bool

fun token_loop ::
  "uchar list \<Rightarrow> uchar list \<Rightarrow> nat option \<Rightarrow> bool \<Rightarrow> uchar list \<times> nat option \<times> bool \<times> uchar list" where
  "token_loop [] v first_quote in_quotes = (v, first_quote, in_quotes, [])"
| "token_loop (c # cs) v first_quote in_quotes =
     (if \<not> in_quotes \<and> whitespace c then (v, first_quote, in_quotes, c # cs)
      else if c = 34 then
        token_loop cs v (Some (case first_quote of Some n \<Rightarrow> n | None \<Rightarrow> str_len v)) (\<not> in_quotes)
      else if c = 92 \<and> in_quotes then
        (case cs of
           [] \<Rightarrow> token_loop cs (v @ [92]) first_quote in_quotes
         | e # cs1 \<Rightarrow>
             if e = 34 \<or> e = 92 then token_loop cs1 (v @ [e]) first_quote in_quotes
             else token_loop cs (v @ [92]) first_quote in_quotes)
      else token_loop cs (v @ [c]) first_quote in_quotes)"

text \<open>The token, and the characters left for the next one.\<close>

definition next_token :: "uchar list \<Rightarrow> query_error + (query_token option \<times> uchar list)" where
  "next_token chars =
     (let cs = dropWhile whitespace chars in
      if cs = [] then Inr (None, [])
      else
        (case token_loop cs [] None False of
           (v, first_quote, in_quotes, rest) \<Rightarrow>
             if in_quotes then Inl QSyntaxError
             else Inr (Some \<lparr>tk_value = v,
               tk_unquoted_prefix = (case first_quote of Some n \<Rightarrow> n | None \<Rightarrow> str_len v),
               tk_quoted = first_quote \<noteq> None\<rparr>, rest)))"

section \<open>Parsing\<close>

definition str_starts_with :: "uchar list \<Rightarrow> uchar list \<Rightarrow> bool" where
  "str_starts_with s p \<longleftrightarrow> take (length p) s = p"

definition ascii_str :: "string \<Rightarrow> uchar list" where
  "ascii_str s = map of_char s"

definition query_new :: "uchar list \<Rightarrow> parsed_query" where
  "query_new raw = \<lparr>pq_primary = [], pq_is_phrase = False, pq_conjunctions = [], pq_exclusions = [],
     pq_path_filters = [], pq_lang_filters = [], pq_raw = raw\<rparr>"

text \<open>The closure \<open>directive\<close>: the field name stands before the first quote.\<close>

definition directive :: "nat \<Rightarrow> uchar list \<Rightarrow> uchar list \<Rightarrow> bool" where
  "directive pfx val name \<longleftrightarrow> pfx \<ge> str_len name \<and> str_starts_with val name"

definition path_key :: "uchar list" where "path_key = [112, 97, 116, 104, 58]"
definition lang_key :: "uchar list" where "lang_key = [108, 97, 110, 103, 58]"
definition type_key :: "uchar list" where "type_key = [116, 121, 112, 101, 58]"
definition re_key :: "uchar list" where "re_key = [114, 101, 58]"
definition regex_key :: "uchar list" where "regex_key = [114, 101, 103, 101, 120, 58]"
definition anchor_key :: "uchar list" where "anchor_key = [47, 94]"

text \<open>The body of the token loop after the count.\<close>

definition apply_token ::
  "(uchar list \<Rightarrow> uchar list) \<Rightarrow> query_token \<Rightarrow> parsed_query \<Rightarrow> query_error + parsed_query" where
  "apply_token lower token parsed =
     (let signed = tk_unquoted_prefix token > 0 \<and>
            (case tk_value token of c # _ \<Rightarrow> c = 45 \<or> c = 43 | [] \<Rightarrow> False);
          negated = signed \<and> str_starts_with (tk_value token) [45];
          pfx = tk_unquoted_prefix token - (if signed then 1 else 0);
          val = (if signed then drop 1 (tk_value token) else tk_value token) in
      if val = [] then Inl (if tk_quoted token then QEmptyNeedle else QSyntaxError)
      else if directive pfx val re_key \<or> directive pfx val regex_key \<or> directive pfx val anchor_key
      then Inl QRegexUnqualified
      else if directive pfx val path_key then
        (let path = drop 5 val in
         if path = [] then Inl QSyntaxError
         else Inr (parsed\<lparr>pq_path_filters := pq_path_filters parsed @
           [if negated then PathExclude path else PathInclude path]\<rparr>))
      else if directive pfx val lang_key \<or> directive pfx val type_key then
        (let lang = drop 5 val in
         if lang = [] then Inl QSyntaxError
         else Inr (parsed\<lparr>pq_lang_filters := pq_lang_filters parsed @
           [if negated then LangExclude (lower lang) else LangInclude (lower lang)]\<rparr>))
      else if negated then Inr (parsed\<lparr>pq_exclusions := pq_exclusions parsed @ [val]\<rparr>)
      else if pq_primary parsed = [] then
        Inr (parsed\<lparr>pq_primary := val, pq_is_phrase := tk_quoted token\<rparr>)
      else Inr (parsed\<lparr>pq_conjunctions := pq_conjunctions parsed @ [val]\<rparr>))"

lemma token_loop_rest: "token_loop cs v fq q = (v', fq', q', rest) \<Longrightarrow> length rest \<le> length cs"
proof (induction "length cs" arbitrary: cs v fq q rule: less_induct)
  case less
  show ?case
  proof (cases cs)
    case Nil
    then show ?thesis using less.prems by simp
  next
    case (Cons c ds)
    have ih: "length rest \<le> length cs" if "token_loop es v fq q = (v', fq', q', rest)" "length es < length cs" for es v fq q
      using less.hyps [OF that(2,1)] that(2) by simp
    have "rest = cs \<or> (\<exists>v fq q. token_loop ds v fq q = (v', fq', q', rest)) \<or>
        (\<exists>e es v fq q. ds = e # es \<and> token_loop es v fq q = (v', fq', q', rest))"
      using less.prems unfolding Cons token_loop.simps(2) [of c ds]
      by (auto simp del: token_loop.simps split: if_splits list.splits)
    then show ?thesis using ih Cons by fastforce
  qed
qed

lemma next_token_rest: "next_token cs = Inr (Some t, rest) \<Longrightarrow> length rest < length cs"
proof -
  assume n: "next_token cs = Inr (Some t, rest)"
  obtain c ds where w: "dropWhile whitespace cs = c # ds"
    using n by (cases "dropWhile whitespace cs") (auto simp: next_token_def)
  have nw: "\<not> whitespace c" using w by (metis hd_dropWhile list.sel(1) list.discI)
  have len: "length (c # ds) \<le> length cs" using length_dropWhile_le [of whitespace cs] w by simp
  obtain v fq q where l: "token_loop (c # ds) [] None False = (v, fq, q, rest)"
    using n w by (auto simp: next_token_def split: prod.splits if_splits)
  then have "length rest \<le> length ds"
    using nw by (auto split: if_splits dest: token_loop_rest)
  then show ?thesis using len by simp
qed

function parse_loop ::
  "(uchar list \<Rightarrow> uchar list) \<Rightarrow> uchar list \<Rightarrow> nat \<Rightarrow> parsed_query \<Rightarrow> query_error + parsed_query" where
  "parse_loop lower chars token_count parsed =
     (case next_token chars of
        Inl e \<Rightarrow> Inl e
      | Inr (None, rest) \<Rightarrow> Inr parsed
      | Inr (Some token, rest) \<Rightarrow>
          if token_count + 1 > max_query_tokens then Inl QLimitExceeded
          else
            (case apply_token lower token parsed of
               Inl e \<Rightarrow> Inl e
             | Inr parsed1 \<Rightarrow> parse_loop lower rest (token_count + 1) parsed1))"
  by pat_completeness auto
termination
  by (relation "measure (\<lambda>(lower, chars, n, parsed). length chars)") (auto intro: next_token_rest [OF sym])

declare parse_loop.simps [simp del]

definition query_parse :: "(uchar list \<Rightarrow> uchar list) \<Rightarrow> uchar list \<Rightarrow> query_error + parsed_query" where
  "query_parse lower query =
     (if str_len query > max_query_len then Inl QNeedleTooLong
      else if dropWhile whitespace query = [] then Inl QEmptyNeedle
      else
        (case parse_loop lower query 0 (query_new query) of
           Inl e \<Rightarrow> Inl e
         | Inr parsed \<Rightarrow> if pq_primary parsed = [] then Inl QEmptyNeedle else Inr parsed))"

section \<open>Queries written with quotes\<close>

text \<open>What a user can ask for: terms, exclusions and (negated) field filters, with any content.\<close>

datatype query_item =
    ItemTerm "uchar list"
  | ItemNot "uchar list"
  | ItemPath bool "uchar list"
  | ItemLang bool "uchar list"

fun item_text :: "query_item \<Rightarrow> uchar list" where
  "item_text (ItemTerm s) = s"
| "item_text (ItemNot s) = s"
| "item_text (ItemPath negated s) = s"
| "item_text (ItemLang negated s) = s"

fun item_operator :: "query_item \<Rightarrow> uchar list" where
  "item_operator (ItemTerm s) = []"
| "item_operator (ItemNot s) = [45]"
| "item_operator (ItemPath negated s) = (if negated then [45] else []) @ path_key"
| "item_operator (ItemLang negated s) = (if negated then [45] else []) @ lang_key"

definition quote_char :: "uchar \<Rightarrow> uchar list" where
  "quote_char c = (if c = 34 \<or> c = 92 then [92, c] else [c])"

definition quoted :: "uchar list \<Rightarrow> uchar list" where
  "quoted s = 34 # concat (map quote_char s) @ [34]"

definition render :: "query_item list \<Rightarrow> uchar list" where
  "render items = concat (map (\<lambda>i. item_operator i @ quoted (item_text i) @ [32]) items)"

fun item_terms :: "query_item list \<Rightarrow> uchar list list" where
  "item_terms [] = []"
| "item_terms (ItemTerm s # items) = s # item_terms items"
| "item_terms (_ # items) = item_terms items"

fun item_nots :: "query_item list \<Rightarrow> uchar list list" where
  "item_nots [] = []"
| "item_nots (ItemNot s # items) = s # item_nots items"
| "item_nots (_ # items) = item_nots items"

fun item_paths :: "query_item list \<Rightarrow> path_filter_kind list" where
  "item_paths [] = []"
| "item_paths (ItemPath negated s # items) = (if negated then PathExclude s else PathInclude s) # item_paths items"
| "item_paths (_ # items) = item_paths items"

fun item_langs :: "(uchar list \<Rightarrow> uchar list) \<Rightarrow> query_item list \<Rightarrow> lang_filter_kind list" where
  "item_langs lower [] = []"
| "item_langs lower (ItemLang negated s # items) =
     (if negated then LangExclude (lower s) else LangInclude (lower s)) # item_langs lower items"
| "item_langs lower (_ # items) = item_langs lower items"

text \<open>The first term is the needle, the others must co-occur.\<close>

definition meant :: "(uchar list \<Rightarrow> uchar list) \<Rightarrow> query_item list \<Rightarrow> uchar list \<Rightarrow> parsed_query" where
  "meant lower items raw = \<lparr>pq_primary = hd (item_terms items), pq_is_phrase = True,
     pq_conjunctions = tl (item_terms items), pq_exclusions = item_nots items,
     pq_path_filters = item_paths items, pq_lang_filters = item_langs lower items, pq_raw = raw\<rparr>"

text \<open>
  What the first offending item is refused for: one past the token limit, or one with an empty text.
\<close>

fun refusal :: "nat \<Rightarrow> query_item list \<Rightarrow> query_error option" where
  "refusal n [] = None"
| "refusal n (i # items) =
     (if n \<ge> max_query_tokens then Some QLimitExceeded
      else if item_text i = [] then
        Some (case i of ItemTerm _ \<Rightarrow> QEmptyNeedle | ItemNot _ \<Rightarrow> QEmptyNeedle | _ \<Rightarrow> QSyntaxError)
      else refusal (n + 1) items)"

definition item_token :: "query_item \<Rightarrow> query_token" where
  "item_token i = \<lparr>tk_value = item_operator i @ item_text i,
     tk_unquoted_prefix = str_len (item_operator i), tk_quoted = True\<rparr>"

lemma token_loop_quoted:
  "token_loop (concat (map quote_char s) @ 34 # cs) v (Some n) True = token_loop cs (v @ s) (Some n) False"
proof (induction s arbitrary: v)
  case (Cons c s)
  then show ?case
    by (cases "concat (map quote_char s) @ 34 # cs") (simp_all add: quote_char_def)
qed simp

lemma token_loop_operator:
  "\<forall>c\<in>set k. \<not> whitespace c \<and> c \<noteq> 34 \<Longrightarrow>
   token_loop (k @ 34 # cs) v None False = token_loop cs (v @ k) (Some (str_len (v @ k))) True"
proof (induction k arbitrary: v)
  case Nil
  then show ?case by (simp add: whitespace_def)
qed simp

lemma operator_plain: "\<forall>c\<in>set (item_operator i). \<not> whitespace c \<and> c \<noteq> 34"
  by (cases i) (simp_all add: path_key_def lang_key_def whitespace_def)

lemma not_whitespace_quote: "\<not> whitespace 34"
  by (simp add: whitespace_def)

lemma next_token_item:
  "next_token (item_operator i @ quoted (item_text i) @ 32 # cs) = Inr (Some (item_token i), 32 # cs)"
proof -
  let ?all = "item_operator i @ quoted (item_text i) @ 32 # cs"
  have nw: "dropWhile whitespace ?all = ?all" "?all \<noteq> []"
    using operator_plain [of i] not_whitespace_quote by (cases "item_operator i"; simp add: quoted_def)+
  have "token_loop ?all [] None False =
      token_loop (32 # cs) (item_operator i @ item_text i) (Some (str_len (item_operator i))) False"
    using token_loop_operator [OF operator_plain, of i _ "[]"] token_loop_quoted by (simp add: quoted_def)
  also have "\<dots> = (item_operator i @ item_text i, Some (str_len (item_operator i)), False, 32 # cs)"
    by (simp add: whitespace_def)
  finally show ?thesis unfolding next_token_def Let_def nw by (simp add: item_token_def quoted_def)
qed

lemma next_token_space: "next_token (32 # cs) = next_token cs"
  by (simp add: next_token_def whitespace_def)

fun absorb :: "(uchar list \<Rightarrow> uchar list) \<Rightarrow> parsed_query \<Rightarrow> query_item \<Rightarrow> parsed_query" where
  "absorb lower p (ItemTerm s) =
     (if pq_primary p = [] then p\<lparr>pq_primary := s, pq_is_phrase := True\<rparr>
      else p\<lparr>pq_conjunctions := pq_conjunctions p @ [s]\<rparr>)"
| "absorb lower p (ItemNot s) = p\<lparr>pq_exclusions := pq_exclusions p @ [s]\<rparr>"
| "absorb lower p (ItemPath negated s) = p\<lparr>pq_path_filters := pq_path_filters p @ item_paths [ItemPath negated s]\<rparr>"
| "absorb lower p (ItemLang negated s) = p\<lparr>pq_lang_filters := pq_lang_filters p @ item_langs lower [ItemLang negated s]\<rparr>"

lemma str_len_ascii: "\<forall>c\<in>set s. c < 128 \<Longrightarrow> str_len s = length s"
  by (induction s) (simp_all add: str_len_def utf8_encode_def)

lemma str_len_keys:
  "str_len [] = 0" "str_len [45] = 1" "str_len path_key = 5" "str_len (45 # path_key) = 6"
  "str_len lang_key = 5" "str_len (45 # lang_key) = 6" "str_len type_key = 5" "str_len re_key = 3"
  "str_len regex_key = 6" "str_len anchor_key = 2"
  by (simp_all add: str_len_ascii path_key_def lang_key_def type_key_def re_key_def regex_key_def anchor_key_def)

lemmas key_defs = path_key_def lang_key_def type_key_def re_key_def regex_key_def anchor_key_def

lemma directive_keys [simp]:
  "directive 5 (path_key @ s) path_key" "directive 5 (lang_key @ s) lang_key"
  "\<not> directive n (path_key @ s) re_key" "\<not> directive n (path_key @ s) regex_key"
  "\<not> directive n (path_key @ s) anchor_key" "\<not> directive n (lang_key @ s) re_key"
  "\<not> directive n (lang_key @ s) regex_key" "\<not> directive n (lang_key @ s) anchor_key"
  "\<not> directive n (lang_key @ s) path_key"
  by (simp_all add: directive_def str_starts_with_def str_len_keys) (simp_all add: key_defs)

lemma directive_0 [simp]:
  "\<not> directive 0 s path_key" "\<not> directive 0 s lang_key" "\<not> directive 0 s type_key" "\<not> directive 0 s re_key"
  "\<not> directive 0 s regex_key" "\<not> directive 0 s anchor_key"
  by (simp_all add: directive_def str_len_keys)

lemma length_keys [simp]: "length path_key = 5" "length lang_key = 5"
  by (simp_all add: path_key_def lang_key_def)

lemma key_facts [simp]:
  "drop 5 (path_key @ s) = s" "drop 5 (lang_key @ s) = s" "path_key @ s \<noteq> []" "lang_key @ s \<noteq> []"
  "(case path_key @ s of c # _ \<Rightarrow> c = 45 \<or> c = 43 | [] \<Rightarrow> False) = False"
  "(case lang_key @ s of c # _ \<Rightarrow> c = 45 \<or> c = 43 | [] \<Rightarrow> False) = False"
  by (simp_all add: path_key_def lang_key_def)

lemma apply_item:
  assumes "item_text i \<noteq> []"
  shows "apply_token lower (item_token i) p = Inr (absorb lower p i)"
  using assms
  by (cases i) (auto simp: apply_token_def item_token_def str_len_keys str_starts_with_def Let_def)

lemma parse_loop_space: "parse_loop lower (32 # cs) n p = parse_loop lower cs n p"
  by (simp add: parse_loop.simps [of lower "32 # cs"] parse_loop.simps [of lower cs] next_token_space)

lemma apply_item_empty:
  assumes "item_text i = []"
  shows "apply_token lower (item_token i) p =
    Inl (case i of ItemTerm _ \<Rightarrow> QEmptyNeedle | ItemNot _ \<Rightarrow> QEmptyNeedle | _ \<Rightarrow> QSyntaxError)"
proof -
  have k: "directive 5 path_key path_key" "directive 5 lang_key lang_key" "\<not> directive 5 path_key re_key"
    "\<not> directive 5 path_key regex_key" "\<not> directive 5 path_key anchor_key" "\<not> directive 5 lang_key re_key"
    "\<not> directive 5 lang_key regex_key" "\<not> directive 5 lang_key anchor_key" "\<not> directive 5 lang_key path_key"
    using directive_keys [where s = "[]"] by simp_all
  have n: "path_key \<noteq> []" "lang_key \<noteq> []" "drop 5 path_key = []" "drop 5 lang_key = []"
    "(case path_key of c # _ \<Rightarrow> c = 45 \<or> c = 43 | [] \<Rightarrow> False) = False"
    "(case lang_key of c # _ \<Rightarrow> c = 45 \<or> c = 43 | [] \<Rightarrow> False) = False"
    by (simp_all add: path_key_def lang_key_def)
  show ?thesis using assms k n
    by (cases i) (auto simp: apply_token_def item_token_def str_len_keys str_starts_with_def Let_def)
qed

lemma parse_loop_render:
  "parse_loop lower (render items) n p =
     (case refusal n items of Some e \<Rightarrow> Inl e | None \<Rightarrow> Inr (foldl (absorb lower) p items))"
proof (induction items arbitrary: n p)
  case Nil
  then show ?case by (simp add: parse_loop.simps [of lower "[]"] next_token_def render_def)
next
  case (Cons i items)
  have r: "render (i # items) = item_operator i @ quoted (item_text i) @ 32 # render items"
    by (simp add: render_def)
  have "parse_loop lower (render (i # items)) n p =
      (if n + 1 > max_query_tokens then Inl QLimitExceeded
       else case apply_token lower (item_token i) p of Inl e \<Rightarrow> Inl e
         | Inr p1 \<Rightarrow> parse_loop lower (render items) (n + 1) p1)"
    unfolding r by (subst parse_loop.simps) (simp add: next_token_item parse_loop_space split: sum.split)
  then show ?case
    using Cons.IH [of "n + 1" "absorb lower p i"]
    by (cases "item_text i = []") (auto simp: apply_item apply_item_empty split: option.split)
qed

lemma refusal_text: "refusal n items = None \<Longrightarrow> \<forall>i\<in>set items. item_text i \<noteq> []"
  by (induction items arbitrary: n) (auto split: if_splits)

lemma absorb_fields:
  assumes "\<forall>i\<in>set items. item_text i \<noteq> []"
  shows "foldl (absorb lower) p items = p
    \<lparr>pq_primary := (if pq_primary p = [] \<and> item_terms items \<noteq> [] then hd (item_terms items) else pq_primary p),
     pq_is_phrase := (if pq_primary p = [] \<and> item_terms items \<noteq> [] then True else pq_is_phrase p),
     pq_conjunctions := pq_conjunctions p @ (if pq_primary p = [] then tl (item_terms items) else item_terms items),
     pq_exclusions := pq_exclusions p @ item_nots items,
     pq_path_filters := pq_path_filters p @ item_paths items,
     pq_lang_filters := pq_lang_filters p @ item_langs lower items\<rparr>"
  using assms
proof (induction items arbitrary: p)
  case (Cons i items)
  then show ?case by (cases i) simp_all
qed simp

lemma render_nonblank: "items \<noteq> [] \<Longrightarrow> dropWhile whitespace (render items) \<noteq> []"
proof (cases items)
  case (Cons i rest_items)
  have "34 \<in> set (render items)" by (simp add: Cons render_def quoted_def)
  then show ?thesis using not_whitespace_quote unfolding dropWhile_eq_Nil_conv by blast
qed simp

section \<open>Properties\<close>

text \<open>
  C34: Quoting is a faithful notation. A query of at most 1024 UTF-8 bytes that writes its terms, its
  exclusions and its path and language filters between quotes parses to exactly these terms and
  filters, the first term being the needle, whatever their characters -- white space, quotes,
  backslashes, text that looks like an operator or a regular expression; only language names are
  lower-cased. It is refused exactly when it is too long, has no positive term, or has an item past
  the 64th or with an empty text; the error is that of the first such item.
\<close>

theorem quoted_query_roundtrip:
  "query_parse lower (render items) =
     (if str_len (render items) > 1024 then Inl QNeedleTooLong
      else case refusal 0 items of
        Some e \<Rightarrow> Inl e
      | None \<Rightarrow> if item_terms items = [] then Inl QEmptyNeedle else Inr (meant lower items (render items)))"
proof (cases "refusal 0 items")
  case None
  note texts = refusal_text [OF None]
  have mem: "item_terms items \<noteq> [] \<Longrightarrow> hd (item_terms items) \<noteq> []"
    using texts by (induction items rule: item_terms.induct) auto
  show ?thesis
  proof (cases "items = []")
    case True
    then show ?thesis by (simp add: query_parse_def render_def max_query_len_def str_len_def)
  next
    case False
    then show ?thesis
      using render_nonblank [OF False] mem None
      by (auto simp del: dropWhile_eq_Nil_conv simp: query_parse_def parse_loop_render absorb_fields [OF texts] query_new_def meant_def
          max_query_len_def)
  qed
next
  case (Some e)
  then have "items \<noteq> []" by auto
  with Some render_nonblank [of items] show ?thesis
    by (auto simp del: dropWhile_eq_Nil_conv simp: query_parse_def parse_loop_render max_query_len_def)
qed

theorem quoted_query_roundtrip_witness:
  "query_parse id (render [ItemTerm [45, 34, 97, 32, 92], ItemPath True [115, 114, 99, 47]]) =
     Inr (meant id [ItemTerm [45, 34, 97, 32, 92], ItemPath True [115, 114, 99, 47]]
       (render [ItemTerm [45, 34, 97, 32, 92], ItemPath True [115, 114, 99, 47]]))"
  using quoted_query_roundtrip [of id "[ItemTerm [45, 34, 97, 32, 92], ItemPath True [115, 114, 99, 47]]"]
  by (simp add: max_query_tokens_def render_def quoted_def quote_char_def path_key_def str_len_ascii)

end
