(* ===== verification/Path_Filters.thy ===== *)
theory Path_Filters
  imports Query_Syntax
begin

text \<open>
  The path and language filters of \<open>crates/fcb-search/src/oracle.rs\<close>: a filter without wildcards is a
  substring test, one without a slash is matched against the last component, and the other patterns
  run as a nondeterministic automaton whose states are positions of the pattern. Positions count
  scalar values here where the code counts bytes; both only visit the starts of tokens. The array of
  flags is a predicate on positions. \<open>str::to_lowercase\<close> is the parameter \<open>lower\<close>.
\<close>

section \<open>Tokens of a pattern\<close>

datatype glob_token = GLiteral uchar | GOne | GStar | GAny | GDirectories

text \<open>\<open>end\<close>: the first position after the run of stars.\<close>

definition stars_end :: "uchar list \<Rightarrow> nat \<Rightarrow> nat" where
  "stars_end pattern offset = offset + 1 + length (takeWhile (\<lambda>c. c = 42) (drop (offset + 1) pattern))"

definition glob_token_at :: "uchar list \<Rightarrow> nat \<Rightarrow> glob_token \<times> nat" where
  "glob_token_at pattern offset =
     (let ch = pattern ! offset in
      if ch = 63 then (GOne, offset + 1)
      else if ch \<noteq> 42 then (GLiteral ch, offset + 1)
      else
        let fin = stars_end pattern offset;
            component_start = offset = 0 \<or> pattern ! (offset - 1) = 47 in
        if fin - offset \<ge> 2 \<and> component_start \<and> fin = length pattern then (GAny, fin)
        else if fin - offset \<ge> 2 \<and> component_start \<and> pattern ! fin = 47 then (GDirectories, fin + 1)
        else (GStar, fin))"

lemma stars_end_bound: "offset < length pattern \<Longrightarrow> offset < stars_end pattern offset \<and> stars_end pattern offset \<le> length pattern"
  using length_takeWhile_le [of "\<lambda>c. c = 42" "drop (offset + 1) pattern"] by (simp add: stars_end_def)

lemma glob_token_next:
  "offset < length pattern \<Longrightarrow> glob_token_at pattern offset = (t, n) \<Longrightarrow> offset < n \<and> n \<le> length pattern"
  using stars_end_bound [of offset pattern] by (auto simp: glob_token_at_def Let_def split: if_splits)

section \<open>The automaton\<close>

definition skips :: "glob_token \<Rightarrow> bool \<Rightarrow> bool" where
  "skips t component_start \<longleftrightarrow> t = GStar \<or> t = GAny \<or> t = GDirectories \<and> component_start"

function close_from :: "uchar list \<Rightarrow> bool \<Rightarrow> nat \<Rightarrow> (nat \<Rightarrow> bool) \<Rightarrow> nat \<Rightarrow> bool" where
  "close_from pattern component_start offset active =
     (if offset < length pattern then
        (case glob_token_at pattern offset of
           (t, next) \<Rightarrow>
             close_from pattern component_start next
               (if active offset \<and> skips t component_start then active(next := True) else active))
      else active)"
  by pat_completeness auto
termination
  by (relation "measure (\<lambda>(pattern, st, offset, active). length pattern - offset)")
    (auto dest!: glob_token_next [OF _ sym])

declare close_from.simps [simp del]

definition close_glob_states :: "uchar list \<Rightarrow> (nat \<Rightarrow> bool) \<Rightarrow> bool \<Rightarrow> nat \<Rightarrow> bool" where
  "close_glob_states pattern active component_start = close_from pattern component_start 0 active"

text \<open>The match on one token: the state the character leads to.\<close>

definition token_target :: "glob_token \<Rightarrow> uchar \<Rightarrow> nat \<Rightarrow> nat \<Rightarrow> nat option" where
  "token_target t ch offset next =
     (case t of
        GLiteral want \<Rightarrow> if ch = want then Some next else None
      | GOne \<Rightarrow> if ch \<noteq> 47 then Some next else None
      | GStar \<Rightarrow> if ch \<noteq> 47 then Some offset else None
      | _ \<Rightarrow> Some offset)"

function advance_from ::
  "uchar list \<Rightarrow> (nat \<Rightarrow> bool) \<Rightarrow> uchar \<Rightarrow> nat \<Rightarrow> (nat \<Rightarrow> bool) \<Rightarrow> nat \<Rightarrow> bool" where
  "advance_from pattern active ch offset next_active =
     (if offset < length pattern then
        (case glob_token_at pattern offset of
           (t, next) \<Rightarrow>
             advance_from pattern active ch next
               (if active offset then
                  (case token_target t ch offset next of
                     Some target \<Rightarrow> next_active(target := True) | None \<Rightarrow> next_active)
                else next_active))
      else next_active)"
  by pat_completeness auto
termination
  by (relation "measure (\<lambda>(pattern, active, ch, offset, next_active). length pattern - offset)")
    (auto dest!: glob_token_next [OF _ sym])

declare advance_from.simps [simp del]

fun glob_run :: "uchar list \<Rightarrow> (nat \<Rightarrow> bool) \<Rightarrow> uchar list \<Rightarrow> nat \<Rightarrow> bool" where
  "glob_run pattern active [] = active"
| "glob_run pattern active (ch # path) =
     glob_run pattern
       (close_glob_states pattern (advance_from pattern active ch 0 (\<lambda>_. False)) (ch = 47)) path"

definition no_state :: "nat \<Rightarrow> bool" where
  "no_state = (\<lambda>_. False)"

definition wildcard :: "uchar \<Rightarrow> bool" where
  "wildcard c \<longleftrightarrow> c = 42 \<or> c = 63"

definition str_contains :: "uchar list \<Rightarrow> uchar list \<Rightarrow> bool" where
  "str_contains s p \<longleftrightarrow> list_ex (\<lambda>i. str_starts_with (drop i s) p) [0..<length s + 1]"

definition str_ends_with :: "uchar list \<Rightarrow> uchar list \<Rightarrow> bool" where
  "str_ends_with s p \<longleftrightarrow> length p \<le> length s \<and> drop (length s - length p) s = p"

text \<open>\<open>rsplit(sep).next()\<close>: what stands after the last separator.\<close>

definition after_last :: "uchar \<Rightarrow> uchar list \<Rightarrow> uchar list" where
  "after_last sep s = rev (takeWhile (\<lambda>c. c \<noteq> sep) (rev s))"

definition path_matches :: "uchar list \<Rightarrow> uchar list \<Rightarrow> bool" where
  "path_matches path pattern =
     (if pattern = [] \<or> str_len pattern > max_query_len then False
      else if \<not> list_ex wildcard pattern then str_contains path pattern
      else
        let path1 = (if 47 \<in> set pattern then path else after_last 47 path) in
        if hd pattern = 42 \<and> \<not> list_ex (\<lambda>c. wildcard c \<or> c = 47) (tl pattern)
        then str_ends_with path1 (tl pattern)
        else glob_run pattern (close_glob_states pattern (no_state(0 := True)) True) path1 (length pattern))"

definition matches_path_filters :: "uchar list \<Rightarrow> path_filter_kind list \<Rightarrow> bool" where
  "matches_path_filters path filters =
     list_all (\<lambda>f.
       case (case f of PathInclude p \<Rightarrow> (p, True) | PathExclude p \<Rightarrow> (p, False)) of
         (pattern, include) \<Rightarrow>
           pattern \<noteq> [] \<and> str_len pattern \<le> max_query_len \<and> path_matches path pattern = include) filters"

section \<open>Languages\<close>

definition lang_matches :: "(uchar list \<Rightarrow> uchar list) \<Rightarrow> uchar list \<Rightarrow> uchar list \<Rightarrow> bool" where
  "lang_matches lower ext lang0 =
     (let lang = lower lang0 in
      if lang = ascii_str ''rust'' \<or> lang = ascii_str ''rs'' then ext = ascii_str ''rs''
      else if lang = ascii_str ''python'' \<or> lang = ascii_str ''py'' then ext = ascii_str ''py''
      else if lang = ascii_str ''javascript'' \<or> lang = ascii_str ''js'' then ext = ascii_str ''js''
      else if lang = ascii_str ''typescript'' \<or> lang = ascii_str ''ts'' then ext = ascii_str ''ts''
      else if lang = ascii_str ''c'' then ext = ascii_str ''c'' \<or> ext = ascii_str ''h''
      else if lang = ascii_str ''cpp'' \<or> lang = ascii_str ''cxx'' \<or> lang = ascii_str ''cc'' then
        ext = ascii_str ''cpp'' \<or> ext = ascii_str ''cxx'' \<or> ext = ascii_str ''cc'' \<or> ext = ascii_str ''hpp''
      else if lang = ascii_str ''markdown'' \<or> lang = ascii_str ''md'' then
        ext = ascii_str ''md'' \<or> ext = ascii_str ''markdown''
      else ext = lang)"

text \<open>\<open>rsplit_once('.')\<close> of the file name, lower-cased; empty when there is no dot.\<close>

definition extension :: "(uchar list \<Rightarrow> uchar list) \<Rightarrow> uchar list \<Rightarrow> uchar list" where
  "extension lower path =
     (let filename = after_last 47 path in
      lower (if 46 \<in> set filename then after_last 46 filename else []))"

definition matches_lang_filters :: "(uchar list \<Rightarrow> uchar list) \<Rightarrow> uchar list \<Rightarrow> lang_filter_kind list \<Rightarrow> bool" where
  "matches_lang_filters lower path filters =
     (let ext = extension lower path in
      list_all (\<lambda>f. case f of LangInclude lang \<Rightarrow> lang_matches lower ext lang
                            | LangExclude lang \<Rightarrow> \<not> lang_matches lower ext lang) filters)"

section \<open>What a pattern means\<close>

function glob_tokens :: "uchar list \<Rightarrow> nat \<Rightarrow> glob_token list" where
  "glob_tokens pattern offset =
     (if offset < length pattern then
        (case glob_token_at pattern offset of (t, next) \<Rightarrow> t # glob_tokens pattern next)
      else [])"
  by pat_completeness auto
termination
  by (relation "measure (\<lambda>(pattern, offset). length pattern - offset)")
    (auto dest!: glob_token_next [OF _ sym])

declare glob_tokens.simps [simp del]

fun token_takes :: "glob_token \<Rightarrow> uchar list \<Rightarrow> bool" where
  "token_takes (GLiteral c) w \<longleftrightarrow> w = [c]"
| "token_takes GOne w \<longleftrightarrow> (\<exists>x. w = [x] \<and> x \<noteq> 47)"
| "token_takes GStar w \<longleftrightarrow> 47 \<notin> set w"
| "token_takes GAny w \<longleftrightarrow> True"
| "token_takes GDirectories w \<longleftrightarrow> w = [] \<or> last w = 47"

text \<open>The path falls into one piece for every token of the pattern.\<close>

definition glob_denotes :: "glob_token list \<Rightarrow> uchar list \<Rightarrow> bool" where
  "glob_denotes ts path \<longleftrightarrow> (\<exists>ws. path = concat ws \<and> list_all2 token_takes ts ws)"

text \<open>The same as a recursion that knows whether it stands at the start of a component.\<close>

function glob_match :: "glob_token list \<Rightarrow> bool \<Rightarrow> uchar list \<Rightarrow> bool" where
  "glob_match [] st s = (s = [])"
| "glob_match (GLiteral c # ts) st s = (case s of [] \<Rightarrow> False | x # xs \<Rightarrow> x = c \<and> glob_match ts (x = 47) xs)"
| "glob_match (GOne # ts) st s = (case s of [] \<Rightarrow> False | x # xs \<Rightarrow> x \<noteq> 47 \<and> glob_match ts False xs)"
| "glob_match (GStar # ts) st s =
     (glob_match ts st s \<or> (case s of [] \<Rightarrow> False | x # xs \<Rightarrow> x \<noteq> 47 \<and> glob_match (GStar # ts) False xs))"
| "glob_match (GAny # ts) st s =
     (glob_match ts st s \<or> (case s of [] \<Rightarrow> False | x # xs \<Rightarrow> glob_match (GAny # ts) (x = 47) xs))"
| "glob_match (GDirectories # ts) st s =
     (st \<and> glob_match ts st s \<or> (case s of [] \<Rightarrow> False | x # xs \<Rightarrow> glob_match (GDirectories # ts) (x = 47) xs))"
  by pat_completeness auto
termination by (relation "measures [\<lambda>(ts, st, s). length s, \<lambda>(ts, st, s). length ts]") auto

lemma glob_denotes_Cons:
  "glob_denotes (t # ts) s \<longleftrightarrow> (\<exists>w r. s = w @ r \<and> token_takes t w \<and> glob_denotes ts r)"
proof
  assume "glob_denotes (t # ts) s"
  then obtain w ws where "s = w @ concat ws" "token_takes t w" "list_all2 token_takes ts ws"
    by (auto simp: glob_denotes_def list_all2_Cons1)
  then show "\<exists>w r. s = w @ r \<and> token_takes t w \<and> glob_denotes ts r"
    unfolding glob_denotes_def by blast
next
  assume "\<exists>w r. s = w @ r \<and> token_takes t w \<and> glob_denotes ts r"
  then obtain w ws where "s = concat (w # ws)" "list_all2 token_takes (t # ts) (w # ws)"
    by (auto simp: glob_denotes_def)
  then show "glob_denotes (t # ts) s" unfolding glob_denotes_def by blast
qed

lemma glob_denotes_Nil: "glob_denotes [] s \<longleftrightarrow> s = []"
  by (auto simp: glob_denotes_def)

text \<open>A \<open>**/\<close> token stands at the start of a component only.\<close>

fun directories_ok :: "bool \<Rightarrow> glob_token list \<Rightarrow> bool" where
  "directories_ok st [] = True"
| "directories_ok st (GLiteral c # ts) = directories_ok (c = 47) ts"
| "directories_ok st (GDirectories # ts) = (st \<and> directories_ok True ts)"
| "directories_ok st (t # ts) = directories_ok False ts"

lemma split_first: "(\<exists>w r. s = w @ r \<and> P w \<and> Q r) \<longleftrightarrow> P [] \<and> Q s \<or> (\<exists>x xs. s = x # xs \<and> (\<exists>w r. xs = w @ r \<and> P (x # w) \<and> Q r))"
proof
  assume "\<exists>w r. s = w @ r \<and> P w \<and> Q r"
  then obtain w r where "s = w @ r" "P w" "Q r" by blast
  then show "P [] \<and> Q s \<or> (\<exists>x xs. s = x # xs \<and> (\<exists>w r. xs = w @ r \<and> P (x # w) \<and> Q r))"
    by (cases w) auto
next
  assume "P [] \<and> Q s \<or> (\<exists>x xs. s = x # xs \<and> (\<exists>w r. xs = w @ r \<and> P (x # w) \<and> Q r))"
  then show "\<exists>w r. s = w @ r \<and> P w \<and> Q r"
    by (metis append.left_neutral append_Cons)
qed

definition after_slash :: "glob_token list \<Rightarrow> uchar list \<Rightarrow> bool" where
  "after_slash ts s \<longleftrightarrow> (\<exists>w r. s = w @ r \<and> (w \<noteq> [] \<and> last w = 47) \<and> glob_denotes ts r)"

lemma after_slash_simps:
  "\<not> after_slash ts []"
  "after_slash ts (x # xs) \<longleftrightarrow> x = 47 \<and> glob_denotes ts xs \<or> after_slash ts xs"
proof -
  show "\<not> after_slash ts []" by (simp add: after_slash_def)
  have "after_slash ts (x # xs) \<longleftrightarrow> (\<exists>w r. xs = w @ r \<and> last (x # w) = 47 \<and> glob_denotes ts r)"
    unfolding after_slash_def by (subst split_first) auto
  also have "\<dots> \<longleftrightarrow> x = 47 \<and> glob_denotes ts xs \<or> after_slash ts xs"
  proof
    assume "\<exists>w r. xs = w @ r \<and> last (x # w) = 47 \<and> glob_denotes ts r"
    then obtain w r where w: "xs = w @ r" "last (x # w) = 47" "glob_denotes ts r" by blast
    then show "x = 47 \<and> glob_denotes ts xs \<or> after_slash ts xs"
      by (cases "w = []") (auto simp: after_slash_def)
  next
    assume "x = 47 \<and> glob_denotes ts xs \<or> after_slash ts xs"
    then show "\<exists>w r. xs = w @ r \<and> last (x # w) = 47 \<and> glob_denotes ts r"
    proof
      assume "x = 47 \<and> glob_denotes ts xs"
      then show ?thesis by (intro exI [of _ "[]"] exI [of _ xs]) simp
    next
      assume "after_slash ts xs"
      then obtain w r where "xs = w @ r" "w \<noteq> []" "last w = 47" "glob_denotes ts r"
        unfolding after_slash_def by blast
      then show ?thesis by (intro exI [of _ w] exI [of _ r]) simp
    qed
  qed
  finally show "after_slash ts (x # xs) \<longleftrightarrow> x = 47 \<and> glob_denotes ts xs \<or> after_slash ts xs" .
qed

lemma denotes_literal:
  "glob_denotes (GLiteral c # ts) s \<longleftrightarrow> (case s of [] \<Rightarrow> False | x # xs \<Rightarrow> x = c \<and> glob_denotes ts xs)"
  by (cases s) (auto simp: glob_denotes_Cons)

lemma denotes_one:
  "glob_denotes (GOne # ts) s \<longleftrightarrow> (case s of [] \<Rightarrow> False | x # xs \<Rightarrow> x \<noteq> 47 \<and> glob_denotes ts xs)"
  by (cases s) (auto simp: glob_denotes_Cons, metis append_Cons append_Nil)

lemma denotes_star:
  "glob_denotes (GStar # ts) s \<longleftrightarrow>
   glob_denotes ts s \<or> (case s of [] \<Rightarrow> False | x # xs \<Rightarrow> x \<noteq> 47 \<and> glob_denotes (GStar # ts) xs)"
  unfolding glob_denotes_Cons by (subst split_first) (auto split: list.split)

lemma denotes_any:
  "glob_denotes (GAny # ts) s \<longleftrightarrow>
   glob_denotes ts s \<or> (case s of [] \<Rightarrow> False | x # xs \<Rightarrow> glob_denotes (GAny # ts) xs)"
  unfolding glob_denotes_Cons by (subst split_first) (auto split: list.split)

lemma denotes_directories:
  "glob_denotes (GDirectories # ts) s \<longleftrightarrow> glob_denotes ts s \<or> after_slash ts s"
proof
  assume "glob_denotes (GDirectories # ts) s"
  then obtain w r where w: "s = w @ r" "w = [] \<or> last w = 47" "glob_denotes ts r"
    by (auto simp: glob_denotes_Cons)
  then show "glob_denotes ts s \<or> after_slash ts s"
    by (cases "w = []") (auto simp: after_slash_def)
next
  assume "glob_denotes ts s \<or> after_slash ts s"
  then obtain w r where "s = w @ r" "token_takes GDirectories w" "glob_denotes ts r"
    unfolding after_slash_def by fastforce
  then show "glob_denotes (GDirectories # ts) s" unfolding glob_denotes_Cons by blast
qed

lemma match_directories:
  assumes "\<And>s. glob_match ts True s \<longleftrightarrow> glob_denotes ts s"
  shows "glob_match (GDirectories # ts) st s \<longleftrightarrow> st \<and> glob_denotes ts s \<or> after_slash ts s"
proof (induction s arbitrary: st)
  case Nil
  show ?case using assms [of "[]"] by (cases st) (simp_all add: after_slash_simps)
next
  case (Cons x s)
  have "glob_match (GDirectories # ts) st (x # s) \<longleftrightarrow> st \<and> glob_match ts st (x # s) \<or> glob_match (GDirectories # ts) (x = 47) s"
    by simp
  then show ?case using assms [of "x # s"] by (cases st) (simp_all only: Cons.IH after_slash_simps simp_thms)
qed

lemma glob_match_denotes:
  "directories_ok b ts \<Longrightarrow> (b \<Longrightarrow> st) \<Longrightarrow> glob_match ts st s \<longleftrightarrow> glob_denotes ts s"
proof (induction ts arbitrary: b st s)
  case Nil
  then show ?case by (simp add: glob_denotes_Nil)
next
  case (Cons t ts)
  show ?case
  proof (cases t)
    case (GLiteral c)
    have "glob_match ts (c = 47) xs \<longleftrightarrow> glob_denotes ts xs" for xs
      using Cons.IH [of "c = 47" "c = 47" xs] Cons.prems GLiteral by simp
    then show ?thesis by (auto simp: GLiteral denotes_literal split: list.split)
  next
    case GOne
    have "glob_match ts False xs \<longleftrightarrow> glob_denotes ts xs" for xs
      using Cons.IH [of False False xs] Cons.prems GOne by simp
    then show ?thesis by (auto simp: GOne denotes_one split: list.split)
  next
    case GStar
    have ih: "glob_match ts st xs \<longleftrightarrow> glob_denotes ts xs" for st xs
      using Cons.IH [of False st xs] Cons.prems GStar by simp
    have "glob_match (GStar # ts) st s \<longleftrightarrow> glob_denotes (GStar # ts) s" for st
    proof (induction s arbitrary: st)
      case Nil
      then show ?case by (simp add: ih denotes_star [of ts "[]"])
    next
      case (Cons x s)
      then show ?case by (simp add: ih denotes_star [of ts "x # s"])
    qed
    then show ?thesis by (simp add: GStar)
  next
    case GAny
    have ih: "glob_match ts st xs \<longleftrightarrow> glob_denotes ts xs" for st xs
      using Cons.IH [of False st xs] Cons.prems GAny by simp
    have "glob_match (GAny # ts) st s \<longleftrightarrow> glob_denotes (GAny # ts) s" for st
    proof (induction s arbitrary: st)
      case Nil
      then show ?case by (simp add: ih denotes_any [of ts "[]"])
    next
      case (Cons x s)
      then show ?case by (simp add: ih denotes_any [of ts "x # s"])
    qed
    then show ?thesis by (simp add: GAny)
  next
    case GDirectories
    have "glob_match ts True xs \<longleftrightarrow> glob_denotes ts xs" for xs
      using Cons.IH [of True True xs] Cons.prems GDirectories by simp
    then show ?thesis
      using Cons.prems match_directories [of ts st s] denotes_directories [of ts s] GDirectories by simp
  qed
qed

lemma stars_end_last:
  assumes "offset < length pattern" "pattern ! offset = 42"
  shows "pattern ! (stars_end pattern offset - 1) = 42"
proof (cases "takeWhile (\<lambda>c. c = 42) (drop (offset + 1) pattern)")
  case Nil
  then show ?thesis using assms by (simp add: stars_end_def)
next
  case (Cons c cs)
  let ?run = "takeWhile (\<lambda>c. c = 42) (drop (offset + 1) pattern)"
  have k: "length cs < length ?run" using Cons by simp
  have "?run ! length cs = 42" using set_takeWhileD [OF nth_mem [OF k]] by simp
  moreover have "?run ! length cs = drop (offset + 1) pattern ! length cs" by (rule takeWhile_nth [OF k])
  moreover have "length cs < length (drop (offset + 1) pattern)"
    by (rule less_le_trans [OF k length_takeWhile_le])
  ultimately show ?thesis using Cons by (simp add: stars_end_def)
qed

lemma glob_tokens_ok: "directories_ok (offset = 0 \<or> pattern ! (offset - 1) = 47) (glob_tokens pattern offset)"
proof (induction pattern offset rule: glob_tokens.induct)
  case (1 pattern offset)
  show ?case
  proof (cases "offset < length pattern")
    case False
    then show ?thesis by (simp add: glob_tokens.simps [of pattern offset])
  next
    case True
    obtain t n where tk: "glob_token_at pattern offset = (t, n)" by fastforce
    have ih: "directories_ok (n = 0 \<or> pattern ! (n - 1) = 47) (glob_tokens pattern n)"
      using "1.IH" [OF True tk [symmetric]] by simp
    have n: "offset < n" using glob_token_next [OF True tk] by simp
    have weaken: "directories_ok False ts \<Longrightarrow> directories_ok b ts" for b ts
      by (cases "(False, ts)" rule: directories_ok.cases) simp_all
    have tokens: "glob_tokens pattern offset = t # glob_tokens pattern n"
      using True tk by (simp add: glob_tokens.simps [of pattern offset])
    show ?thesis
      using tk ih weaken stars_end_last [OF True] stars_end_bound [OF True] unfolding tokens
      by (auto simp: glob_token_at_def Let_def glob_tokens.simps [of pattern "length pattern"] split: if_splits)
  qed
qed

section \<open>The automaton decides the meaning\<close>

text \<open>The positions the loops over the pattern visit.\<close>

function positions :: "uchar list \<Rightarrow> nat \<Rightarrow> nat list" where
  "positions pattern offset =
     offset # (if offset < length pattern then positions pattern (snd (glob_token_at pattern offset)) else [])"
  by pat_completeness auto
termination
proof (relation "measure (\<lambda>(pattern, offset). length pattern - offset)")
  fix pattern :: "uchar list" and offset :: nat
  assume "offset < length pattern"
  then show "((pattern, snd (glob_token_at pattern offset)), pattern, offset) \<in> measure (\<lambda>(pattern, offset). length pattern - offset)"
    using glob_token_next [of offset pattern "fst (glob_token_at pattern offset)" "snd (glob_token_at pattern offset)"]
    by auto
qed simp

declare positions.simps [simp del]

lemma positions_self: "offset \<in> set (positions pattern offset)"
  by (simp add: positions.simps [of pattern offset])

lemma positions_step:
  "offset < length pattern \<Longrightarrow> glob_token_at pattern offset = (t, n) \<Longrightarrow>
   set (positions pattern offset) = insert offset (set (positions pattern n))"
  by (simp add: positions.simps [of pattern offset])

lemma positions_next:
  "q \<in> set (positions pattern offset) \<Longrightarrow> q < length pattern \<Longrightarrow> glob_token_at pattern q = (t, n) \<Longrightarrow>
   n \<in> set (positions pattern offset)"
proof (induction "length pattern - offset" arbitrary: offset rule: less_induct)
  case less
  obtain t' n' where tk: "glob_token_at pattern offset = (t', n')" by fastforce
  show ?case
  proof (cases "offset < length pattern")
    case on: True
    note ps = positions_step [OF on tk] and n' = glob_token_next [OF on tk]
    show ?thesis
    proof (cases "q = offset")
      case True
      then show ?thesis using less.prems tk ps positions_self [of n' pattern] by simp
    next
      case False
      then have q: "q \<in> set (positions pattern n')" using less.prems(1) ps by simp
      have "length pattern - n' < length pattern - offset" using n' on by linarith
      from less.hyps [OF this q less.prems(2,3)] show ?thesis using ps by simp
    qed
  next
    case False
    then show ?thesis using less.prems by (simp add: positions.simps [of pattern offset])
  qed
qed

lemma close_unfold:
  "offset < length pattern \<Longrightarrow> glob_token_at pattern offset = (t, n) \<Longrightarrow>
   close_from pattern st offset a = close_from pattern st n (if a offset \<and> skips t st then a(n := True) else a)"
  by (simp add: close_from.simps [of pattern st offset a])

lemma close_end: "\<not> offset < length pattern \<Longrightarrow> close_from pattern st offset a = a"
  by (simp add: close_from.simps [of pattern st offset a])

lemma close_below: "q \<le> offset \<Longrightarrow> close_from pattern st offset a q = a q"
proof (induction "length pattern - offset" arbitrary: offset a rule: less_induct)
  case less
  obtain t n where tk: "glob_token_at pattern offset = (t, n)" by fastforce
  show ?case
  proof (cases "offset < length pattern")
    case True
    have n: "offset < n" "n \<le> length pattern" using glob_token_next [OF True tk] by simp_all
    then show ?thesis using less.hyps [of n "if a offset \<and> skips t st then a(n := True) else a"] less.prems True
      by (simp add: close_unfold [OF True tk])
  qed (simp add: close_end)
qed

lemma close_keeps: "a q \<Longrightarrow> close_from pattern st offset a q"
proof (induction "length pattern - offset" arbitrary: offset a rule: less_induct)
  case less
  obtain t n where tk: "glob_token_at pattern offset = (t, n)" by fastforce
  show ?case
  proof (cases "offset < length pattern")
    case True
    have n: "offset < n" "n \<le> length pattern" using glob_token_next [OF True tk] by simp_all
    then show ?thesis using less.hyps [of n "if a offset \<and> skips t st then a(n := True) else a"] less.prems True
      by (simp add: close_unfold [OF True tk])
  qed (simp add: close_end less.prems)
qed

lemma close_closed:
  "q \<in> set (positions pattern offset) \<Longrightarrow> q < length pattern \<Longrightarrow> glob_token_at pattern q = (t, n) \<Longrightarrow>
   skips t st \<Longrightarrow> close_from pattern st offset a q \<Longrightarrow> close_from pattern st offset a n"
proof (induction "length pattern - offset" arbitrary: offset a rule: less_induct)
  case less
  obtain t' n' where tk: "glob_token_at pattern offset = (t', n')" by fastforce
  have on: "offset < length pattern"
    using less.prems(1,2) by (cases "offset < length pattern") (auto simp: positions.simps [of pattern offset])
  have n': "offset < n'" "n' \<le> length pattern" using glob_token_next [OF on tk] by simp_all
  let ?a = "if a offset \<and> skips t' st then a(n' := True) else a"
  show ?case
  proof (cases "q = offset")
    case True
    then have "t' = t" "n' = n" using tk less.prems(3) by simp_all
    moreover have "a offset" using close_below [of offset offset] less.prems(5) True by blast
    ultimately have "?a n" using less.prems(4) by simp
    then show ?thesis using close_keeps [of ?a n] \<open>n' = n\<close> by (simp add: close_unfold [OF on tk])
  next
    case False
    then have "q \<in> set (positions pattern n')" using less.prems(1) positions_step [OF on tk] by simp
    then show ?thesis using less.hyps [of n' ?a] less.prems on n' by (simp add: close_unfold [OF on tk])
  qed
qed

lemma close_sound:
  assumes "close_from pattern st offset a q" "Q q"
    and "\<And>o1 t n. o1 < length pattern \<Longrightarrow> glob_token_at pattern o1 = (t, n) \<Longrightarrow> skips t st \<Longrightarrow> Q n \<Longrightarrow> Q o1"
  shows "\<exists>r. a r \<and> Q r"
  using assms(1,2)
proof (induction "length pattern - offset" arbitrary: offset a rule: less_induct)
  case less
  obtain t n where tk: "glob_token_at pattern offset = (t, n)" by fastforce
  show ?case
  proof (cases "offset < length pattern")
    case True
    have n: "offset < n" "n \<le> length pattern" using glob_token_next [OF True tk] by simp_all
    let ?a = "if a offset \<and> skips t st then a(n := True) else a"
    have "\<exists>r. ?a r \<and> Q r"
      using less.hyps [of n ?a] less.prems n True by (simp add: close_unfold [OF True tk])
    then obtain r where r: "?a r" "Q r" by blast
    show ?thesis
    proof (cases "a r")
      case False
      then have "r = n" "a offset" "skips t st" using r(1) by (auto split: if_splits)
      then show ?thesis using assms(3) [OF True tk] r(2) by blast
    qed (use r(2) in blast)
  next
    case False
    then show ?thesis using less.prems by (auto simp: close_end)
  qed
qed

lemma advance_exact:
  "advance_from pattern a ch offset nxt q \<longleftrightarrow> nxt q \<or>
   (\<exists>o1\<in>set (positions pattern offset). o1 < length pattern \<and> a o1 \<and>
      token_target (fst (glob_token_at pattern o1)) ch o1 (snd (glob_token_at pattern o1)) = Some q)"
proof (induction "length pattern - offset" arbitrary: offset nxt rule: less_induct)
  case less
  obtain t n where tk: "glob_token_at pattern offset = (t, n)" by fastforce
  show ?case
  proof (cases "offset < length pattern")
    case True
    have n: "offset < n" "n \<le> length pattern" using glob_token_next [OF True tk] by simp_all
    let ?nxt = "if a offset then (case token_target t ch offset n of Some g \<Rightarrow> nxt(g := True) | None \<Rightarrow> nxt) else nxt"
    have "advance_from pattern a ch offset nxt = advance_from pattern a ch n ?nxt"
      using True tk by (simp add: advance_from.simps [of pattern a ch offset nxt])
    moreover have "?nxt q \<longleftrightarrow> nxt q \<or> a offset \<and> token_target t ch offset n = Some q"
      by (auto split: option.splits)
    ultimately show ?thesis
      using less.hyps [of n ?nxt] n True tk by (auto simp: positions_step [OF True tk])
  next
    case False
    then show ?thesis by (simp add: advance_from.simps [of pattern a ch offset nxt] positions.simps [of pattern offset])
  qed
qed

text \<open>The rest of the path is accepted from a position.\<close>

definition rest_matches :: "uchar list \<Rightarrow> nat \<Rightarrow> bool \<Rightarrow> uchar list \<Rightarrow> bool" where
  "rest_matches pattern offset st s = glob_match (glob_tokens pattern offset) st s"

lemma rest_unfold:
  "offset < length pattern \<Longrightarrow> glob_token_at pattern offset = (t, n) \<Longrightarrow>
   rest_matches pattern offset st s = glob_match (t # glob_tokens pattern n) st s"
  by (simp add: rest_matches_def glob_tokens.simps [of pattern offset])

lemma rest_skip:
  "offset < length pattern \<Longrightarrow> glob_token_at pattern offset = (t, n) \<Longrightarrow> skips t st \<Longrightarrow>
   rest_matches pattern n st s \<Longrightarrow> rest_matches pattern offset st s"
  by (cases t) (auto simp: rest_unfold rest_matches_def [of pattern n] skips_def)

lemma rest_take:
  "offset < length pattern \<Longrightarrow> glob_token_at pattern offset = (t, n) \<Longrightarrow>
   token_target t ch offset n = Some q \<Longrightarrow> rest_matches pattern q (ch = 47) s \<Longrightarrow>
   rest_matches pattern offset st (ch # s)"
  by (cases t) (auto simp: rest_unfold token_target_def split: if_splits, simp_all add: rest_matches_def)

lemma rest_cases:
  assumes "offset < length pattern" "glob_token_at pattern offset = (t, n)" "rest_matches pattern offset st (ch # s)"
  shows "skips t st \<and> rest_matches pattern n st (ch # s) \<or>
    (\<exists>q. token_target t ch offset n = Some q \<and> rest_matches pattern q (ch = 47) s)"
  using assms
  by (cases t) (auto simp: rest_unfold rest_matches_def [of pattern n] token_target_def skips_def)

definition accepts :: "uchar list \<Rightarrow> (nat \<Rightarrow> bool) \<Rightarrow> bool \<Rightarrow> uchar list \<Rightarrow> bool" where
  "accepts pattern a st s \<longleftrightarrow> (\<exists>q\<in>set (positions pattern 0). a q \<and> rest_matches pattern q st s)"

definition closed_under :: "uchar list \<Rightarrow> bool \<Rightarrow> (nat \<Rightarrow> bool) \<Rightarrow> bool" where
  "closed_under pattern st a \<longleftrightarrow>
     (\<forall>q\<in>set (positions pattern 0). \<forall>t n. q < length pattern \<longrightarrow> glob_token_at pattern q = (t, n) \<longrightarrow>
        skips t st \<longrightarrow> a q \<longrightarrow> a n)"

lemma accepts_close:
  assumes "\<And>q. a q \<Longrightarrow> q \<in> set (positions pattern 0)"
  shows "accepts pattern (close_glob_states pattern a st) st s \<longleftrightarrow> accepts pattern a st s"
proof
  assume "accepts pattern (close_glob_states pattern a st) st s"
  then obtain q where q: "close_from pattern st 0 a q" "rest_matches pattern q st s"
    by (auto simp: accepts_def close_glob_states_def)
  have "\<exists>r. a r \<and> rest_matches pattern r st s"
    by (rule close_sound [where Q = "\<lambda>q. rest_matches pattern q st s", OF q]) (rule rest_skip)
  then show "accepts pattern a st s" using assms by (auto simp: accepts_def)
next
  assume "accepts pattern a st s"
  then show "accepts pattern (close_glob_states pattern a st) st s"
    unfolding accepts_def close_glob_states_def using close_keeps by blast
qed

lemma closed_close: "closed_under pattern st (close_glob_states pattern a st)"
  unfolding closed_under_def close_glob_states_def using close_closed by blast

lemma accepts_step:
  assumes "closed_under pattern st a"
  shows "accepts pattern a st (ch # s) \<longleftrightarrow> accepts pattern (advance_from pattern a ch 0 (\<lambda>_. False)) (ch = 47) s"
proof
  assume "accepts pattern a st (ch # s)"
  then obtain q where q: "q \<in> set (positions pattern 0)" "a q" "rest_matches pattern q st (ch # s)"
    by (auto simp: accepts_def)
  then show "accepts pattern (advance_from pattern a ch 0 (\<lambda>_. False)) (ch = 47) s"
  proof (induction "length pattern - q" arbitrary: q rule: less_induct)
    case less
    obtain t n where tk: "glob_token_at pattern q = (t, n)" by fastforce
    have q: "q < length pattern"
      using less.prems(3) by (cases "q < length pattern") (auto simp: rest_matches_def glob_tokens.simps [of pattern q])
    have n: "q < n" using glob_token_next [OF q tk] by simp
    from rest_cases [OF q tk less.prems(3)] show ?case
    proof
      assume "skips t st \<and> rest_matches pattern n st (ch # s)"
      then show ?case
        using less.hyps [of n] less.prems q n tk assms positions_next [OF less.prems(1) q tk]
        unfolding closed_under_def by (meson diff_less_mono2)
    next
      assume "\<exists>g. token_target t ch q n = Some g \<and> rest_matches pattern g (ch = 47) s"
      then obtain g where g: "token_target t ch q n = Some g" "rest_matches pattern g (ch = 47) s" by blast
      have "g \<in> set (positions pattern 0)"
        using g(1) less.prems(1) positions_next [OF less.prems(1) q tk]
        by (auto simp: token_target_def split: glob_token.splits if_splits)
      then show ?case
        using g less.prems q tk unfolding accepts_def advance_exact by fastforce
    qed
  qed
next
  assume "accepts pattern (advance_from pattern a ch 0 (\<lambda>_. False)) (ch = 47) s"
  then obtain g q where "rest_matches pattern g (ch = 47) s" "q \<in> set (positions pattern 0)" "q < length pattern" "a q"
    "token_target (fst (glob_token_at pattern q)) ch q (snd (glob_token_at pattern q)) = Some g"
    unfolding accepts_def advance_exact by blast
  then show "accepts pattern a st (ch # s)"
    unfolding accepts_def using rest_take by (metis prod.collapse)
qed

lemma accepts_end:
  assumes "closed_under pattern st a"
  shows "accepts pattern a st [] \<longleftrightarrow> a (length pattern) \<and> length pattern \<in> set (positions pattern 0)"
proof
  assume "accepts pattern a st []"
  then obtain q where "q \<in> set (positions pattern 0)" "a q" "rest_matches pattern q st []"
    by (auto simp: accepts_def)
  then show "a (length pattern) \<and> length pattern \<in> set (positions pattern 0)"
  proof (induction "length pattern - q" arbitrary: q rule: less_induct)
    case less
    show ?case
    proof (cases "q < length pattern")
      case True
      obtain t n where tk: "glob_token_at pattern q = (t, n)" by fastforce
      have n: "q < n" using glob_token_next [OF True tk] by simp
      have "skips t st \<and> rest_matches pattern n st []"
        using less.prems(3) unfolding rest_unfold [OF True tk] rest_matches_def [of pattern n]
        by (cases t) (auto simp: skips_def)
      then show ?thesis
        using less.hyps [of n] less.prems True n tk assms positions_next [OF less.prems(1) True tk]
        unfolding closed_under_def by (meson diff_less_mono2)
    next
      case False
      have "q \<le> length pattern" if "q \<in> set (positions pattern offset)" "offset \<le> length pattern" for offset
        using that
      proof (induction "length pattern - offset" arbitrary: offset rule: less_induct)
        case less
        obtain t n where tk: "glob_token_at pattern offset = (t, n)" by fastforce
        show ?case
        proof (cases "offset < length pattern")
          case True
          then show ?thesis using less.hyps [of n] less.prems glob_token_next [OF True tk]
            by (auto simp: positions_step [OF True tk])
        next
          case False
          then show ?thesis using less.prems by (auto simp: positions.simps [of pattern "length pattern"])
        qed
      qed
      then have "q = length pattern" using False less.prems(1) by (metis le0 le_neq_implies_less)
      then show ?thesis using less.prems by simp
    qed
  qed
next
  assume "a (length pattern) \<and> length pattern \<in> set (positions pattern 0)"
  then show "accepts pattern a st []"
    unfolding accepts_def by (intro bexI [of _ "length pattern"])
      (simp_all add: rest_matches_def glob_tokens.simps [of pattern "length pattern"])
qed

lemma advance_positions:
  "advance_from pattern a ch 0 (\<lambda>_. False) q \<Longrightarrow> q \<in> set (positions pattern 0)"
proof -
  assume "advance_from pattern a ch 0 (\<lambda>_. False) q"
  then obtain o1 where o1: "o1 \<in> set (positions pattern 0)" "o1 < length pattern"
    "token_target (fst (glob_token_at pattern o1)) ch o1 (snd (glob_token_at pattern o1)) = Some q"
    unfolding advance_exact by blast
  have "snd (glob_token_at pattern o1) \<in> set (positions pattern 0)"
    using positions_next [OF o1(1,2)] by (metis prod.collapse)
  then show ?thesis using o1
    by (auto simp: token_target_def split: glob_token.splits if_splits)
qed

lemma glob_run_exact:
  assumes "closed_under pattern st a" "length pattern \<in> set (positions pattern 0)"
  shows "glob_run pattern a s (length pattern) \<longleftrightarrow> accepts pattern a st s"
  using assms(1)
proof (induction s arbitrary: a st)
  case Nil
  then show ?case using accepts_end [OF Nil] assms(2) by simp
next
  case (Cons ch s)
  let ?adv = "advance_from pattern a ch 0 (\<lambda>_. False)"
  have "glob_run pattern a (ch # s) (length pattern) \<longleftrightarrow>
      accepts pattern (close_glob_states pattern ?adv (ch = 47)) (ch = 47) s"
    using Cons.IH [OF closed_close [where a = ?adv and st = "ch = 47"]] by simp
  also have "\<dots> \<longleftrightarrow> accepts pattern ?adv (ch = 47) s"
    by (rule accepts_close) (rule advance_positions)
  also have "\<dots> \<longleftrightarrow> accepts pattern a st (ch # s)"
    by (rule accepts_step [OF Cons.prems, symmetric])
  finally show ?case .
qed

lemma last_position: "offset \<le> length pattern \<Longrightarrow> length pattern \<in> set (positions pattern offset)"
proof (induction "length pattern - offset" arbitrary: offset rule: less_induct)
  case less
  obtain t n where tk: "glob_token_at pattern offset = (t, n)" by fastforce
  show ?case
  proof (cases "offset < length pattern")
    case True
    have n: "offset < n" "n \<le> length pattern" using glob_token_next [OF True tk] by simp_all
    then show ?thesis using less.hyps [of n] True by (simp add: positions_step [OF True tk])
  next
    case False
    then show ?thesis using less.prems positions_self [of offset pattern] by simp
  qed
qed

lemma automaton_exact:
  "glob_run pattern (close_glob_states pattern (no_state(0 := True)) True) s (length pattern) \<longleftrightarrow>
   glob_denotes (glob_tokens pattern 0) s"
proof -
  have init: "(no_state(0 := True)) q \<Longrightarrow> q \<in> set (positions pattern 0)" for q
    using positions_self [of 0 pattern] by (simp add: no_state_def split: if_splits)
  have "glob_run pattern (close_glob_states pattern (no_state(0 := True)) True) s (length pattern) \<longleftrightarrow>
      accepts pattern (no_state(0 := True)) True s"
    unfolding glob_run_exact [OF closed_close last_position [OF le0]] by (rule accepts_close) (rule init)
  also have "\<dots> \<longleftrightarrow> glob_match (glob_tokens pattern 0) True s"
    using positions_self [of 0 pattern] by (auto simp: accepts_def rest_matches_def no_state_def split: if_splits)
  also have "\<dots> \<longleftrightarrow> glob_denotes (glob_tokens pattern 0) s"
    using glob_match_denotes [OF glob_tokens_ok, of 0 pattern True s] by simp
  finally show ?thesis .
qed

section \<open>Shortcuts\<close>

lemma tokens_literal:
  "\<forall>c\<in>set (drop offset pattern). \<not> wildcard c \<Longrightarrow> glob_tokens pattern offset = map GLiteral (drop offset pattern)"
proof (induction "length pattern - offset" arbitrary: offset rule: less_induct)
  case less
  show ?case
  proof (cases "offset < length pattern")
    case True
    then have d: "drop offset pattern = pattern ! offset # drop (offset + 1) pattern"
      by (simp add: Cons_nth_drop_Suc)
    then have "\<not> wildcard (pattern ! offset)" using less.prems by simp
    then have "glob_token_at pattern offset = (GLiteral (pattern ! offset), offset + 1)"
      by (simp add: glob_token_at_def wildcard_def)
    then show ?thesis
      using less.hyps [of "offset + 1"] less.prems True d by (simp add: glob_tokens.simps [of pattern offset])
  qed (simp add: glob_tokens.simps [of pattern offset])
qed

lemma denotes_literals: "glob_denotes (map GLiteral w) s \<longleftrightarrow> s = w"
  by (induction w arbitrary: s) (auto simp: glob_denotes_Nil denotes_literal split: list.split)

lemma suffix_tokens:
  assumes "\<forall>c\<in>set w. \<not> wildcard c"
  shows "glob_tokens (42 # w) 0 = GStar # map GLiteral w"
proof -
  have "takeWhile (\<lambda>c. c = 42) w = []" using assms by (cases w) (auto simp: wildcard_def)
  then have "glob_token_at (42 # w) 0 = (GStar, 1)"
    by (simp add: glob_token_at_def stars_end_def)
  then show ?thesis using tokens_literal [of 1 "42 # w"] assms by (simp add: glob_tokens.simps [of _ 0])
qed

lemma ends_with_iff: "str_ends_with s p \<longleftrightarrow> (\<exists>w. s = w @ p)"
proof
  assume "str_ends_with s p"
  then have "s = take (length s - length p) s @ p" unfolding str_ends_with_def by (metis append_take_drop_id)
  then show "\<exists>w. s = w @ p" ..
qed (auto simp: str_ends_with_def)

lemma contains_iff: "str_contains s p \<longleftrightarrow> (\<exists>a b. s = a @ p @ b)"
proof
  assume "str_contains s p"
  then obtain i where "take (length p) (drop i s) = p"
    unfolding str_contains_def list_ex_iff str_starts_with_def by blast
  then have "s = take i s @ p @ drop (length p) (drop i s)" by (metis append_take_drop_id)
  then show "\<exists>a b. s = a @ p @ b" by blast
next
  assume "\<exists>a b. s = a @ p @ b"
  then obtain a b where "s = a @ p @ b" by blast
  then show "str_contains s p"
    unfolding str_contains_def list_ex_iff str_starts_with_def
    by (intro bexI [of _ "length a"]) auto
qed

lemma after_last_free: "sep \<notin> set (after_last sep s)"
  by (auto simp: after_last_def dest: set_takeWhileD)

lemma after_last_split: "\<exists>front. s = front @ after_last sep s \<and> (front = [] \<or> last front = sep)"
proof -
  let ?d = "dropWhile (\<lambda>c. c \<noteq> sep) (rev s)"
  have "s = rev ?d @ after_last sep s"
    unfolding after_last_def by (metis rev_append rev_rev_ident takeWhile_dropWhile_id)
  moreover have "rev ?d = [] \<or> last (rev ?d) = sep"
    using hd_dropWhile [of "\<lambda>c. c \<noteq> sep" "rev s"] by (auto simp: last_rev)
  ultimately show ?thesis by blast
qed

text \<open>
  C35: A path filter means what it says. A pattern without wildcards asks for a substring; a pattern
  without a slash is about the last component of the path; otherwise the path must fall into pieces
  for the tokens of the pattern -- one other character than a slash for a question mark, no slash for
  a star, anything for a whole-component double star at the end, whole components for one before a
  slash. The automaton, which never backtracks, and the suffix shortcut both decide exactly this.
\<close>

theorem path_matches_exact:
  "path_matches path pattern \<longleftrightarrow>
     pattern \<noteq> [] \<and> str_len pattern \<le> max_query_len \<and>
     (if list_ex wildcard pattern
      then glob_denotes (glob_tokens pattern 0) (if 47 \<in> set pattern then path else after_last 47 path)
      else (\<exists>a b. path = a @ pattern @ b))"
proof (cases "pattern \<noteq> [] \<and> str_len pattern \<le> max_query_len \<and> list_ex wildcard pattern")
  case True
  let ?path = "if 47 \<in> set pattern then path else after_last 47 path"
  show ?thesis
  proof (cases "hd pattern = 42 \<and> \<not> list_ex (\<lambda>c. wildcard c \<or> c = 47) (tl pattern)")
    case suffix: True
    then obtain w where w: "pattern = 42 # w" using True by (cases pattern) auto
    have lit: "\<forall>c\<in>set w. \<not> wildcard c" "47 \<notin> set w" using suffix w by (auto simp: list_ex_iff)
    have "47 \<notin> set ?path" using lit w after_last_free by simp
    then have "glob_denotes (glob_tokens pattern 0) ?path \<longleftrightarrow> str_ends_with ?path w"
      unfolding w suffix_tokens [OF lit(1)] glob_denotes_Cons ends_with_iff denotes_literals by auto
    then show ?thesis using True suffix w by (simp add: path_matches_def Let_def not_less)
  next
    case False
    then show ?thesis using True by (auto simp: path_matches_def Let_def automaton_exact not_less)
  qed
next
  case False
  then show ?thesis by (auto simp: path_matches_def contains_iff not_less)
qed

end
