(* ===== verification/Search_Index.thy ===== *)
theory Search_Index
  imports Query_Syntax Resources Line_Index
begin

text \<open>
  The trigram index of \<open>crates/fcb-search/src/index.rs\<close>: the validated manifest of captured files, the
  construction of one sorted trigram segment per file under a resource lease, and the probe that may
  answer that a needle cannot occur.

  Correspondence: \<open>SearchManifest\<close>, \<open>IndexLimits\<close>, \<open>Segment\<close>, \<open>IndexStatistics\<close> and \<open>EphemeralIndex\<close>
  are records; the ledger that the budget guards is passed and returned, and an early return after the
  reservation drops the lease as Rust does. What the code leaves to the compiler and the allocator is
  the parameter \<open>memory\<close>: the sizes of the two structures and the capacity that the \<open>k\<close>-th
  \<open>try_reserve_exact\<close> yields. The cancellation callback is a predicate on the number of the poll.
\<close>

section \<open>Data\<close>

datatype index_error =
    IxInvalidManifest | IxOwnerMismatch | IxLimitExceeded | IxAllocationFailed | IxResourceDenied
  | IxCanceled | IxStaleQuery | IxQuery query_error

datatype membership_state = MembershipClosed | Discovering

record search_document =
  sd_file :: file_id
  sd_path :: "uchar list"
  sd_capture :: complete_capture

record manifest_id =
  mi_owner :: arena_owner_id
  mi_revision :: nat

definition manifest_id_new :: "arena_owner_id \<Rightarrow> nat \<Rightarrow> index_error + manifest_id" where
  "manifest_id_new ow rv = (if rv = 0 then Inl IxInvalidManifest else Inr \<lparr>mi_owner = ow, mi_revision = rv\<rparr>)"

record manifest_limits =
  ml_max_files :: nat
  ml_max_path_bytes :: nat

record search_manifest =
  mf_id :: manifest_id
  mf_documents :: "search_document list"
  mf_unavailable :: "file_id list"
  mf_membership :: membership_state

record index_limits =
  il_file_bytes :: nat
  il_total_bytes :: nat
  il_file_grams :: nat
  il_total_grams :: nat
  il_scratch_bytes :: nat

definition index_limits_default :: index_limits where
  "index_limits_default = \<lparr>il_file_bytes = 256 * 1024, il_total_bytes = 256 * 1024 * 1024,
     il_file_grams = 65536, il_total_grams = 2 * 1024 * 1024, il_scratch_bytes = 1024 * 1024\<rparr>"

datatype uncovered_reason = SourceLimit | ScratchLimit | FileGramLimit | TotalGramLimit | BuildByteLimit

datatype segment_coverage = Indexed | Uncovered uncovered_reason

record index_segment =
  sg_start :: nat
  sg_len :: nat
  sg_utf8 :: bool
  sg_coverage :: segment_coverage

record index_statistics =
  is_indexed :: nat
  is_uncovered :: nat
  is_examined :: nat
  is_grams :: nat
  is_retained :: nat
  is_peak :: nat

record search_index =
  ei_manifest :: search_manifest
  ei_segments :: "index_segment list"
  ei_grams :: "32 word list"
  ei_statistics :: index_statistics
  ei_lease :: lease

record memory =
  im_segment :: nat
  im_index :: nat
  im_reserve :: "nat \<Rightarrow> nat \<Rightarrow> nat option"

section \<open>The manifest\<close>

fun check_documents ::
  "manifest_id \<Rightarrow> manifest_limits \<Rightarrow> file_id option \<Rightarrow> search_document list \<Rightarrow> index_error + unit" where
  "check_documents m lim previous [] = Inr ()"
| "check_documents m lim previous (d # ds) =
     (if qid_owner (sd_file d) \<noteq> mi_owner m
         \<or> qid_owner (req_revision (cc_request (sd_capture d))) \<noteq> mi_owner m then Inl IxOwnerMismatch
      else if sd_file d \<noteq> req_file (cc_request (sd_capture d))
         \<or> (case previous of None \<Rightarrow> False | Some prev \<Rightarrow> prev \<ge> sd_file d) then Inl IxInvalidManifest
      else if str_len (sd_path d) > ml_max_path_bytes lim then Inl IxLimitExceeded
      else check_documents m lim (Some (sd_file d)) ds)"

text \<open>The second loop; \<open>present\<close> is the suffix of the documents that starts at the code's index.\<close>

fun check_unavailable ::
  "manifest_id \<Rightarrow> search_document list \<Rightarrow> file_id option \<Rightarrow> file_id list \<Rightarrow> index_error + unit" where
  "check_unavailable m present previous [] = Inr ()"
| "check_unavailable m present previous (f # fs) =
     (if qid_owner f \<noteq> mi_owner m then Inl IxOwnerMismatch
      else if (case previous of None \<Rightarrow> False | Some prev \<Rightarrow> prev \<ge> f) then Inl IxInvalidManifest
      else let present' = dropWhile (\<lambda>d. sd_file d < f) present in
        if (case present' of [] \<Rightarrow> False | d # _ \<Rightarrow> sd_file d = f) then Inl IxInvalidManifest
        else check_unavailable m present' (Some f) fs)"

definition manifest_new ::
  "manifest_id \<Rightarrow> search_document list \<Rightarrow> file_id list \<Rightarrow> membership_state \<Rightarrow> manifest_limits \<Rightarrow>
   index_error + search_manifest" where
  "manifest_new m docs unav state lim =
     (case checked_add (length docs) (length unav) of
        None \<Rightarrow> Inl IxLimitExceeded
      | Some members \<Rightarrow>
          if members > ml_max_files lim then Inl IxLimitExceeded
          else and_then (check_documents m lim None docs) (\<lambda>_.
            and_then (check_unavailable m docs None unav) (\<lambda>_.
            Inr \<lparr>mf_id = m, mf_documents = docs, mf_unavailable = unav, mf_membership = state\<rparr>)))"

section \<open>Construction\<close>

definition source_refusal :: "nat \<Rightarrow> index_limits \<Rightarrow> uncovered_reason option" where
  "source_refusal n lim =
     (if n > il_file_bytes lim then Some SourceLimit
      else if saturating_sub n 2 > il_scratch_bytes lim div 4 then Some ScratchLimit else None)"

definition gram :: "byte \<Rightarrow> byte \<Rightarrow> byte \<Rightarrow> 32 word" where
  "gram a b c = or (or (push_bit 16 (ucast a)) (push_bit 8 (ucast b))) (ucast c)"

definition reserve :: "memory \<Rightarrow> nat \<Rightarrow> nat \<Rightarrow> index_error + nat" where
  "reserve mem k count = ok_or IxAllocationFailed (im_reserve mem k count)"

definition allocation_bytes :: "memory \<Rightarrow> nat \<Rightarrow> nat \<Rightarrow> nat \<Rightarrow> index_error + nat" where
  "allocation_bytes mem segments grams scratch = ok_or IxLimitExceeded
     (Option.bind (Option.bind (checked_mul segments (im_segment mem)) (\<lambda>n.
        Option.bind (Option.bind (checked_add grams scratch) (\<lambda>g. checked_mul g 4)) (\<lambda>g.
        checked_add n g))) (\<lambda>n. checked_add n (im_index mem)))"

text \<open>The planning loop: the gram capacity, the scratch capacity and the admitted bytes.\<close>

fun plan_loop ::
  "(nat \<Rightarrow> bool) \<Rightarrow> index_limits \<Rightarrow> search_document list \<Rightarrow> nat \<Rightarrow> nat \<Rightarrow> nat \<Rightarrow> nat \<Rightarrow>
   index_error + nat \<times> nat \<times> nat" where
  "plan_loop canceled lim [] n gcap scap admitted = Inr (n, gcap, scap)"
| "plan_loop canceled lim (d # ds) n gcap scap admitted =
     (if canceled n then Inl IxCanceled
      else let len = length (cc_bytes (sd_capture d)) in
        if source_refusal len lim \<noteq> None then plan_loop canceled lim ds (Suc n) gcap scap admitted
        else if len > saturating_sub (il_total_bytes lim) admitted
        then plan_loop canceled lim ds (Suc n) gcap scap admitted
        else let count = saturating_sub len 2 in
          plan_loop canceled lim ds (Suc n)
            (min (saturating_add gcap (min count (il_file_grams lim))) (il_total_grams lim))
            (max scap count) (admitted + len))"

fun gram_loop ::
  "(nat \<Rightarrow> bool) \<Rightarrow> byte list \<Rightarrow> nat \<Rightarrow> nat \<Rightarrow> 32 word list \<Rightarrow> index_error + 32 word list \<times> nat" where
  "gram_loop canceled (a # b # c # rest) offset n scratch =
     (if offset mod 16384 = 0 \<and> canceled n then Inl IxCanceled
      else gram_loop canceled (b # c # rest) (Suc offset) (if offset mod 16384 = 0 then Suc n else n)
        (scratch @ [gram a b c]))"
| "gram_loop canceled _ offset n scratch = Inr (scratch, n)"

definition file_grams :: "(nat \<Rightarrow> bool) \<Rightarrow> byte list \<Rightarrow> nat \<Rightarrow> index_error + 32 word list \<times> nat" where
  "file_grams canceled bytes n =
     and_then (gram_loop canceled bytes 0 n []) (\<lambda>(scratch, n).
       if canceled n then Inl IxCanceled
       else let scratch = remdups_adj (sort scratch) in
         if canceled (Suc n) then Inl IxCanceled else Inr (scratch, n + 2))"

text \<open>\<open>str::from_utf8(bytes).is_ok()\<close>.\<close>

definition is_utf8 :: "byte list \<Rightarrow> bool" where
  "is_utf8 bytes = (snd (valid_prefix bytes) = [])"

definition build_refusal :: "index_limits \<Rightarrow> index_statistics \<Rightarrow> nat \<Rightarrow> uncovered_reason option" where
  "build_refusal lim st len = (case source_refusal len lim of
     Some r \<Rightarrow> Some r
   | None \<Rightarrow> if len > saturating_sub (il_total_bytes lim) (is_examined st) then Some BuildByteLimit else None)"

definition uncovered_segment :: "32 word list \<Rightarrow> uncovered_reason \<Rightarrow> index_segment" where
  "uncovered_segment grams r = \<lparr>sg_start = length grams, sg_len = 0, sg_utf8 = False, sg_coverage = Uncovered r\<rparr>"

definition build_document ::
  "(nat \<Rightarrow> bool) \<Rightarrow> index_limits \<Rightarrow> nat \<Rightarrow> search_document \<Rightarrow> nat \<Rightarrow> 32 word list \<Rightarrow> index_statistics \<Rightarrow>
   index_error + nat \<times> index_segment \<times> 32 word list \<times> index_statistics" where
  "build_document canceled lim gcap d n grams st =
     (if canceled n then Inl IxCanceled
      else let bytes = cc_bytes (sd_capture d);
               refuse = (\<lambda>r n st. Inr (n, uncovered_segment grams r, grams,
                 st\<lparr>is_uncovered := is_uncovered st + 1\<rparr>))
        in case build_refusal lim st (length bytes) of
          Some r \<Rightarrow> refuse r (Suc n) st
        | None \<Rightarrow>
            let st = st\<lparr>is_examined := is_examined st + length bytes\<rparr> in
            and_then (file_grams canceled bytes (Suc n)) (\<lambda>(scratch, n).
              if length scratch > il_file_grams lim then refuse FileGramLimit n st
              else if length scratch > saturating_sub gcap (length grams) then refuse TotalGramLimit n st
              else Inr (n, \<lparr>sg_start = length grams, sg_len = length scratch, sg_utf8 = is_utf8 bytes,
                     sg_coverage = Indexed\<rparr>, grams @ scratch,
                   st\<lparr>is_indexed := is_indexed st + 1\<rparr>)))"

fun build_loop ::
  "(nat \<Rightarrow> bool) \<Rightarrow> index_limits \<Rightarrow> nat \<Rightarrow> search_document list \<Rightarrow> nat \<Rightarrow> index_segment list \<Rightarrow>
   32 word list \<Rightarrow> index_statistics \<Rightarrow>
   index_error + nat \<times> index_segment list \<times> 32 word list \<times> index_statistics" where
  "build_loop canceled lim gcap [] n segs grams st = Inr (n, segs, grams, st)"
| "build_loop canceled lim gcap (d # ds) n segs grams st =
     and_then (build_document canceled lim gcap d n grams st) (\<lambda>(n, seg, grams, st).
       build_loop canceled lim gcap ds n (segs @ [seg]) grams st)"

definition statistics_new :: "nat \<Rightarrow> index_statistics" where
  "statistics_new planned = \<lparr>is_indexed = 0, is_uncovered = 0, is_examined = 0, is_grams = 0,
     is_retained = 0, is_peak = planned\<rparr>"

text \<open>
  The part of \<open>build\<close> between the reservation and its reconciliation: the three buffers, the files, and
  the bytes that remain allocated once the scratch buffer is gone.
\<close>

definition build_body ::
  "memory \<Rightarrow> (nat \<Rightarrow> bool) \<Rightarrow> index_limits \<Rightarrow> search_document list \<Rightarrow> nat \<Rightarrow> nat \<Rightarrow> nat \<Rightarrow> nat \<Rightarrow>
   index_error + index_segment list \<times> 32 word list \<times> index_statistics" where
  "build_body mem canceled lim docs planned n gcap scap =
     and_then (reserve mem 0 (length docs)) (\<lambda>segment_capacity.
     and_then (reserve mem 1 gcap) (\<lambda>gram_capacity.
     and_then (reserve mem 2 scap) (\<lambda>scratch_capacity.
     and_then (allocation_bytes mem segment_capacity gram_capacity scratch_capacity) (\<lambda>actual.
     if actual > planned then Inl IxResourceDenied
     else and_then (build_loop canceled lim gcap docs n [] [] (statistics_new planned))
       (\<lambda>(n, segs, grams, st).
        if canceled n then Inl IxCanceled
        else and_then (allocation_bytes mem segment_capacity gram_capacity 0) (\<lambda>retained.
          Inr (segs, grams, st\<lparr>is_grams := length grams, is_retained := retained\<rparr>)))))))"

definition drop_lease :: "ledger \<Rightarrow> lease \<Rightarrow> ledger option" where
  "drop_lease l x = remove_reference l (ls_owner x) (ls_alloc x)"

definition index_build ::
  "memory \<Rightarrow> (nat \<Rightarrow> bool) \<Rightarrow> search_manifest \<Rightarrow> index_limits \<Rightarrow> nat \<Rightarrow> ledger \<Rightarrow> nat \<Rightarrow>
   ((index_error + search_index) \<times> ledger) option" where
  "index_build mem canceled m lim i l a =
     (if canceled 0 then Some (Inl IxCanceled, l)
      else case and_then (plan_loop canceled lim (mf_documents m) 1 0 0 0) (\<lambda>(n, gcap, scap).
          and_then (allocation_bytes mem (length (mf_documents m)) gcap scap) (\<lambda>planned.
          Inr (n, gcap, scap, planned))) of
        Inl e \<Rightarrow> Some (Inl e, l)
      | Inr (n, gcap, scap, planned) \<Rightarrow>
          (case try_reserve i l (mi_owner (mf_id m)) a Managed planned of
             (Inl _, l1) \<Rightarrow> Some (Inl IxResourceDenied, l1)
           | (Inr x, l1) \<Rightarrow>
               (case build_body mem canceled lim (mf_documents m) planned n gcap scap of
                  Inl e \<Rightarrow> map_option (\<lambda>l2. (Inl e, l2)) (drop_lease l1 x)
                | Inr (segs, grams, st) \<Rightarrow>
                    Option.bind (reconcile l1 (ls_alloc x) (is_retained st)) (\<lambda>(r, l2).
                      case r of
                        Inl _ \<Rightarrow> map_option (\<lambda>l3. (Inl IxResourceDenied, l3)) (drop_lease l2 x)
                      | Inr _ \<Rightarrow> Some (Inr \<lparr>ei_manifest = m, ei_segments = segs, ei_grams = grams,
                          ei_statistics = st, ei_lease = x\<rparr>, l2)))))"

section \<open>Probes\<close>

definition segment_coverage_of :: "search_index \<Rightarrow> file_id \<Rightarrow> segment_coverage option" where
  "segment_coverage_of ix f = (case binary_search (map sd_file (mf_documents (ei_manifest ix))) f of
     Inl _ \<Rightarrow> None
   | Inr i \<Rightarrow> Some (sg_coverage (ei_segments ix ! i)))"

definition compatible_segment :: "index_segment \<Rightarrow> query_options \<Rightarrow> bool" where
  "compatible_segment seg q =
     (if sg_coverage seg \<noteq> Indexed then False
      else case qo_mode q of
        RawBytes \<Rightarrow> True
      | DecodedText case_sensitive normalization \<Rightarrow>
          case_sensitive \<and> normalization = NormExact \<and> sg_utf8 seg \<and>
          (case qo_encoding q of None \<Rightarrow> True | Some (Utf8 _) \<Rightarrow> True | Some _ \<Rightarrow> False))"

definition gram_at :: "byte list \<Rightarrow> nat \<Rightarrow> 32 word" where
  "gram_at needle k = gram (needle ! k) (needle ! (k + 1)) (needle ! (k + 2))"

text \<open>\<open>str::as_bytes\<close>.\<close>

definition str_bytes :: "uchar list \<Rightarrow> byte list" where
  "str_bytes s = concat (map utf8_encode s)"

text \<open>The slice of the segment's keys panics (\<^const>\<open>None\<close>) when it leaves the gram buffer.\<close>

definition may_match_segment ::
  "index_segment \<Rightarrow> 32 word list \<Rightarrow> parsed_query \<Rightarrow> query_options \<Rightarrow> (index_error + bool) option" where
  "may_match_segment seg grams query q =
     (let needle = str_bytes (pq_primary query) in
      if needle = [] then Some (Inl (IxQuery QEmptyNeedle))
      else if length needle < 3 \<or> \<not> compatible_segment seg q then Some (Inr True)
      else if sg_start seg + sg_len seg > length grams then None
      else let keys = slice grams (sg_start seg) (sg_start seg + sg_len seg); final = length needle - 3 in
        Some (Inr (list_all (\<lambda>k. is_ok (binary_search keys (gram_at needle k))) [0, final div 2, final])))"

definition validate_options :: "search_index \<Rightarrow> query_options \<Rightarrow> index_error + unit" where
  "validate_options ix q =
     (if qid_owner (qo_generation q) \<noteq> mi_owner (mf_id (ei_manifest ix)) then Inl IxOwnerMismatch else Inr ())"

definition may_match ::
  "search_index \<Rightarrow> nat \<Rightarrow> parsed_query \<Rightarrow> query_options \<Rightarrow> (index_error + bool) option" where
  "may_match ix k query q = (case validate_options ix q of
     Inl e \<Rightarrow> Some (Inl e)
   | Inr _ \<Rightarrow> (case nth_opt (ei_segments ix) k of
       None \<Rightarrow> Some (Inl IxInvalidManifest)
     | Some seg \<Rightarrow> may_match_segment seg (ei_grams ix) query q))"

definition uses_fallback :: "search_index \<Rightarrow> nat \<Rightarrow> query_options \<Rightarrow> nat \<Rightarrow> bool" where
  "uses_fallback ix k q needle_len =
     (needle_len < 3 \<or> \<not> compatible_segment (ei_segments ix ! k) q)"

section \<open>Trigrams\<close>

lemma gram_inject: "gram a b c = gram a' b' c' \<longleftrightarrow> a = a' \<and> b = b' \<and> c = c'"
proof
  assume eq: "gram a b c = gram a' b' c'"
  have bits: "bit (gram a b c) n \<longleftrightarrow> (16 \<le> n \<and> n < 24 \<and> bit a (n - 16)) \<or> (8 \<le> n \<and> n < 16 \<and> bit b (n - 8)) \<or>
      (n < 8 \<and> bit c n)" for a b c :: byte and n
    using bit_imp_le_length [of a "n - 16"] bit_imp_le_length [of b "n - 8"] bit_imp_le_length [of c n]
    by (auto simp: gram_def bit_simps)
  have "bit a n = bit a' n" "bit b n = bit b' n" "bit c n = bit c' n" if "n < 8" for n
    using arg_cong [OF eq, of "\<lambda>w. bit w (n + 16)"] arg_cong [OF eq, of "\<lambda>w. bit w (n + 8)"]
      arg_cong [OF eq, of "\<lambda>w. bit w n"] that by (simp_all add: bits)
  then show "a = a' \<and> b = b' \<and> c = c'" by (auto intro!: bit_word_eqI)
qed simp

text \<open>The windows of three bytes, in order, and the set of them that a segment stores.\<close>

definition all_grams :: "byte list \<Rightarrow> 32 word list" where
  "all_grams bytes = map (gram_at bytes) [0..<length bytes - 2]"

definition stored_grams :: "byte list \<Rightarrow> 32 word list" where
  "stored_grams bytes = remdups_adj (sort (all_grams bytes))"

lemma all_grams_Cons: "all_grams (a # b # c # rest) = gram a b c # all_grams (b # c # rest)"
  by (simp add: all_grams_def gram_at_def upt_conv_Cons map_Suc_upt [symmetric] comp_def del: upt_Suc)

lemma all_grams_short: "length bytes < 3 \<Longrightarrow> all_grams bytes = []"
  by (simp add: all_grams_def)

lemma gram_loop_ok: "gram_loop canceled bytes offset n acc = Inr (s, n') \<Longrightarrow> s = acc @ all_grams bytes"
  by (induction canceled bytes offset n acc rule: gram_loop.induct)
    (auto simp: all_grams_Cons all_grams_short split: if_splits)

lemma file_grams_ok: "file_grams canceled bytes n = Inr (s, n') \<Longrightarrow> s = stored_grams bytes"
  by (auto simp: file_grams_def result_simps Let_def stored_grams_def split: prod.splits if_splits
      dest!: gram_loop_ok)

lemma stored_grams_sorted: "sorted_wrt (<) (stored_grams bytes)"
proof -
  have "sorted (stored_grams bytes)" by (simp add: stored_grams_def)
  then have "successively (\<le>) (stored_grams bytes)" by (rule successively_if_sorted_wrt)
  moreover have "distinct_adj (stored_grams bytes)" by (simp add: stored_grams_def)
  ultimately have "successively (<) (stored_grams bytes)"
    by (auto simp: distinct_adj_conv_nth successively_conv_nth order_less_le)
  moreover have "successively (<) (stored_grams bytes) \<longleftrightarrow> sorted_wrt (<) (stored_grams bytes)"
    by (rule successively_conv_sorted_wrt) (rule transp_on_less)
  ultimately show ?thesis by simp
qed

lemma set_stored_grams: "set (stored_grams bytes) = set (all_grams bytes)"
  by (simp add: stored_grams_def)

text \<open>A stored trigram is an occurrence of its three bytes.\<close>

lemma gram_occurs:
  assumes "k + 2 < length needle"
  shows "gram_at needle k \<in> set (all_grams bytes) \<longleftrightarrow> occurrences (take 3 (drop k needle)) bytes \<noteq> []"
proof -
  have three: "take 3 (drop s xs) = [xs ! s, xs ! (s + 1), xs ! (s + 2)]" if "s + 2 < length xs" for xs :: "byte list" and s
    using that by (simp add: list_eq_iff_nth_eq less_Suc_eq numeral_eq_Suc)
  have "gram_at needle k = gram_at bytes s \<longleftrightarrow> take 3 (drop s bytes) = take 3 (drop k needle)"
    if "s + 2 < length bytes" for s
    using three [OF that] three [OF assms] by (auto simp: gram_at_def gram_inject)
  moreover have "s + 2 < length bytes" if "take 3 (drop s bytes) = take 3 (drop k needle)" for s
    using arg_cong [OF that, of length] assms by simp
  moreover have "length (take 3 (drop k needle)) = 3" using assms by simp
  ultimately have "gram_at needle k = gram_at bytes s \<and> s < length bytes - 2 \<longleftrightarrow>
      s < length bytes \<and> take (length (take 3 (drop k needle))) (drop s bytes) = take 3 (drop k needle)" for s
    by (metis add_lessD1 less_diff_conv)
  then have "(\<exists>s. gram_at needle k = gram_at bytes s \<and> s < length bytes - 2) \<longleftrightarrow>
      (\<exists>s. s < length bytes \<and> take (length (take 3 (drop k needle))) (drop s bytes) = take 3 (drop k needle))"
    by presburger
  then show ?thesis
    unfolding all_grams_def occurrences_def filter_empty_conv by (simp add: image_iff Bex_def conj_commute)
qed

lemma occurs_iff:
  assumes "needle \<noteq> []"
  shows "occurrences needle xs \<noteq> [] \<longleftrightarrow> (\<exists>a b. xs = a @ needle @ b)"
proof
  assume "occurrences needle xs \<noteq> []"
  then obtain s where s: "take (length needle) (drop s xs) = needle"
    by (auto simp: occurrences_def filter_empty_conv)
  have "xs = take s xs @ needle @ drop (length needle) (drop s xs)"
    by (metis append_take_drop_id s)
  then show "\<exists>a b. xs = a @ needle @ b" by blast
next
  assume "\<exists>a b. xs = a @ needle @ b"
  then obtain a b where xs: "xs = a @ needle @ b" by blast
  then have "length a < length xs" "take (length needle) (drop (length a) xs) = needle"
    using assms by simp_all
  then show "occurrences needle xs \<noteq> []"
    unfolding occurrences_def filter_empty_conv by fastforce
qed

lemma occurs_sub:
  assumes "occurrences needle bytes \<noteq> []" and "k + 3 \<le> length needle"
  shows "occurrences (take 3 (drop k needle)) bytes \<noteq> []"
proof -
  have "needle \<noteq> []" "take 3 (drop k needle) \<noteq> []" using assms(2) by auto
  moreover have "needle = take k needle @ take 3 (drop k needle) @ drop (k + 3) needle"
    by (metis add.commute append_take_drop_id drop_drop)
  then obtain p q where needle: "needle = p @ take 3 (drop k needle) @ q" by blast
  obtain a b where "bytes = a @ needle @ b" using assms(1) occurs_iff calculation by blast
  with needle have "bytes = (a @ p) @ take 3 (drop k needle) @ (q @ b)" by (metis append.assoc)
  with calculation(2) show ?thesis using occurs_iff by blast
qed

section \<open>Text and its bytes\<close>

lemma encode_ascii: "unat (b :: byte) < 128 \<Longrightarrow> utf8_encode (unat b) = [b]"
  by (simp add: utf8_encode_def byte_of_def)

lemma valid_prefix_encodes:
  "valid_prefix bs = (cs, rst) \<Longrightarrow> bs = str_bytes cs @ rst"
proof (induction bs arbitrary: cs rule: valid_prefix.induct)
  case (2 b bs)
  show ?case
  proof (cases "unat b < 128")
    case True
    with 2 show ?thesis
      by (auto simp: valid_prefix.simps(2) str_bytes_def encode_ascii split: prod.splits)
  next
    case False
    show ?thesis
    proof (cases "decode_utf8_char (b # bs)")
      case (Pair n ch)
      show ?thesis
      proof (cases ch)
        case None
        with False Pair 2(3) show ?thesis by (simp add: valid_prefix.simps(2) str_bytes_def)
      next
        case (Some c)
        obtain cs' where v: "valid_prefix (drop n (b # bs)) = (cs', rst)" "cs = c # cs'"
          using False Pair Some 2(3) by (auto simp: valid_prefix.simps(2) split: prod.splits)
        obtain r where r: "b # bs = utf8_encode c @ r" "n = len_utf8 c"
          using decode_sound [of "b # bs" n c] Pair Some by auto
        have "drop n (b # bs) = str_bytes cs' @ rst" using 2(2) False Pair Some v(1) by simp
        then have "r = str_bytes cs' @ rst" by (simp add: r length_utf8_encode [symmetric])
        then show ?thesis by (simp add: r(1) v(2) str_bytes_def)
      qed
    qed
  qed
qed (simp add: str_bytes_def)

lemma text_occurs:
  assumes "occurrences needle cs \<noteq> []" and "str_bytes needle \<noteq> []"
  shows "occurrences (str_bytes needle) (str_bytes cs) \<noteq> []"
proof -
  have "needle \<noteq> []" using assms(2) by (auto simp: str_bytes_def)
  then obtain a b where "cs = a @ needle @ b" using assms(1) occurs_iff by blast
  then have "str_bytes cs = str_bytes a @ str_bytes needle @ str_bytes b" by (simp add: str_bytes_def)
  with assms(2) show ?thesis using occurs_iff by blast
qed

section \<open>The segments of a built index\<close>

definition segment_ok :: "32 word list \<Rightarrow> search_document \<Rightarrow> index_segment \<Rightarrow> bool" where
  "segment_ok grams d seg \<longleftrightarrow> sg_start seg + sg_len seg \<le> length grams \<and>
     (sg_coverage seg = Indexed \<longrightarrow>
        sg_utf8 seg = is_utf8 (cc_bytes (sd_capture d)) \<and>
        slice grams (sg_start seg) (sg_start seg + sg_len seg) = stored_grams (cc_bytes (sd_capture d)))"

lemma segment_ok_extend: "segment_ok grams d seg \<Longrightarrow> segment_ok (grams @ ext) d seg"
  by (auto simp: segment_ok_def slice_append_left)

lemma build_document_ok:
  assumes "build_document canceled lim gcap d n grams st = Inr (n', seg, grams', st')"
  shows "\<exists>ext. grams' = grams @ ext" "segment_ok grams' d seg"
    "length grams \<le> gcap \<Longrightarrow> length grams' \<le> gcap" "is_peak st' = is_peak st"
  using assms
  by (auto simp: build_document_def result_simps Let_def segment_ok_def uncovered_segment_def slice_append_right
      split: if_splits option.splits prod.splits dest!: file_grams_ok)

lemma build_loop_ok:
  "\<lbrakk>build_loop canceled lim gcap ds n segs grams st = Inr (n', segs', grams', st');
    list_all2 (segment_ok grams) prior segs; length grams \<le> gcap\<rbrakk>
   \<Longrightarrow> list_all2 (segment_ok grams') (prior @ ds) segs' \<and> length grams' \<le> gcap \<and> is_peak st' = is_peak st"
proof (induction ds arbitrary: prior n segs grams st)
  case (Cons d ds)
  obtain n1 seg grams1 st1 where d: "build_document canceled lim gcap d n grams st = Inr (n1, seg, grams1, st1)"
    "build_loop canceled lim gcap ds n1 (segs @ [seg]) grams1 st1 = Inr (n', segs', grams', st')"
    using Cons.prems(1) by (auto simp: result_simps)
  note step = build_document_ok [OF d(1)]
  obtain ext where "grams1 = grams @ ext" using step(1) by blast
  then have "list_all2 (segment_ok grams1) (prior @ [d]) (segs @ [seg])"
    using Cons.prems(2) step(2) segment_ok_extend by (auto intro!: list_all2_appendI intro: list_all2_mono)
  from Cons.IH [OF d(2) this step(3) [OF Cons.prems(3)]] step(4) show ?case by simp
qed simp

lemma build_body_ok:
  assumes "build_body mem canceled lim docs planned n gcap scap = Inr (segs, grams, st)"
  shows "list_all2 (segment_ok grams) docs segs" "is_peak st = planned" "is_grams st = length grams"
    "is_retained st \<le> planned" "im_index mem \<le> is_retained st"
    "\<forall>k count c. im_reserve mem k count = Some c \<longrightarrow> count \<le> c \<Longrightarrow> im_segment mem * length segs + 4 * length grams + im_index mem \<le> is_retained st"
    "\<exists>sc gc xc. im_reserve mem 0 (length docs) = Some sc \<and> im_reserve mem 1 gcap = Some gc \<and>
       im_reserve mem 2 scap = Some xc \<and> is_retained st = sc * im_segment mem + gc * 4 + im_index mem \<and>
       is_retained st + xc * 4 \<le> planned"
proof -
  obtain sc gc xc actual n' st' where body: "im_reserve mem 0 (length docs) = Some sc" "im_reserve mem 1 gcap = Some gc"
    "im_reserve mem 2 scap = Some xc" "allocation_bytes mem sc gc xc = Inr actual" "actual \<le> planned"
    "build_loop canceled lim gcap docs n [] [] (statistics_new planned) = Inr (n', segs, grams, st')"
    "allocation_bytes mem sc gc 0 = Inr (is_retained st)"
    "st = st'\<lparr>is_grams := length grams, is_retained := is_retained st\<rparr>"
    using assms(1) by (auto simp: build_body_def result_simps reserve_def split: if_splits prod.splits)
  note loop = build_loop_ok [OF body(6), where prior = "[]", simplified]
  show segs: "list_all2 (segment_ok grams) docs segs" using loop by simp
  show "is_peak st = planned" using loop by (subst body(8)) (simp add: statistics_new_def)
  show "is_grams st = length grams" by (subst body(8)) simp
  have bytes: "actual = sc * im_segment mem + (gc + xc) * 4 + im_index mem"
    "is_retained st = sc * im_segment mem + gc * 4 + im_index mem"
    using body(4,7) by (auto simp: allocation_bytes_def ok_or_Inr_iff bind_eq_Some_conv arith64)
  with body(5) show "is_retained st \<le> planned" "im_index mem \<le> is_retained st" by simp_all
  show "\<exists>sc gc xc. im_reserve mem 0 (length docs) = Some sc \<and> im_reserve mem 1 gcap = Some gc \<and>
      im_reserve mem 2 scap = Some xc \<and> is_retained st = sc * im_segment mem + gc * 4 + im_index mem \<and>
      is_retained st + xc * 4 \<le> planned"
    using body(1-3,5) bytes by auto
  assume room: "\<forall>k count c. im_reserve mem k count = Some c \<longrightarrow> count \<le> c"
  have "length segs \<le> sc" using room body(1) list_all2_lengthD [OF segs] by simp
  moreover have "length grams \<le> gc" using room body(2) loop by (metis le_trans)
  ultimately show "im_segment mem * length segs + 4 * length grams + im_index mem \<le> is_retained st"
    by (simp add: bytes(2) mult.commute add_le_mono mult_le_mono)
qed

lemma index_build_ok:
  assumes "index_build mem canceled m lim i l a = Some (Inr ix, l')"
  obtains l1 x planned n gcap scap segs grams st
  where "try_reserve i l (mi_owner (mf_id m)) a Managed planned = (Inr x, l1)"
    "build_body mem canceled lim (mf_documents m) planned n gcap scap = Inr (segs, grams, st)"
    "reconcile l1 (ls_alloc x) (is_retained st) = Some (Inr (), l')"
    "ix = \<lparr>ei_manifest = m, ei_segments = segs, ei_grams = grams, ei_statistics = st, ei_lease = x\<rparr>"
  using assms
  by (auto simp: index_build_def bind_eq_Some_conv split: if_splits sum.splits prod.splits)
    (metis obj_sumE old.unit.exhaust)

lemma may_match_segment_exact:
  assumes ok: "segment_ok grams d seg" and needle: "needle = str_bytes (pq_primary query)" "needle \<noteq> []"
  shows "may_match_segment seg grams query q = Some (Inr (\<not> (3 \<le> length needle \<and> compatible_segment seg q \<and>
    (\<exists>j\<in>{0, (length needle - 3) div 2, length needle - 3}.
       occurrences (take 3 (drop j needle)) (cc_bytes (sd_capture d)) = []))))"
proof (cases "3 \<le> length needle \<and> compatible_segment seg q")
  case True
  then have keys: "slice grams (sg_start seg) (sg_start seg + sg_len seg) = stored_grams (cc_bytes (sd_capture d))"
    "sg_start seg + sg_len seg \<le> length grams"
    using ok by (auto simp: compatible_segment_def segment_ok_def split: if_splits)
  have found: "is_ok (binary_search (stored_grams (cc_bytes (sd_capture d))) (gram_at needle j)) \<longleftrightarrow>
      occurrences (take 3 (drop j needle)) (cc_bytes (sd_capture d)) \<noteq> []" if "j \<le> length needle - 3" for j
  proof -
    have "j + 2 < length needle" using that True by linarith
    from gram_occurs [OF this] show ?thesis
      by (simp add: binary_search_mem [OF stored_grams_sorted] set_stored_grams)
  qed
  have half: "(length needle - 3) div 2 \<le> length needle - 3" by simp
  show ?thesis
    using True found [OF le0] found [OF half] found [OF le_refl] needle(2) keys(2)
    by (simp add: may_match_segment_def Let_def keys(1) flip: needle(1))
next
  case False
  then show ?thesis using needle(2) by (auto simp: may_match_segment_def Let_def simp flip: needle(1))
qed

section \<open>The manifest accepts exactly the well-formed universes\<close>

definition documents_ok :: "manifest_id \<Rightarrow> manifest_limits \<Rightarrow> search_document list \<Rightarrow> bool" where
  "documents_ok m lim ds \<longleftrightarrow> sorted_wrt (<) (map sd_file ds) \<and>
     (\<forall>d\<in>set ds. qid_owner (sd_file d) = mi_owner m \<and>
        qid_owner (req_revision (cc_request (sd_capture d))) = mi_owner m \<and>
        sd_file d = req_file (cc_request (sd_capture d)) \<and> str_len (sd_path d) \<le> ml_max_path_bytes lim)"

lemma check_documents_iff:
  "check_documents m lim previous ds = Inr () \<longleftrightarrow> documents_ok m lim ds \<and>
     (\<forall>p. previous = Some p \<longrightarrow> (\<forall>d\<in>set ds. p < sd_file d))"
proof (induction ds arbitrary: previous)
  case (Cons d ds)
  have after: "documents_ok m lim (d # ds) \<longleftrightarrow> documents_ok m lim ds \<and> (\<forall>e\<in>set ds. sd_file d < sd_file e) \<and>
      qid_owner (sd_file d) = mi_owner m \<and> qid_owner (req_revision (cc_request (sd_capture d))) = mi_owner m \<and>
      sd_file d = req_file (cc_request (sd_capture d)) \<and> str_len (sd_path d) \<le> ml_max_path_bytes lim"
    by (auto simp: documents_ok_def)
  have chain: "(\<forall>e\<in>set ds. sd_file d < sd_file e) \<Longrightarrow> p < sd_file d \<Longrightarrow> \<forall>e\<in>set (d # ds). p < sd_file e" for p
    by (auto intro: less_trans)
  have step: "check_documents m lim previous (d # ds) = Inr () \<longleftrightarrow>
      (qid_owner (sd_file d) = mi_owner m \<and> qid_owner (req_revision (cc_request (sd_capture d))) = mi_owner m) \<and>
      (sd_file d = req_file (cc_request (sd_capture d)) \<and> (\<forall>p. previous = Some p \<longrightarrow> p < sd_file d)) \<and>
      str_len (sd_path d) \<le> ml_max_path_bytes lim \<and> check_documents m lim (Some (sd_file d)) ds = Inr ()"
    by (cases previous; auto simp: not_le)
  show ?case
    unfolding step after Cons.IH using chain by (cases previous) (simp_all, blast+)
qed (simp add: documents_ok_def)

lemma dropWhile_first:
  assumes "sorted_wrt (<) (map sd_file ds)"
  shows "(case dropWhile (\<lambda>d. sd_file d < f) ds of [] \<Rightarrow> False | d # _ \<Rightarrow> sd_file d = f) \<longleftrightarrow> f \<in> sd_file ` set ds"
  using assms by (induction ds) (auto split: list.splits)

lemma check_unavailable_iff:
  "sorted_wrt (<) (map sd_file ds) \<Longrightarrow> check_unavailable m ds previous fs = Inr () \<longleftrightarrow>
     sorted_wrt (<) fs \<and> (\<forall>f\<in>set fs. qid_owner f = mi_owner m \<and> f \<notin> sd_file ` set ds \<and>
       (\<forall>p. previous = Some p \<longrightarrow> p < f))"
proof (induction fs arbitrary: ds previous)
  case (Cons f fs)
  let ?rest = "dropWhile (\<lambda>d. sd_file d < f) ds"
  have sorted: "sorted_wrt (<) (map sd_file ?rest)"
  proof -
    have "map sd_file ds = map sd_file (takeWhile (\<lambda>d. sd_file d < f) ds) @ map sd_file ?rest"
      by (metis map_append takeWhile_dropWhile_id)
    with Cons.prems show ?thesis by (simp add: sorted_wrt_append)
  qed
  have tail: "g \<in> sd_file ` set ?rest \<longleftrightarrow> g \<in> sd_file ` set ds" if "f < g" for g
  proof
    assume "g \<in> sd_file ` set ds"
    then obtain d where d: "d \<in> set ds" "g = sd_file d" by blast
    then have "d \<in> set (takeWhile (\<lambda>d. sd_file d < f) ds) \<or> d \<in> set ?rest"
      by (metis Un_iff set_append takeWhile_dropWhile_id)
    with d that show "g \<in> sd_file ` set ?rest" by (auto dest: set_takeWhileD)
  qed (auto dest: set_dropWhileD)
  have step: "check_unavailable m ds previous (f # fs) = Inr () \<longleftrightarrow> qid_owner f = mi_owner m \<and>
      (\<forall>p. previous = Some p \<longrightarrow> p < f) \<and> f \<notin> sd_file ` set ds \<and>
      check_unavailable m ?rest (Some f) fs = Inr ()"
    unfolding check_unavailable.simps Let_def dropWhile_first [OF Cons.prems]
    by (cases previous; auto simp: not_le)
  have rest: "(\<forall>g\<in>set fs. qid_owner g = mi_owner m \<and> g \<notin> sd_file ` set ?rest \<and> (\<forall>p. Some f = Some p \<longrightarrow> p < g)) \<longleftrightarrow>
      (\<forall>g\<in>set fs. f < g) \<and> (\<forall>g\<in>set fs. qid_owner g = mi_owner m \<and> g \<notin> sd_file ` set ds)"
    using tail by blast
  have chain: "\<forall>g\<in>set fs. f < g \<Longrightarrow> p < f \<Longrightarrow> \<forall>g\<in>set fs. p < g" for p
    by (auto intro: less_trans)
  show ?case
    unfolding step Cons.IH [OF sorted] rest using chain by (cases previous) (simp_all, blast+)
qed simp

section \<open>A sample index\<close>

definition index_sample_memory :: memory where
  "index_sample_memory = \<lparr>im_segment = 32, im_index = 200, im_reserve = (\<lambda>k count. Some count)\<rparr>"

definition index_sample_document :: search_document where
  "index_sample_document = \<lparr>sd_file = QId (ArenaOwnerId 1) 1, sd_path = [97],
     sd_capture = \<lparr>cc_request = \<lparr>req_file = QId (ArenaOwnerId 1) 1, req_revision = QId (ArenaOwnerId 1) 1, req_range = None\<rparr>,
       cc_bytes = [97, 98, 99], cc_length = 3, cc_digest = 0\<rparr>\<rparr>"

definition index_sample_manifest :: search_manifest where
  "index_sample_manifest = \<lparr>mf_id = \<lparr>mi_owner = ArenaOwnerId 1, mi_revision = 1\<rparr>,
     mf_documents = [index_sample_document], mf_unavailable = [], mf_membership = MembershipClosed\<rparr>"

definition index_sample_ledger :: ledger where
  "index_sample_ledger = budget_sample_ledger\<lparr>led_capacity := 1000\<rparr>"

definition index_sample_query :: parsed_query where
  "index_sample_query = (query_new [120, 121, 122])\<lparr>pq_primary := [120, 121, 122]\<rparr>"

lemmas index_sample_defs = index_sample_memory_def index_sample_document_def index_sample_manifest_def
  index_sample_ledger_def index_limits_default_def

abbreviation "index_sample_build \<equiv>
  index_build index_sample_memory (\<lambda>_. False) index_sample_manifest index_limits_default 3 index_sample_ledger 5"


lemma index_sample_built: "\<exists>ix l'. index_sample_build = Some (Inr ix, l')"
  by (simp add: index_build_def index_sample_defs budget_sample_defs source_refusal_def saturating_add_def
      allocation_bytes_def checked_mul_def checked_add_def u64_max_val try_reserve_def try_reserve_class_def
      class_available_def Let_def add_kind_def add_class_def build_body_def reserve_def build_document_def
      build_refusal_def statistics_new_def file_grams_def is_utf8_def reconcile_def reconcile_shrink_def
      subtract_class_def subtract_kind_def checked_sub_def set_bytes_def)

section \<open>Properties\<close>

text \<open>
  C38: A manifest is accepted exactly when it is a well-formed universe: within the file limit, documents
  in strictly increasing file order, each naming its own capture, owner and admissible path, unavailable
  files in strictly increasing order, of the owner, and none of them a document. The two-pointer walk of
  the code therefore misses no overlap.
\<close>

theorem manifest_accepts_exactly:
  "manifest_new m docs unav state lim =
      Inr \<lparr>mf_id = m, mf_documents = docs, mf_unavailable = unav, mf_membership = state\<rparr> \<longleftrightarrow>
    length docs + length unav \<le> min (ml_max_files lim) u64_max \<and> documents_ok m lim docs \<and>
    sorted_wrt (<) unav \<and> set unav \<inter> sd_file ` set docs = {} \<and> qid_owner ` set unav \<subseteq> {mi_owner m}"
proof -
  have check: "check_documents m lim None docs = Inr () \<longleftrightarrow> documents_ok m lim docs"
    by (simp add: check_documents_iff)
  have unav: "documents_ok m lim docs \<Longrightarrow> check_unavailable m docs None unav = Inr () \<longleftrightarrow>
      sorted_wrt (<) unav \<and> set unav \<inter> sd_file ` set docs = {} \<and> qid_owner ` set unav \<subseteq> {mi_owner m}"
    by (subst check_unavailable_iff) (auto simp: documents_ok_def)
  show ?thesis
    using check unav
    by (auto simp: manifest_new_def checked_add_def result_simps not_le split: option.splits)
qed

text \<open>
  C36: A false answer of the index is a negative certificate. For every file of a built index the probe
  answers (no panic, no error for a query of the owner), and it answers no exactly when the segment is
  indexed and compatible with the mode, the needle has three bytes, and one of the three probed trigrams
  is nowhere in the captured bytes; then the needle is nowhere in the bytes, and where they are UTF-8 text
  nowhere in the text.
\<close>

theorem negative_certificate:
  assumes built: "index_build mem canceled m lim i l a = Some (Inr ix, l')"
    and k: "k < length (mf_documents m)" "bytes = cc_bytes (sd_capture (mf_documents m ! k))"
    and query: "qid_owner (qo_generation q) = mi_owner (mf_id m)" "needle = str_bytes (pq_primary query)" "needle \<noteq> []"
  shows "\<exists>found. may_match ix k query q = Some (Inr found) \<and>
    (\<not> found \<longleftrightarrow> 3 \<le> length needle \<and> compatible_segment (ei_segments ix ! k) q \<and>
       (\<exists>j\<in>{0, (length needle - 3) div 2, length needle - 3}. occurrences (take 3 (drop j needle)) bytes = [])) \<and>
    (\<not> found \<longrightarrow> occurrences needle bytes = [] \<and> (qo_mode q = RawBytes \<or> is_utf8 bytes) \<and>
       (\<forall>cs. valid_prefix bytes = (cs, []) \<longrightarrow> occurrences (pq_primary query) cs = []))"
proof -
  obtain segs grams st planned n gcap scap where ix: "ei_manifest ix = m" "ei_segments ix = segs" "ei_grams ix = grams"
    "build_body mem canceled lim (mf_documents m) planned n gcap scap = Inr (segs, grams, st)"
    by (rule index_build_ok [OF built]) auto
  have segs: "list_all2 (segment_ok grams) (mf_documents m) segs" using build_body_ok(1) [OF ix(4)] .
  then have seg: "segment_ok grams (mf_documents m ! k) (segs ! k)" "k < length segs"
    using k(1) by (auto simp: list_all2_conv_all_nth)
  let ?miss = "3 \<le> length needle \<and> compatible_segment (segs ! k) q \<and>
    (\<exists>j\<in>{0, (length needle - 3) div 2, length needle - 3}. occurrences (take 3 (drop j needle)) bytes = [])"
  have "may_match ix k query q = Some (Inr (\<not> ?miss))"
    using may_match_segment_exact [OF seg(1) query(2,3), of q] seg(2) query(1)
    by (simp add: may_match_def validate_options_def ix nth_opt_def k(2))
  moreover have none: "occurrences needle bytes = []" if miss: ?miss
  proof (rule ccontr)
    assume "occurrences needle bytes \<noteq> []"
    then have sub: "occurrences (take 3 (drop j needle)) bytes \<noteq> []" if "j \<le> length needle - 3" for j
      using that miss by (intro occurs_sub) linarith+
    obtain j where j: "j \<in> {0, (length needle - 3) div 2, length needle - 3}" "occurrences (take 3 (drop j needle)) bytes = []"
      using miss by blast
    have "j \<le> length needle - 3" using j(1) by auto
    from sub [OF this] j(2) show False by simp
  qed
  moreover have "qo_mode q = RawBytes \<or> is_utf8 bytes" if ?miss
    using that seg(1) by (auto simp: compatible_segment_def segment_ok_def k(2) split: if_splits search_mode.splits)
  moreover have "occurrences (pq_primary query) cs = []" if ?miss "valid_prefix bytes = (cs, [])" for cs
    using none [OF that(1)] text_occurs [of "pq_primary query" cs] valid_prefix_encodes [OF that(2)] query(2,3) by auto
  ultimately show ?thesis by (auto simp: ix(2))
qed

theorem negative_certificate_witness:
  "\<exists>ix l'. index_sample_build = Some (Inr ix, l') \<and>
    (\<exists>found. may_match ix 0 index_sample_query (query_options_new (QId (ArenaOwnerId 1) 1)) = Some (Inr found) \<and>
      (\<not> found \<longrightarrow> occurrences [120, 121, 122] [97, 98, 99 :: byte] = []))"
proof -
  obtain ix l' where built: "index_sample_build = Some (Inr ix, l')" using index_sample_built by blast
  have doc: "0 < length (mf_documents index_sample_manifest)"
    "[97, 98, 99] = cc_bytes (sd_capture (mf_documents index_sample_manifest ! 0))"
    by (simp_all add: index_sample_manifest_def index_sample_document_def)
  have query: "qid_owner (qo_generation (query_options_new (QId (ArenaOwnerId 1) 1))) = mi_owner (mf_id index_sample_manifest)"
    "[120, 121, 122] = str_bytes (pq_primary index_sample_query)" "[120, 121, 122 :: byte] \<noteq> []"
    by (simp_all add: query_options_new_def index_sample_manifest_def index_sample_query_def str_bytes_def
        utf8_encode_def byte_of_def)
  from negative_certificate [OF built doc query] built show ?thesis by blast
qed



end
