(* ===== verification/Normalized.thy ===== *)
theory Normalized
  imports Raw_Scan
begin

text \<open>
  \<open>crates/fcb-search/src/normalized.rs\<close>: the incremental matcher for the case-insensitive and
  normalized modes, with the decomposition table of \<open>lib.rs\<close>.

  Correspondence: \<open>Transform\<close>, \<open>SourceScalar\<close>, \<open>Occurrence\<close> and \<open>NormalizedCursor\<close> are a datatype and
  records. \<open>char::to_lowercase\<close> is the parameter \<open>lower\<close>. \<open>Transform::equal\<close> is equality of keys: of the
  lowered expansions in the case-insensitive canonical mode, of the letters otherwise; so the loops run
  on keys, with the failure table and the fall-back loop of the byte matcher. An index out of range and
  a loop that does not return are \<^const>\<open>None\<close>; allocation failure is not modelled.
\<close>

section \<open>The transforms\<close>

datatype transform = TLower | TFold | TCanonical bool

definition transform_for_mode :: "search_mode \<Rightarrow> transform option" where
  "transform_for_mode mode = (case mode of
     RawBytes \<Rightarrow> None
   | DecodedText case_sensitive normalization \<Rightarrow>
       (case normalization of
          NormExact \<Rightarrow> if case_sensitive then None else Some TLower
        | NormCaseFold \<Rightarrow> Some TFold
        | NormCanonical \<Rightarrow> Some (TCanonical case_sensitive)))"

definition decomposition_table :: "(uchar \<times> uchar list) list" where
  "decomposition_table =
    [(0xC0, [65, 0x300]), (0xC1, [65, 0x301]), (0xC2, [65, 0x302]), (0xC3, [65, 0x303]),
     (0xC4, [65, 0x308]), (0xC5, [65, 0x30A]), (0xC7, [67, 0x327]), (0xC8, [69, 0x300]),
     (0xC9, [69, 0x301]), (0xCA, [69, 0x302]), (0xCB, [69, 0x308]), (0xCC, [73, 0x300]),
     (0xCD, [73, 0x301]), (0xCE, [73, 0x302]), (0xCF, [73, 0x308]), (0xD1, [78, 0x303]),
     (0xD2, [79, 0x300]), (0xD3, [79, 0x301]), (0xD4, [79, 0x302]), (0xD5, [79, 0x303]),
     (0xD6, [79, 0x308]), (0xD9, [85, 0x300]), (0xDA, [85, 0x301]), (0xDB, [85, 0x302]),
     (0xDC, [85, 0x308]), (0xDD, [89, 0x301]), (0xE0, [97, 0x300]), (0xE1, [97, 0x301]),
     (0xE2, [97, 0x302]), (0xE3, [97, 0x303]), (0xE4, [97, 0x308]), (0xE5, [97, 0x30A]),
     (0xE7, [99, 0x327]), (0xE8, [101, 0x300]), (0xE9, [101, 0x301]), (0xEA, [101, 0x302]),
     (0xEB, [101, 0x308]), (0xEC, [105, 0x300]), (0xED, [105, 0x301]), (0xEE, [105, 0x302]),
     (0xEF, [105, 0x308]), (0xF1, [110, 0x303]), (0xF2, [111, 0x300]), (0xF3, [111, 0x301]),
     (0xF4, [111, 0x302]), (0xF5, [111, 0x303]), (0xF6, [111, 0x308]), (0xF9, [117, 0x300]),
     (0xFA, [117, 0x301]), (0xFB, [117, 0x302]), (0xFC, [117, 0x308]), (0xFD, [121, 0x301]),
     (0xFF, [121, 0x308])]"

definition canonical_decompose_char :: "uchar \<Rightarrow> uchar list option" where
  "canonical_decompose_char c = map_of decomposition_table c"

definition transform_units :: "(uchar \<Rightarrow> uchar list) \<Rightarrow> transform \<Rightarrow> uchar \<Rightarrow> uchar list" where
  "transform_units lower tr c = (case tr of
     TFold \<Rightarrow> if c = 0xDF \<or> c = 0x1E9E then [115, 115] else lower c
   | TLower \<Rightarrow> lower c
   | TCanonical _ \<Rightarrow> (case canonical_decompose_char c of Some cs \<Rightarrow> cs | None \<Rightarrow> [c]))"

definition unit_key :: "(uchar \<Rightarrow> uchar list) \<Rightarrow> transform \<Rightarrow> uchar \<Rightarrow> uchar list" where
  "unit_key lower tr u = (if tr = TCanonical False then lower u else [u])"

definition query_units :: "(uchar \<Rightarrow> uchar list) \<Rightarrow> transform \<Rightarrow> uchar list \<Rightarrow> uchar list" where
  "query_units lower tr query = concat (map (transform_units lower tr) query)"

section \<open>The cursor\<close>

definition max_units :: nat where
  "max_units = max_stream_needle_bytes * 3"

fun count_units :: "nat \<Rightarrow> uchar list \<Rightarrow> query_error + nat" where
  "count_units units [] = Inr units"
| "count_units units (u # us) = and_then (ok_or QLimitExceeded (checked_add units 1)) (\<lambda>units.
     if units > max_units then Inl QNeedleTooLong else count_units units us)"

definition matched_text_capacity :: "(uchar \<Rightarrow> uchar list) \<Rightarrow> uchar list \<Rightarrow> search_mode \<Rightarrow> query_error + nat" where
  "matched_text_capacity lower query mode =
     and_then (validate_needle (concat (map utf8_encode query))) (\<lambda>_.
       case transform_for_mode mode of
         None \<Rightarrow> Inr (length (concat (map utf8_encode query)))
       | Some tr \<Rightarrow> and_then (count_units 0 (query_units lower tr query)) (\<lambda>units.
           ok_or QLimitExceeded (checked_mul units 4)))"

record source_scalar =
  ss_char :: uchar
  ss_raw_start :: nat
  ss_raw_end :: nat
  ss_dec_start :: nat
  ss_dec_end :: nat

record occurrence =
  oc_raw_start :: nat
  oc_raw_end :: nat
  oc_dec_start :: nat
  oc_dec_end :: nat

record normalized_cursor =
  nc_transform :: transform
  nc_needle :: "uchar list"
  nc_failure :: "nat list"
  nc_matched :: nat
  nc_source :: "source_scalar list"

fun collect_units :: "uchar list \<Rightarrow> uchar list \<Rightarrow> query_error + uchar list" where
  "collect_units needle [] = Inr needle"
| "collect_units needle (u # us) =
     (if length needle = max_units then Inl QNeedleTooLong else collect_units (needle @ [u]) us)"

definition normalized_new ::
  "(uchar \<Rightarrow> uchar list) \<Rightarrow> uchar list \<Rightarrow> search_mode \<Rightarrow> (query_error + normalized_cursor option) option" where
  "normalized_new lower query mode = (case transform_for_mode mode of
     None \<Rightarrow> Some (Inr None)
   | Some tr \<Rightarrow>
       (case and_then (validate_needle (concat (map utf8_encode query))) (\<lambda>_.
           collect_units [] (query_units lower tr query)) of
          Inl e \<Rightarrow> Some (Inl e)
        | Inr needle \<Rightarrow>
            if needle = [] then Some (Inl QEmptyNeedle)
            else map_option (\<lambda>failure. Inr (Some \<lparr>nc_transform = tr, nc_needle = needle, nc_failure = failure,
                nc_matched = 0, nc_source = []\<rparr>))
              (failure_table (map (unit_key lower tr) needle))))"

definition needle_keys :: "(uchar \<Rightarrow> uchar list) \<Rightarrow> normalized_cursor \<Rightarrow> uchar list list" where
  "needle_keys lower c = map (unit_key lower (nc_transform c)) (nc_needle c)"

definition normalized_push ::
  "(uchar \<Rightarrow> uchar list) \<Rightarrow> normalized_cursor \<Rightarrow> uchar \<Rightarrow> source_scalar \<Rightarrow>
   (occurrence option \<times> normalized_cursor) option" where
  "normalized_push lower c u s =
     (let source = (if length (nc_source c) = length (nc_needle c) then drop 1 (nc_source c) else nc_source c) @ [s] in
      Option.bind (advance_match (needle_keys lower c) (nc_failure c) (unit_key lower (nc_transform c) u) (nc_matched c))
        (\<lambda>m.
        if m \<noteq> length (nc_needle c) then Some (None, c\<lparr>nc_source := source, nc_matched := m\<rparr>)
        else Option.bind (checked_sub m 1) (\<lambda>final.
          Option.bind (index_at (nc_failure c) final) (\<lambda>f.
          Some (case source of
              [] \<Rightarrow> None
            | front # _ \<Rightarrow> Some \<lparr>oc_raw_start = ss_raw_start front, oc_raw_end = ss_raw_end s,
                oc_dec_start = ss_dec_start front, oc_dec_end = ss_dec_end s\<rparr>,
            c\<lparr>nc_source := source, nc_matched := f\<rparr>)))))"

text \<open>The scalars that \<open>matched_text\<close> visits: those whose start differs from the previous one's.\<close>

fun contributing :: "nat option \<Rightarrow> source_scalar list \<Rightarrow> source_scalar list" where
  "contributing previous [] = []"
| "contributing previous (s # ss) =
     (if previous \<noteq> Some (ss_dec_start s) then s # contributing (Some (ss_dec_start s)) ss
      else contributing previous ss)"

fun checked_sum :: "nat \<Rightarrow> nat list \<Rightarrow> nat option" where
  "checked_sum acc [] = Some acc"
| "checked_sum acc (n # ns) = Option.bind (checked_add acc n) (\<lambda>acc. checked_sum acc ns)"

definition matched_text :: "normalized_cursor \<Rightarrow> query_error + uchar list" where
  "matched_text c =
     (let ss = contributing None (nc_source c) in
      case checked_sum 0 (map (len_utf8 \<circ> ss_char) ss) of
        None \<Rightarrow> Inl QLimitExceeded
      | Some _ \<Rightarrow> Inr (map ss_char ss))"

definition oldest_raw_start :: "normalized_cursor \<Rightarrow> nat option" where
  "oldest_raw_start c = (case nc_source c of [] \<Rightarrow> None | s # _ \<Rightarrow> Some (ss_raw_start s))"

section \<open>The reference\<close>

text \<open>
  The units of a text with the scalar each comes from, a run of the cursor over them, and what a run has
  to report: every window of keys that equals the needle's, with the provenance of its first and last
  scalar and the text of the scalars it touches.
\<close>

definition text_units :: "(uchar \<Rightarrow> uchar list) \<Rightarrow> transform \<Rightarrow> source_scalar list \<Rightarrow> (uchar \<times> source_scalar) list" where
  "text_units lower tr ss = concat (map (\<lambda>s. map (\<lambda>u. (u, s)) (transform_units lower tr (ss_char s))) ss)"

fun normalized_run ::
  "(uchar \<Rightarrow> uchar list) \<Rightarrow> normalized_cursor \<Rightarrow> (uchar \<times> source_scalar) list \<Rightarrow>
   ((occurrence \<times> (query_error + uchar list)) list \<times> normalized_cursor) option" where
  "normalized_run lower c [] = Some ([], c)"
| "normalized_run lower c ((u, s) # us) =
     Option.bind (normalized_push lower c u s) (\<lambda>(hit, c').
     Option.bind (normalized_run lower c' us) (\<lambda>(hits, c'').
     Some ((case hit of None \<Rightarrow> [] | Some h \<Rightarrow> [(h, matched_text c')]) @ hits, c'')))"

definition window_hit :: "source_scalar list \<Rightarrow> occurrence \<times> (query_error + uchar list)" where
  "window_hit ss =
     (\<lparr>oc_raw_start = ss_raw_start (hd ss), oc_raw_end = ss_raw_end (last ss),
       oc_dec_start = ss_dec_start (hd ss), oc_dec_end = ss_dec_end (last ss)\<rparr>,
      Inr (map ss_char (remdups_adj ss)))"

definition expected_hits :: "(uchar \<Rightarrow> uchar list) \<Rightarrow> transform \<Rightarrow> uchar list \<Rightarrow> (uchar \<times> source_scalar) list \<Rightarrow>
    (occurrence \<times> (query_error + uchar list)) list" where
  "expected_hits lower tr needle us =
     map (\<lambda>p. window_hit (take (length needle) (drop p (map snd us))))
       (occurrences (map (unit_key lower tr) needle) (map (unit_key lower tr \<circ> fst) us))"

section \<open>Correctness\<close>

lemma match_step:
  assumes "needle \<noteq> []" "table_upto needle t (length needle)" "longest needle xs m"
  obtains k where "advance_match needle t b m = Some k" "k = length needle \<longleftrightarrow> suffix needle (xs @ [b])"
    "k \<noteq> length needle \<Longrightarrow> longest needle (xs @ [b]) k"
    "k = length needle \<Longrightarrow> index_at t (k - 1) = Some (t ! (k - 1))"
    "k = length needle \<Longrightarrow> longest needle (xs @ [b]) (t ! (k - 1))" "k = length needle \<Longrightarrow> k \<le> length xs + 1"
proof -
  have "table_upto needle t m" using table_mono [OF assms(2)] assms(3) by (simp add: longest_def)
  from advance_match_ok [OF assms(3) this, of b] obtain k where
    k: "advance_match needle t b m = Some k" "ends_with needle (xs @ [b]) k"
      "\<forall>j. ends_with needle (xs @ [b]) j \<longrightarrow> j \<le> k" by blast
  have le: "k \<le> length needle" using k(2) by (simp add: ends_with_def)
  have full: "k = length needle \<longleftrightarrow> suffix needle (xs @ [b])"
  proof
    assume "suffix needle (xs @ [b])"
    then have "length needle \<le> k" using k(3) by (simp add: ends_with_def)
    with le show "k = length needle" by simp
  qed (use k(2) in \<open>simp add: ends_with_def\<close>)
  have L: "0 < length needle" using assms(1) by simp
  show thesis
  proof (rule that [OF k(1) full])
    show "k \<noteq> length needle \<Longrightarrow> longest needle (xs @ [b]) k" using k(2,3) le by (simp add: longest_def)
  next
    assume "k = length needle"
    note entry = table_entry [OF assms(2) L k(2) [unfolded this], folded this]
    show "index_at t (k - 1) = Some (t ! (k - 1))" by (rule entry(1))
    show "longest needle (xs @ [b]) (t ! (k - 1))"
      using entry(2-4) \<open>k = length needle\<close> by (simp add: longest_def)
    show "k \<le> length xs + 1" using ends_with_le [OF k(2)] by simp
  qed
qed

lemma contributing_after:
  assumes "\<forall>x\<in>set (s # ss). \<forall>y\<in>set (s # ss). ss_dec_start x = ss_dec_start y \<longrightarrow> x = y"
  shows "s # contributing (Some (ss_dec_start s)) ss = remdups_adj (s # ss)"
  using assms
proof (induction ss arbitrary: s)
  case (Cons x xs)
  have rest: "\<forall>a\<in>set (y # xs). \<forall>b\<in>set (y # xs). ss_dec_start a = ss_dec_start b \<longrightarrow> a = b" if "y \<in> {s, x}" for y
    using Cons.prems that by (metis insertCI insertE list.simps(15) singletonD)
  show ?case
  proof (cases "s = x")
    case True
    with Cons.IH [OF rest, of s] show ?thesis by simp
  next
    case False
    then have "ss_dec_start s \<noteq> ss_dec_start x" using Cons.prems by (metis list.set_intros)
    with Cons.IH [OF rest, of x] False show ?thesis by simp
  qed
qed simp

lemma contributing_remdups:
  assumes "\<forall>x\<in>set ss. \<forall>y\<in>set ss. ss_dec_start x = ss_dec_start y \<longrightarrow> x = y"
  shows "contributing None ss = remdups_adj ss"
proof (cases ss)
  case (Cons s rest)
  from contributing_after [OF assms [unfolded Cons]] show ?thesis by (simp add: Cons)
qed simp

lemma checked_sum_eq: "acc + sum_list ns \<le> u64_max \<Longrightarrow> checked_sum acc ns = Some (acc + sum_list ns)"
  by (induction ns arbitrary: acc) auto

lemma len_utf8_le: "len_utf8 c \<le> 4"
  by (simp add: len_utf8_def)

lemma sum_len_utf8: "sum_list (map (len_utf8 \<circ> f) xs) \<le> 4 * length xs"
  by (induction xs) (use len_utf8_le in \<open>auto intro: add_mono\<close>)

lemma length_utf8_text: "length (concat (map utf8_encode cs)) = sum_list (map len_utf8 cs)"
  by (induction cs) (simp_all add: length_utf8_encode)

definition norm_inv :: "(uchar \<Rightarrow> uchar list) \<Rightarrow> transform \<Rightarrow> uchar list \<Rightarrow> (uchar \<times> source_scalar) list \<Rightarrow>
    normalized_cursor \<Rightarrow> bool" where
  "norm_inv lower tr needle us c \<longleftrightarrow> nc_transform c = tr \<and> nc_needle c = needle \<and>
     table_upto (map (unit_key lower tr) needle) (nc_failure c) (length needle) \<and>
     longest (map (unit_key lower tr) needle) (map (unit_key lower tr \<circ> fst) us) (nc_matched c) \<and>
     nc_source c = drop (length us - length needle) (map snd us)"

lemma expected_snoc:
  assumes "needle \<noteq> []"
  shows "expected_hits lower tr needle (us @ [x]) = expected_hits lower tr needle us @
    (if suffix (map (unit_key lower tr) needle) (map (unit_key lower tr \<circ> fst) (us @ [x]))
     then [window_hit (drop (length us + 1 - length needle) (map snd (us @ [x])))] else [])"
proof -
  let ?n = "map (unit_key lower tr) needle" and ?k = "map (unit_key lower tr \<circ> fst)"
  have old: "take (length needle) (drop p (map snd (us @ [x]))) = take (length needle) (drop p (map snd us))"
    if "p \<in> set (occurrences ?n (?k us))" for p
    using occurrences_end [OF that] assms by simp
  have occ: "occurrences ?n (?k (us @ [x])) = occurrences ?n (?k us) @
      (if suffix ?n (?k (us @ [x])) then [length us + 1 - length needle] else [])"
    using occurrences_snoc [of ?n "?k us" "(unit_key lower tr \<circ> fst) x"] assms by simp
  have final: "take (length needle) (drop (length us + 1 - length needle) (map snd (us @ [x]))) =
      drop (length us + 1 - length needle) (map snd (us @ [x]))"
    if "suffix ?n (?k (us @ [x]))"
    using suffix_length_le [OF that] by simp
  show ?thesis
  proof -
    have "map (\<lambda>p. window_hit (take (length needle) (drop p (map snd (us @ [x]))))) (occurrences ?n (?k us)) =
        map (\<lambda>p. window_hit (take (length needle) (drop p (map snd us)))) (occurrences ?n (?k us))"
      by (intro map_cong refl) (rule arg_cong [OF old])
    then show ?thesis
      unfolding expected_hits_def occ map_append [of _ "occurrences ?n (?k us)"] using final by simp
  qed
qed

lemma push_ok:
  assumes inv: "norm_inv lower tr needle us c" and needle: "needle \<noteq> []" "length needle \<le> max_units"
    and inj: "\<forall>x\<in>snd ` set (us @ [(u, s)]). \<forall>y\<in>snd ` set (us @ [(u, s)]). ss_dec_start x = ss_dec_start y \<longrightarrow> x = y"
  obtains hit c' where "normalized_push lower c u s = Some (hit, c')" "norm_inv lower tr needle (us @ [(u, s)]) c'"
    "expected_hits lower tr needle (us @ [(u, s)]) = expected_hits lower tr needle us @
      (case hit of None \<Rightarrow> [] | Some h \<Rightarrow> [(h, matched_text c')])"
proof -
  let ?n = "map (unit_key lower tr) needle" and ?k = "map (unit_key lower tr \<circ> fst)"
  let ?us = "us @ [(u, s)]" and ?L = "length needle"
  have c: "nc_transform c = tr" "nc_needle c = needle" "table_upto ?n (nc_failure c) (length ?n)"
    "longest ?n (?k us) (nc_matched c)" "nc_source c = drop (length us - ?L) (map snd us)"
    using inv by (simp_all add: norm_inv_def)
  have n: "?n \<noteq> []" using needle(1) by simp
  let ?source = "(if length (nc_source c) = ?L then drop 1 (nc_source c) else nc_source c) @ [s]"
  have source: "?source = drop (length ?us - ?L) (map snd ?us)"
  proof (cases "?L \<le> length us")
    case True
    then have "Suc (length us) - ?L = Suc (length us - ?L)" by simp
    moreover have "Suc 0 - ?L = 0" using needle(1) by (cases needle) auto
    ultimately show ?thesis using True needle(1) by (simp add: c(5))
  next
    case False
    then show ?thesis by (simp add: c(5))
  qed
  obtain m where m: "advance_match ?n (nc_failure c) (unit_key lower tr u) (nc_matched c) = Some m"
    "m = length ?n \<longleftrightarrow> suffix ?n (?k us @ [unit_key lower tr u])"
    "m \<noteq> length ?n \<Longrightarrow> longest ?n (?k us @ [unit_key lower tr u]) m"
    "m = length ?n \<Longrightarrow> index_at (nc_failure c) (m - 1) = Some (nc_failure c ! (m - 1))"
    "m = length ?n \<Longrightarrow> longest ?n (?k us @ [unit_key lower tr u]) (nc_failure c ! (m - 1))"
    "m = length ?n \<Longrightarrow> m \<le> length (?k us) + 1"
    using match_step [OF n c(3,4), of "unit_key lower tr u"] by blast
  show thesis
  proof (cases "m = ?L")
    case False
    then show thesis
      using m(1-3) c(1-3) source
      by (intro that [of None "c\<lparr>nc_source := ?source, nc_matched := m\<rparr>"])
        (simp_all add: normalized_push_def needle_keys_def norm_inv_def expected_snoc [OF needle(1)])
  next
    case True
    define w where "w = drop (length us + 1 - ?L) (map snd ?us)"
    have source: "?source = w" using source by (simp add: w_def)
    let ?c = "c\<lparr>nc_source := w, nc_matched := nc_failure c ! (m - 1)\<rparr>"
    have len: "length w = ?L" using m(6) True by (simp add: w_def)
    then obtain front rest where front: "w = front # rest" using needle(1) by (cases w) auto
    have "0 < ?L" using needle(1) by simp
    then have "length us + 1 - ?L < length us + 1" by linarith
    then have "length us + 1 - ?L < length (map snd ?us)" by simp
    then have "last w = last (map snd ?us)" unfolding w_def by (rule last_drop)
    then have last: "last w = s" by simp
    have "\<forall>x\<in>set w. \<forall>y\<in>set w. ss_dec_start x = ss_dec_start y \<longrightarrow> x = y"
    proof -
      have "set w \<subseteq> snd ` set ?us" using set_drop_subset [of "length us + 1 - ?L" "map snd ?us"] unfolding w_def by simp
      with inj show ?thesis by (meson subsetD)
    qed
    then have contrib: "contributing None w = remdups_adj w" by (rule contributing_remdups)
    have "length (remdups_adj w) \<le> max_units"
      using needle(2) len remdups_adj_length [of w] by linarith
    then have "sum_list (map (len_utf8 \<circ> ss_char) (remdups_adj w)) \<le> u64_max"
      using sum_len_utf8 [of ss_char "remdups_adj w"]
      by (simp add: max_units_def max_stream_needle_bytes_def u64_max_val)
    then have shown: "matched_text ?c = Inr (map ss_char (remdups_adj w))"
      using checked_sum_eq [of 0 "map (len_utf8 \<circ> ss_char) (remdups_adj w)"]
      by (simp add: matched_text_def source contrib)
    let ?h = "\<lparr>oc_raw_start = ss_raw_start front, oc_raw_end = ss_raw_end s,
        oc_dec_start = ss_dec_start front, oc_dec_end = ss_dec_end s\<rparr>"
    have hit: "window_hit w = (?h, matched_text ?c)"
      unfolding window_hit_def shown last using front by simp
    have "normalized_push lower c u s = Some (Some ?h, ?c)"
      using m(1,4) True c(1,2) needle(1) front
      by (simp add: normalized_push_def needle_keys_def source Let_def Suc_le_eq)
    moreover have "norm_inv lower tr needle ?us ?c"
      using c(1-3) m(5) True source by (simp add: norm_inv_def w_def)
    moreover have "expected_hits lower tr needle ?us = expected_hits lower tr needle us @ [(?h, matched_text ?c)]"
      using m(2) True hit by (simp add: expected_snoc [OF needle(1)] w_def)
    ultimately show thesis by (intro that [of "Some ?h" ?c]) simp_all
  qed
qed

lemma normalized_run_ok:
  assumes "norm_inv lower tr needle us c" "needle \<noteq> []" "length needle \<le> max_units"
    "\<forall>x\<in>snd ` set (us @ vs). \<forall>y\<in>snd ` set (us @ vs). ss_dec_start x = ss_dec_start y \<longrightarrow> x = y"
  shows "\<exists>hits c'. normalized_run lower c vs = Some (hits, c') \<and> norm_inv lower tr needle (us @ vs) c' \<and>
    expected_hits lower tr needle (us @ vs) = expected_hits lower tr needle us @ hits"
  using assms
proof (induction vs arbitrary: us c)
  case (Cons v vs)
  obtain u s where v: "v = (u, s)" by fastforce
  have "\<forall>x\<in>snd ` set (us @ [(u, s)]). \<forall>y\<in>snd ` set (us @ [(u, s)]). ss_dec_start x = ss_dec_start y \<longrightarrow> x = y"
    using Cons.prems(4) v by auto
  from push_ok [OF Cons.prems(1-3) this] obtain hit c1 where
    push: "normalized_push lower c u s = Some (hit, c1)" "norm_inv lower tr needle (us @ [(u, s)]) c1"
    "expected_hits lower tr needle (us @ [(u, s)]) = expected_hits lower tr needle us @
      (case hit of None \<Rightarrow> [] | Some h \<Rightarrow> [(h, matched_text c1)])" .
  from Cons.IH [OF push(2) Cons.prems(2,3)] Cons.prems(4) v obtain hits c' where
    "normalized_run lower c1 vs = Some (hits, c')" "norm_inv lower tr needle ((us @ [(u, s)]) @ vs) c'"
    "expected_hits lower tr needle ((us @ [(u, s)]) @ vs) = expected_hits lower tr needle (us @ [(u, s)]) @ hits"
  proof -
    have "\<forall>x\<in>snd ` set ((us @ [(u, s)]) @ vs). \<forall>y\<in>snd ` set ((us @ [(u, s)]) @ vs).
        ss_dec_start x = ss_dec_start y \<longrightarrow> x = y"
      using Cons.prems(4) by (simp add: v)
    from Cons.IH [OF push(2) Cons.prems(2,3) this] that show thesis by blast
  qed
  with push show ?case by (simp add: v)
qed simp

section \<open>A new cursor\<close>

lemma collect_units_eq:
  "length needle \<le> max_units \<Longrightarrow> collect_units needle us =
     (if length needle + length us \<le> max_units then Inr (needle @ us) else Inl QNeedleTooLong)"
  by (induction us arbitrary: needle) auto

lemma count_units_eq:
  "units \<le> max_units \<Longrightarrow> count_units units us =
     (if units + length us \<le> max_units then Inr (units + length us) else Inl QNeedleTooLong)"
  by (induction us arbitrary: units) (auto simp: max_units_def max_stream_needle_bytes_def checked_add_def u64_max_val)

lemma max_units_val: "max_units = 196608"
  by (simp add: max_units_def max_stream_needle_bytes_def)

lemma normalized_new_ok:
  assumes "transform_for_mode mode = Some tr"
  shows "normalized_new lower query mode \<noteq> None"
    and "normalized_new lower query mode = Some (Inr (Some c)) \<Longrightarrow> query_units lower tr query \<noteq> [] \<and>
      length (query_units lower tr query) \<le> max_units \<and> norm_inv lower tr (query_units lower tr query) [] c"
proof -
  have table: "\<exists>t. failure_table (map (unit_key lower tr) us) = Some t \<and> table_upto (map (unit_key lower tr) us) t (length us)"
    if "us \<noteq> []" for us
    using failure_table_ok [of "map (unit_key lower tr) us"] that by auto
  have collect: "collect_units [] us = (if length us \<le> max_units then Inr us else Inl QNeedleTooLong)" for us
    by (simp add: collect_units_eq)
  show "normalized_new lower query mode \<noteq> None"
    using table assms by (auto simp: normalized_new_def collect split: sum.splits)
  assume "normalized_new lower query mode = Some (Inr (Some c))"
  then obtain t where t: "query_units lower tr query \<noteq> []" "length (query_units lower tr query) \<le> max_units"
    "failure_table (map (unit_key lower tr) (query_units lower tr query)) = Some t"
    "c = \<lparr>nc_transform = tr, nc_needle = query_units lower tr query, nc_failure = t, nc_matched = 0, nc_source = []\<rparr>"
    using assms
    by (cases "validate_needle (concat (map utf8_encode query))") (auto simp: normalized_new_def collect split: if_splits)
  with table [OF t(1)] longest_Nil [of "map (unit_key lower tr) (query_units lower tr query)"]
  show "query_units lower tr query \<noteq> [] \<and> length (query_units lower tr query) \<le> max_units \<and>
      norm_inv lower tr (query_units lower tr query) [] c"
    by (auto simp: norm_inv_def)
qed

lemma expected_Nil: "needle \<noteq> [] \<Longrightarrow> expected_hits lower tr needle [] = []"
  by (simp add: expected_hits_def occurrences_def)

section \<open>The text of a hit\<close>

text \<open>The ring never holds more scalars than the needle has units, whatever is pushed.\<close>

definition ring_ok :: "uchar list \<Rightarrow> normalized_cursor \<Rightarrow> bool" where
  "ring_ok needle c \<longleftrightarrow> nc_needle c = needle \<and> needle \<noteq> [] \<and> length needle \<le> max_units \<and>
     length (nc_source c) \<le> length needle"

lemma push_ring:
  assumes "ring_ok needle c" "normalized_push lower c u s = Some (hit, c')"
  shows "ring_ok needle c'"
proof -
  define source where "source = (if length (nc_source c) = length (nc_needle c) then drop 1 (nc_source c) else nc_source c) @ [s]"
  have "length source \<le> length needle" using assms(1) by (auto simp: ring_ok_def source_def)
  moreover have "nc_needle c' = nc_needle c \<and> nc_source c' = source"
    using assms(2) unfolding normalized_push_def Let_def source_def [symmetric]
    by (auto simp: bind_eq_Some_conv split: if_splits)
  ultimately show ?thesis using assms(1) by (simp add: ring_ok_def)
qed

lemma length_contributing: "length (contributing p ss) \<le> length ss"
  by (induction ss arbitrary: p) (auto intro: le_SucI)

lemma ring_text_fits:
  assumes "ring_ok needle c"
  shows "\<exists>str. matched_text c = Inr str \<and> length (concat (map utf8_encode str)) \<le> 4 * length needle"
proof -
  let ?ss = "contributing None (nc_source c)"
  have "length ?ss \<le> length needle"
    using assms length_contributing [of None "nc_source c"] by (simp add: ring_ok_def)
  with sum_len_utf8 [of ss_char ?ss] have fits: "sum_list (map (len_utf8 \<circ> ss_char) ?ss) \<le> 4 * length needle"
    by linarith
  also have "\<dots> \<le> u64_max" using assms by (simp add: ring_ok_def max_units_val u64_max_val)
  finally have "matched_text c = Inr (map ss_char ?ss)"
    using checked_sum_eq [of 0 "map (len_utf8 \<circ> ss_char) ?ss"] by (simp add: matched_text_def)
  with fits show ?thesis by (simp add: length_utf8_text)
qed

lemma run_text_fits:
  assumes "ring_ok needle c" "normalized_run lower c us = Some (hits, c')" "(h, t) \<in> set hits"
  shows "\<exists>str. t = Inr str \<and> length (concat (map utf8_encode str)) \<le> 4 * length needle"
  using assms
proof (induction lower c us arbitrary: hits rule: normalized_run.induct)
  case (2 lower c u s us)
  obtain hit c1 hits1 where step: "normalized_push lower c u s = Some (hit, c1)"
    "normalized_run lower c1 us = Some (hits1, c')"
    "hits = (case hit of None \<Rightarrow> [] | Some h \<Rightarrow> [(h, matched_text c1)]) @ hits1"
    using "2.prems"(2) by (auto simp: bind_eq_Some_conv)
  note ring = push_ring [OF "2.prems"(1) step(1)]
  show ?case
  proof (cases "(h, t) \<in> set hits1")
    case True
    from "2.IH" [OF step(1) refl ring step(2) True] show ?thesis .
  next
    case False
    with "2.prems"(3) step(3) have "t = matched_text c1" by (cases hit) auto
    with ring_text_fits [OF ring] show ?thesis by simp
  qed
qed simp

lemma matched_text_capacity_eq:
  assumes "transform_for_mode mode = Some tr" "matched_text_capacity lower query mode = Inr capacity"
  shows "capacity = 4 * length (query_units lower tr query)"
proof -
  have "count_units 0 (query_units lower tr query) = Inr n \<longrightarrow> n = length (query_units lower tr query)" for n
    using count_units_eq [of 0 "query_units lower tr query"] by simp
  then show ?thesis
    using assms by (auto simp: matched_text_capacity_def result_simps arith64 mult.commute)
qed

section \<open>Properties\<close>

text \<open>
  C39: The normalized matcher is exact. Whatever the lowering table is, a cursor for a query, fed the units
  of a decoded text one at a time, never panics and reports exactly the windows of the transformed text
  whose comparison keys equal the query's, in order and overlaps included - also the ones that begin or
  end inside the expansion of one source character - each with the byte and text range of the whole
  characters it touches and with their text.
\<close>

theorem normalized_matching_exact:
  assumes mode: "transform_for_mode mode = Some tr" and new: "normalized_new lower query mode = Some (Inr (Some c))"
    and starts: "distinct (map ss_dec_start ss)"
  shows "map_option fst (normalized_run lower c (text_units lower tr ss)) =
    Some (expected_hits lower tr (query_units lower tr query) (text_units lower tr ss))"
proof -
  note ok = normalized_new_ok(2) [OF mode new]
  have "snd ` set (text_units lower tr ss) \<subseteq> set ss" by (auto simp: text_units_def)
  moreover have "x = y" if "x \<in> set ss" "y \<in> set ss" "ss_dec_start x = ss_dec_start y" for x y
    using starts that by (auto simp: distinct_map dest: inj_onD)
  ultimately have "\<forall>x\<in>snd ` set ([] @ text_units lower tr ss). \<forall>y\<in>snd ` set ([] @ text_units lower tr ss).
      ss_dec_start x = ss_dec_start y \<longrightarrow> x = y"
    by (metis append_Nil subsetD)
  with normalized_run_ok [of lower tr "query_units lower tr query" "[]" c "text_units lower tr ss"] ok
  obtain hits c' where "normalized_run lower c (text_units lower tr ss) = Some (hits, c')"
    "expected_hits lower tr (query_units lower tr query) ([] @ text_units lower tr ss) =
      expected_hits lower tr (query_units lower tr query) [] @ hits" by blast
  then show ?thesis using ok by (simp add: expected_Nil)
qed

text \<open>Text of a sample: a sharp s, two bytes at offset 0, and an s at offset 2.\<close>

definition normalized_sample :: "source_scalar list" where
  "normalized_sample =
    [\<lparr>ss_char = 0xDF, ss_raw_start = 0, ss_raw_end = 2, ss_dec_start = 0, ss_dec_end = 2\<rparr>,
     \<lparr>ss_char = 115, ss_raw_start = 2, ss_raw_end = 3, ss_dec_start = 2, ss_dec_end = 3\<rparr>]"

theorem normalized_matching_exact_witness:
  "\<exists>c. normalized_new (\<lambda>c. [c]) [115, 115] (DecodedText False NormCaseFold) = Some (Inr (Some c)) \<and>
    map_option fst (normalized_run (\<lambda>c. [c]) c (text_units (\<lambda>c. [c]) TFold normalized_sample)) =
      Some [window_hit [hd normalized_sample, hd normalized_sample], window_hit normalized_sample]"
proof -
  have mode: "transform_for_mode (DecodedText False NormCaseFold) = Some TFold" by (simp add: transform_for_mode_def)
  have units: "query_units (\<lambda>c. [c]) TFold [115, 115] = [115, 115]" by (simp add: query_units_def transform_units_def)
  have valid: "validate_needle (concat (map utf8_encode [115, 115])) = Inr ()"
    by (simp add: validate_needle_def utf8_encode_def max_stream_needle_bytes_def)
  obtain t where "failure_table (map (unit_key (\<lambda>c. [c]) TFold) [115, 115]) = Some t"
    using failure_table_ok [of "map (unit_key (\<lambda>c. [c]) TFold) [115, 115]"] by auto
  then have "\<exists>c. normalized_new (\<lambda>c. [c]) [115, 115] (DecodedText False NormCaseFold) = Some (Inr (Some c))"
    using valid unfolding normalized_new_def mode by (simp add: units collect_units_eq max_units_val)
  then obtain c where c: "normalized_new (\<lambda>c. [c]) [115, 115] (DecodedText False NormCaseFold) = Some (Inr (Some c))" ..
  have starts: "distinct (map ss_dec_start normalized_sample)" by (simp add: normalized_sample_def)
  have "expected_hits (\<lambda>c. [c]) TFold [115, 115] (text_units (\<lambda>c. [c]) TFold normalized_sample) =
      [window_hit [hd normalized_sample, hd normalized_sample], window_hit normalized_sample]"
    by (simp add: expected_hits_def text_units_def transform_units_def normalized_sample_def occurrences_def
        unit_key_def upt_rec numeral_eq_Suc)
  with normalized_matching_exact [OF mode c starts] c show ?thesis by (simp add: units)
qed

text \<open>
  C40: The text of a hit fits the bytes reserved for it. In every mode with a transform, whatever units a
  new cursor is fed, the text it copies at each hit is at most the capacity computed beforehand from the
  query alone, and copying it never overflows. A mode without a transform has no such cursor, and its
  capacity is the length of the query itself.
\<close>

theorem matched_text_bounded:
  assumes "matched_text_capacity lower query mode = Inr capacity"
  shows "case transform_for_mode mode of
      None \<Rightarrow> normalized_new lower query mode = Some (Inr None) \<and> capacity = length (concat (map utf8_encode query))
    | Some tr \<Rightarrow> \<forall>c us hits c' h t. normalized_new lower query mode = Some (Inr (Some c)) \<longrightarrow>
        normalized_run lower c us = Some (hits, c') \<longrightarrow> (h, t) \<in> set hits \<longrightarrow>
        (\<exists>str. t = Inr str \<and> length (concat (map utf8_encode str)) \<le> capacity)"
proof (cases "transform_for_mode mode")
  case None
  then show ?thesis
    using assms by (auto simp: matched_text_capacity_def normalized_new_def result_simps)
next
  case (Some tr)
  note capacity = matched_text_capacity_eq [OF Some assms]
  have "\<exists>str. t = Inr str \<and> length (concat (map utf8_encode str)) \<le> capacity"
    if "normalized_new lower query mode = Some (Inr (Some c))"
      and run: "normalized_run lower c us = Some (hits, c')" "(h, t) \<in> set hits" for c us hits c' h t
  proof -
    from normalized_new_ok(2) [OF Some that(1)]
    have "ring_ok (query_units lower tr query) c" by (auto simp: ring_ok_def norm_inv_def)
    from run_text_fits [OF this run] capacity show ?thesis by simp
  qed
  with Some show ?thesis by simp
qed

text \<open>The sharp s of the sample, two bytes for a query of one letter, fits.\<close>

theorem matched_text_bounded_witness:
  "\<exists>c c' hits str. normalized_new (\<lambda>c. [c]) [115] (DecodedText False NormCaseFold) = Some (Inr (Some c)) \<and>
    normalized_run (\<lambda>c. [c]) c [(115, hd normalized_sample)] = Some (hits, c') \<and> map snd hits = [Inr str] \<and>
    length (concat (map utf8_encode str)) \<le> 4"
proof -
  let ?mode = "DecodedText False NormCaseFold"
  have mode: "transform_for_mode ?mode = Some TFold" by (simp add: transform_for_mode_def)
  have units: "query_units (\<lambda>c. [c]) TFold [115] = [115]" by (simp add: query_units_def transform_units_def)
  have cap: "matched_text_capacity (\<lambda>c. [c]) [115] ?mode = Inr 4"
    by (simp add: matched_text_capacity_def mode validate_needle_def utf8_encode_def max_stream_needle_bytes_def
        units checked_add_def checked_mul_def u64_max_val max_units_val)
  have table: "failure_table [[115 :: uchar]] = Some [0]" by (simp add: failure_table_def)
  let ?c = "\<lparr>nc_transform = TFold, nc_needle = [115], nc_failure = [0], nc_matched = 0, nc_source = []\<rparr>"
  have new: "normalized_new (\<lambda>c. [c]) [115] ?mode = Some (Inr (Some ?c))"
    unfolding normalized_new_def mode
    by (simp add: units collect_units_eq max_units_val validate_needle_def utf8_encode_def
        max_stream_needle_bytes_def unit_key_def table)
  obtain hits c' where run: "normalized_run (\<lambda>c. [c]) ?c [(115, hd normalized_sample)] = Some (hits, c')"
    and hits: "map fst hits = [fst (window_hit [hd normalized_sample])]"
    by (simp add: normalized_push_def needle_keys_def unit_key_def advance_match_def index_at_def checked_sub_def
        window_hit_def normalized_sample_def)
  then obtain h t where one: "hits = [(h, t)]" by (cases hits) auto
  have bounded: "normalized_run (\<lambda>c. [c]) ?c us = Some (hits, c') \<Longrightarrow> (h, t) \<in> set hits \<Longrightarrow>
      \<exists>str. t = Inr str \<and> length (concat (map utf8_encode str)) \<le> 4" for us hits c' h t
    using matched_text_bounded [OF cap] new unfolding mode option.case by blast
  from bounded [OF run] one have "\<exists>str. t = Inr str \<and> length (concat (map utf8_encode str)) \<le> 4" by simp
  with new run one show ?thesis by auto
qed

end
