(* ===== verification/Spec2Isabelle.thy ===== *)
theory Spec2Isabelle
  imports Text_Boundaries Handles Retirement Tracing Line_Index Chunk_Decoder Snapshot_Store Paths Line_Window Annotations Raw_Scan Ignore_Rules Path_Filters Search_Index Normalized
begin

text \<open>
  FrankenCodeBrowser: a verification library for the engine of the code browser, the Rust crates
  \<open>fcb-core\<close>, \<open>fcb-source\<close> and \<open>fcb-search\<close> under \<open>src/crates/\<close>.

  \<^bold>\<open>The program.\<close> The browser shows a repository that changes under it. Its core never trusts a path, a
  length or a number on its own: identities carry the owner that issued them, bytes are held as immutable
  captures named by file and revision, memory is charged to a ledger before it is allocated, and an answer
  says what part of the universe it covers. The crates build on each other as follows.

  \<^item> \<open>fcb-core\<close>: identities, generational handles, the resource ledger and its leases, the retirement queue
    that frees what a publication replaced, clocks and the event ring.
  \<^item> \<open>fcb-source\<close>: captures (whole, partial, chunked), line indexes, text encodings with exact offset maps,
    retrying readers and pinned snapshots, path identities, ignore rules, and the reconciliation of a
    directory scan with what was known.
  \<^item> \<open>fcb-search\<close>: byte and normalized matchers, the scan of a capture, query language, path filters, and
    the trigram index that skips files.

  \<^bold>\<open>Conventions.\<close> Unsigned counters are natural numbers with the checked and saturating operations of
  \<open>Prelude\<close>; bytes and digests are words. \<open>Result\<close> is a sum, an operation on \<open>&mut self\<close> returns the new
  state with its result also on error paths, and a panic or a call that does not return is \<^const>\<open>None\<close>,
  so that a theorem with \<^const>\<open>Some\<close> on its right-hand side excludes both. An ordered map is a function, or
  the list of its entries where iteration order matters (\<open>Ordered_Map\<close>). Cancellation callbacks are
  predicates on the number of the poll. Strings are lists of scalar values or their bytes.

  \<^bold>\<open>Theories and source files.\<close>

  \<^item> \<open>Core_Ids\<close> (\<open>fcb-core/src/lib.rs\<close>): errors, owner-qualified ids and their allocator, ranges, the
    publication cell. Ids of one allocator are consecutive and never repeat; a cell never goes back.
  \<^item> \<open>Text_Boundaries\<close> (\<open>lib.rs\<close>, \<open>pending_range.rs\<close>): scalar, UTF-16 and UTF-8 boundaries, with the round
    trip of the conversions.
  \<^item> \<open>Handles\<close> (\<open>handles.rs\<close>): slot tables and the two handle tables over them. The table refines a finite
    map whose keys are the handles it has issued; a removed handle never resolves again.
  \<^item> \<open>Resources\<close> (\<open>resources.rs\<close>): the ledger, admission by class, leases and reconciliation. The counters
    are the sums over the live records in every reachable state, no operation panics, and capacity kept
    for completion and retirement cannot be taken by ordinary work.
  \<^item> \<open>Retirement\<close> (\<open>retirement.rs\<close>): reservations, the swap that defers the replaced value, and draining. It
    shares its ledger with other users, who may do anything \<open>Resources\<close> offers with leases of their own; a
    queue with a budget never panics, one without can, exactly when the declared sizes overflow.
  \<^item> \<open>Tracing\<close> (\<open>tracing.rs\<close>): clock domains, deadlines, the bounded event ring.
  \<^item> \<open>Captures\<close>, \<open>Chunks\<close>, \<open>Keyed_Store\<close> (\<open>fcb-source/src/lib.rs\<close>, \<open>chunk.rs\<close>): digests, complete and extent
    captures, chunked captures with exact range reads, the reader over a script of read results, and the
    contract of the stores that keep captures, as the locale \<open>keyed_store\<close>'s laws.
  \<^item> \<open>Line_Index\<close>, \<open>Line_Window\<close> (\<open>line_index.rs\<close>, \<open>line_index/window.rs\<close>): the resumable scanners. Whatever
    the pieces and the resumptions, the result is the list of line starts of the content.
  \<^item> \<open>Encoding\<close>, \<open>Utf8_Codec\<close>, \<open>Encoding_Map\<close>, \<open>Chunk_Decoder\<close> (\<open>encoding.rs\<close>): detection, the decoders and
    their span tables, the offset translations, and the streaming decoder, which yields the text and spans
    of the one-shot decoder for every way of cutting the input.
  \<^item> \<open>Snapshot_Store\<close> (\<open>snapshot.rs\<close>): the reader that retries a moving file and the store of pinned
    snapshots.
  \<^item> \<open>Paths\<close> (\<open>path.rs\<close>): normalized paths, which never leave their root, and the reversible display.
  \<^item> \<open>Reconciliation\<close>, \<open>Continuity\<close>, \<open>Annotations\<close> (\<open>reconciliation.rs\<close>, \<open>discovery.rs\<close>, \<open>old_anchor.rs\<close>):
    the scan pass that may declare a file gone only on complete evidence, the registry that decides which
    file a path names, and the annotations, which follow the digest of their bytes. As in the code, a
    finished pass also forgets earlier hints on an enclosing directory, and a second note under one
    identifier replaces the first: the theorems on hints and notes say so.
  \<^item> \<open>Wildcard\<close>, \<open>Ignore_Rules\<close> (\<open>ignore.rs\<close>, \<open>ignore/budget.rs\<close>): the backtracking matcher with one saved
    star as a locale, interpreted twice, the compiler of rule lines and both decisions.
  \<^item> \<open>Byte_Search\<close>, \<open>Raw_Scan\<close> (\<open>stream.rs\<close>, \<open>capture.rs\<close>, \<open>lib.rs\<close>): the streaming matcher and the scan of a
    chunked capture with its budgets, limits and coverage.
  \<^item> \<open>Normalized\<close> (\<open>normalized.rs\<close>): the same matcher on transformed characters, with provenance.
  \<^item> \<open>Query_Syntax\<close>, \<open>Path_Filters\<close> (\<open>query.rs\<close>, \<open>oracle.rs\<close>): the parser of queries and the filters. A query
    written with quotes means its items, or is refused for the first one that breaks a limit.
  \<^item> \<open>Search_Index\<close> (\<open>index.rs\<close>): the manifest, the index built under a lease of the ledger, and the probe.

  \<^bold>\<open>Termination and bounds.\<close> Loops over data are structural recursions or have a measure. Loops whose end
  depends on an invariant (the fall-back loop of the matcher, the scans that consume what the cursor says
  it consumed) are partial functions, and their theorems give a result, so they end. The work-accounted
  matcher of the ignore rules counts its budget as the code does; \<open>bounded_decision_exact\<close> says for which
  budgets it answers. Scripts stand for what the environment does: the results of a reader's reads, the
  attempts of a snapshot reader, the operations of a store or registry; theorems quantify over all of them.

  \<^bold>\<open>Parameters.\<close> \<open>str::to_lowercase\<close> and \<open>char::to_lowercase\<close> (\<open>lower\<close>) are tables of the standard library
  and nothing is assumed of them. In \<open>Search_Index\<close> the record \<open>memory\<close> holds structure sizes and the
  capacities that the allocator grants; one theorem assumes what the standard library documents, that a
  granted capacity is at least the requested one, and that an index is not of size zero.

  \<^bold>\<open>Not modelled.\<close> In the three crates: focus and layout snapshots and geometry, which work on
  floating-point layout; huge-line windows, which choose what to show of a very long line; file-system access (confined roots, repository rule files, restoration),
  which is operating-system calls; the windowed scan of decoded text and the progressive queries built on
  it, whose parts are modelled here but not their composition; \<open>resolve_range\<close>, which needs a layout.
  Allocation failure is modelled where it is decided against the ledger (\<open>Search_Index\<close>) and left out
  elsewhere, as are \<open>Display\<close> and \<open>Debug\<close> texts. Outside: the store (file I/O and SHA-256 envelopes), the
  map and renderer (floating point, GPU), the document and analysis crates (third-party parsers), the
  browser facade, runtime, bridge, command line, hosts and test crates.
\<close>

end
